(* ===== verification/Prelude.thy ===== *)
theory Prelude
  imports Main "HOL-Library.Word" "HOL-Library.Char_ord" "HOL-Library.List_Lexorder"
    "HOL-Library.AList" "HOL-Library.Sublist"
begin

text \<open>
  Shared vocabulary of the development: machine integers and byte strings, the result type of
  fallible Rust functions with its \<open>?\<close> operator, UTF-8 strings, big- and little-endian integer
  codecs, and the ordered map that stands for \<^verbatim>\<open>BTreeMap\<close>. The components import this
  theory; nothing here is specific to one file of the repository, only to the Rust standard
  library.
\<close>

section \<open>Machine integers and byte strings\<close>

type_synonym u8 = "8 word"
type_synonym u32 = "32 word"
type_synonym u64 = "64 word"

text \<open>An \<^verbatim>\<open>i64\<close> is its two's complement bit pattern; \<open>sint\<close> reads it.\<close>

type_synonym i64 = "64 word"

type_synonym bytes = "u8 list"

named_theorems codec_simps
named_theorems result_simps

section \<open>Fallible results\<close>

text \<open>\<open>Inl\<close> is \<^verbatim>\<open>Err\<close>, \<open>Inr\<close> is \<^verbatim>\<open>Ok\<close>; \<open>bindE\<close> is Rust's \<open>?\<close> followed by the rest of the body.\<close>

definition bindE :: "'e + 'a \<Rightarrow> ('a \<Rightarrow> 'e + 'b) \<Rightarrow> 'e + 'b" where
  "bindE m f = (case m of Inl e \<Rightarrow> Inl e | Inr a \<Rightarrow> f a)"

lemma bindE_Inl [simp, result_simps]: "bindE (Inl e) f = Inl e"
  by (simp add: bindE_def)

lemma bindE_Inr [simp, result_simps]: "bindE (Inr a) f = f a"
  by (simp add: bindE_def)

lemma bindE_eq_Inr [result_simps]: "bindE m f = Inr b \<longleftrightarrow> (\<exists>a. m = Inr a \<and> f a = Inr b)"
  by (cases m) auto

lemma bindE_eq_Inl [result_simps]:
  "bindE m f = Inl e \<longleftrightarrow> m = Inl e \<or> (\<exists>a. m = Inr a \<and> f a = Inl e)"
  by (cases m) auto

lemma bindE_cong [fundef_cong]:
  "m = m' \<Longrightarrow> (\<And>a. m' = Inr a \<Longrightarrow> f a = f' a) \<Longrightarrow> bindE m f = bindE m' f'"
  by (cases m') auto

definition isErr :: "'e + 'a \<Rightarrow> bool" where
  "isErr m = (case m of Inl _ \<Rightarrow> True | Inr _ \<Rightarrow> False)"

lemma isErr_simps [simp]: "isErr (Inl e)" "\<not> isErr (Inr a)"
  by (simp_all add: isErr_def)

lemma isErr_bindE: "isErr (bindE m f) \<longleftrightarrow> isErr m \<or> (\<exists>a. m = Inr a \<and> isErr (f a))"
  by (cases m) auto

text \<open>
  A fallible operation on a state keeps the state it reached when it fails: files already written
  and entries already evicted stay so.
\<close>

definition bindS :: "('s \<Rightarrow> ('e + 'a) \<times> 's) \<Rightarrow> ('a \<Rightarrow> 's \<Rightarrow> ('e + 'b) \<times> 's) \<Rightarrow> 's \<Rightarrow> ('e + 'b) \<times> 's" where
  "bindS m f s = (case m s of (Inl e, s') \<Rightarrow> (Inl e, s') | (Inr a, s') \<Rightarrow> f a s')"

definition liftE :: "'e + 'a \<Rightarrow> 's \<Rightarrow> ('e + 'a) \<times> 's" where
  "liftE r s = (r, s)"

lemma liftE_simp [simp]: "liftE r s = (r, s)"
  by (simp add: liftE_def)

lemma bindS_Inl: "m s = (Inl e, s') \<Longrightarrow> bindS m f s = (Inl e, s')"
  by (simp add: bindS_def)

lemma bindS_Inr: "m s = (Inr a, s') \<Longrightarrow> bindS m f s = f a s'"
  by (simp add: bindS_def)

lemma bindS_eq_Inr:
  "bindS m f s = (Inr b, s'') \<longleftrightarrow> (\<exists>a s'. m s = (Inr a, s') \<and> f a s' = (Inr b, s''))"
  by (auto simp: bindS_def split: prod.splits sum.splits)

lemma bindS_cong [fundef_cong]:
  "m s = m' s' \<Longrightarrow> (\<And>a t. m' s' = (Inr a, t) \<Longrightarrow> f a t = f' a t) \<Longrightarrow> s = s' \<Longrightarrow> bindS m f s = bindS m' f' s'"
  by (auto simp: bindS_def split: prod.splits sum.splits)

text \<open>\<^verbatim>\<open>Option::ok_or\<close>.\<close>

definition ok_or :: "'e \<Rightarrow> 'a option \<Rightarrow> 'e + 'a" where
  "ok_or e v = (case v of None \<Rightarrow> Inl e | Some a \<Rightarrow> Inr a)"

lemma ok_or_simps [simp]: "ok_or e None = Inl e" "ok_or e (Some a) = Inr a"
  by (simp_all add: ok_or_def)

lemma ok_or_eq_Inr [result_simps]: "ok_or e v = Inr a \<longleftrightarrow> v = Some a"
  by (cases v) auto

section \<open>Fixed-width integers as bytes\<close>

text \<open>\<open>nat_be n x\<close> is the \<open>n\<close>-byte big-endian form of \<open>x\<close>, truncated as a Rust \<^verbatim>\<open>as\<close> cast truncates.\<close>

fun nat_be :: "nat \<Rightarrow> nat \<Rightarrow> bytes" where
  "nat_be 0 x = []"
| "nat_be (Suc n) x = nat_be n (x div 256) @ [word_of_nat (x mod 256)]"

definition be_nat :: "bytes \<Rightarrow> nat" where
  "be_nat bs = foldl (\<lambda>a b. a * 256 + unat b) 0 bs"

definition nat_le :: "nat \<Rightarrow> nat \<Rightarrow> bytes" where
  "nat_le n x = rev (nat_be n x)"

definition le_nat :: "bytes \<Rightarrow> nat" where
  "le_nat bs = be_nat (rev bs)"

lemma length_nat_be [simp]: "length (nat_be n x) = n"
  by (induction n arbitrary: x) auto

lemma length_nat_le [simp]: "length (nat_le n x) = n"
  by (simp add: nat_le_def)

lemma be_nat_snoc [simp]: "be_nat (bs @ [b]) = be_nat bs * 256 + unat b"
  by (simp add: be_nat_def)

lemma be_nat_Nil [simp]: "be_nat [] = 0"
  by (simp add: be_nat_def)

lemma byte_less: "unat (b :: u8) < 256"
  using unsigned_less [of b, where 'a = nat] by simp

lemma unat_byte_of_nat [simp]: "unat (word_of_nat (x mod 256) :: u8) = x mod 256"
  by (simp add: unat_of_nat)

lemma mod_256_pow_Suc: "(x div 256) mod 256 ^ n * 256 + x mod 256 = x mod (256 ^ Suc n :: nat)"
  using mod_mult2_eq [of x 256 "256 ^ n"] by (simp add: mult.commute add.commute)

lemma be_nat_nat_be [simp]: "be_nat (nat_be n x) = x mod 256 ^ n"
proof (induction n arbitrary: x)
  case 0
  then show ?case by simp
next
  case (Suc n)
  then show ?case using mod_256_pow_Suc [of x n] by simp
qed

lemma be_nat_less: "be_nat bs < 256 ^ length bs"
proof (induction bs rule: rev_induct)
  case Nil
  then show ?case by simp
next
  case (snoc b bs)
  have "unat b < 256" by (rule byte_less)
  moreover have "be_nat bs * 256 + 256 \<le> 256 ^ length bs * 256"
    using snoc by (metis add_mult_distrib mult_1 mult_le_mono1 Suc_leI add.commute plus_1_eq_Suc)
  ultimately show ?case by (simp add: mult.commute)
qed

lemma nat_be_be_nat: "length bs = n \<Longrightarrow> nat_be n (be_nat bs) = bs"
proof (induction bs arbitrary: n rule: rev_induct)
  case Nil
  then show ?case by simp
next
  case (snoc b bs)
  have b: "unat b < 256" by (rule byte_less)
  from snoc.prems obtain m where n: "n = Suc m" "length bs = m" by auto
  then show ?case using snoc.IH [of m] b by simp
qed

lemma le_nat_nat_le [simp]: "le_nat (nat_le n x) = x mod 256 ^ n"
  by (simp add: le_nat_def nat_le_def)

lemma le_nat_less: "le_nat bs < 256 ^ length bs"
  using be_nat_less [of "rev bs"] by (simp add: le_nat_def)

lemma nat_le_le_nat: "length bs = n \<Longrightarrow> nat_le n (le_nat bs) = bs"
  by (simp add: nat_le_def le_nat_def nat_be_be_nat)

section \<open>Strings\<close>

text \<open>
  A Rust \<^verbatim>\<open>String\<close> is a UTF-8 byte string; an Isabelle \<^typ>\<open>string\<close> is a list of 8-bit
  characters, so it stands for those bytes, and \<^verbatim>\<open>str\<close> comparison, which is byte-wise, is
  the lexicographic order of the list.
\<close>

definition str_bytes :: "string \<Rightarrow> bytes" where
  "str_bytes s = map (\<lambda>c. word_of_nat (of_char c)) s"

definition bytes_str :: "bytes \<Rightarrow> string" where
  "bytes_str bs = map (\<lambda>b. char_of (unat b)) bs"

lemma of_char_less_256: "(of_char c :: nat) < 256"
  by (metis char_of_mod_256 mod_less_divisor of_char_mod_256 zero_less_numeral)

lemma bytes_str_str_bytes [simp]: "bytes_str (str_bytes s) = s"
proof -
  have "char_of (unat (word_of_nat (of_char c) :: u8)) = c" for c
    using of_char_less_256 [of c] by (simp add: unat_of_nat)
  then show ?thesis by (simp add: bytes_str_def str_bytes_def comp_def)
qed

lemma str_bytes_bytes_str [simp]: "str_bytes (bytes_str bs) = bs"
proof -
  have "word_of_nat (of_char (char_of (unat b))) = (b :: u8)" for b
    using byte_less [of b] by simp
  then show ?thesis by (simp add: bytes_str_def str_bytes_def comp_def)
qed

lemma length_str_bytes [simp]: "length (str_bytes s) = length s"
  by (simp add: str_bytes_def)

lemma str_bytes_inj: "str_bytes s = str_bytes t \<Longrightarrow> s = t"
  by (metis bytes_str_str_bytes)

text \<open>Well-formed UTF-8, the table \<^verbatim>\<open>String::from_utf8\<close> checks: no overlong form, no surrogate, nothing above U+10FFFF.\<close>

definition in_range :: "nat \<Rightarrow> nat \<Rightarrow> u8 \<Rightarrow> bool" where
  "in_range lo hi b \<longleftrightarrow> lo \<le> unat b \<and> unat b \<le> hi"

fun utf8_valid :: "bytes \<Rightarrow> bool" where
  "utf8_valid [] = True"
| "utf8_valid (a # bs) =
     (if in_range 0 127 a then utf8_valid bs
      else case bs of
        [] \<Rightarrow> False
      | b # cs \<Rightarrow>
          if in_range 194 223 a then in_range 128 191 b \<and> utf8_valid cs
          else (case cs of
            [] \<Rightarrow> False
          | c # ds \<Rightarrow>
              if (in_range 224 224 a \<and> in_range 160 191 b
                   \<or> in_range 225 236 a \<and> in_range 128 191 b
                   \<or> in_range 237 237 a \<and> in_range 128 159 b
                   \<or> in_range 238 239 a \<and> in_range 128 191 b)
              then in_range 128 191 c \<and> utf8_valid ds
              else (case ds of
                [] \<Rightarrow> False
              | d # es \<Rightarrow>
                  (in_range 240 240 a \<and> in_range 144 191 b
                   \<or> in_range 241 243 a \<and> in_range 128 191 b
                   \<or> in_range 244 244 a \<and> in_range 128 143 b)
                  \<and> in_range 128 191 c \<and> in_range 128 191 d \<and> utf8_valid es)))"

definition str_ok :: "string \<Rightarrow> bool" where
  "str_ok s \<longleftrightarrow> utf8_valid (str_bytes s)"

definition from_utf8 :: "bytes \<Rightarrow> string option" where
  "from_utf8 bs = (if utf8_valid bs then Some (bytes_str bs) else None)"

lemma from_utf8_str_bytes: "str_ok s \<Longrightarrow> from_utf8 (str_bytes s) = Some s"
  by (simp add: from_utf8_def str_ok_def)

lemma from_utf8_SomeD: "from_utf8 bs = Some s \<Longrightarrow> bs = str_bytes s \<and> str_ok s"
  by (auto simp: from_utf8_def str_ok_def split: if_splits)

lemma mem_map_filter: "y \<in> set (List.map_filter f xs) \<longleftrightarrow> (\<exists>x \<in> set xs. f x = Some y)"
  by (induction xs) (auto split: option.splits)

section \<open>Splitting and joining strings\<close>

text \<open>\<^verbatim>\<open>str::split(c)\<close> and \<^verbatim>\<open>join\<close> with the one-character separator \<open>c\<close>.\<close>

fun split_on :: "char \<Rightarrow> string \<Rightarrow> string list" where
  "split_on c [] = [[]]"
| "split_on c (a # s) =
     (if a = c then [] # split_on c s else case split_on c s of [] \<Rightarrow> [[a]] | w # ws \<Rightarrow> (a # w) # ws)"

fun join_with :: "char \<Rightarrow> string list \<Rightarrow> string" where
  "join_with c [] = []"
| "join_with c [w] = w"
| "join_with c (w # ws) = w @ c # join_with c ws"

lemma split_on_nonempty [simp]: "split_on c s \<noteq> []"
  by (induction s) (auto split: list.splits)

lemma split_on_free: "w \<in> set (split_on c s) \<Longrightarrow> c \<notin> set w"
  by (induction s arbitrary: w) (auto split: list.splits if_splits)

lemma split_on_append: "c \<notin> set w \<Longrightarrow> split_on c (w @ c # s) = w # split_on c s"
  by (induction w) auto

lemma split_on_word: "c \<notin> set w \<Longrightarrow> split_on c w = [w]"
  by (induction w) auto

lemma split_join: "ws \<noteq> [] \<Longrightarrow> \<forall>w \<in> set ws. c \<notin> set w \<Longrightarrow> split_on c (join_with c ws) = ws"
  by (induction c ws rule: join_with.induct) (auto simp: split_on_append split_on_word)

lemma join_with_Cons: "cs \<noteq> [] \<Longrightarrow> join_with c (w # cs) = w @ c # join_with c cs"
  by (cases cs) auto

lemma join_split: "join_with c (split_on c s) = s"
proof (induction s)
  case (Cons a s)
  obtain w ws where s: "split_on c s = w # ws" by (cases "split_on c s") auto
  show ?case
  proof (cases "a = c")
    case True
    with Cons show ?thesis by (simp add: join_with_Cons)
  next
    case False
    with Cons s show ?thesis by (cases ws) auto
  qed
qed simp

section \<open>Ordered maps\<close>

text \<open>
  A \<^verbatim>\<open>BTreeMap\<close> is the list of its bindings in strictly ascending key order, which is also the
  order in which it iterates.
\<close>

type_synonym ('k, 'v) btree = "('k \<times> 'v) list"

abbreviation bt_ok :: "('k::linorder, 'v) btree \<Rightarrow> bool" where
  "bt_ok m \<equiv> sorted_wrt (<) (map fst m)"

fun bt_insert :: "'k::linorder \<Rightarrow> 'v \<Rightarrow> ('k, 'v) btree \<Rightarrow> ('k, 'v) btree" where
  "bt_insert k v [] = [(k, v)]"
| "bt_insert k v ((a, b) # m) =
     (if k < a then (k, v) # (a, b) # m else if k = a then (k, v) # m else (a, b) # bt_insert k v m)"

definition bt_remove :: "'k \<Rightarrow> ('k, 'v) btree \<Rightarrow> ('k, 'v) btree" where
  "bt_remove k m = filter (\<lambda>p. fst p \<noteq> k) m"

lemma set_keys_bt_insert [simp]: "fst ` set (bt_insert k v m) = insert k (fst ` set m)"
  by (induction k v m rule: bt_insert.induct) auto

lemma bt_ok_insert [simp]: "bt_ok m \<Longrightarrow> bt_ok (bt_insert k v m)"
proof (induction k v m rule: bt_insert.induct)
  case (1 k v)
  then show ?case by simp
next
  case (2 k v a b m)
  have "fst p = k \<or> fst p \<in> fst ` set m" if "p \<in> set (bt_insert k v m)" for p
    using that set_keys_bt_insert [of k v m] by (metis imageI insertE)
  with 2 show ?case by fastforce
qed

lemma map_of_bt_insert [simp]: "map_of (bt_insert k v m) = (map_of m)(k \<mapsto> v)"
  by (induction k v m rule: bt_insert.induct) (auto simp: fun_eq_iff)

lemma bt_ok_remove [simp]: "bt_ok m \<Longrightarrow> bt_ok (bt_remove k m)"
  by (induction m) (auto simp: bt_remove_def)

lemma map_of_bt_remove [simp]: "map_of (bt_remove k m) = (map_of m)(k := None)"
  by (induction m) (auto simp: bt_remove_def fun_eq_iff)

lemma bt_ok_distinct: "bt_ok m \<Longrightarrow> distinct (map fst m)"
  by (simp add: strict_sorted_iff)

lemma bt_unique: "bt_ok m \<Longrightarrow> bt_ok m' \<Longrightarrow> map_of m = map_of m' \<Longrightarrow> m = m'"
  by (rule map_sorted_distinct_set_unique [where f = fst])
    (auto simp: strict_sorted_iff inj_on_def map_of_inject_set eq_key_imp_eq_value
      dest: map_of_is_SomeI map_of_SomeD)

end
