(* ===== verification/Object_Id.thy ===== *)
theory Object_Id
  imports Prelude
begin

text \<open>
  Content addresses (\<^verbatim>\<open>crates/core/src/id.rs\<close>), the error type of the core crate
  (\<^verbatim>\<open>error.rs\<close>) and the third-party functions the core crate calls. BLAKE3, hex and zstd are
  not part of the repository: they are the fields of a record that every definition using them
  takes as its first argument, and \<open>blake3_ok\<close>, \<open>hex_ok\<close> and \<open>zstd_ok\<close> name the documented facts
  about them on which some theorems rely.
\<close>

section \<open>Third-party functions\<close>

text \<open>
  \<open>zstd_stream e p\<close> is what a streaming decoder yields for the payload \<open>p\<close>: the bytes it
  produces and whether it then ends cleanly (\<open>False\<close>: it reports an error).
\<close>

record ext =
  blake3 :: "bytes \<Rightarrow> bytes"
  hex_encode :: "bytes \<Rightarrow> string"
  hex_decode :: "string \<Rightarrow> bytes option"
  zstd_encode :: "bytes \<Rightarrow> bytes option"
  zstd_stream :: "bytes \<Rightarrow> bytes \<times> bool"

definition blake3_ok :: "ext \<Rightarrow> bool" where
  "blake3_ok e \<longleftrightarrow> (\<forall>b. length (blake3 e b) = 32)"

definition hex_ok :: "ext \<Rightarrow> bool" where
  "hex_ok e \<longleftrightarrow> (\<forall>b. hex_decode e (hex_encode e b) = Some b \<and> length (hex_encode e b) = 2 * length b)"

definition zstd_ok :: "ext \<Rightarrow> bool" where
  "zstd_ok e \<longleftrightarrow> (\<forall>b. \<exists>c. zstd_encode e b = Some c \<and> zstd_stream e c = (b, True))"

text \<open>\<^verbatim>\<open>zstd::decode_all\<close> reads the streaming decoder to its end.\<close>

definition zstd_decode_all :: "ext \<Rightarrow> bytes \<Rightarrow> bytes option" where
  "zstd_decode_all e p = (case zstd_stream e p of (out, ok) \<Rightarrow> if ok then Some out else None)"

lemma zstd_okD:
  assumes "zstd_ok e" and "zstd_encode e b = Some c"
  shows "zstd_stream e c = (b, True)" "zstd_decode_all e c = Some b"
  using assms by (auto simp: zstd_ok_def zstd_decode_all_def dest: spec [of _ b])

lemma zstd_ok_encode: "zstd_ok e \<Longrightarrow> \<exists>c. zstd_encode e b = Some c"
  by (auto simp: zstd_ok_def)

section \<open>Object ids\<close>

datatype object_id = ObjectId (id_bytes: bytes)

instantiation object_id :: linorder
begin

definition less_eq_object_id :: "object_id \<Rightarrow> object_id \<Rightarrow> bool" where
  "less_eq_object_id a b \<longleftrightarrow> id_bytes a \<le> id_bytes b"

definition less_object_id :: "object_id \<Rightarrow> object_id \<Rightarrow> bool" where
  "less_object_id a b \<longleftrightarrow> id_bytes a < id_bytes b"

instance
  by standard (auto simp: less_eq_object_id_def less_object_id_def object_id.expand)

end

text \<open>The Rust type is \<^verbatim>\<open>[u8; 32]\<close>: the width is a well-formedness condition here.\<close>

definition id_ok :: "object_id \<Rightarrow> bool" where
  "id_ok i \<longleftrightarrow> length (id_bytes i) = 32"

definition id_of :: "ext \<Rightarrow> bytes \<Rightarrow> object_id" where
  "id_of e b = ObjectId (blake3 e b)"

definition id_to_hex :: "ext \<Rightarrow> object_id \<Rightarrow> string" where
  "id_to_hex e i = hex_encode e (id_bytes i)"

definition id_short :: "ext \<Rightarrow> object_id \<Rightarrow> string" where
  "id_short e i = hex_encode e (take 6 (id_bytes i))"

section \<open>Errors\<close>

text \<open>The reasons carried by \<^verbatim>\<open>Error::Malformed\<close>, \<^verbatim>\<open>PackCorrupt\<close> and \<^verbatim>\<open>BadPackIndex\<close>: one constructor per message, with the interpolated values.\<close>

datatype malformed =
    IdNotHex string
  | IdWrongLength nat
  | UnexpectedEnd
  | CountExceedsRemaining
  | NotUtf8
  | BadEntryKind u8
  | LegacySnapshot
  | BadRecipientState u8
  | TrailingSignatureBytes
  | BadPrevMarker u8
  | UnknownTag u8
  | PackedHashMismatch object_id
  | LooseHashMismatch object_id
  | SpillHashMismatch object_id
  | LengthOverflow
  | NoBlobPayload

datatype pack_reason =
    MissingMagic
  | TruncatedHeader
  | UnsupportedVersion nat
  | ShortPackWriter nat nat
  | OffsetPastEnd nat
  | RecordTooLong nat nat
  | RecordPastEnd
  | ZstdFailed
  | DecompressedTooLarge nat
  | TruncatedRecordId
  | TruncatedRecordLength
  | TruncatedPayload
  | HashMismatch object_id object_id

datatype index_reason =
    IdxMissingMagic
  | IdxUnsupportedVersion nat
  | IdxCountOverflow
  | IdxLengthMismatch
  | IdxNotAscending

text \<open>\<open>Panicked\<close> is no variant of the Rust enum: it is the value of a call that panics.\<close>

datatype io_kind = NotFoundIo | InterruptedIo | UnexpectedEof | ZstdIo | OtherIo

datatype core_error =
    NotFound object_id
  | PathNotFound string
  | BudgetExceeded nat nat nat
  | WrongKind object_id string
  | Malformed malformed
  | PackCorrupt pack_reason
  | BadPackIndex index_reason
  | Io io_kind
  | Panicked

type_synonym 'a core_result = "core_error + 'a"

text \<open>\<^verbatim>\<open>FromStr for ObjectId\<close>: a string that is no hex and one of the wrong length are told apart.\<close>

definition id_from_str :: "ext \<Rightarrow> string \<Rightarrow> object_id core_result" where
  "id_from_str e s =
     (case hex_decode e s of
        None \<Rightarrow> Inl (Malformed (IdNotHex s))
      | Some bs \<Rightarrow>
          if length bs = 32 then Inr (ObjectId bs) else Inl (Malformed (IdWrongLength (length bs))))"

lemma id_from_str_ok: "id_from_str e s = Inr i \<Longrightarrow> id_ok i"
  by (auto simp: id_from_str_def id_ok_def split: option.splits if_splits)

lemma id_from_str_to_hex: "hex_ok e \<Longrightarrow> id_ok i \<Longrightarrow> id_from_str e (id_to_hex e i) = Inr i"
  by (simp add: id_from_str_def id_to_hex_def hex_ok_def id_ok_def)

lemma id_to_hex_inj: "hex_ok e \<Longrightarrow> id_to_hex e i = id_to_hex e j \<Longrightarrow> i = j"
  unfolding hex_ok_def id_to_hex_def by (metis object_id.expand option.inject)

lemma id_of_ok: "blake3_ok e \<Longrightarrow> id_ok (id_of e b)"
  by (simp add: blake3_ok_def id_ok_def id_of_def)

end
