(* ===== verification/Object_Model.thy ===== *)
theory Object_Model
  imports Object_Id
begin

text \<open>
  The object model of \<^verbatim>\<open>crates/core/src/object.rs\<close>: recipient registers of protected paths,
  trees, snapshots, secrets, signatures, transcripts, sealed objects and branch manifests, with
  the operations the structs carry. Struct fields keep their names behind a short prefix, because
  record fields share one name space.
\<close>

section \<open>Recipient registers\<close>

datatype recipient_state = Granted | Revoked

record recipient_entry =
  re_key :: bytes
  re_epoch :: u32
  re_state :: recipient_state

record protect_prefix =
  pp_prefix :: string
  pp_recipients :: "recipient_entry list"

definition granted_keys :: "protect_prefix \<Rightarrow> bytes list" where
  "granted_keys p = map re_key (filter (\<lambda>r. re_state r = Granted) (pp_recipients p))"

text \<open>The addition is \<^verbatim>\<open>u32\<close> addition: in a release build it wraps around.\<close>

definition max_epoch :: "recipient_entry list \<Rightarrow> u32" where
  "max_epoch rs = (case rs of [] \<Rightarrow> 0 | r # rs' \<Rightarrow> fold max (map re_epoch rs') (re_epoch r))"

definition next_epoch :: "protect_prefix \<Rightarrow> u32" where
  "next_epoch p = max_epoch (pp_recipients p) + 1"

fun set_first :: "bytes \<Rightarrow> u32 \<Rightarrow> recipient_state \<Rightarrow> recipient_entry list \<Rightarrow> recipient_entry list" where
  "set_first k ep st [] = [\<lparr>re_key = k, re_epoch = ep, re_state = st\<rparr>]"
| "set_first k ep st (r # rs) =
     (if re_key r = k then r\<lparr>re_epoch := ep, re_state := st\<rparr> # rs else r # set_first k ep st rs)"

definition set_standing :: "bytes \<Rightarrow> u32 \<Rightarrow> recipient_state \<Rightarrow> protect_prefix \<Rightarrow> protect_prefix" where
  "set_standing k ep st p = p\<lparr>pp_recipients := set_first k ep st (pp_recipients p)\<rparr>"

text \<open>The registers of one prefix are keyed: no key has two registers.\<close>

definition registers_ok :: "protect_prefix \<Rightarrow> bool" where
  "registers_ok p \<longleftrightarrow> distinct (map re_key (pp_recipients p))"

definition standing :: "protect_prefix \<Rightarrow> bytes \<rightharpoonup> u32 \<times> recipient_state" where
  "standing p k = map_option (\<lambda>r. (re_epoch r, re_state r)) (find (\<lambda>r. re_key r = k) (pp_recipients p))"

lemma set_first_keys: "set (map re_key (set_first k ep st rs)) = insert k (set (map re_key rs))"
  by (induction rs) auto

lemma set_first_distinct: "distinct (map re_key rs) \<Longrightarrow> distinct (map re_key (set_first k ep st rs))"
proof (induction rs)
  case Nil
  then show ?case by simp
next
  case (Cons r rs)
  then show ?case using set_first_keys [of k ep st rs] by auto
qed

lemma find_set_first:
  "map_option (\<lambda>r. (re_epoch r, re_state r)) (find (\<lambda>r. re_key r = j) (set_first k ep st rs)) =
   (if j = k then Some (ep, st)
    else map_option (\<lambda>r. (re_epoch r, re_state r)) (find (\<lambda>r. re_key r = j) rs))"
  by (induction rs) auto

lemma registers_ok_set_standing: "registers_ok p \<Longrightarrow> registers_ok (set_standing k ep st p)"
  by (simp add: registers_ok_def set_standing_def set_first_distinct)

lemma standing_set_standing: "standing (set_standing k ep st p) = (standing p)(k \<mapsto> (ep, st))"
  by (auto simp: standing_def set_standing_def find_set_first fun_eq_iff)

lemma granted_keys_standing:
  assumes "registers_ok p"
  shows "k \<in> set (granted_keys p) \<longleftrightarrow> (\<exists>ep. standing p k = Some (ep, Granted))"
proof -
  have "k \<in> re_key ` {r \<in> set rs. re_state r = Granted} \<longleftrightarrow>
      (\<exists>r. find (\<lambda>r. re_key r = k) rs = Some r \<and> re_state r = Granted)"
    if "distinct (map re_key rs)" for rs
    using that by (induction rs) (auto simp: image_iff)
  then show ?thesis
    using assms by (auto simp: granted_keys_def standing_def registers_ok_def)
qed

lemma fold_max_ge: "x \<le> fold max xs (x::'a::linorder)" "y \<in> set xs \<Longrightarrow> y \<le> fold max xs (x::'a::linorder)"
  by (metis Max.set_eq_fold Max_ge List.finite_set list.set_intros(1))
    (metis Max.set_eq_fold Max_ge List.finite_set list.set_intros(2))

lemma max_epoch_ge: "r \<in> set rs \<Longrightarrow> re_epoch r \<le> max_epoch rs"
  by (auto simp: max_epoch_def fold_max_ge split: list.splits)

section \<open>Objects\<close>

record wrapped_key =
  wk_recipient_id :: string
  wk_wrapped_dek :: bytes

record protection =
  pr_prefixes :: "protect_prefix list"
  pr_wrapped :: "(object_id, wrapped_key list) btree"

definition protection_default :: protection where
  "protection_default = \<lparr>pr_prefixes = [], pr_wrapped = []\<rparr>"

datatype entry_kind = BlobKind | TreeKind

datatype file_mode = FileMode (mode_bits: u32)

definition MODE_FILE :: file_mode where "MODE_FILE = FileMode 420"

definition MODE_EXEC :: file_mode where "MODE_EXEC = FileMode 493"

record tree_entry =
  te_name :: string
  te_kind :: entry_kind
  te_id :: object_id
  te_mode :: file_mode
  te_perms :: u8

type_synonym tree = "tree_entry list"

record snapshot =
  sn_root :: object_id
  sn_parents :: "object_id list"
  sn_author :: string
  sn_timestamp :: i64
  sn_message :: string
  sn_secrets :: "(string, object_id) btree"
  sn_protection :: protection

record secret =
  se_name :: string
  se_nonce :: bytes
  se_ciphertext :: bytes
  se_wrapped_keys :: "wrapped_key list"

record signature_obj =
  si_snapshot :: object_id
  si_signer :: bytes
  si_sig :: bytes

record transcript =
  tr_snapshot :: object_id
  tr_agent :: string
  tr_session :: string
  tr_nonce :: bytes
  tr_ciphertext :: bytes
  tr_wrapped_keys :: "wrapped_key list"

record sealed_obj =
  so_payload :: bytes

record branch_manifest =
  bm_base :: object_id
  bm_prev :: "object_id option"
  bm_anchors :: "object_id list"
  bm_closure :: "object_id list"
  bm_index_ct :: bytes
  bm_kek_wraps :: "wrapped_key list"

datatype object =
    Blob bytes
  | Tree tree
  | Snapshot snapshot
  | Secret secret
  | Signature signature_obj
  | Transcript transcript
  | Sealed sealed_obj
  | Manifest branch_manifest

definition blob_size :: "object \<Rightarrow> nat" where
  "blob_size o' = (case o' of Blob b \<Rightarrow> length b | Sealed s \<Rightarrow> length (so_payload s) | _ \<Rightarrow> 0)"

definition kind_name :: "object \<Rightarrow> string" where
  "kind_name o' = (case o' of
     Blob _ \<Rightarrow> ''blob'' | Tree _ \<Rightarrow> ''tree'' | Snapshot _ \<Rightarrow> ''snapshot'' | Secret _ \<Rightarrow> ''secret''
   | Signature _ \<Rightarrow> ''signature'' | Transcript _ \<Rightarrow> ''transcript'' | Sealed _ \<Rightarrow> ''sealed''
   | Manifest _ \<Rightarrow> ''manifest'')"

section \<open>Trees: construction and lookup\<close>

definition tree_new :: "tree_entry list \<Rightarrow> tree" where
  "tree_new es = sort_key te_name es"

text \<open>
  \<^verbatim>\<open>slice::binary_search_by\<close> of the standard library, as it narrows \<open>[base, base + size)\<close>: \<open>cmp i\<close>
  is how the element at \<open>i\<close> compares with the key.
\<close>

datatype ordering = Less | Equal | Greater

function bsearch_base :: "(nat \<Rightarrow> ordering) \<Rightarrow> nat \<Rightarrow> nat \<Rightarrow> nat" where
  "bsearch_base cmp base sz =
     (if sz \<le> 1 then base
      else let half = sz div 2; mid = base + half
           in bsearch_base cmp (if cmp mid = Greater then base else mid) (sz - half))"
  by pat_completeness auto
termination
  by (relation "measure (\<lambda>(cmp, base, sz). sz)") auto

declare bsearch_base.simps [simp del]

definition binary_search_by :: "('a \<Rightarrow> ordering) \<Rightarrow> 'a list \<Rightarrow> nat option" where
  "binary_search_by f xs =
     (if xs = [] then None
      else let b = bsearch_base (\<lambda>i. f (xs ! i)) 0 (length xs)
           in if f (xs ! b) = Equal then Some b else None)"

definition cmp_str :: "string \<Rightarrow> string \<Rightarrow> ordering" where
  "cmp_str a b = (if a < b then Less else if a = b then Equal else Greater)"

definition tree_get :: "tree \<Rightarrow> string \<Rightarrow> tree_entry option" where
  "tree_get t name = map_option ((!) t) (binary_search_by (\<lambda>e. cmp_str (te_name e) name) t)"

text \<open>A canonical tree has strictly ascending names.\<close>

abbreviation tree_sorted :: "tree \<Rightarrow> bool" where
  "tree_sorted t \<equiv> sorted_wrt (<) (map te_name t)"

lemma bsearch_base_range:
  "0 < sz \<Longrightarrow> base \<le> bsearch_base cmp base sz \<and> bsearch_base cmp base sz < base + sz"
proof (induction cmp base sz rule: bsearch_base.induct)
  case (1 cmp base sz)
  show ?case
  proof (cases "sz \<le> 1")
    case True
    then show ?thesis using "1.prems" by (simp add: bsearch_base.simps)
  next
    case False
    let ?b = "if cmp (base + sz div 2) = Greater then base else base + sz div 2"
    have "?b \<le> bsearch_base cmp ?b (sz - sz div 2) \<and>
        bsearch_base cmp ?b (sz - sz div 2) < ?b + (sz - sz div 2)"
      using "1.IH" [OF False refl refl] False by simp
    then show ?thesis using False
      by (auto simp: bsearch_base.simps [of cmp base sz] Let_def split: if_splits)
  qed
qed

text \<open>The search never drops a position whose element is not greater than the key while all later ones are.\<close>

lemma bsearch_base_keeps:
  assumes "base \<le> i" "i < base + sz"
    and "\<And>j. base \<le> j \<Longrightarrow> j \<le> i \<Longrightarrow> cmp j \<noteq> Greater"
    and "\<And>j. i < j \<Longrightarrow> j < base + sz \<Longrightarrow> cmp j = Greater"
  shows "bsearch_base cmp base sz = i"
  using assms
proof (induction cmp base sz rule: bsearch_base.induct)
  case (1 cmp base sz)
  show ?case
  proof (cases "sz \<le> 1")
    case True
    then show ?thesis using "1.prems" by (simp add: bsearch_base.simps)
  next
    case False
    let ?mid = "base + sz div 2"
    show ?thesis
    proof (cases "cmp ?mid = Greater")
      case True
      then have "i < ?mid" using "1.prems"(1,3) by (metis le_add1 linorder_le_less_linear)
      with True False "1.IH" [OF False refl refl] "1.prems" show ?thesis
        by (simp add: bsearch_base.simps [of cmp base sz] Let_def)
    next
      case mid: False
      then have "?mid \<le> i" using "1.prems"(2,4) False by (meson div_less_dividend leI le_add1 nat_add_left_cancel_less not_le one_less_numeral_iff semiring_norm(76) zero_less_one order_less_trans)
      with mid False "1.IH" [OF False refl refl] "1.prems" show ?thesis
        by (simp add: bsearch_base.simps [of cmp base sz] Let_def)
    qed
  qed
qed

lemma binary_search_by_SomeD: "binary_search_by f xs = Some i \<Longrightarrow> i < length xs \<and> f (xs ! i) = Equal"
  using bsearch_base_range [of "length xs" 0]
  by (auto simp: binary_search_by_def Let_def split: if_splits)

lemma sorted_names_nth: "tree_sorted t \<Longrightarrow> i < j \<Longrightarrow> j < length t \<Longrightarrow> te_name (t ! i) < te_name (t ! j)"
  by (auto simp: sorted_wrt_iff_nth_less)

lemma binary_search_by_hit:
  assumes "tree_sorted t" "i < length t"
  shows "binary_search_by (\<lambda>e. cmp_str (te_name e) (te_name (t ! i))) t = Some i"
proof -
  have le: "te_name (t ! j) \<le> te_name (t ! i)" if "j \<le> i" for j
    using that sorted_names_nth [OF assms(1), of j i] assms(2) by (cases "j = i") auto
  have "bsearch_base (\<lambda>j. cmp_str (te_name (t ! j)) (te_name (t ! i))) 0 (length t) = i"
  proof (rule bsearch_base_keeps)
    fix j
    show "cmp_str (te_name (t ! j)) (te_name (t ! i)) \<noteq> Greater" if "j \<le> i"
      using le [OF that] by (auto simp: cmp_str_def)
    show "cmp_str (te_name (t ! j)) (te_name (t ! i)) = Greater" if "i < j" "j < 0 + length t"
      using sorted_names_nth [OF assms(1), of i j] that by (auto simp: cmp_str_def)
  qed (use assms in auto)
  then show ?thesis using assms(2) by (auto simp: binary_search_by_def cmp_str_def)
qed

lemma tree_get_eq_find:
  assumes "tree_sorted t"
  shows "tree_get t n = find (\<lambda>e. te_name e = n) t"
proof (cases "find (\<lambda>e. te_name e = n) t")
  case None
  have "binary_search_by (\<lambda>e. cmp_str (te_name e) n) t = None"
  proof (rule ccontr)
    assume "\<not> ?thesis"
    then obtain i where i: "binary_search_by (\<lambda>e. cmp_str (te_name e) n) t = Some i" by auto
    from binary_search_by_SomeD [OF i] have "i < length t" "te_name (t ! i) = n"
      by (auto simp: cmp_str_def split: if_splits)
    with None show False by (auto simp: find_None_iff)
  qed
  with None show ?thesis by (simp add: tree_get_def)
next
  case (Some x)
  then obtain i where i: "i < length t" "te_name (t ! i) = n" "x = t ! i"
    by (auto simp: find_Some_iff)
  with binary_search_by_hit [OF assms i(1)] Some show ?thesis by (simp add: tree_get_def)
qed

lemma tree_new_sorted: "distinct (map te_name es) \<Longrightarrow> tree_sorted (tree_new es)"
  by (simp add: tree_new_def strict_sorted_iff distinct_map sorted_sort_key)

lemma set_tree_new [simp]: "set (tree_new es) = set es"
  by (simp add: tree_new_def)

lemma find_unique_name:
  assumes "distinct (map te_name es)"
  shows "find (\<lambda>e. te_name e = n) es = Some x \<longleftrightarrow> x \<in> set es \<and> te_name x = n"
  using assms by (induction es) (auto simp: image_iff)

lemma tree_get_new:
  assumes "distinct (map te_name es)"
  shows "tree_get (tree_new es) n = Some x \<longleftrightarrow> x \<in> set es \<and> te_name x = n"
proof -
  have s: "tree_sorted (tree_new es)" using assms by (rule tree_new_sorted)
  then have "distinct (map te_name (tree_new es))" by (simp add: strict_sorted_iff)
  with find_unique_name [OF this, of n x] tree_get_eq_find [OF s] show ?thesis by simp
qed

section \<open>Transcript tombstones\<close>

definition DROP_AGENT :: string where
  "DROP_AGENT = ''sc-transcript-drop-v1''"

definition drop_tombstone :: "ext \<Rightarrow> object_id \<Rightarrow> object_id \<Rightarrow> transcript" where
  "drop_tombstone e snap dropped =
     \<lparr>tr_snapshot = snap, tr_agent = DROP_AGENT, tr_session = id_to_hex e dropped,
      tr_nonce = [], tr_ciphertext = [], tr_wrapped_keys = []\<rparr>"

definition dropped_id :: "ext \<Rightarrow> transcript \<Rightarrow> object_id option" where
  "dropped_id e t =
     (let bare = (tr_nonce t = [] \<and> tr_ciphertext t = [] \<and> tr_wrapped_keys t = [])
      in if bare \<and> tr_agent t = DROP_AGENT
         then (case id_from_str e (tr_session t) of Inl _ \<Rightarrow> None | Inr i \<Rightarrow> Some i)
         else None)"

end
