(* ===== verification/Object_Reader.thy ===== *)
theory Object_Reader
  imports Object_Model
begin

text \<open>
  The length-prefixed codec at the end of \<^verbatim>\<open>crates/core/src/object.rs\<close>: \<^verbatim>\<open>Writer\<close>, whose methods
  append bytes (a method is modelled by the bytes it appends), and \<^verbatim>\<open>Reader\<close>, a buffer with a
  position. The locale \<open>codec\<close> states what an encoder and a decoder of one value promise each
  other; \<open>item_codec\<close> adds that an encoding is not empty, which is what the element count guard
  relies on, and gives the codec of a counted vector. Both are interpreted on every leaf of the
  format here and on every structure of the object model in \<^verbatim>\<open>Object_Codec\<close>.
\<close>

section \<open>Writer\<close>

definition w_u8 :: "u8 \<Rightarrow> bytes" where "w_u8 v = [v]"

definition w_u32 :: "u32 \<Rightarrow> bytes" where "w_u32 v = nat_be 4 (unat v)"

definition w_i64 :: "i64 \<Rightarrow> bytes" where "w_i64 v = nat_be 8 (unat v)"

definition w_id :: "object_id \<Rightarrow> bytes" where "w_id i = id_bytes i"

definition w_bytes :: "bytes \<Rightarrow> bytes" where
  "w_bytes b = w_u32 (word_of_nat (length b)) @ b"

definition w_str :: "string \<Rightarrow> bytes" where "w_str s = w_bytes (str_bytes s)"

text \<open>\<^verbatim>\<open>w.u32(xs.len() as u32); for x in xs \<dots>\<close>: the shape of every counted list of the format.\<close>

definition w_vec :: "('a \<Rightarrow> bytes) \<Rightarrow> 'a list \<Rightarrow> bytes" where
  "w_vec f xs = w_u32 (word_of_nat (length xs)) @ concat (map f xs)"

section \<open>Reader\<close>

record reader =
  rd_buf :: bytes
  rd_pos :: nat

definition rd_new :: "bytes \<Rightarrow> reader" where
  "rd_new b = \<lparr>rd_buf = b, rd_pos = 0\<rparr>"

type_synonym 'a rd_result = "('a \<times> reader) core_result"

definition r_take :: "nat \<Rightarrow> reader \<Rightarrow> bytes rd_result" where
  "r_take n r =
     (if rd_pos r + n > length (rd_buf r) then Inl (Malformed UnexpectedEnd)
      else Inr (take n (drop (rd_pos r) (rd_buf r)), r\<lparr>rd_pos := rd_pos r + n\<rparr>))"

definition r_u8 :: "reader \<Rightarrow> u8 rd_result" where
  "r_u8 r = bindE (r_take 1 r) (\<lambda>(b, r). Inr (b ! 0, r))"

definition r_u32 :: "reader \<Rightarrow> u32 rd_result" where
  "r_u32 r = bindE (r_take 4 r) (\<lambda>(b, r). Inr (word_of_nat (be_nat b), r))"

definition r_remaining :: "reader \<Rightarrow> nat" where
  "r_remaining r = length (rd_buf r) - rd_pos r"

definition r_count :: "reader \<Rightarrow> nat rd_result" where
  "r_count r = bindE (r_u32 r) (\<lambda>(v, r).
     if unat v > r_remaining r then Inl (Malformed CountExceedsRemaining) else Inr (unat v, r))"

definition r_i64 :: "reader \<Rightarrow> i64 rd_result" where
  "r_i64 r = bindE (r_take 8 r) (\<lambda>(b, r). Inr (word_of_nat (be_nat b), r))"

definition r_id :: "reader \<Rightarrow> object_id rd_result" where
  "r_id r = bindE (r_take 32 r) (\<lambda>(b, r). Inr (ObjectId b, r))"

definition r_bytes :: "reader \<Rightarrow> bytes rd_result" where
  "r_bytes r = bindE (r_u32 r) (\<lambda>(v, r). r_take (unat v) r)"

definition r_str :: "reader \<Rightarrow> string rd_result" where
  "r_str r = bindE (r_bytes r) (\<lambda>(b, r).
     case from_utf8 b of None \<Rightarrow> Inl (Malformed NotUtf8) | Some s \<Rightarrow> Inr (s, r))"

definition r_rest :: "reader \<Rightarrow> bytes \<times> reader" where
  "r_rest r = (drop (rd_pos r) (rd_buf r), r\<lparr>rd_pos := length (rd_buf r)\<rparr>)"

text \<open>\<^verbatim>\<open>for _ in 0..n { out.push(dec(r)?) }\<close>.\<close>

fun r_times :: "nat \<Rightarrow> (reader \<Rightarrow> 'a rd_result) \<Rightarrow> reader \<Rightarrow> 'a list rd_result" where
  "r_times 0 dec r = Inr ([], r)"
| "r_times (Suc n) dec r =
     bindE (dec r) (\<lambda>(x, r). bindE (r_times n dec r) (\<lambda>(xs, r). Inr (x # xs, r)))"

definition r_vec :: "(reader \<Rightarrow> 'a rd_result) \<Rightarrow> reader \<Rightarrow> 'a list rd_result" where
  "r_vec dec r = bindE (r_count r) (\<lambda>(n, r). r_times n dec r)"

section \<open>What a reader stands at\<close>

definition rd_at :: "reader \<Rightarrow> bytes \<Rightarrow> bool" where
  "rd_at r v \<longleftrightarrow> rd_pos r \<le> length (rd_buf r) \<and> drop (rd_pos r) (rd_buf r) = v"

definition yields :: "'a rd_result \<Rightarrow> 'a \<Rightarrow> bytes \<Rightarrow> bool" where
  "yields m a s \<longleftrightarrow> (\<exists>r. m = Inr (a, r) \<and> rd_at r s)"

lemma rd_at_new [simp]: "rd_at (rd_new b) v \<longleftrightarrow> v = b"
  by (auto simp: rd_at_def rd_new_def)

lemma r_remaining_at: "rd_at r v \<Longrightarrow> r_remaining r = length v"
  by (auto simp: rd_at_def r_remaining_def)

lemma yields_Inr: "rd_at r s \<Longrightarrow> yields (Inr (a, r)) a s"
  by (simp add: yields_def)

lemma yields_Inr_eq: "rd_at r s \<Longrightarrow> a = b \<Longrightarrow> yields (Inr (a, r)) b s"
  by (simp add: yields_def)

lemma yields_unique: "yields m a s \<Longrightarrow> yields m b t \<Longrightarrow> a = b \<and> s = t"
  by (auto simp: yields_def rd_at_def)

lemma r_take_at: "rd_at r (x @ s) \<Longrightarrow> yields (r_take (length x) r) x s"
proof -
  assume a: "rd_at r (x @ s)"
  then have l: "length (rd_buf r) = rd_pos r + length x + length s"
    by (auto simp: rd_at_def dest: arg_cong [where f = length])
  from a have "drop (rd_pos r + length x) (rd_buf r) = s"
    by (metis rd_at_def append_eq_conv_conj drop_drop add.commute)
  with a l show ?thesis by (simp add: yields_def r_take_def rd_at_def)
qed

lemma r_take_inv:
  assumes "rd_at r v" "r_take n r = Inr (x, r')"
  shows "\<exists>s. v = x @ s \<and> rd_at r' s \<and> length x = n"
proof -
  from assms have l: "rd_pos r + n \<le> length (rd_buf r)" and x: "x = take n v"
    and r': "r' = r\<lparr>rd_pos := rd_pos r + n\<rparr>"
    by (auto simp: r_take_def rd_at_def split: if_splits)
  have "drop (rd_pos r + n) (rd_buf r) = drop n v"
    using assms(1) by (auto simp: rd_at_def add.commute)
  with l x r' assms(1) show ?thesis
    by (intro exI [of _ "drop n v"]) (auto simp: rd_at_def)
qed

section \<open>The contract between an encoder and a decoder\<close>

locale codec =
  fixes enc :: "'a \<Rightarrow> bytes"
    and dec :: "reader \<Rightarrow> 'a rd_result"
    and ok :: "'a \<Rightarrow> bool"
  assumes enc_dec: "ok a \<Longrightarrow> rd_at r (enc a @ s) \<Longrightarrow> yields (dec r) a s"
    and dec_enc: "rd_at r v \<Longrightarrow> dec r = Inr (a, r') \<Longrightarrow> \<exists>s. v = enc a @ s \<and> rd_at r' s \<and> ok a"
begin

lemma bindI:
  assumes "rd_at r (enc a @ s)" "ok a" "\<And>r'. rd_at r' s \<Longrightarrow> yields (g a r') b s'"
  shows "yields (bindE (dec r) (case_prod g)) b s'"
proof -
  from enc_dec [OF assms(2,1)] obtain r' where "dec r = Inr (a, r')" "rd_at r' s"
    by (auto simp: yields_def)
  with assms(3) show ?thesis by simp
qed

lemma bindD:
  assumes "bindE (dec r) (case_prod g) = Inr b" "rd_at r v"
  obtains a s r' where "v = enc a @ s" "ok a" "rd_at r' s" "g a r' = Inr b"
proof -
  from assms(1) obtain a r' where d: "dec r = Inr (a, r')" and g: "g a r' = Inr b"
    by (auto simp: bindE_eq_Inr)
  with dec_enc [OF assms(2) d] that show thesis by blast
qed

text \<open>An encoding is self-delimiting: no proper prefix of it decodes.\<close>

lemma dec_cut:
  assumes "ok a" "rd_at r p" "strict_prefix p (enc a)"
  shows "isErr (dec r)"
proof (rule ccontr)
  assume "\<not> isErr (dec r)"
  then obtain b r' where d: "dec r = Inr (b, r')" by (cases "dec r") auto
  from dec_enc [OF assms(2) d] obtain s where b: "p = enc b @ s" "ok b" by blast
  from assms(3) obtain t where t: "enc a = p @ t" "t \<noteq> []"
    by (auto elim!: strict_prefixE')
  let ?r = "rd_new (enc a)"
  have "yields (dec ?r) a []" by (rule enc_dec) (simp_all add: assms)
  moreover have "yields (dec ?r) b (s @ t)" by (rule enc_dec) (simp_all add: b t)
  ultimately have "s @ t = []" by (metis yields_unique)
  with t show False by simp
qed

end

locale item_codec = codec +
  assumes enc_nonempty: "ok a \<Longrightarrow> enc a \<noteq> []"
begin

lemma length_concat_enc: "list_all ok xs \<Longrightarrow> length xs \<le> length (concat (map enc xs))"
proof (induction xs)
  case Nil
  then show ?case by simp
next
  case (Cons a xs)
  then show ?case using enc_nonempty [of a] by (cases "enc a") auto
qed

lemma times_enc_dec:
  "list_all ok xs \<Longrightarrow> rd_at r (concat (map enc xs) @ s) \<Longrightarrow> yields (r_times (length xs) dec r) xs s"
proof (induction xs arbitrary: r)
  case Nil
  then show ?case by (simp add: yields_Inr)
next
  case (Cons x xs)
  show ?case unfolding list.size r_times.simps add_Suc_right add_0_right
  proof (rule bindI)
    show "ok x" using Cons.prems by simp
    show "rd_at r (enc x @ concat (map enc xs) @ s)" using Cons.prems by simp
    fix r' assume "rd_at r' (concat (map enc xs) @ s)"
    with Cons.IH Cons.prems obtain r'' where "r_times (length xs) dec r' = Inr (xs, r'')" "rd_at r'' s"
      by (auto simp: yields_def)
    then show "yields (bindE (r_times (length xs) dec r') (\<lambda>(xs, r). Inr (x # xs, r))) (x # xs) s"
      by (simp add: yields_Inr)
  qed
qed

lemma times_dec_enc:
  "rd_at r v \<Longrightarrow> r_times n dec r = Inr (xs, r') \<Longrightarrow>
   \<exists>s. v = concat (map enc xs) @ s \<and> rd_at r' s \<and> list_all ok xs \<and> length xs = n"
proof (induction n arbitrary: r v xs)
  case 0
  then show ?case by simp
next
  case (Suc n)
  from Suc.prems(2) obtain x ys r1 where x: "dec r = Inr (x, r1)"
    and ys: "r_times n dec r1 = Inr (ys, r')" and xs: "xs = x # ys"
    by (auto simp: bindE_eq_Inr)
  from dec_enc [OF Suc.prems(1) x] obtain s where s: "v = enc x @ s" "rd_at r1 s" "ok x" by blast
  from Suc.IH [OF s(2) ys] s xs show ?case by auto
qed

end

section \<open>Leaves of the format\<close>

abbreviation bytes_ok :: "bytes \<Rightarrow> bool" where
  "bytes_ok b \<equiv> length b < 2 ^ 32"

abbreviation string_ok :: "string \<Rightarrow> bool" where
  "string_ok s \<equiv> str_ok s \<and> length s < 2 ^ 32"

lemma r_take_bind:
  assumes "rd_at r (x @ s)" "length x = n" "\<And>r'. rd_at r' s \<Longrightarrow> yields (g x r') b s'"
  shows "yields (bindE (r_take n r) (case_prod g)) b s'"
  using r_take_at [OF assms(1)] assms(2,3) by (auto simp: yields_def)

lemma r_take_bindD:
  assumes "bindE (r_take n r) (case_prod g) = Inr b" "rd_at r v"
  obtains x s r' where "v = x @ s" "length x = n" "rd_at r' s" "g x r' = Inr b"
proof -
  from assms(1) obtain x r' where "r_take n r = Inr (x, r')" "g x r' = Inr b"
    by (auto simp: bindE_eq_Inr)
  with r_take_inv [OF assms(2), of n x r'] that show thesis by blast
qed

interpretation u8c: item_codec w_u8 r_u8 "\<lambda>_. True"
proof
  fix a r s v r'
  show "rd_at r (w_u8 a @ s) \<Longrightarrow> yields (r_u8 r) a s"
    unfolding r_u8_def w_u8_def by (erule r_take_bind) (auto intro: yields_Inr)
  assume "rd_at r v" "r_u8 r = Inr (a, r')"
  then obtain x s where "v = x @ s" "rd_at r' s" "length x = 1" "a = x ! 0"
    unfolding r_u8_def by (elim r_take_bindD) auto
  then show "\<exists>s. v = w_u8 a @ s \<and> rd_at r' s \<and> True"
    by (cases x) (auto simp: w_u8_def)
qed (simp add: w_u8_def)

lemma word_be_nat: "length b = n \<Longrightarrow> 256 ^ n = (2::nat) ^ LENGTH('a::len) \<Longrightarrow>
    unat (word_of_nat (be_nat b) :: 'a word) = be_nat b"
  using be_nat_less [of b] by (simp add: unat_of_nat)

interpretation u32c: item_codec w_u32 r_u32 "\<lambda>_. True"
proof
  fix a :: u32 and r s v r'
  have a: "unat a < 256 ^ 4" using unsigned_less [of a, where 'a = nat] by simp
  show "rd_at r (w_u32 a @ s) \<Longrightarrow> yields (r_u32 r) a s"
    unfolding r_u32_def w_u32_def by (erule r_take_bind) (use a in \<open>auto intro: yields_Inr\<close>)
  assume "rd_at r v" "r_u32 r = Inr (a, r')"
  then obtain x s where "v = x @ s" "rd_at r' s" "length x = 4" "a = word_of_nat (be_nat x)"
    unfolding r_u32_def by (elim r_take_bindD) auto
  then show "\<exists>s. v = w_u32 a @ s \<and> rd_at r' s \<and> True"
    using word_be_nat [of x 4, where 'a = 32] nat_be_be_nat [of x 4] by (auto simp: w_u32_def)
next
  fix a show "w_u32 a \<noteq> []" by (simp add: w_u32_def flip: length_0_conv)
qed

interpretation i64c: codec w_i64 r_i64 "\<lambda>_. True"
proof
  fix a :: i64 and r s v r'
  have a: "unat a < 256 ^ 8" using unsigned_less [of a, where 'a = nat] by simp
  show "rd_at r (w_i64 a @ s) \<Longrightarrow> yields (r_i64 r) a s"
    unfolding r_i64_def w_i64_def by (erule r_take_bind) (use a in \<open>auto intro: yields_Inr\<close>)
  assume "rd_at r v" "r_i64 r = Inr (a, r')"
  then obtain x s where "v = x @ s" "rd_at r' s" "length x = 8" "a = word_of_nat (be_nat x)"
    unfolding r_i64_def by (elim r_take_bindD) auto
  then show "\<exists>s. v = w_i64 a @ s \<and> rd_at r' s \<and> True"
    using word_be_nat [of x 8, where 'a = 64] nat_be_be_nat [of x 8] by (auto simp: w_i64_def)
qed

interpretation idc: item_codec w_id r_id id_ok
proof
  fix a r s v r'
  show "id_ok a \<Longrightarrow> rd_at r (w_id a @ s) \<Longrightarrow> yields (r_id r) a s"
    unfolding r_id_def w_id_def id_ok_def by (erule r_take_bind) (auto intro: yields_Inr)
  show "rd_at r v \<Longrightarrow> r_id r = Inr (a, r') \<Longrightarrow> \<exists>s. v = w_id a @ s \<and> rd_at r' s \<and> id_ok a"
    unfolding r_id_def by (elim r_take_bindD) (auto simp: w_id_def id_ok_def)
  show "id_ok a \<Longrightarrow> w_id a \<noteq> []" by (auto simp: w_id_def id_ok_def)
qed

lemma unat_length_u32: "n < 2 ^ 32 \<Longrightarrow> unat (word_of_nat n :: u32) = n"
  by (simp add: unat_of_nat)

lemma w_u32_nonempty [simp]: "w_u32 v \<noteq> []"
  by (simp add: w_u32_def flip: length_0_conv)

lemma w_bytes_nonempty [simp]: "w_bytes b \<noteq> []"
  by (simp add: w_bytes_def)

interpretation bytesc: item_codec w_bytes r_bytes bytes_ok
proof
  fix a r s v r'
  show "yields (r_bytes r) a s" if "bytes_ok a" "rd_at r (w_bytes a @ s)"
    unfolding r_bytes_def
    by (rule u32c.bindI [where a = "word_of_nat (length a)" and s = "a @ s"])
      (use that r_take_at in \<open>auto simp: w_bytes_def unat_length_u32\<close>)
  show "\<exists>s. v = w_bytes a @ s \<and> rd_at r' s \<and> bytes_ok a" if "rd_at r v" "r_bytes r = Inr (a, r')"
    using that(2,1) unfolding r_bytes_def
  proof (rule u32c.bindD)
    fix n s r1
    assume "v = w_u32 n @ s" "rd_at r1 s" "r_take (unat n) r1 = Inr (a, r')"
    then show ?thesis
      using r_take_inv [of r1 s "unat n" a r'] unsigned_less [of n, where 'a = nat]
      by (auto simp: w_bytes_def)
  qed
  show "w_bytes a \<noteq> []" by (auto simp: w_bytes_def)
qed

interpretation strc: item_codec w_str r_str string_ok
proof
  fix a r s v r'
  show "yields (r_str r) a s" if "string_ok a" "rd_at r (w_str a @ s)"
    unfolding r_str_def
    by (rule bytesc.bindI [where a = "str_bytes a" and s = s])
      (use that in \<open>auto simp: w_str_def from_utf8_str_bytes intro: yields_Inr\<close>)
  show "\<exists>s. v = w_str a @ s \<and> rd_at r' s \<and> string_ok a" if "rd_at r v" "r_str r = Inr (a, r')"
    using that(2,1) unfolding r_str_def
  proof (rule bytesc.bindD)
    fix b s r1
    assume "v = w_bytes b @ s" "bytes_ok b" "rd_at r1 s"
      "(case from_utf8 b of None \<Rightarrow> Inl (Malformed NotUtf8) | Some s \<Rightarrow> Inr (s, r1)) = Inr (a, r')"
    then show ?thesis
      by (auto simp: w_str_def split: option.splits dest!: from_utf8_SomeD)
  qed
  show "w_str a \<noteq> []" by (simp add: w_str_def w_bytes_nonempty)
qed

section \<open>Counted vectors\<close>

definition vec_ok :: "('a \<Rightarrow> bool) \<Rightarrow> 'a list \<Rightarrow> bool" where
  "vec_ok ok xs \<longleftrightarrow> length xs < 2 ^ 32 \<and> list_all ok xs"

text \<open>The guard of \<^verbatim>\<open>Reader::count\<close>: it never rejects a genuine count, and what it accepts is bounded by the bytes that are left.\<close>

lemma r_count_at:
  assumes "rd_at r (w_u32 (word_of_nat n) @ s)" "n < 2 ^ 32" "n \<le> length s"
  shows "yields (r_count r) n s"
  unfolding r_count_def
  by (rule u32c.bindI [where a = "word_of_nat n" and s = s])
    (use assms in \<open>auto simp: unat_length_u32 r_remaining_at intro: yields_Inr\<close>)

lemma r_count_inv:
  assumes "rd_at r v" "r_count r = Inr (n, r')"
  shows "\<exists>s. v = w_u32 (word_of_nat n) @ s \<and> rd_at r' s \<and> n \<le> length s \<and> n < 2 ^ 32"
  using assms(2,1) unfolding r_count_def
proof (rule u32c.bindD)
  fix a s r1
  assume "v = w_u32 a @ s" "rd_at r1 s"
    "(if r_remaining r1 < unat a then Inl (Malformed CountExceedsRemaining) else Inr (unat a, r1)) = Inr (n, r')"
  then show ?thesis
    using unsigned_less [of a, where 'a = nat] by (auto simp: r_remaining_at split: if_splits)
qed

sublocale item_codec \<subseteq> vec: codec "w_vec enc" "r_vec dec" "vec_ok ok"
proof
  fix xs r s v r'
  show "yields (r_vec dec r) xs s" if ok: "vec_ok ok xs" and r: "rd_at r (w_vec enc xs @ s)"
  proof -
    have "yields (r_count r) (length xs) (concat (map enc xs) @ s)"
      using ok r length_concat_enc [of xs] by (intro r_count_at) (auto simp: w_vec_def vec_ok_def)
    then show ?thesis
      using times_enc_dec [of xs] ok by (auto simp: r_vec_def yields_def vec_ok_def)
  qed
  show "\<exists>s. v = w_vec enc xs @ s \<and> rd_at r' s \<and> vec_ok ok xs"
    if v: "rd_at r v" and d: "r_vec dec r = Inr (xs, r')"
  proof -
    from d obtain n r1 where n: "r_count r = Inr (n, r1)" and t: "r_times n dec r1 = Inr (xs, r')"
      by (auto simp: r_vec_def bindE_eq_Inr)
    from r_count_inv [OF v n] obtain s1 where s1: "v = w_u32 (word_of_nat n) @ s1" "rd_at r1 s1" "n < 2 ^ 32"
      by blast
    from times_dec_enc [OF s1(2) t] s1 show ?thesis by (auto simp: w_vec_def vec_ok_def)
  qed
qed

end
