(* ===== verification/Object_Codec.thy ===== *)
theory Object_Codec
  imports Object_Reader
begin

text \<open>
  \<^verbatim>\<open>Object::encode\<close> and \<^verbatim>\<open>Object::decode\<close> of \<^verbatim>\<open>crates/core/src/object.rs\<close>, one encoder and one
  decoder per structure. Every structure is an interpretation of the codec locales, so the
  properties at the end (round trip, rejection of truncated input, what decoding accepts,
  independence of the insertion order) are consequences of the contracts of its fields.
\<close>

section \<open>Structures of the format\<close>

definition w_wrapped_key :: "wrapped_key \<Rightarrow> bytes" where
  "w_wrapped_key k = w_str (wk_recipient_id k) @ w_bytes (wk_wrapped_dek k)"

definition r_wrapped_key :: "reader \<Rightarrow> wrapped_key rd_result" where
  "r_wrapped_key r =
     bindE (r_str r) (\<lambda>(recipient_id, r).
     bindE (r_bytes r) (\<lambda>(wrapped_dek, r).
     Inr (\<lparr>wk_recipient_id = recipient_id, wk_wrapped_dek = wrapped_dek\<rparr>, r)))"

definition wrapped_key_ok :: "wrapped_key \<Rightarrow> bool" where
  "wrapped_key_ok k \<longleftrightarrow> string_ok (wk_recipient_id k) \<and> bytes_ok (wk_wrapped_dek k)"

definition w_kind :: "entry_kind \<Rightarrow> bytes" where
  "w_kind k = w_u8 (case k of BlobKind \<Rightarrow> 0 | TreeKind \<Rightarrow> 1)"

definition r_kind :: "reader \<Rightarrow> entry_kind rd_result" where
  "r_kind r = bindE (r_u8 r) (\<lambda>(k, r).
     if k = 0 then Inr (BlobKind, r) else if k = 1 then Inr (TreeKind, r)
     else Inl (Malformed (BadEntryKind k)))"

definition w_tree_entry :: "tree_entry \<Rightarrow> bytes" where
  "w_tree_entry e = w_str (te_name e) @ w_kind (te_kind e) @ w_id (te_id e)
     @ w_u32 (mode_bits (te_mode e)) @ w_u8 (te_perms e)"

definition r_tree_entry :: "reader \<Rightarrow> tree_entry rd_result" where
  "r_tree_entry r =
     bindE (r_str r) (\<lambda>(name, r).
     bindE (r_kind r) (\<lambda>(kind, r).
     bindE (r_id r) (\<lambda>(i, r).
     bindE (r_u32 r) (\<lambda>(mode, r).
     bindE (r_u8 r) (\<lambda>(perms, r).
     Inr (\<lparr>te_name = name, te_kind = kind, te_id = i, te_mode = FileMode mode, te_perms = perms\<rparr>, r))))))"

definition tree_entry_ok :: "tree_entry \<Rightarrow> bool" where
  "tree_entry_ok e \<longleftrightarrow> string_ok (te_name e) \<and> id_ok (te_id e)"

definition w_state :: "recipient_state \<Rightarrow> bytes" where
  "w_state s = w_u8 (case s of Granted \<Rightarrow> 0 | Revoked \<Rightarrow> 1)"

definition r_state :: "reader \<Rightarrow> recipient_state rd_result" where
  "r_state r = bindE (r_u8 r) (\<lambda>(s, r).
     if s = 0 then Inr (Granted, r) else if s = 1 then Inr (Revoked, r)
     else Inl (Malformed (BadRecipientState s)))"

definition w_recipient :: "recipient_entry \<Rightarrow> bytes" where
  "w_recipient e = re_key e @ w_u32 (re_epoch e) @ w_state (re_state e)"

definition r_recipient :: "reader \<Rightarrow> recipient_entry rd_result" where
  "r_recipient r =
     bindE (r_take 32 r) (\<lambda>(rk, r).
     bindE (r_u32 r) (\<lambda>(epoch, r).
     bindE (r_state r) (\<lambda>(state, r).
     Inr (\<lparr>re_key = rk, re_epoch = epoch, re_state = state\<rparr>, r))))"

definition recipient_ok :: "recipient_entry \<Rightarrow> bool" where
  "recipient_ok e \<longleftrightarrow> length (re_key e) = 32"

text \<open>The encoder sorts the registers of a prefix by key; \<open>sort_prefix\<close> is the prefix it writes.\<close>

definition sort_prefix :: "protect_prefix \<Rightarrow> protect_prefix" where
  "sort_prefix p = p\<lparr>pp_recipients := sort_key re_key (pp_recipients p)\<rparr>"

definition w_prefix :: "protect_prefix \<Rightarrow> bytes" where
  "w_prefix p = w_str (pp_prefix p) @ w_vec w_recipient (pp_recipients p)"

definition r_prefix :: "reader \<Rightarrow> protect_prefix rd_result" where
  "r_prefix r =
     bindE (r_str r) (\<lambda>(prefix, r).
     bindE (r_vec r_recipient r) (\<lambda>(recipients, r).
     Inr (\<lparr>pp_prefix = prefix, pp_recipients = recipients\<rparr>, r)))"

definition prefix_ok :: "protect_prefix \<Rightarrow> bool" where
  "prefix_ok p \<longleftrightarrow> string_ok (pp_prefix p) \<and> vec_ok recipient_ok (pp_recipients p)"

definition w_secret_ref :: "string \<times> object_id \<Rightarrow> bytes" where
  "w_secret_ref p = w_str (fst p) @ w_id (snd p)"

definition r_secret_ref :: "reader \<Rightarrow> (string \<times> object_id) rd_result" where
  "r_secret_ref r = bindE (r_str r) (\<lambda>(name, r). bindE (r_id r) (\<lambda>(i, r). Inr ((name, i), r)))"

definition secret_ref_ok :: "string \<times> object_id \<Rightarrow> bool" where
  "secret_ref_ok p \<longleftrightarrow> string_ok (fst p) \<and> id_ok (snd p)"

definition w_wrapped :: "object_id \<times> wrapped_key list \<Rightarrow> bytes" where
  "w_wrapped p = w_id (fst p) @ w_vec w_wrapped_key (snd p)"

definition r_wrapped :: "reader \<Rightarrow> (object_id \<times> wrapped_key list) rd_result" where
  "r_wrapped r = bindE (r_id r) (\<lambda>(i, r). bindE (r_vec r_wrapped_key r) (\<lambda>(wks, r). Inr ((i, wks), r)))"

definition wrapped_ok :: "object_id \<times> wrapped_key list \<Rightarrow> bool" where
  "wrapped_ok p \<longleftrightarrow> id_ok (fst p) \<and> vec_ok wrapped_key_ok (snd p)"

section \<open>Their contracts\<close>

interpretation wkc: item_codec w_wrapped_key r_wrapped_key wrapped_key_ok
proof
  fix a r s v r'
  show "wrapped_key_ok a \<Longrightarrow> rd_at r (w_wrapped_key a @ s) \<Longrightarrow> yields (r_wrapped_key r) a s"
    unfolding r_wrapped_key_def w_wrapped_key_def wrapped_key_ok_def append_assoc
    by (elim conjE, (erule strc.bindI bytesc.bindI, simp)+, erule yields_Inr_eq, simp)
  assume "rd_at r v" "r_wrapped_key r = Inr (a, r')"
  from this(2,1) show "\<exists>s. v = w_wrapped_key a @ s \<and> rd_at r' s \<and> wrapped_key_ok a"
    unfolding r_wrapped_key_def w_wrapped_key_def wrapped_key_ok_def
    by (elim strc.bindD bytesc.bindD) auto
qed (simp add: w_wrapped_key_def)

interpretation kindc: codec w_kind r_kind "\<lambda>_. True"
proof
  fix a r s v r'
  show "rd_at r (w_kind a @ s) \<Longrightarrow> yields (r_kind r) a s"
    unfolding r_kind_def w_kind_def
    by (erule u8c.bindI) (cases a; auto intro: yields_Inr)+
  assume "rd_at r v" "r_kind r = Inr (a, r')"
  from this(2,1) show "\<exists>s. v = w_kind a @ s \<and> rd_at r' s \<and> True"
    unfolding r_kind_def w_kind_def by (elim u8c.bindD) (auto split: if_splits)
qed

interpretation tec: item_codec w_tree_entry r_tree_entry tree_entry_ok
proof
  fix a r s v r'
  show "tree_entry_ok a \<Longrightarrow> rd_at r (w_tree_entry a @ s) \<Longrightarrow> yields (r_tree_entry r) a s"
    unfolding r_tree_entry_def w_tree_entry_def tree_entry_ok_def append_assoc
    by (elim conjE, (erule strc.bindI kindc.bindI idc.bindI u32c.bindI u8c.bindI, simp)+,
        erule yields_Inr_eq, simp)
  assume "rd_at r v" "r_tree_entry r = Inr (a, r')"
  from this(2,1) show "\<exists>s. v = w_tree_entry a @ s \<and> rd_at r' s \<and> tree_entry_ok a"
    unfolding r_tree_entry_def w_tree_entry_def tree_entry_ok_def
    by (elim strc.bindD kindc.bindD idc.bindD u32c.bindD u8c.bindD) auto
qed (simp add: w_tree_entry_def w_str_def)

interpretation statec: codec w_state r_state "\<lambda>_. True"
proof
  fix a r s v r'
  show "rd_at r (w_state a @ s) \<Longrightarrow> yields (r_state r) a s"
    unfolding r_state_def w_state_def
    by (erule u8c.bindI) (cases a; auto intro: yields_Inr)+
  assume "rd_at r v" "r_state r = Inr (a, r')"
  from this(2,1) show "\<exists>s. v = w_state a @ s \<and> rd_at r' s \<and> True"
    unfolding r_state_def w_state_def by (elim u8c.bindD) (auto split: if_splits)
qed

interpretation rec: item_codec w_recipient r_recipient recipient_ok
proof
  fix a r s v r'
  show "recipient_ok a \<Longrightarrow> rd_at r (w_recipient a @ s) \<Longrightarrow> yields (r_recipient r) a s"
    unfolding r_recipient_def w_recipient_def recipient_ok_def append_assoc
    by (erule r_take_bind, simp, (erule u32c.bindI statec.bindI, simp)+, erule yields_Inr_eq, simp)
  assume "rd_at r v" "r_recipient r = Inr (a, r')"
  from this(2,1) show "\<exists>s. v = w_recipient a @ s \<and> rd_at r' s \<and> recipient_ok a"
    unfolding r_recipient_def w_recipient_def recipient_ok_def
    by (elim r_take_bindD u32c.bindD statec.bindD) auto
qed (auto simp: w_recipient_def recipient_ok_def)

interpretation prefc: item_codec w_prefix r_prefix prefix_ok
proof
  fix a r s v r'
  show "prefix_ok a \<Longrightarrow> rd_at r (w_prefix a @ s) \<Longrightarrow> yields (r_prefix r) a s"
    unfolding r_prefix_def w_prefix_def prefix_ok_def append_assoc
    by (elim conjE, (erule strc.bindI rec.vec.bindI, simp)+, erule yields_Inr_eq, simp)
  assume "rd_at r v" "r_prefix r = Inr (a, r')"
  from this(2,1) show "\<exists>s. v = w_prefix a @ s \<and> rd_at r' s \<and> prefix_ok a"
    unfolding r_prefix_def w_prefix_def prefix_ok_def
    by (elim strc.bindD rec.vec.bindD) auto
qed (simp add: w_prefix_def w_str_def)

interpretation secrefc: item_codec w_secret_ref r_secret_ref secret_ref_ok
proof
  fix a r s v r'
  show "secret_ref_ok a \<Longrightarrow> rd_at r (w_secret_ref a @ s) \<Longrightarrow> yields (r_secret_ref r) a s"
    unfolding r_secret_ref_def w_secret_ref_def secret_ref_ok_def append_assoc
    by (elim conjE, (erule strc.bindI idc.bindI, simp)+, erule yields_Inr_eq, simp)
  assume "rd_at r v" "r_secret_ref r = Inr (a, r')"
  from this(2,1) show "\<exists>s. v = w_secret_ref a @ s \<and> rd_at r' s \<and> secret_ref_ok a"
    unfolding r_secret_ref_def w_secret_ref_def secret_ref_ok_def
    by (elim strc.bindD idc.bindD) auto
qed (simp add: w_secret_ref_def w_str_def)

interpretation wrc: item_codec w_wrapped r_wrapped wrapped_ok
proof
  fix a r s v r'
  show "wrapped_ok a \<Longrightarrow> rd_at r (w_wrapped a @ s) \<Longrightarrow> yields (r_wrapped r) a s"
    unfolding r_wrapped_def w_wrapped_def wrapped_ok_def append_assoc
    by (elim conjE, (erule idc.bindI wkc.vec.bindI, simp)+, erule yields_Inr_eq, simp)
  assume "rd_at r v" "r_wrapped r = Inr (a, r')"
  from this(2,1) show "\<exists>s. v = w_wrapped a @ s \<and> rd_at r' s \<and> wrapped_ok a"
    unfolding r_wrapped_def w_wrapped_def wrapped_ok_def
    by (elim idc.bindD wkc.vec.bindD) auto
qed (simp add: w_wrapped_def idc.enc_nonempty wrapped_ok_def)


section \<open>Object bodies\<close>

definition w_snapshot :: "snapshot \<Rightarrow> bytes" where
  "w_snapshot s = w_id (sn_root s) @ w_vec w_id (sn_parents s) @ w_str (sn_author s)
     @ w_i64 (sn_timestamp s) @ w_str (sn_message s) @ w_vec w_secret_ref (sn_secrets s)
     @ w_vec w_prefix (pr_prefixes (sn_protection s)) @ w_vec w_wrapped (pr_wrapped (sn_protection s))"

text \<open>
  The body of a snapshot, its two maps still in the order in which their bindings arrive;
  \<open>index_maps\<close> then inserts them one after the other, as the decoding loops do.
\<close>

definition r_snapshot :: "reader \<Rightarrow> snapshot rd_result" where
  "r_snapshot r =
     bindE (r_id r) (\<lambda>(root, r).
     bindE (r_vec r_id r) (\<lambda>(parents, r).
     bindE (r_str r) (\<lambda>(author, r).
     bindE (r_i64 r) (\<lambda>(timestamp, r).
     bindE (r_str r) (\<lambda>(message, r).
     bindE (r_vec r_secret_ref r) (\<lambda>(secrets, r).
     bindE (r_vec r_prefix r) (\<lambda>(prefixes, r).
     bindE (r_vec r_wrapped r) (\<lambda>(wrapped, r).
     Inr (\<lparr>sn_root = root, sn_parents = parents, sn_author = author, sn_timestamp = timestamp,
           sn_message = message, sn_secrets = secrets,
           sn_protection = \<lparr>pr_prefixes = prefixes, pr_wrapped = wrapped\<rparr>\<rparr>, r)))))))))"

definition bt_of_list :: "('k::linorder \<times> 'v) list \<Rightarrow> ('k, 'v) btree" where
  "bt_of_list ps = foldl (\<lambda>m (k, v). bt_insert k v m) [] ps"

definition index_maps :: "snapshot \<Rightarrow> snapshot" where
  "index_maps s = s\<lparr>sn_secrets := bt_of_list (sn_secrets s),
     sn_protection := (sn_protection s)\<lparr>pr_wrapped := bt_of_list (pr_wrapped (sn_protection s))\<rparr>\<rparr>"

definition snapshot_fields_ok :: "snapshot \<Rightarrow> bool" where
  "snapshot_fields_ok s \<longleftrightarrow>
     id_ok (sn_root s) \<and> vec_ok id_ok (sn_parents s) \<and> string_ok (sn_author s)
     \<and> string_ok (sn_message s) \<and> vec_ok secret_ref_ok (sn_secrets s)
     \<and> vec_ok prefix_ok (pr_prefixes (sn_protection s)) \<and> vec_ok wrapped_ok (pr_wrapped (sn_protection s))"

text \<open>What the encoder writes for a snapshot: prefixes sorted by name, registers by key.\<close>

definition sort_snapshot :: "snapshot \<Rightarrow> snapshot" where
  "sort_snapshot s = s\<lparr>sn_protection := (sn_protection s)\<lparr>pr_prefixes :=
     map sort_prefix (sort_key pp_prefix (pr_prefixes (sn_protection s)))\<rparr>\<rparr>"

definition w_secret :: "secret \<Rightarrow> bytes" where
  "w_secret s = w_str (se_name s) @ w_bytes (se_nonce s) @ w_bytes (se_ciphertext s)
     @ w_vec w_wrapped_key (se_wrapped_keys s)"

definition r_secret :: "reader \<Rightarrow> secret rd_result" where
  "r_secret r =
     bindE (r_str r) (\<lambda>(name, r).
     bindE (r_bytes r) (\<lambda>(nonce, r).
     bindE (r_bytes r) (\<lambda>(ciphertext, r).
     bindE (r_vec r_wrapped_key r) (\<lambda>(wrapped_keys, r).
     Inr (\<lparr>se_name = name, se_nonce = nonce, se_ciphertext = ciphertext,
           se_wrapped_keys = wrapped_keys\<rparr>, r)))))"

definition secret_ok :: "secret \<Rightarrow> bool" where
  "secret_ok s \<longleftrightarrow> string_ok (se_name s) \<and> bytes_ok (se_nonce s) \<and> bytes_ok (se_ciphertext s)
     \<and> vec_ok wrapped_key_ok (se_wrapped_keys s)"

definition w_signature :: "signature_obj \<Rightarrow> bytes" where
  "w_signature s = w_id (si_snapshot s) @ si_signer s @ si_sig s"

definition r_signature :: "reader \<Rightarrow> signature_obj rd_result" where
  "r_signature r =
     bindE (r_id r) (\<lambda>(snap, r).
     bindE (r_take 32 r) (\<lambda>(signer, r).
     bindE (r_take 64 r) (\<lambda>(sig, r).
     Inr (\<lparr>si_snapshot = snap, si_signer = signer, si_sig = sig\<rparr>, r))))"

definition signature_ok :: "signature_obj \<Rightarrow> bool" where
  "signature_ok s \<longleftrightarrow> id_ok (si_snapshot s) \<and> length (si_signer s) = 32 \<and> length (si_sig s) = 64"

definition w_transcript :: "transcript \<Rightarrow> bytes" where
  "w_transcript t = w_id (tr_snapshot t) @ w_str (tr_agent t) @ w_str (tr_session t)
     @ w_bytes (tr_nonce t) @ w_bytes (tr_ciphertext t) @ w_vec w_wrapped_key (tr_wrapped_keys t)"

definition r_transcript :: "reader \<Rightarrow> transcript rd_result" where
  "r_transcript r =
     bindE (r_id r) (\<lambda>(snap, r).
     bindE (r_str r) (\<lambda>(agent, r).
     bindE (r_str r) (\<lambda>(session, r).
     bindE (r_bytes r) (\<lambda>(nonce, r).
     bindE (r_bytes r) (\<lambda>(ciphertext, r).
     bindE (r_vec r_wrapped_key r) (\<lambda>(wrapped_keys, r).
     Inr (\<lparr>tr_snapshot = snap, tr_agent = agent, tr_session = session, tr_nonce = nonce,
           tr_ciphertext = ciphertext, tr_wrapped_keys = wrapped_keys\<rparr>, r)))))))"

definition transcript_ok :: "transcript \<Rightarrow> bool" where
  "transcript_ok t \<longleftrightarrow> id_ok (tr_snapshot t) \<and> string_ok (tr_agent t) \<and> string_ok (tr_session t)
     \<and> bytes_ok (tr_nonce t) \<and> bytes_ok (tr_ciphertext t) \<and> vec_ok wrapped_key_ok (tr_wrapped_keys t)"

definition w_prev :: "object_id option \<Rightarrow> bytes" where
  "w_prev p = (case p of Some i \<Rightarrow> w_u8 1 @ w_id i | None \<Rightarrow> w_u8 0)"

definition r_prev :: "reader \<Rightarrow> object_id option rd_result" where
  "r_prev r = bindE (r_u8 r) (\<lambda>(b, r).
     if b = 0 then Inr (None, r)
     else if b = 1 then bindE (r_id r) (\<lambda>(i, r). Inr (Some i, r))
     else Inl (Malformed (BadPrevMarker b)))"

definition w_manifest :: "branch_manifest \<Rightarrow> bytes" where
  "w_manifest m = w_id (bm_base m) @ w_prev (bm_prev m) @ w_vec w_id (bm_anchors m)
     @ w_vec w_id (bm_closure m) @ w_bytes (bm_index_ct m) @ w_vec w_wrapped_key (bm_kek_wraps m)"

definition r_manifest :: "reader \<Rightarrow> branch_manifest rd_result" where
  "r_manifest r =
     bindE (r_id r) (\<lambda>(base, r).
     bindE (r_prev r) (\<lambda>(prev, r).
     bindE (r_vec r_id r) (\<lambda>(anchors, r).
     bindE (r_vec r_id r) (\<lambda>(closure, r).
     bindE (r_bytes r) (\<lambda>(index_ct, r).
     bindE (r_vec r_wrapped_key r) (\<lambda>(kek_wraps, r).
     Inr (\<lparr>bm_base = base, bm_prev = prev, bm_anchors = anchors, bm_closure = closure,
           bm_index_ct = index_ct, bm_kek_wraps = kek_wraps\<rparr>, r)))))))"

definition manifest_ok :: "branch_manifest \<Rightarrow> bool" where
  "manifest_ok m \<longleftrightarrow> id_ok (bm_base m) \<and> pred_option id_ok (bm_prev m) \<and> vec_ok id_ok (bm_anchors m)
     \<and> vec_ok id_ok (bm_closure m) \<and> bytes_ok (bm_index_ct m) \<and> vec_ok wrapped_key_ok (bm_kek_wraps m)"

text \<open>What the encoder writes for a manifest: anchors and closure sorted by id.\<close>

definition sort_manifest :: "branch_manifest \<Rightarrow> branch_manifest" where
  "sort_manifest m = m\<lparr>bm_anchors := sort (bm_anchors m), bm_closure := sort (bm_closure m)\<rparr>"

section \<open>Contracts of the bodies\<close>

interpretation snapc: codec w_snapshot r_snapshot snapshot_fields_ok
proof
  fix a r s v r'
  show "snapshot_fields_ok a \<Longrightarrow> rd_at r (w_snapshot a @ s) \<Longrightarrow> yields (r_snapshot r) a s"
    unfolding r_snapshot_def w_snapshot_def snapshot_fields_ok_def append_assoc
    by (elim conjE, (erule idc.bindI idc.vec.bindI strc.bindI i64c.bindI secrefc.vec.bindI
          prefc.vec.bindI wrc.vec.bindI, simp)+, erule yields_Inr_eq, simp)
  assume "rd_at r v" "r_snapshot r = Inr (a, r')"
  from this(2,1) show "\<exists>s. v = w_snapshot a @ s \<and> rd_at r' s \<and> snapshot_fields_ok a"
    unfolding r_snapshot_def w_snapshot_def snapshot_fields_ok_def
    by (elim idc.bindD idc.vec.bindD strc.bindD i64c.bindD secrefc.vec.bindD
          prefc.vec.bindD wrc.vec.bindD) auto
qed

interpretation secretc: codec w_secret r_secret secret_ok
proof
  fix a r s v r'
  show "secret_ok a \<Longrightarrow> rd_at r (w_secret a @ s) \<Longrightarrow> yields (r_secret r) a s"
    unfolding r_secret_def w_secret_def secret_ok_def append_assoc
    by (elim conjE, (erule strc.bindI bytesc.bindI wkc.vec.bindI, simp)+, erule yields_Inr_eq, simp)
  assume "rd_at r v" "r_secret r = Inr (a, r')"
  from this(2,1) show "\<exists>s. v = w_secret a @ s \<and> rd_at r' s \<and> secret_ok a"
    unfolding r_secret_def w_secret_def secret_ok_def
    by (elim strc.bindD bytesc.bindD wkc.vec.bindD) auto
qed

interpretation sigc: codec w_signature r_signature signature_ok
proof
  fix a r s v r'
  show "signature_ok a \<Longrightarrow> rd_at r (w_signature a @ s) \<Longrightarrow> yields (r_signature r) a s"
    unfolding r_signature_def w_signature_def signature_ok_def append_assoc
    by (elim conjE, erule idc.bindI, simp, (erule r_take_bind, simp)+, erule yields_Inr_eq, simp)
  assume "rd_at r v" "r_signature r = Inr (a, r')"
  from this(2,1) show "\<exists>s. v = w_signature a @ s \<and> rd_at r' s \<and> signature_ok a"
    unfolding r_signature_def w_signature_def signature_ok_def
    by (elim idc.bindD r_take_bindD) auto
qed

interpretation transc: codec w_transcript r_transcript transcript_ok
proof
  fix a r s v r'
  show "transcript_ok a \<Longrightarrow> rd_at r (w_transcript a @ s) \<Longrightarrow> yields (r_transcript r) a s"
    unfolding r_transcript_def w_transcript_def transcript_ok_def append_assoc
    by (elim conjE, (erule idc.bindI strc.bindI bytesc.bindI wkc.vec.bindI, simp)+,
        erule yields_Inr_eq, simp)
  assume "rd_at r v" "r_transcript r = Inr (a, r')"
  from this(2,1) show "\<exists>s. v = w_transcript a @ s \<and> rd_at r' s \<and> transcript_ok a"
    unfolding r_transcript_def w_transcript_def transcript_ok_def
    by (elim idc.bindD strc.bindD bytesc.bindD wkc.vec.bindD) auto
qed

interpretation prevc: codec w_prev r_prev "pred_option id_ok"
proof
  fix a r s v r'
  show "pred_option id_ok a \<Longrightarrow> rd_at r (w_prev a @ s) \<Longrightarrow> yields (r_prev r) a s"
    unfolding r_prev_def w_prev_def
    by (cases a; simp; erule u8c.bindI; simp)
      (auto intro: yields_Inr idc.bindI)
  assume "rd_at r v" "r_prev r = Inr (a, r')"
  from this(2,1) show "\<exists>s. v = w_prev a @ s \<and> rd_at r' s \<and> pred_option id_ok a"
    unfolding r_prev_def w_prev_def
    by (elim u8c.bindD) (auto split: if_splits elim!: idc.bindD)
qed

interpretation manc: codec w_manifest r_manifest manifest_ok
proof
  fix a r s v r'
  show "manifest_ok a \<Longrightarrow> rd_at r (w_manifest a @ s) \<Longrightarrow> yields (r_manifest r) a s"
    unfolding r_manifest_def w_manifest_def manifest_ok_def append_assoc
    by (elim conjE, (erule idc.bindI prevc.bindI idc.vec.bindI bytesc.bindI wkc.vec.bindI, simp)+,
        erule yields_Inr_eq, simp)
  assume "rd_at r v" "r_manifest r = Inr (a, r')"
  from this(2,1) show "\<exists>s. v = w_manifest a @ s \<and> rd_at r' s \<and> manifest_ok a"
    unfolding r_manifest_def w_manifest_def manifest_ok_def
    by (elim idc.bindD prevc.bindD idc.vec.bindD bytesc.bindD wkc.vec.bindD) auto
qed

end
