(* ===== verification/Object_Encoding.thy ===== *)
theory Object_Encoding
  imports Object_Codec "HOL-Library.Multiset"
begin

text \<open>
  The whole-object codec \<^verbatim>\<open>Object::encode\<close> / \<^verbatim>\<open>Object::decode\<close> and content addressing
  (\<^verbatim>\<open>Object::id\<close>), over the bodies of \<^verbatim>\<open>Object_Codec\<close>, with the properties of the format.
\<close>

section \<open>Encoding and decoding\<close>

definition TAG_BLOB :: u8 where "TAG_BLOB = 0"
definition TAG_TREE :: u8 where "TAG_TREE = 1"
definition TAG_SNAPSHOT_LEGACY :: u8 where "TAG_SNAPSHOT_LEGACY = 2"
definition TAG_SECRET :: u8 where "TAG_SECRET = 3"
definition TAG_SNAPSHOT :: u8 where "TAG_SNAPSHOT = 4"
definition TAG_SIGNATURE :: u8 where "TAG_SIGNATURE = 5"
definition TAG_TRANSCRIPT :: u8 where "TAG_TRANSCRIPT = 6"
definition TAG_SEALED :: u8 where "TAG_SEALED = 7"
definition TAG_MANIFEST :: u8 where "TAG_MANIFEST = 8"

lemmas tag_defs = TAG_BLOB_def TAG_TREE_def TAG_SNAPSHOT_LEGACY_def TAG_SECRET_def TAG_SNAPSHOT_def
  TAG_SIGNATURE_def TAG_TRANSCRIPT_def TAG_SEALED_def TAG_MANIFEST_def

definition encode :: "object \<Rightarrow> bytes" where
  "encode ob = (case ob of
     Blob b \<Rightarrow> w_u8 TAG_BLOB @ b
   | Tree t \<Rightarrow> w_u8 TAG_TREE @ w_vec w_tree_entry t
   | Snapshot s \<Rightarrow> w_u8 TAG_SNAPSHOT @ w_snapshot (sort_snapshot s)
   | Secret s \<Rightarrow> w_u8 TAG_SECRET @ w_secret s
   | Signature s \<Rightarrow> w_u8 TAG_SIGNATURE @ w_signature s
   | Transcript t \<Rightarrow> w_u8 TAG_TRANSCRIPT @ w_transcript t
   | Sealed s \<Rightarrow> w_u8 TAG_SEALED @ so_payload s
   | Manifest m \<Rightarrow> w_u8 TAG_MANIFEST @ w_manifest (sort_manifest m))"

definition decode_body :: "u8 \<Rightarrow> reader \<Rightarrow> object core_result" where
  "decode_body tag r =
     (if tag = TAG_BLOB then Inr (Blob (fst (r_rest r)))
      else if tag = TAG_TREE then bindE (r_vec r_tree_entry r) (\<lambda>(t, r). Inr (Tree t))
      else if tag = TAG_SNAPSHOT_LEGACY then Inl (Malformed LegacySnapshot)
      else if tag = TAG_SNAPSHOT then bindE (r_snapshot r) (\<lambda>(s, r). Inr (Snapshot (index_maps s)))
      else if tag = TAG_SECRET then bindE (r_secret r) (\<lambda>(s, r). Inr (Secret s))
      else if tag = TAG_SIGNATURE then bindE (r_signature r) (\<lambda>(s, r).
        if r_remaining r \<noteq> 0 then Inl (Malformed TrailingSignatureBytes) else Inr (Signature s))
      else if tag = TAG_TRANSCRIPT then bindE (r_transcript r) (\<lambda>(t, r). Inr (Transcript t))
      else if tag = TAG_SEALED then Inr (Sealed \<lparr>so_payload = fst (r_rest r)\<rparr>)
      else if tag = TAG_MANIFEST then bindE (r_manifest r) (\<lambda>(m, r). Inr (Manifest m))
      else Inl (Malformed (UnknownTag tag)))"

definition decode :: "bytes \<Rightarrow> object core_result" where
  "decode b = bindE (r_u8 (rd_new b)) (\<lambda>(tag, r). decode_body tag r)"

definition object_id :: "ext \<Rightarrow> object \<Rightarrow> object_id" where
  "object_id e ob = id_of e (encode ob)"

section \<open>Well-formed and canonical objects\<close>

text \<open>Lengths that fit their \<^verbatim>\<open>u32\<close> prefixes, 32-byte ids, UTF-8 strings, ordered maps: what the Rust types and the format can represent.\<close>

definition snapshot_ok :: "snapshot \<Rightarrow> bool" where
  "snapshot_ok s \<longleftrightarrow> snapshot_fields_ok s \<and> bt_ok (sn_secrets s) \<and> bt_ok (pr_wrapped (sn_protection s))"

definition object_ok :: "object \<Rightarrow> bool" where
  "object_ok ob = (case ob of
     Blob b \<Rightarrow> True
   | Tree t \<Rightarrow> vec_ok tree_entry_ok t
   | Snapshot s \<Rightarrow> snapshot_ok s
   | Secret s \<Rightarrow> secret_ok s
   | Signature s \<Rightarrow> signature_ok s
   | Transcript t \<Rightarrow> transcript_ok t
   | Sealed s \<Rightarrow> True
   | Manifest m \<Rightarrow> manifest_ok m)"

definition canon :: "object \<Rightarrow> object" where
  "canon ob = (case ob of
     Snapshot s \<Rightarrow> Snapshot (sort_snapshot s)
   | Manifest m \<Rightarrow> Manifest (sort_manifest m)
   | _ \<Rightarrow> ob)"

lemma vec_ok_sort_key [simp]: "vec_ok P (sort_key f xs) = vec_ok P xs"
  by (simp add: vec_ok_def list_all_iff)

lemma vec_ok_map: "(\<And>x. P x \<Longrightarrow> Q (f x)) \<Longrightarrow> vec_ok P xs \<Longrightarrow> vec_ok Q (map f xs)"
  by (auto simp: vec_ok_def list_all_iff)

lemma sort_prefix_ok: "prefix_ok p \<Longrightarrow> prefix_ok (sort_prefix p)"
  by (simp add: prefix_ok_def sort_prefix_def)

lemma sort_snapshot_ok: "snapshot_ok s \<Longrightarrow> snapshot_ok (sort_snapshot s)"
  by (auto simp: snapshot_ok_def snapshot_fields_ok_def sort_snapshot_def
      intro!: vec_ok_map [where P = prefix_ok] sort_prefix_ok)

lemma sort_manifest_ok: "manifest_ok m \<Longrightarrow> manifest_ok (sort_manifest m)"
  by (simp add: manifest_ok_def sort_manifest_def)

lemma canon_ok: "object_ok ob \<Longrightarrow> object_ok (canon ob)"
  by (cases ob) (auto simp: object_ok_def canon_def sort_snapshot_ok sort_manifest_ok)

lemma sort_key_sort_key [simp]: "sort_key f (sort_key f xs) = sort_key f xs"
  by (rule sort_key_id_if_sorted) simp

lemma sort_prefix_idem [simp]: "sort_prefix (sort_prefix p) = sort_prefix p"
  by (simp add: sort_prefix_def)

lemma pp_prefix_sort_prefix [simp]: "pp_prefix (sort_prefix p) = pp_prefix p"
  by (simp add: sort_prefix_def)

lemma sort_snapshot_idem [simp]: "sort_snapshot (sort_snapshot s) = sort_snapshot s"
proof -
  have "sort_key pp_prefix (map sort_prefix (sort_key pp_prefix ps)) = map sort_prefix (sort_key pp_prefix ps)"
    for ps
    by (rule sort_key_id_if_sorted) (simp add: comp_def)
  then show ?thesis by (simp add: sort_snapshot_def comp_def)
qed

lemma sort_manifest_idem [simp]: "sort_manifest (sort_manifest m) = sort_manifest m"
  by (simp add: sort_manifest_def)

lemma encode_canon [simp]: "encode (canon ob) = encode ob"
  by (cases ob) (auto simp: encode_def canon_def)

lemma canon_idem [simp]: "canon (canon ob) = canon ob"
  by (cases ob) (auto simp: canon_def)

lemma blob_size_canon [simp]: "blob_size (canon ob) = blob_size ob"
  by (cases ob) (auto simp: blob_size_def canon_def)

section \<open>The maps of a decoded snapshot\<close>

lemma bt_insert_last: "\<forall>x \<in> set m. fst x < k \<Longrightarrow> bt_insert k v m = m @ [(k, v)]"
  by (induction m) (auto simp: less_le_not_le)

lemma bt_of_list_snoc: "bt_of_list (ps @ [(k, v)]) = bt_insert k v (bt_of_list ps)"
  by (simp add: bt_of_list_def)

lemma bt_of_list_ok: "bt_ok (bt_of_list ps)"
proof (induction ps rule: rev_induct)
  case Nil
  then show ?case by (simp add: bt_of_list_def)
next
  case (snoc p ps)
  then show ?case by (cases p) (simp add: bt_of_list_snoc)
qed

lemma bt_of_list_id: "bt_ok ps \<Longrightarrow> bt_of_list ps = ps"
proof (induction ps rule: rev_induct)
  case Nil
  then show ?case by (simp add: bt_of_list_def)
next
  case (snoc p ps)
  then show ?case by (cases p) (simp add: bt_of_list_snoc sorted_wrt_append bt_insert_last)
qed

lemma set_bt_insert: "set (bt_insert k v m) \<subseteq> insert (k, v) (set m)"
  by (induction k v m rule: bt_insert.induct) auto

lemma length_bt_insert: "length (bt_insert k v m) \<le> Suc (length m)"
  by (induction k v m rule: bt_insert.induct) auto

lemma bt_of_list_subset: "set (bt_of_list ps) \<subseteq> set ps \<and> length (bt_of_list ps) \<le> length ps"
proof (induction ps rule: rev_induct)
  case Nil
  then show ?case by (simp add: bt_of_list_def)
next
  case (snoc p ps)
  obtain k v where p: "p = (k, v)" by (cases p)
  show ?case using snoc set_bt_insert [of k v "bt_of_list ps"] length_bt_insert [of k v "bt_of_list ps"]
    by (auto simp: p bt_of_list_snoc)
qed

lemma vec_ok_bt_of_list: "vec_ok P ps \<Longrightarrow> vec_ok P (bt_of_list ps)"
  using bt_of_list_subset [of ps] by (auto simp: vec_ok_def list_all_iff)

lemma index_maps_ok: "snapshot_fields_ok s \<Longrightarrow> snapshot_ok (index_maps s)"
  by (simp add: snapshot_ok_def index_maps_def snapshot_fields_ok_def vec_ok_bt_of_list bt_of_list_ok)

lemma index_maps_id: "snapshot_ok s \<Longrightarrow> index_maps s = s"
  by (simp add: snapshot_ok_def index_maps_def bt_of_list_id)

section \<open>Decoding what was encoded\<close>

lemma r_u8_new: "yields (r_u8 (rd_new (w_u8 t @ s))) t s"
  by (rule u8c.enc_dec) simp_all

lemma decode_tagged: "\<exists>r. decode (w_u8 t @ s) = decode_body t r \<and> rd_at r s"
  using r_u8_new [of t s] by (auto simp: decode_def yields_def)

lemma r_rest_at: "rd_at r s \<Longrightarrow> fst (r_rest r) = s"
  by (simp add: r_rest_def rd_at_def)

lemma decode_inv:
  assumes "decode b = Inr ob"
  obtains t s r where "b = w_u8 t @ s" "rd_at r s" "decode_body t r = Inr ob"
  using assms unfolding decode_def by (elim u8c.bindD) auto

lemma bind_final:
  assumes "yields m a []" "\<And>r. rd_at r [] \<Longrightarrow> g a r = x"
  shows "bindE m (case_prod g) = x"
  using assms by (auto simp: yields_def)

lemma decode_encode_lemma:
  assumes ok: "object_ok ob"
  shows "decode (encode ob) = Inr (canon ob)"
proof -
  have step: "decode (w_u8 t @ s) = x" if "\<And>r. rd_at r s \<Longrightarrow> decode_body t r = x" for t s x
    using decode_tagged [of t s] that by auto
  show ?thesis
  proof (cases ob)
    case (Blob b)
    then show ?thesis
      by (simp add: encode_def canon_def) (rule step, simp add: decode_body_def r_rest_at)
  next
    case (Tree t)
    with ok show ?thesis
      by (simp add: encode_def canon_def object_ok_def)
        (rule step, auto simp: decode_body_def tag_defs intro!: bind_final tec.vec.enc_dec)
  next
    case (Snapshot s)
    with ok have "snapshot_ok (sort_snapshot s)" by (simp add: object_ok_def sort_snapshot_ok)
    with Snapshot show ?thesis
      by (simp add: encode_def canon_def)
        (rule step, auto simp: decode_body_def tag_defs index_maps_id snapshot_ok_def
          intro!: bind_final snapc.enc_dec)
  next
    case (Secret s)
    with ok show ?thesis
      by (simp add: encode_def canon_def object_ok_def)
        (rule step, auto simp: decode_body_def tag_defs intro!: bind_final secretc.enc_dec)
  next
    case (Signature s)
    with ok show ?thesis
      by (simp add: encode_def canon_def object_ok_def)
        (rule step, auto simp: decode_body_def tag_defs r_remaining_at intro!: bind_final sigc.enc_dec)
  next
    case (Transcript t)
    with ok show ?thesis
      by (simp add: encode_def canon_def object_ok_def)
        (rule step, auto simp: decode_body_def tag_defs intro!: bind_final transc.enc_dec)
  next
    case (Sealed s)
    then show ?thesis
      by (simp add: encode_def canon_def) (rule step, simp add: decode_body_def tag_defs r_rest_at)
  next
    case (Manifest m)
    with ok have "manifest_ok (sort_manifest m)" by (simp add: object_ok_def sort_manifest_ok)
    with Manifest show ?thesis
      by (simp add: encode_def canon_def)
        (rule step, auto simp: decode_body_def tag_defs intro!: bind_final manc.enc_dec)
  qed
qed


section \<open>What decoding accepts\<close>

text \<open>The bytes behind the tag of an accepted object, kind by kind.\<close>

definition accepted_body :: "object \<Rightarrow> u8 \<Rightarrow> bytes \<Rightarrow> bool" where
  "accepted_body ob t s = (case ob of
     Blob b \<Rightarrow> t = TAG_BLOB \<and> s = b
   | Tree tr \<Rightarrow> t = TAG_TREE \<and> (\<exists>x. s = w_vec w_tree_entry tr @ x)
   | Snapshot sn \<Rightarrow> t = TAG_SNAPSHOT \<and> (\<exists>raw x. s = w_snapshot raw @ x \<and> sn = index_maps raw)
   | Secret se \<Rightarrow> t = TAG_SECRET \<and> (\<exists>x. s = w_secret se @ x)
   | Signature si \<Rightarrow> t = TAG_SIGNATURE \<and> s = w_signature si
   | Transcript tr \<Rightarrow> t = TAG_TRANSCRIPT \<and> (\<exists>x. s = w_transcript tr @ x)
   | Sealed so \<Rightarrow> t = TAG_SEALED \<and> s = so_payload so
   | Manifest m \<Rightarrow> t = TAG_MANIFEST \<and> (\<exists>x. s = w_manifest m @ x))"

lemma decode_body_inv:
  assumes "rd_at r s" "decode_body t r = Inr ob"
  shows "object_ok ob \<and> accepted_body ob t s"
proof -
  have tree: "object_ok ob \<and> accepted_body ob TAG_TREE s"
    if "bindE (r_vec r_tree_entry r) (\<lambda>(t, r). Inr (Tree t)) = Inr ob"
    using that assms(1) by (elim tec.vec.bindD) (auto simp: object_ok_def accepted_body_def)
  have snap: "object_ok ob \<and> accepted_body ob TAG_SNAPSHOT s"
    if "bindE (r_snapshot r) (\<lambda>(s, r). Inr (Snapshot (index_maps s))) = Inr ob"
    using that assms(1)
    by (elim snapc.bindD) (auto simp: object_ok_def accepted_body_def index_maps_ok, blast)
  have sec: "object_ok ob \<and> accepted_body ob TAG_SECRET s"
    if "bindE (r_secret r) (\<lambda>(s, r). Inr (Secret s)) = Inr ob"
    using that assms(1) by (elim secretc.bindD) (auto simp: object_ok_def accepted_body_def)
  have sig: "object_ok ob \<and> accepted_body ob TAG_SIGNATURE s"
    if "bindE (r_signature r) (\<lambda>(s, r). if r_remaining r \<noteq> 0
        then Inl (Malformed TrailingSignatureBytes) else Inr (Signature s)) = Inr ob"
    using that assms(1)
    by (elim sigc.bindD) (auto simp: object_ok_def accepted_body_def r_remaining_at split: if_splits)
  have tra: "object_ok ob \<and> accepted_body ob TAG_TRANSCRIPT s"
    if "bindE (r_transcript r) (\<lambda>(t, r). Inr (Transcript t)) = Inr ob"
    using that assms(1) by (elim transc.bindD) (auto simp: object_ok_def accepted_body_def)
  have man: "object_ok ob \<and> accepted_body ob TAG_MANIFEST s"
    if "bindE (r_manifest r) (\<lambda>(m, r). Inr (Manifest m)) = Inr ob"
    using that assms(1) by (elim manc.bindD) (auto simp: object_ok_def accepted_body_def)
  show ?thesis
    using assms(2) tree snap sec sig tra man
    unfolding decode_body_def
    by (auto simp: object_ok_def accepted_body_def r_rest_at [OF assms(1)] split: if_splits)
qed

lemma decode_sound:
  assumes "decode b = Inr ob"
  obtains t s where "b = w_u8 t @ s" "object_ok ob" "accepted_body ob t s"
  using assms by (metis decode_inv decode_body_inv)

section \<open>Truncation\<close>

definition self_delimiting :: "object \<Rightarrow> bool" where
  "self_delimiting ob \<longleftrightarrow> \<not> (\<exists>b. ob = Blob b) \<and> \<not> (\<exists>s. ob = Sealed s)"

lemma isErr_bind_cut: "isErr m \<Longrightarrow> isErr (bindE m f)"
  by (cases m) auto

lemma decode_body_cut:
  assumes "object_ok ob" "self_delimiting ob" "encode ob = w_u8 t @ s" "rd_at r p" "strict_prefix p s"
  shows "isErr (decode_body t r)"
proof (cases ob)
  case (Tree tr)
  with assms show ?thesis
    by (auto simp: encode_def w_u8_def decode_body_def tag_defs object_ok_def
        intro!: isErr_bind_cut tec.vec.dec_cut)
next
  case (Snapshot sn)
  with assms have "snapshot_fields_ok (sort_snapshot sn)"
    using sort_snapshot_ok by (auto simp: object_ok_def snapshot_ok_def)
  with assms Snapshot show ?thesis
    by (auto simp: encode_def w_u8_def decode_body_def tag_defs intro!: isErr_bind_cut snapc.dec_cut)
next
  case (Secret se)
  with assms show ?thesis
    by (auto simp: encode_def w_u8_def decode_body_def tag_defs object_ok_def
        intro!: isErr_bind_cut secretc.dec_cut)
next
  case (Signature si)
  with assms show ?thesis
    by (auto simp: encode_def w_u8_def decode_body_def tag_defs object_ok_def
        intro!: isErr_bind_cut sigc.dec_cut)
next
  case (Transcript tr)
  with assms show ?thesis
    by (auto simp: encode_def w_u8_def decode_body_def tag_defs object_ok_def
        intro!: isErr_bind_cut transc.dec_cut)
next
  case (Manifest m)
  with assms have "manifest_ok (sort_manifest m)" by (auto simp: object_ok_def sort_manifest_ok)
  with assms Manifest show ?thesis
    by (auto simp: encode_def w_u8_def decode_body_def tag_defs intro!: isErr_bind_cut manc.dec_cut)
qed (use assms in \<open>auto simp: self_delimiting_def\<close>)

lemma encode_tag: "\<exists>t s. encode ob = w_u8 t @ s"
  by (cases ob) (auto simp: encode_def)

lemma decode_Nil: "decode [] = Inl (Malformed UnexpectedEnd)"
  by (simp add: decode_def rd_new_def r_u8_def r_take_def)

lemma decode_cut_lemma:
  assumes "object_ok ob" "self_delimiting ob" "strict_prefix p (encode ob)"
  shows "isErr (decode p)"
proof (cases p)
  case Nil
  then show ?thesis by (simp add: decode_Nil)
next
  case (Cons c q)
  obtain t s where e: "encode ob = w_u8 t @ s" using encode_tag by blast
  with assms(3) Cons have q: "c = t" "strict_prefix q s" by (auto simp: w_u8_def)
  from decode_tagged [of t q] obtain r where "decode (w_u8 t @ q) = decode_body t r" "rd_at r q" by blast
  with decode_body_cut [OF assms(1,2) e this(2) q(2)] Cons q show ?thesis by (simp add: w_u8_def)
qed

section \<open>Order of insertion\<close>

lemma mset_eq_sort_key:
  assumes "mset xs = mset ys" "distinct (map f xs)"
  shows "sort_key f xs = sort_key f ys"
proof -
  have "distinct (map f ys)"
    using mset_eq_imp_distinct_iff [of "map f xs" "map f ys"] assms by simp
  moreover have "set xs = set ys" using assms(1) by (rule mset_eq_setD)
  ultimately show ?thesis
    using assms by (intro map_sorted_distinct_set_unique [where f = f])
      (auto simp: distinct_map)
qed

lemma sort_prefix_eq:
  assumes "pp_prefix p = pp_prefix q" "mset (pp_recipients p) = mset (pp_recipients q)" "registers_ok p"
  shows "sort_prefix p = sort_prefix q"
  using assms mset_eq_sort_key [of "pp_recipients p" "pp_recipients q" re_key]
  by (simp add: sort_prefix_def registers_ok_def)

end
