(* ===== verification/Io_Read.thy ===== *)
theory Io_Read
  imports Object_Encoding
begin

text \<open>
  Untrusted input (\<^verbatim>\<open>crates/core/src/lib.rs\<close>): the process-wide object size cap and the bounded
  readers. A \<^verbatim>\<open>Read\<close> source is the list of what its \<^verbatim>\<open>read\<close> calls will meet: a chunk of bytes
  (split when the caller's buffer is shorter), an interrupted call or a failure; the end of the
  list is the end of the stream. The theorems show that the bounded readers return the same
  bytes however the stream is cut into chunks, and bound the buffer they grow.
\<close>

section \<open>Readers\<close>

datatype io_event = Chunk bytes | Intr | Fail

type_synonym source = "io_event list"

fun rd_read :: "nat \<Rightarrow> source \<Rightarrow> (io_kind + bytes) \<times> source" where
  "rd_read n [] = (Inr [], [])"
| "rd_read n (Intr # r) = (Inl InterruptedIo, r)"
| "rd_read n (Fail # r) = (Inl OtherIo, r)"
| "rd_read n (Chunk b # r) = (if length b \<le> n then (Inr b, r) else (Inr (take n b), Chunk (drop n b) # r))"

text \<open>No \<^verbatim>\<open>read\<close> call returns zero bytes before the end of the stream.\<close>

definition source_ok :: "source \<Rightarrow> bool" where
  "source_ok r \<longleftrightarrow> Chunk [] \<notin> set r"

fun content :: "source \<Rightarrow> bytes" where
  "content [] = []"
| "content (Intr # r) = content r"
| "content (Fail # r) = []"
| "content (Chunk b # r) = b @ content r"

text \<open>Whether the stream fails after its content.\<close>

fun fails :: "source \<Rightarrow> bool" where
  "fails [] = False"
| "fails (Intr # r) = fails r"
| "fails (Fail # r) = True"
| "fails (Chunk b # r) = fails r"

fun source_size :: "source \<Rightarrow> nat" where
  "source_size [] = 0"
| "source_size (Chunk b # r) = Suc (length b) + source_size r"
| "source_size (_ # r) = Suc (source_size r)"

section \<open>The bounded readers\<close>

definition READ_STEP :: nat where "READ_STEP = 8 * 1024 * 1024"

definition clamp :: "nat \<Rightarrow> nat \<Rightarrow> nat \<Rightarrow> nat" where
  "clamp x lo hi = (if x < lo then lo else if x > hi then hi else x)"

definition next_step :: "nat \<Rightarrow> nat" where
  "next_step filled =
     (if filled < READ_STEP then clamp filled (64 * 1024) READ_STEP else max READ_STEP (filled div 8))"

definition grow :: "nat \<Rightarrow> nat \<Rightarrow> nat \<Rightarrow> nat \<Rightarrow> nat" where
  "grow limit first_step filled buflen =
     (if filled = buflen
      then let want = (if filled = 0 then clamp first_step 1 READ_STEP else next_step filled)
           in filled + min want (limit - filled)
      else buflen)"

lemma READ_STEP_pos: "0 < READ_STEP" "64 * 1024 \<le> READ_STEP"
  by (simp_all add: READ_STEP_def)

lemma want_pos: "0 < clamp first_step 1 READ_STEP" "0 < next_step filled"
  using READ_STEP_pos by (auto simp: clamp_def next_step_def less_max_iff_disj)

lemma rd_read_size: "rd_read n r = (x, r') \<Longrightarrow> 0 < n \<Longrightarrow> x \<noteq> Inr [] \<Longrightarrow> source_size r' < source_size r"
  by (induction n r rule: rd_read.induct) (auto split: if_splits)

lemma grow_gt: "filled < limit \<Longrightarrow> filled \<le> buflen \<Longrightarrow> filled < grow limit fs filled buflen"
  using want_pos by (auto simp: grow_def Let_def)

text \<open>
  The loop of \<^verbatim>\<open>read_limited\<close>: \<open>data\<close> are the bytes received, \<open>buflen\<close> the length of the buffer.
  The result carries the final buffer length, which is its peak.
\<close>

function read_loop ::
  "nat \<Rightarrow> nat \<Rightarrow> bytes \<Rightarrow> nat \<Rightarrow> source \<Rightarrow> (io_kind + bytes) \<times> nat \<times> source" where
  "read_loop limit fs data buflen r =
     (if length data < limit \<and> length data \<le> buflen then
        let buflen' = grow limit fs (length data) buflen in
        (case rd_read (buflen' - length data) r of
           (Inr b, r') \<Rightarrow>
             if b = [] then (Inr data, buflen', r') else read_loop limit fs (data @ b) buflen' r'
         | (Inl InterruptedIo, r') \<Rightarrow> read_loop limit fs data buflen' r'
         | (Inl k, r') \<Rightarrow> (Inl k, buflen', r'))
      else (Inr data, buflen, r))"
  by pat_completeness auto

termination
  by (relation "measure (\<lambda>(limit, fs, data, buflen, r). source_size r)")
    (auto dest!: sym [of "(_, _)"] dest: rd_read_size [OF _ _ sum.distinct(1)]
      rd_read_size [where x = "Inr _"] simp: grow_gt)

declare read_loop.simps [simp del]

definition read_limited :: "nat \<Rightarrow> nat \<Rightarrow> source \<Rightarrow> (io_kind + bytes) \<times> source" where
  "read_limited limit first_step r = (case read_loop limit first_step [] 0 r of (x, _, r') \<Rightarrow> (x, r'))"

definition read_exact_vec :: "nat \<Rightarrow> source \<Rightarrow> (io_kind + bytes) \<times> source" where
  "read_exact_vec len r =
     (case read_limited len len r of
        (Inl k, r') \<Rightarrow> (Inl k, r')
      | (Inr buf, r') \<Rightarrow> if length buf < len then (Inl UnexpectedEof, r') else (Inr buf, r'))"

text \<open>\<^verbatim>\<open>pack.rs\<close>'s \<^verbatim>\<open>read_up_to\<close>: every error of \<^verbatim>\<open>read\<close> is passed on, also an interrupted call.\<close>

function read_up_to :: "nat \<Rightarrow> bytes \<Rightarrow> source \<Rightarrow> (io_kind + bytes) \<times> source" where
  "read_up_to n data r =
     (if length data < n then
        (case rd_read (n - length data) r of
           (Inl k, r') \<Rightarrow> (Inl k, r')
         | (Inr b, r') \<Rightarrow> if b = [] then (Inr data, r') else read_up_to n (data @ b) r')
      else (Inr data, r))"
  by pat_completeness auto
termination
  by (relation "measure (\<lambda>(n, data, r). source_size r)")
    (auto dest!: sym [of "(_, _)"] dest: rd_read_size [OF _ _ sum.distinct(1)]
      rd_read_size [where x = "Inr _"] simp: grow_gt)

declare read_up_to.simps [simp del]

text \<open>\<^verbatim>\<open>Read::read_exact\<close> of the standard library, which retries an interrupted call.\<close>

function read_exact :: "nat \<Rightarrow> bytes \<Rightarrow> source \<Rightarrow> (io_kind + bytes) \<times> source" where
  "read_exact n data r =
     (if length data < n then
        (case rd_read (n - length data) r of
           (Inr b, r') \<Rightarrow> if b = [] then (Inl UnexpectedEof, r') else read_exact n (data @ b) r'
         | (Inl InterruptedIo, r') \<Rightarrow> read_exact n data r'
         | (Inl k, r') \<Rightarrow> (Inl k, r'))
      else (Inr data, r))"
  by pat_completeness auto
termination
  by (relation "measure (\<lambda>(n, data, r). source_size r)")
    (auto dest!: sym [of "(_, _)"] dest: rd_read_size [OF _ _ sum.distinct(1)]
      rd_read_size [where x = "Inr _"] simp: grow_gt)

declare read_exact.simps [simp del]


section \<open>Independence of the chunking\<close>

lemma rd_read_data:
  "rd_read n r = (Inr b, r') \<Longrightarrow> b \<noteq> [] \<Longrightarrow>
   content r = b @ content r' \<and> fails r' = fails r \<and> length b \<le> n"
  by (induction n r rule: rd_read.induct) (auto split: if_splits)

lemma rd_read_eof: "rd_read n r = (Inr [], r') \<Longrightarrow> 0 < n \<Longrightarrow> source_ok r \<Longrightarrow> r = [] \<and> r' = []"
  by (induction n r rule: rd_read.induct) (auto simp: source_ok_def split: if_splits)

lemma rd_read_intr:
  "rd_read n r = (Inl InterruptedIo, r') \<Longrightarrow> content r' = content r \<and> fails r' = fails r"
  by (induction n r rule: rd_read.induct) (auto split: if_splits)

lemma rd_read_fail:
  "rd_read n r = (Inl k, r') \<Longrightarrow> k \<noteq> InterruptedIo \<Longrightarrow> k = OtherIo \<and> content r = [] \<and> fails r"
  by (induction n r rule: rd_read.induct) (auto split: if_splits)

lemma rd_read_ok: "rd_read n r = (x, r') \<Longrightarrow> 0 < n \<Longrightarrow> source_ok r \<Longrightarrow> source_ok r'"
  by (induction n r rule: rd_read.induct) (auto simp: source_ok_def split: if_splits)

text \<open>What a bounded read of a stream must give: the first \<open>limit\<close> bytes, or all of a shorter stream that ends cleanly, or the failure.\<close>

definition limited_spec :: "nat \<Rightarrow> bytes \<Rightarrow> bool \<Rightarrow> io_kind + bytes" where
  "limited_spec limit c f =
     (if limit \<le> length c then Inr (take limit c) else if f then Inl OtherIo else Inr c)"

lemma grow_le: "filled \<le> limit \<Longrightarrow> buflen \<le> limit \<Longrightarrow> grow limit fs filled buflen \<le> limit"
  by (auto simp: grow_def Let_def)

lemma grow_slack:
  assumes "buflen \<le> filled + max READ_STEP (filled div 8)"
  shows "grow limit fs filled buflen \<le> filled + max READ_STEP (filled div 8)"
  using assms READ_STEP_pos
  by (auto simp: grow_def Let_def clamp_def next_step_def min_def max_def)

lemma slack_mono: "n \<le> m \<Longrightarrow> n + max READ_STEP (n div 8) \<le> m + max READ_STEP (m div (8::nat))"
  by (intro add_mono max.mono div_le_mono) auto

lemma read_loop_spec:
  assumes "source_ok r" "length data \<le> buflen" "buflen \<le> limit"
    and "buflen \<le> length data + max READ_STEP (length data div 8)"
    and "read_loop limit fs data buflen r = (x, peak, r')"
  shows "x = limited_spec limit (data @ content r) (fails r)
    \<and> (limit \<le> length (data @ content r) \<longrightarrow>
        content r' = drop (limit - length data) (content r) \<and> fails r' = fails r \<and> source_ok r')
    \<and> peak \<le> length (data @ content r) + max READ_STEP (length (data @ content r) div 8)"
  using assms
proof (induction limit fs data buflen r arbitrary: x rule: read_loop.induct)
  case (1 limit fs data buflen r)
  note len = \<open>length data \<le> buflen\<close> \<open>buflen \<le> limit\<close>
    and slack = \<open>buflen \<le> length data + max READ_STEP (length data div 8)\<close> and ok = \<open>source_ok r\<close>
  let ?b = "grow limit fs (length data) buflen"
  show ?case
  proof (cases "length data < limit")
    case False
    then show ?thesis
      using 1 slack_mono [of "length data" "length (data @ content r)"]
      by (auto simp: read_loop.simps [of limit fs data buflen r] limited_spec_def)
  next
    case True
    have gt: "length data < ?b" and le: "?b \<le> limit"
      using grow_gt [OF True len(1)] grow_le [of "length data" limit buflen fs] len by auto
    have sl: "?b \<le> length data + max READ_STEP (length data div 8)" by (rule grow_slack [OF slack])
    obtain y s where rd: "rd_read (?b - length data) r = (y, s)" by (cases "rd_read (?b - length data) r")
    have oks: "source_ok s" using rd_read_ok [OF rd] gt ok by simp
    consider (eof) "y = Inr []" | (data) b where "y = Inr b" "b \<noteq> []"
      | (intr) "y = Inl InterruptedIo" | (fail) k where "y = Inl k" "k \<noteq> InterruptedIo"
      by (cases y) auto
    then show ?thesis
    proof cases
      case eof
      then have "r = []" using rd_read_eof [OF rd [unfolded eof] _ ok] gt by simp
      with eof rd True len "1.prems"(5) sl show ?thesis
        by (auto simp: read_loop.simps [of limit fs data buflen "[]"] limited_spec_def)
    next
      case data
      from rd_read_data [OF rd [unfolded data(1)] data(2)]
      have c: "content r = b @ content s" "fails s = fails r" "length b \<le> ?b - length data" by auto
      have rec: "read_loop limit fs (data @ b) ?b s = (x, peak, r')"
        using "1.prems"(5) True len rd data
        by (simp add: read_loop.simps [of limit fs data buflen r])
      have "x = limited_spec limit ((data @ b) @ content s) (fails s)
        \<and> (limit \<le> length ((data @ b) @ content s) \<longrightarrow>
            content r' = drop (limit - length (data @ b)) (content s) \<and> fails r' = fails s \<and> source_ok r')
        \<and> peak \<le> length ((data @ b) @ content s) + max READ_STEP (length ((data @ b) @ content s) div 8)"
        using "1.IH"(2) [OF _ refl rd [symmetric] data(1)] True len data(2) oks c(3) gt le rec
          order_trans [OF sl slack_mono [of "length data" "length (data @ b)"]]
        by (auto simp: )
      then show ?thesis using c True len gt le by (auto simp: drop_append)
    next
      case intr
      from rd_read_intr [OF rd [unfolded intr]]
      have c: "content s = content r" "fails s = fails r" by auto
      have rec: "read_loop limit fs data ?b s = (x, peak, r')"
        using "1.prems"(5) True len rd intr
        by (simp add: read_loop.simps [of limit fs data buflen r])
      show ?thesis
        using "1.IH"(1) [OF _ refl rd [symmetric] intr refl] True len oks gt le sl rec c by auto
    next
      case fail
      from rd_read_fail [OF rd [unfolded fail(1)] fail(2)]
      have "k = OtherIo" "content r = []" "fails r" by auto
      with fail rd True len "1.prems"(5) sl show ?thesis
        by (auto simp: read_loop.simps [of limit fs data buflen r] limited_spec_def)
    qed
  qed
qed

lemma read_limited_spec:
  assumes "source_ok r"
  shows "fst (read_limited limit fs r) = limited_spec limit (content r) (fails r)"
    and "limit \<le> length (content r) \<Longrightarrow>
      content (snd (read_limited limit fs r)) = drop limit (content r)
      \<and> fails (snd (read_limited limit fs r)) = fails r \<and> source_ok (snd (read_limited limit fs r))"
  using read_loop_spec [OF assms, of "[]" 0 limit fs]
  by (auto simp: read_limited_def split: prod.splits)

lemma read_exact_vec_spec:
  assumes "source_ok r"
  shows "fst (read_exact_vec len r) =
      (if len \<le> length (content r) then Inr (take len (content r))
       else Inl (if fails r then OtherIo else UnexpectedEof))"
    and "len \<le> length (content r) \<Longrightarrow>
      content (snd (read_exact_vec len r)) = drop len (content r)
      \<and> fails (snd (read_exact_vec len r)) = fails r \<and> source_ok (snd (read_exact_vec len r))"
  using read_limited_spec [OF assms, of len len]
  by (auto simp: read_exact_vec_def limited_spec_def split: prod.splits sum.splits if_splits)

lemma read_exact_spec:
  assumes "source_ok r" "length data \<le> n"
  shows "fst (read_exact n data r) =
      (if n \<le> length (data @ content r) then Inr (take n (data @ content r))
       else Inl (if fails r then OtherIo else UnexpectedEof))
    \<and> (n \<le> length (data @ content r) \<longrightarrow>
      content (snd (read_exact n data r)) = drop (n - length data) (content r)
      \<and> fails (snd (read_exact n data r)) = fails r \<and> source_ok (snd (read_exact n data r)))"
  using assms
proof (induction n data r rule: read_exact.induct)
  case (1 n data r)
  show ?case
  proof (cases "length data < n")
    case False
    with 1 show ?thesis by (simp add: read_exact.simps [of n data r])
  next
    case True
    obtain y s where rd: "rd_read (n - length data) r = (y, s)" by (cases "rd_read (n - length data) r")
    have oks: "source_ok s" using rd_read_ok [OF rd] True "1.prems" by simp
    consider (eof) "y = Inr []" | (data) b where "y = Inr b" "b \<noteq> []"
      | (intr) "y = Inl InterruptedIo" | (fail) k where "y = Inl k" "k \<noteq> InterruptedIo"
      by (cases y) auto
    then show ?thesis
    proof cases
      case eof
      with rd_read_eof [OF rd [unfolded eof] _ "1.prems"(1)] True rd show ?thesis
        by (auto simp: read_exact.simps [of n data "[]"])
    next
      case data
      from rd_read_data [OF rd [unfolded data(1)] data(2)]
      have c: "content r = b @ content s" "fails s = fails r" "length b \<le> n - length data" by auto
      have "read_exact n data r = read_exact n (data @ b) s"
        using True rd data by (simp add: read_exact.simps [of n data r])
      with "1.IH"(2) [OF True rd [symmetric] data(1,2) oks] c True show ?thesis by (auto simp: drop_append)
    next
      case intr
      from rd_read_intr [OF rd [unfolded intr]] have "content s = content r" "fails s = fails r" by auto
      moreover have "read_exact n data r = read_exact n data s"
        using True rd intr by (simp add: read_exact.simps [of n data r])
      ultimately show ?thesis
        using "1.IH"(1) [OF True rd [symmetric] intr refl oks "1.prems"(2)] by auto
    next
      case fail
      from rd_read_fail [OF rd [unfolded fail(1)] fail(2)] fail rd True show ?thesis
        by (auto simp: read_exact.simps [of n data r])
    qed
  qed
qed


text \<open>\<open>read_up_to\<close> agrees with the other readers on a source without interrupted calls.\<close>

definition no_intr :: "source \<Rightarrow> bool" where
  "no_intr r \<longleftrightarrow> Intr \<notin> set r"

lemma rd_read_no_intr:
  "rd_read n r = (x, r') \<Longrightarrow> no_intr r \<Longrightarrow> no_intr r' \<and> x \<noteq> Inl InterruptedIo"
  by (induction n r rule: rd_read.induct) (auto simp: no_intr_def split: if_splits)

lemma read_up_to_spec:
  assumes "source_ok r" "no_intr r" "length data \<le> n"
  shows "fst (read_up_to n data r) = limited_spec n (data @ content r) (fails r)
    \<and> (n \<le> length (data @ content r) \<longrightarrow>
      content (snd (read_up_to n data r)) = drop (n - length data) (content r)
      \<and> fails (snd (read_up_to n data r)) = fails r \<and> source_ok (snd (read_up_to n data r))
      \<and> no_intr (snd (read_up_to n data r)))"
  using assms
proof (induction n data r rule: read_up_to.induct)
  case (1 n data r)
  show ?case
  proof (cases "length data < n")
    case False
    with 1 show ?thesis by (simp add: read_up_to.simps [of n data r] limited_spec_def)
  next
    case True
    obtain y s where rd: "rd_read (n - length data) r = (y, s)" by (cases "rd_read (n - length data) r")
    have oks: "source_ok s" "no_intr s"
      using rd_read_ok [OF rd] rd_read_no_intr [OF rd] True "1.prems" by auto
    consider (eof) "y = Inr []" | (data) b where "y = Inr b" "b \<noteq> []"
      | (fail) k where "y = Inl k" "k \<noteq> InterruptedIo"
      using rd_read_no_intr [OF rd "1.prems"(2)] by (cases y) auto
    then show ?thesis
    proof cases
      case eof
      with rd_read_eof [OF rd [unfolded eof] _ "1.prems"(1)] True rd show ?thesis
        by (auto simp: read_up_to.simps [of n data "[]"] limited_spec_def)
    next
      case data
      from rd_read_data [OF rd [unfolded data(1)] data(2)]
      have c: "content r = b @ content s" "fails s = fails r" "length b \<le> n - length data" by auto
      have "read_up_to n data r = read_up_to n (data @ b) s"
        using True rd data by (simp add: read_up_to.simps [of n data r])
      with "1.IH" [OF True rd [symmetric] data(1,2) oks] c True show ?thesis by (auto simp: drop_append)
    next
      case fail
      from rd_read_fail [OF rd [unfolded fail(1)] fail(2)] fail rd True show ?thesis
        by (auto simp: read_up_to.simps [of n data r] limited_spec_def)
    qed
  qed
qed

section \<open>The object size cap\<close>

definition DEFAULT_MAX_OBJECT_SIZE :: nat where "DEFAULT_MAX_OBJECT_SIZE = 256 * 1024 * 1024"
definition MIN_MAX_OBJECT_SIZE :: nat where "MIN_MAX_OBJECT_SIZE = 2 * 1024 * 1024"
definition MAX_MAX_OBJECT_SIZE :: nat where "MAX_MAX_OBJECT_SIZE = 1024 * 1024 * 1024"

datatype cap_error = OutOfRange nat | AlreadyFixed nat

text \<open>The \<^verbatim>\<open>OnceLock\<close>: \<open>None\<close> until the first call fixes the value.\<close>

type_synonym size_cell = "nat option"

definition get_or_init :: "nat \<Rightarrow> size_cell \<Rightarrow> nat \<times> size_cell" where
  "get_or_init n c = (case c of None \<Rightarrow> (n, Some n) | Some m \<Rightarrow> (m, c))"

definition max_object_size :: "size_cell \<Rightarrow> nat \<times> size_cell" where
  "max_object_size c = get_or_init DEFAULT_MAX_OBJECT_SIZE c"

definition check_object_size_bounds :: "nat \<Rightarrow> cap_error + unit" where
  "check_object_size_bounds n =
     (if MIN_MAX_OBJECT_SIZE \<le> n \<and> n \<le> MAX_MAX_OBJECT_SIZE then Inr () else Inl (OutOfRange n))"

definition set_max_object_size :: "nat \<Rightarrow> size_cell \<Rightarrow> (cap_error + unit) \<times> size_cell" where
  "set_max_object_size n c =
     (case check_object_size_bounds n of
        Inl err \<Rightarrow> (Inl err, c)
      | Inr _ \<Rightarrow>
          let (cur, c') = get_or_init n c
          in (if cur = n then Inr () else Inl (AlreadyFixed cur), c'))"

text \<open>The calls a process makes, in any order, on the cell.\<close>

datatype cap_call = MaxObjectSize | SetMaxObjectSize nat

fun cap_step :: "size_cell \<Rightarrow> cap_call \<Rightarrow> size_cell" where
  "cap_step c MaxObjectSize = snd (max_object_size c)"
| "cap_step c (SetMaxObjectSize n) = snd (set_max_object_size n c)"

definition cap_ok :: "size_cell \<Rightarrow> bool" where
  "cap_ok c \<longleftrightarrow> (\<forall>n. c = Some n \<longrightarrow> MIN_MAX_OBJECT_SIZE \<le> n \<and> n \<le> MAX_MAX_OBJECT_SIZE)"

lemmas cap_defs = max_object_size_def set_max_object_size_def check_object_size_bounds_def get_or_init_def
  DEFAULT_MAX_OBJECT_SIZE_def MIN_MAX_OBJECT_SIZE_def MAX_MAX_OBJECT_SIZE_def cap_ok_def

lemma cap_step_ok: "cap_ok c \<Longrightarrow> cap_ok (cap_step c a)"
  by (cases a) (auto simp: cap_defs split: option.splits if_splits)

lemma cap_step_fixed: "c = Some n \<Longrightarrow> cap_step c a = Some n"
  by (cases a) (auto simp: cap_defs split: if_splits)

lemma cap_run_ok: "cap_ok c \<Longrightarrow> cap_ok (foldl cap_step c calls)"
  by (induction calls arbitrary: c) (simp_all add: cap_step_ok)

lemma cap_run_fixed: "foldl cap_step (Some n) calls = Some n"
  by (induction calls) (simp_all add: cap_step_fixed)

end
