(* ===== verification/Pack.thy ===== *)
theory Pack
  imports Io_Read
begin

text \<open>
  The packfile format (\<^verbatim>\<open>crates/core/src/pack.rs\<close>): building a pack and its index, the streaming
  writer, the index parser, random access to one record, and the whole-pack and streaming
  parsers. \<open>zstd\<close> and BLAKE3 are taken from the \<open>ext\<close> record. Offsets and lengths are \<^verbatim>\<open>u64\<close>; the
  only place where their width matters is \<open>record_bounds\<close>, which adds to an offset it was given.
\<close>

section \<open>Building packs\<close>

definition PACK_MAGIC :: bytes where "PACK_MAGIC = str_bytes ''SCPK''"
definition IDX_MAGIC :: bytes where "IDX_MAGIC = str_bytes ''SCIX''"
definition FORMAT_VERSION :: nat where "FORMAT_VERSION = 1"

record index_entry =
  ie_id :: object_id
  ie_offset :: nat
  ie_length :: nat

definition pack_header :: bytes where
  "pack_header = PACK_MAGIC @ nat_le 4 FORMAT_VERSION"

fun pack_records ::
  "ext \<Rightarrow> (object_id \<times> bytes) list \<Rightarrow> bytes \<Rightarrow> index_entry list \<Rightarrow> (bytes \<times> index_entry list) core_result" where
  "pack_records e [] pack entries = Inr (pack, entries)"
| "pack_records e ((i, canonical) # objs) pack entries =
     bindE (ok_or (Io ZstdIo) (zstd_encode e canonical)) (\<lambda>compressed.
       let pack' = pack @ id_bytes i; offset = length pack' in
       pack_records e objs (pack' @ nat_le 4 (length compressed) @ compressed)
         (entries @ [\<lparr>ie_id = i, ie_offset = offset, ie_length = length compressed\<rparr>]))"

definition idx_row :: "index_entry \<Rightarrow> bytes" where
  "idx_row en = id_bytes (ie_id en) @ nat_le 8 (ie_offset en) @ nat_le 8 (ie_length en)"

definition write_idx :: "index_entry list \<Rightarrow> bytes" where
  "write_idx entries = IDX_MAGIC @ nat_le 4 FORMAT_VERSION @ nat_le 8 (length entries)
     @ concat (map idx_row entries)"

definition build_pack :: "ext \<Rightarrow> (object_id \<times> bytes) list \<Rightarrow> (bytes \<times> bytes) core_result" where
  "build_pack e objs =
     bindE (pack_records e objs pack_header []) (\<lambda>(pack, entries).
       Inr (pack, write_idx (sort_key ie_id entries)))"

section \<open>The streaming writer\<close>

text \<open>The destination of a \<^verbatim>\<open>PackWriter\<close>: \<open>sk_room\<close> is how many more bytes it takes before a write fails.\<close>

record sink =
  sk_out :: bytes
  sk_room :: "nat option"

definition write_all :: "bytes \<Rightarrow> sink \<Rightarrow> sink core_result" where
  "write_all b s =
     (case sk_room s of
        None \<Rightarrow> Inr (s\<lparr>sk_out := sk_out s @ b\<rparr>)
      | Some n \<Rightarrow> if length b \<le> n then Inr (s\<lparr>sk_out := sk_out s @ b, sk_room := Some (n - length b)\<rparr>)
                 else Inl (Io OtherIo))"

record pack_writer =
  pw_w :: sink
  pw_pos :: nat
  pw_count_written :: u32
  pw_expected_count :: u32
  pw_entries :: "index_entry list"

definition pw_new :: "sink \<Rightarrow> u32 \<Rightarrow> pack_writer core_result" where
  "pw_new w n =
     bindE (write_all PACK_MAGIC w) (\<lambda>w.
     bindE (write_all (nat_le 4 FORMAT_VERSION) w) (\<lambda>w.
     Inr \<lparr>pw_w = w, pw_pos = 8, pw_count_written = 0, pw_expected_count = n, pw_entries = []\<rparr>))"

definition pw_write_object :: "ext \<Rightarrow> object_id \<Rightarrow> bytes \<Rightarrow> pack_writer \<Rightarrow> pack_writer core_result" where
  "pw_write_object e i b pw =
     bindE (ok_or (Io ZstdIo) (zstd_encode e b)) (\<lambda>compressed.
     bindE (write_all (id_bytes i) (pw_w pw)) (\<lambda>w.
     let pos = pw_pos pw + 32; offset = pos in
     bindE (write_all (nat_le 4 (length compressed)) w) (\<lambda>w.
     let pos = pos + 4 in
     bindE (write_all compressed w) (\<lambda>w.
     let pos = pos + length compressed in
     Inr (pw\<lparr>pw_w := w, pw_pos := pos, pw_count_written := pw_count_written pw + 1,
       pw_entries := pw_entries pw @
         [\<lparr>ie_id = i, ie_offset = offset, ie_length = length compressed\<rparr>]\<rparr>)))))"

definition pw_finish :: "pack_writer \<Rightarrow> bytes core_result" where
  "pw_finish pw =
     (if pw_count_written pw \<noteq> pw_expected_count pw
      then Inl (PackCorrupt (ShortPackWriter (unat (pw_count_written pw)) (unat (pw_expected_count pw))))
      else Inr (write_idx (sort_key ie_id (pw_entries pw))))"

fun pw_write_all :: "ext \<Rightarrow> (object_id \<times> bytes) list \<Rightarrow> pack_writer \<Rightarrow> pack_writer core_result" where
  "pw_write_all e [] pw = Inr pw"
| "pw_write_all e ((i, b) # objs) pw = bindE (pw_write_object e i b pw) (pw_write_all e objs)"

section \<open>The index\<close>

definition sub_slice :: "nat \<Rightarrow> nat \<Rightarrow> 'a list \<Rightarrow> 'a list" where
  "sub_slice i n xs = take n (drop i xs)"

definition IDX_ROW :: nat where "IDX_ROW = 32 + 8 + 8"

fun parse_rows :: "bytes \<Rightarrow> nat \<Rightarrow> nat \<Rightarrow> object_id option \<Rightarrow> index_entry list core_result" where
  "parse_rows idx i 0 prev = Inr []"
| "parse_rows idx i (Suc n) prev =
     (let base = 16 + i * IDX_ROW;
          cur = ObjectId (sub_slice base 32 idx);
          entry = \<lparr>ie_id = cur, ie_offset = le_nat (sub_slice (base + 32) 8 idx),
                   ie_length = le_nat (sub_slice (base + 40) 8 idx)\<rparr>
      in if (case prev of Some p \<Rightarrow> p \<ge> cur | None \<Rightarrow> False)
         then Inl (BadPackIndex IdxNotAscending)
         else bindE (parse_rows idx (Suc i) n (Some cur)) (\<lambda>es. Inr (entry # es)))"

definition parse_index :: "bytes \<Rightarrow> index_entry list core_result" where
  "parse_index idx =
     (if length idx < 16 \<or> take 4 idx \<noteq> IDX_MAGIC then Inl (BadPackIndex IdxMissingMagic)
      else let ver = le_nat (sub_slice 4 4 idx) in
        if ver \<noteq> FORMAT_VERSION then Inl (BadPackIndex (IdxUnsupportedVersion ver))
        else let cnt = le_nat (sub_slice 8 8 idx) in
          if cnt * IDX_ROW \<ge> 2 ^ 64 \<or> cnt * IDX_ROW + 16 \<ge> 2 ^ 64 then Inl (BadPackIndex IdxCountOverflow)
          else if length idx \<noteq> cnt * IDX_ROW + 16 then Inl (BadPackIndex IdxLengthMismatch)
          else parse_rows idx 0 cnt None)"

section \<open>Reading one record\<close>

text \<open>
  \<open>off + 4\<close> is \<^verbatim>\<open>usize\<close> addition on a 64-bit target. When it wraps around, the comparison with the
  pack length is made with the small sum, and slicing \<^verbatim>\<open>pack[off..off + 4]\<close>, whose end lies before
  its start, panics.
\<close>

definition record_bounds :: "bytes \<Rightarrow> u64 \<Rightarrow> nat option \<Rightarrow> (nat \<times> nat) core_result" where
  "record_bounds pack offset max' =
     (let off = unat offset; sum = unat (offset + 4) in
      if sum > length pack then Inl (PackCorrupt (OffsetPastEnd off))
      else if sum < off then Inl Panicked
      else let len = le_nat (sub_slice off 4 pack) in
        if (case max' of Some m \<Rightarrow> len > m | None \<Rightarrow> False)
        then Inl (PackCorrupt (RecordTooLong len (the max')))
        else let start = off + 4; end' = start + len in
          if end' > length pack then Inl (PackCorrupt RecordPastEnd) else Inr (start, end'))"

text \<open>A streaming zstd decoder over a payload, as a source.\<close>

definition decoder :: "ext \<Rightarrow> bytes \<Rightarrow> source" where
  "decoder e payload = (case zstd_stream e payload of (out, ok) \<Rightarrow>
     (if out = [] then [] else [Chunk out]) @ (if ok then [] else [Fail]))"

definition saturating_mul4 :: "nat \<Rightarrow> nat" where
  "saturating_mul4 n = min (n * 4) (2 ^ 64 - 1)"

text \<open>The bounded decompression shared by the untrusted readers: at most \<open>max + 1\<close> bytes are taken from the decoder.\<close>

definition decompress_bounded :: "ext \<Rightarrow> nat \<Rightarrow> bytes \<Rightarrow> bytes core_result" where
  "decompress_bounded e max' payload =
     (case fst (read_limited (max' + 1) (saturating_mul4 (length payload)) (decoder e payload)) of
        Inl _ \<Rightarrow> Inl (PackCorrupt ZstdFailed)
      | Inr canonical \<Rightarrow>
          if length canonical > max' then Inl (PackCorrupt (DecompressedTooLarge max')) else Inr canonical)"

definition decompress_and_decode :: "ext \<Rightarrow> bytes \<Rightarrow> object_id \<Rightarrow> nat option \<Rightarrow> object core_result" where
  "decompress_and_decode e payload i max' =
     bindE (case max' of
              None \<Rightarrow> ok_or (PackCorrupt ZstdFailed) (zstd_decode_all e payload)
            | Some m \<Rightarrow> decompress_bounded e m payload) (\<lambda>canonical.
       if id_of e canonical \<noteq> i then Inl (Malformed (PackedHashMismatch i)) else decode canonical)"

definition read_object_at :: "ext \<Rightarrow> bytes \<Rightarrow> u64 \<Rightarrow> object_id \<Rightarrow> object core_result" where
  "read_object_at e pack offset i =
     bindE (record_bounds pack offset None) (\<lambda>(start, end').
       decompress_and_decode e (sub_slice start (end' - start) pack) i None)"

definition read_object_at_bounded :: "ext \<Rightarrow> bytes \<Rightarrow> u64 \<Rightarrow> object_id \<Rightarrow> nat \<Rightarrow> object core_result" where
  "read_object_at_bounded e pack offset i max' =
     bindE (record_bounds pack offset (Some max')) (\<lambda>(start, end').
       decompress_and_decode e (sub_slice start (end' - start) pack) i (Some max'))"

section \<open>Reading whole packs\<close>

function parse_records :: "ext \<Rightarrow> bytes \<Rightarrow> nat \<Rightarrow> (object_id \<times> object) list core_result" where
  "parse_records e pack pos =
     (if pos < length pack then
        if pos + 32 > length pack then Inl (PackCorrupt TruncatedRecordId)
        else if pos + 36 > length pack then Inl (PackCorrupt TruncatedRecordLength)
        else let expected = ObjectId (sub_slice pos 32 pack);
                 len = le_nat (sub_slice (pos + 32) 4 pack);
                 start = pos + 36; end' = start + len in
          if end' > length pack then Inl (PackCorrupt RecordPastEnd)
          else bindE (ok_or (PackCorrupt ZstdFailed) (zstd_decode_all e (sub_slice start len pack))) (\<lambda>canonical.
            let actual = id_of e canonical in
            if actual \<noteq> expected then Inl (PackCorrupt (HashMismatch expected actual))
            else bindE (decode canonical) (\<lambda>ob.
              bindE (parse_records e pack end') (\<lambda>out. Inr ((actual, ob) # out))))
      else Inr [])"
  by pat_completeness auto
termination
  by (relation "measure (\<lambda>(e, pack, pos). length pack - pos)") auto

declare parse_records.simps [simp del]

definition parse_pack :: "ext \<Rightarrow> bytes \<Rightarrow> (object_id \<times> object) list core_result" where
  "parse_pack e pack =
     (if length pack < 8 \<or> take 4 pack \<noteq> PACK_MAGIC then Inl (PackCorrupt MissingMagic)
      else let ver = le_nat (sub_slice 4 4 pack) in
        if ver \<noteq> FORMAT_VERSION then Inl (PackCorrupt (UnsupportedVersion ver))
        else parse_records e pack 8)"

lemma source_size_rd_read: "rd_read n r = (x, r') \<Longrightarrow> source_size r' \<le> source_size r"
  by (induction n r rule: rd_read.induct) (auto split: if_splits)

lemma source_size_read_up_to: "source_size (snd (read_up_to n data r)) \<le> source_size r"
proof (induction n data r rule: read_up_to.induct)
  case (1 n data r)
  show ?case using 1 source_size_rd_read [of "n - length data" r]
    by (subst read_up_to.simps) (fastforce split: prod.splits sum.splits)
qed

lemma source_size_read_exact: "source_size (snd (read_exact n data r)) \<le> source_size r"
proof (induction n data r rule: read_exact.induct)
  case (1 n data r)
  show ?case using 1 source_size_rd_read [of "n - length data" r]
    by (subst read_exact.simps) (fastforce split: prod.splits sum.splits io_kind.splits)
qed

lemma source_size_read_loop: "source_size (snd (snd (read_loop limit fs data buflen r))) \<le> source_size r"
proof (induction limit fs data buflen r rule: read_loop.induct)
  case (1 limit fs data buflen r)
  show ?case using 1 source_size_rd_read [of "grow limit fs (length data) buflen - length data" r]
    by (subst read_loop.simps) (fastforce simp: Let_def split: prod.splits sum.splits io_kind.splits)
qed

lemma source_size_read_exact_vec: "source_size (snd (read_exact_vec n r)) \<le> source_size r"
  using source_size_read_loop [of n n "[]" 0 r]
  by (auto simp: read_exact_vec_def read_limited_def split: prod.splits sum.splits)

lemma source_size_read_up_to_less:
  assumes "read_up_to n [] r = (Inr d, r')" "d \<noteq> []"
  shows "source_size r' < source_size r"
proof -
  have n: "0 < n"
    using assms by (cases n) (auto simp: read_up_to.simps [of 0 "[]" r])
  obtain x s where rd: "rd_read n r = (x, s)" by (cases "rd_read n r")
  with assms n obtain b where b: "x = Inr b" "b \<noteq> []" "read_up_to n b s = (Inr d, r')"
    by (auto simp: read_up_to.simps [of n "[]" r] split: sum.splits if_splits)
  with rd_read_size [OF rd] n source_size_read_up_to [of n b s] show ?thesis by auto
qed

text \<open>
  \<^verbatim>\<open>parse_pack_reader_max\<close>: the callback \<open>f\<close> threads its own state. The header is read with
  \<^verbatim>\<open>read_exact\<close>, a record id with \<^verbatim>\<open>read_up_to\<close>, so that an end of stream between records is clean.
\<close>

function parse_stream ::
  "ext \<Rightarrow> nat \<Rightarrow> ('s \<Rightarrow> object_id \<Rightarrow> object \<Rightarrow> 's core_result) \<Rightarrow> source \<Rightarrow> 's \<Rightarrow> 's core_result" where
  "parse_stream e max' f r st =
     (case read_up_to 32 [] r of
        (Inl k, r) \<Rightarrow> Inl (Io k)
      | (Inr idb, r1) \<Rightarrow>
          if idb = [] then Inr st
          else if length idb \<noteq> 32 then Inl (PackCorrupt TruncatedRecordId)
          else let expected = ObjectId idb in
            (case read_exact 4 [] r1 of
               (Inl k, r) \<Rightarrow> Inl (PackCorrupt TruncatedRecordLength)
             | (Inr lenb, r2) \<Rightarrow>
                 let len = le_nat lenb in
                 if len > max' then Inl (PackCorrupt (RecordTooLong len max'))
                 else (case read_exact_vec len r2 of
                    (Inl k, r) \<Rightarrow> Inl (PackCorrupt TruncatedPayload)
                  | (Inr payload, r3) \<Rightarrow>
                      bindE (decompress_bounded e max' payload) (\<lambda>canonical.
                        let actual = id_of e canonical in
                        if actual \<noteq> expected then Inl (PackCorrupt (HashMismatch expected actual))
                        else bindE (decode canonical) (\<lambda>ob.
                          bindE (f st actual ob) (\<lambda>st. parse_stream e max' f r3 st))))))"
  by pat_completeness auto
termination
proof (relation "measure (\<lambda>(e, max', f, r, st). source_size r)", goal_cases)
  case 1
  then show ?case by simp
next
  case (2 e max' f r st x1 r1 idb expected x2 r2 lenb len x3 r3 payload canonical actual ob st')
  have "source_size r1 < source_size r"
    using 2 source_size_read_up_to_less [of 32 r idb r1] by auto
  moreover have "source_size r2 \<le> source_size r1"
    using 2 source_size_read_exact [of 4 "[]" r1] by (auto dest: sym [of "(_, _)"])
  moreover have "source_size r3 \<le> source_size r2"
    using 2 source_size_read_exact_vec [of len r2] by (auto dest: sym [of "(_, _)"])
  ultimately show ?case by simp
qed

declare parse_stream.simps [simp del]

definition parse_pack_reader_max ::
  "ext \<Rightarrow> source \<Rightarrow> nat \<Rightarrow> ('s \<Rightarrow> object_id \<Rightarrow> object \<Rightarrow> 's core_result) \<Rightarrow> 's \<Rightarrow> 's core_result" where
  "parse_pack_reader_max e r max' f st =
     (case read_exact 8 [] r of
        (Inl k, r) \<Rightarrow> Inl (PackCorrupt TruncatedHeader)
      | (Inr header, r) \<Rightarrow>
          if take 4 header \<noteq> PACK_MAGIC then Inl (PackCorrupt MissingMagic)
          else let ver = le_nat (sub_slice 4 4 header) in
            if ver \<noteq> FORMAT_VERSION then Inl (PackCorrupt (UnsupportedVersion ver))
            else parse_stream e max' f r st)"

definition parse_pack_reader ::
  "ext \<Rightarrow> size_cell \<Rightarrow> source \<Rightarrow> ('s \<Rightarrow> object_id \<Rightarrow> object \<Rightarrow> 's core_result) \<Rightarrow> 's \<Rightarrow> 's core_result" where
  "parse_pack_reader e c r f st = parse_pack_reader_max e r (fst (max_object_size c)) f st"

end
