(* ===== verification/Pack_Correct.thy ===== *)
theory Pack_Correct
  imports Pack
begin

text \<open>
  Correctness of the pack format: what \<open>build_pack\<close> writes, that the streaming writer writes the
  same bytes, and that the index, the random-access readers, the whole-pack parser and the
  streaming parser give back exactly what was packed and nothing that was not hash-verified.
\<close>

section \<open>Layout of a pack\<close>

fun compress_all :: "ext \<Rightarrow> (object_id \<times> bytes) list \<Rightarrow> (object_id \<times> bytes) list option" where
  "compress_all e [] = Some []"
| "compress_all e ((i, b) # objs) =
     (case zstd_encode e b of None \<Rightarrow> None
      | Some c \<Rightarrow> (case compress_all e objs of None \<Rightarrow> None | Some rs \<Rightarrow> Some ((i, c) # rs)))"

definition rec_bytes :: "object_id \<times> bytes \<Rightarrow> bytes" where
  "rec_bytes p = id_bytes (fst p) @ nat_le 4 (length (snd p)) @ snd p"

lemma rec_bytes_pair: "rec_bytes (i, c) = id_bytes i @ nat_le 4 (length c) @ c"
  by (simp add: rec_bytes_def)

fun layout :: "nat \<Rightarrow> (object_id \<times> bytes) list \<Rightarrow> index_entry list" where
  "layout pos [] = []"
| "layout pos ((i, c) # rs) =
     \<lparr>ie_id = i, ie_offset = pos + length (id_bytes i), ie_length = length c\<rparr>
     # layout (pos + length (rec_bytes (i, c))) rs"

lemma pack_records_eq:
  "pack_records e objs pack entries =
     (case compress_all e objs of
        None \<Rightarrow> Inl (Io ZstdIo)
      | Some rs \<Rightarrow> Inr (pack @ concat (map rec_bytes rs), entries @ layout (length pack) rs))"
proof (induction e objs pack entries rule: pack_records.induct)
  case (1 e pack entries)
  then show ?case by simp
next
  case (2 e i b objs pack entries)
  then show ?case
    by (cases "zstd_encode e b") (auto simp: rec_bytes_pair add.assoc Let_def split: option.splits)
qed

lemma write_all_unlimited: "sk_room s = None \<Longrightarrow> write_all b s = Inr (s\<lparr>sk_out := sk_out s @ b\<rparr>)"
  by (simp add: write_all_def)

lemma pw_write_all_eq:
  assumes "sk_room (pw_w pw) = None" "pw_pos pw = length (sk_out (pw_w pw))" "list_all (id_ok \<circ> fst) objs"
  shows "pw_write_all e objs pw =
     (case compress_all e objs of
        None \<Rightarrow> Inl (Io ZstdIo)
      | Some rs \<Rightarrow> Inr (pw\<lparr>pw_w := (pw_w pw)\<lparr>sk_out := sk_out (pw_w pw) @ concat (map rec_bytes rs)\<rparr>,
          pw_pos := pw_pos pw + length (concat (map rec_bytes rs)),
          pw_count_written := pw_count_written pw + word_of_nat (length rs),
          pw_entries := pw_entries pw @ layout (length (sk_out (pw_w pw))) rs\<rparr>))"
  using assms
proof (induction e objs pw rule: pw_write_all.induct)
  case (1 e pw)
  then show ?case by simp
next
  case (2 e i b objs pw)
  show ?case
  proof (cases "zstd_encode e b")
    case None
    then show ?thesis by (simp add: pw_write_object_def)
  next
    case (Some c)
    have i: "length (id_bytes i) = 32" using "2.prems" by (simp add: id_ok_def)
    let ?w = "(pw_w pw)\<lparr>sk_out := sk_out (pw_w pw) @ rec_bytes (i, c)\<rparr>"
    let ?pw = "pw\<lparr>pw_w := ?w, pw_pos := pw_pos pw + 36 + length c, pw_count_written := pw_count_written pw + 1,
      pw_entries := pw_entries pw @ [\<lparr>ie_id = i, ie_offset = pw_pos pw + 32, ie_length = length c\<rparr>]\<rparr>"
    have st: "pw_write_object e i b pw = Inr ?pw"
      using "2.prems" Some by (simp add: pw_write_object_def write_all_unlimited Let_def rec_bytes_pair)
    have "pw_write_all e objs ?pw =
       (case compress_all e objs of
        None \<Rightarrow> Inl (Io ZstdIo)
      | Some rs \<Rightarrow> Inr (?pw\<lparr>pw_w := (pw_w ?pw)\<lparr>sk_out := sk_out (pw_w ?pw) @ concat (map rec_bytes rs)\<rparr>,
          pw_pos := pw_pos ?pw + length (concat (map rec_bytes rs)),
          pw_count_written := pw_count_written ?pw + word_of_nat (length rs),
          pw_entries := pw_entries ?pw @ layout (length (sk_out (pw_w ?pw))) rs\<rparr>))"
      by (rule "2.IH" [OF st]) (use "2.prems" i in \<open>auto simp: rec_bytes_pair\<close>)
    with st Some i "2.prems"(2) show ?thesis
      by (auto simp: rec_bytes_pair ac_simps split: option.splits)
  qed
qed

lemma length_compress_all: "compress_all e objs = Some rs \<Longrightarrow> length rs = length objs"
  by (induction e objs arbitrary: rs rule: compress_all.induct) (auto split: option.splits)

lemma length_pack_header [simp]: "length pack_header = 8"
  by (simp add: pack_header_def PACK_MAGIC_def)

section \<open>Decompression\<close>

lemma decoder_source:
  assumes "zstd_stream e p = (out, ok)"
  shows "source_ok (decoder e p)" "content (decoder e p) = out" "fails (decoder e p) = (\<not> ok)"
  using assms by (auto simp: decoder_def source_ok_def)

lemma decompress_bounded_eq:
  assumes "zstd_stream e p = (out, ok)"
  shows "decompress_bounded e m p =
    (if length out > m then Inl (PackCorrupt (DecompressedTooLarge m))
     else if ok then Inr out else Inl (PackCorrupt ZstdFailed))"
  using decoder_source [OF assms] read_limited_spec(1) [OF decoder_source(1) [OF assms], of "m + 1"]
  by (auto simp: decompress_bounded_def limited_spec_def)

lemma decompress_bounded_InrD:
  "decompress_bounded e m p = Inr c \<Longrightarrow> zstd_decode_all e p = Some c \<and> length c \<le> m"
  by (cases "zstd_stream e p") (auto simp: decompress_bounded_eq zstd_decode_all_def split: if_splits)

lemma decompress_and_decode_InrD:
  assumes "decompress_and_decode e p i mx = Inr ob"
  shows "\<exists>c. zstd_decode_all e p = Some c \<and> id_of e c = i \<and> decode c = Inr ob \<and> (\<forall>m. mx = Some m \<longrightarrow> length c \<le> m)"
  using assms
  by (cases mx) (auto simp: decompress_and_decode_def bindE_eq_Inr ok_or_eq_Inr
      split: if_splits dest: decompress_bounded_InrD)

section \<open>Records of a pack\<close>

text \<open>\<open>packed e (i, c) (i, ob)\<close>: the compressed record \<open>c\<close> of \<open>i\<close> holds the object \<open>ob\<close>.\<close>

definition packed :: "ext \<Rightarrow> nat option \<Rightarrow> object_id \<times> bytes \<Rightarrow> object_id \<times> object \<Rightarrow> bool" where
  "packed e mx p q \<longleftrightarrow>
     fst q = fst p \<and> id_ok (fst p) \<and> length (snd p) < 2 ^ 32
     \<and> (\<exists>b. zstd_stream e (snd p) = (b, True) \<and> id_of e b = fst p \<and> decode b = Inr (snd q)
         \<and> (\<forall>m. mx = Some m \<longrightarrow> length (snd p) \<le> m \<and> length b \<le> m))"

lemma slice_append:
  "length xs = i \<Longrightarrow> sub_slice i n (xs @ ys) = take n ys"
  by (simp add: sub_slice_def)

lemma slice_parts:
  assumes "length pre = i"
  shows "length a = n \<Longrightarrow> sub_slice i n (pre @ a @ ys) = a"
    and "length a + i = j \<Longrightarrow> length b = n \<Longrightarrow> sub_slice j n (pre @ a @ b @ ys) = b"
    and "length a + length b + i = k \<Longrightarrow> length c = n \<Longrightarrow> sub_slice k n (pre @ a @ b @ c @ ys) = c"
  using assms slice_append [of "pre @ a" j n "b @ ys"] slice_append [of "pre @ a @ b" k n "c @ ys"]
  by (auto simp: slice_append)

lemma parse_records_packed:
  assumes "list_all2 (packed e mx) rs qs"
  shows "parse_records e (pre @ concat (map rec_bytes rs)) (length pre) = Inr qs"
  using assms
proof (induction rs qs arbitrary: pre rule: list_all2_induct)
  case Nil
  then show ?case by (simp add: parse_records.simps)
next
  case (Cons p rs q qs)
  obtain i c where p: "p = (i, c)" by (cases p)
  obtain j ob where q: "q = (j, ob)" by (cases q)
  from Cons.hyps p q obtain b where pk: "j = i" "length (id_bytes i) = 32" "length c < 2 ^ 32"
    "zstd_decode_all e c = Some b" "id_of e b = i" "decode b = Inr ob"
    by (auto simp: packed_def id_ok_def zstd_decode_all_def)
  let ?rest = "concat (map rec_bytes rs)"
  let ?pack = "pre @ id_bytes i @ nat_le 4 (length c) @ c @ ?rest"
  have sl: "sub_slice (length pre) 32 ?pack = id_bytes i"
      "sub_slice (length pre + 32) 4 ?pack = nat_le 4 (length c)"
      "sub_slice (length pre + 36) (length c) ?pack = c"
    using pk by (auto intro!: slice_parts)
  have len: "le_nat (nat_le 4 (length c)) = length c" using pk(3) by simp
  have "parse_records e ?pack (length pre) =
      bindE (parse_records e ?pack (length pre + 36 + length c)) (\<lambda>out. Inr ((i, ob) # out))"
    by (subst parse_records.simps) (simp only: sl len Let_def, use pk in simp)
  also have "parse_records e ?pack (length pre + 36 + length c) = Inr qs"
    using Cons.IH [of "pre @ rec_bytes (i, c)"] pk by (simp add: rec_bytes_pair add.assoc)
  finally show ?case using p q pk by (simp add: rec_bytes_pair)
qed

lemma record_bounds_at:
  assumes "length pre < 2 ^ 64 - 4" "length c < 2 ^ 32"
    and "\<And>m. mx = Some m \<Longrightarrow> length c \<le> m"
  shows "record_bounds (pre @ nat_le 4 (length c) @ c @ ys) (word_of_nat (length pre)) mx
    = Inr (length pre + 4, length pre + 4 + length c)"
proof -
  have off: "unat (word_of_nat (length pre) :: u64) = length pre"
    "unat (word_of_nat (length pre) + 4 :: u64) = length pre + 4"
    using assms(1) by (simp_all add: unat_of_nat unat_word_ariths)
  have "sub_slice (length pre) 4 (pre @ nat_le 4 (length c) @ c @ ys) = nat_le 4 (length c)"
    by (rule slice_parts) simp_all
  then show ?thesis
    using assms(2,3) by (cases mx) (auto simp: record_bounds_def off Let_def simp del: of_nat_numeral)
qed


section \<open>The index\<close>

lemma idx_row_slices:
  assumes "length pre = n" "id_ok (ie_id en)"
  shows "sub_slice n 32 (pre @ idx_row en @ ys) = id_bytes (ie_id en)"
    and "sub_slice (n + 32) 8 (pre @ idx_row en @ ys) = nat_le 8 (ie_offset en)"
    and "sub_slice (n + 40) 8 (pre @ idx_row en @ ys) = nat_le 8 (ie_length en)"
  using assms by (auto simp: idx_row_def id_ok_def intro!: slice_parts)

definition entry_ok :: "index_entry \<Rightarrow> bool" where
  "entry_ok en \<longleftrightarrow> id_ok (ie_id en) \<and> ie_offset en < 2 ^ 64 \<and> ie_length en < 2 ^ 64"

lemma length_idx_row: "entry_ok en \<Longrightarrow> length (idx_row en) = IDX_ROW"
  by (simp add: entry_ok_def idx_row_def id_ok_def IDX_ROW_def)

lemma parse_rows_rows:
  assumes "list_all entry_ok es" "length pre = 16 + i * IDX_ROW"
    and "sorted_wrt (<) (map ie_id es)" "\<And>p. prev = Some p \<Longrightarrow> list_all (\<lambda>en. p < ie_id en) es"
  shows "parse_rows (pre @ concat (map idx_row es)) i (length es) prev = Inr es"
  using assms
proof (induction es arbitrary: pre i prev)
  case Nil
  then show ?case by simp
next
  case (Cons en es)
  have ok: "id_ok (ie_id en)" "ie_offset en < 256 ^ 8" "ie_length en < 256 ^ 8"
    using Cons.prems(1) by (simp_all add: entry_ok_def)
  note sl = idx_row_slices [OF Cons.prems(2) ok(1), of "concat (map idx_row es)"]
  have rec: "parse_rows ((pre @ idx_row en) @ concat (map idx_row es)) (Suc i) (length es) (Some (ie_id en)) = Inr es"
    using Cons.prems by (intro Cons.IH) (auto simp: length_idx_row list_all_iff)
  have "\<not> (case prev of Some p \<Rightarrow> p \<ge> ie_id en | None \<Rightarrow> False)"
    using Cons.prems(4) by (auto split: option.splits)
  then show ?case by (cases prev) (use rec ok sl in \<open>auto simp: Let_def\<close>)
qed

lemma parse_index_write_idx:
  assumes "list_all entry_ok es" "sorted_wrt (<) (map ie_id es)" "length es * IDX_ROW + 16 < 2 ^ 64"
  shows "parse_index (write_idx es) = Inr es"
proof -
  let ?hdr = "IDX_MAGIC @ nat_le 4 FORMAT_VERSION @ nat_le 8 (length es)"
  have m: "length IDX_MAGIC = 4" by (simp add: IDX_MAGIC_def)
  have w: "write_idx es = ?hdr @ concat (map idx_row es)" by (simp add: write_idx_def)
  have rows: "length (concat (map idx_row es)) = length es * IDX_ROW"
    using assms(1) by (induction es) (auto simp: length_idx_row)
  have "sub_slice 4 4 (write_idx es) = nat_le 4 FORMAT_VERSION" "sub_slice 8 8 (write_idx es) = nat_le 8 (length es)"
    unfolding w using m by (auto simp: sub_slice_def)
  moreover have "parse_rows (?hdr @ concat (map idx_row es)) 0 (length es) None = Inr es"
    using m assms by (intro parse_rows_rows) auto
  moreover have "length es < 2 ^ 64" using assms(3) by (simp add: IDX_ROW_def)
  ultimately show ?thesis
    using assms(3) m rows
    by (simp add: parse_index_def Let_def w FORMAT_VERSION_def)
qed

lemma parse_rows_ascending:
  "parse_rows idx i n prev = Inr es \<Longrightarrow>
   sorted_wrt (<) (map ie_id es) \<and> (\<forall>p. prev = Some p \<longrightarrow> list_all (\<lambda>en. p < ie_id en) es) \<and> length es = n"
proof (induction idx i n prev arbitrary: es rule: parse_rows.induct)
  case (1 idx i prev)
  then show ?case by simp
next
  case (2 idx i n prev)
  let ?cur = "ObjectId (sub_slice (16 + i * IDX_ROW) 32 idx)"
  from "2.prems" obtain es' where es': "parse_rows idx (Suc i) n (Some ?cur) = Inr es'"
    and es: "map ie_id es = ?cur # map ie_id es'" "length es = Suc (length es')"
      "set es = insert (hd es) (set es')" "ie_id (hd es) = ?cur"
    and prev: "\<not> (case prev of Some p \<Rightarrow> p \<ge> ?cur | None \<Rightarrow> False)"
    by (auto simp: Let_def bindE_eq_Inr split: if_splits)
  have IH: "sorted_wrt (<) (map ie_id es')" "list_all (\<lambda>en. ?cur < ie_id en) es'" "length es' = n"
    using "2.IH" [OF refl refl refl prev es'] by auto
  with es prev show ?case
    by (auto simp: list_all_iff split: option.splits)
qed

lemma layout_ids: "map ie_id (layout pos rs) = map fst rs"
  by (induction pos rs rule: layout.induct) auto

lemma layout_entry_ok:
  assumes "list_all (\<lambda>p. id_ok (fst p)) rs" "pos + length (concat (map rec_bytes rs)) < 2 ^ 64"
  shows "list_all entry_ok (layout pos rs)"
  using assms
  by (induction pos rs rule: layout.induct) (auto simp: entry_ok_def rec_bytes_pair add.assoc)

lemma layout_split:
  assumes "en \<in> set (layout (length pre) rs)"
  obtains rs1 c rs2 where "rs = rs1 @ (ie_id en, c) # rs2"
    "ie_offset en = length (pre @ concat (map rec_bytes rs1) @ id_bytes (ie_id en))" "ie_length en = length c"
  using assms
proof (induction rs arbitrary: pre thesis)
  case Nil
  then show ?case by simp
next
  case (Cons p rs)
  obtain i c where p: "p = (i, c)" by (cases p)
  show ?case
  proof (cases "en = \<lparr>ie_id = i, ie_offset = length pre + length (id_bytes i), ie_length = length c\<rparr>")
    case True
    then show ?thesis using p by (intro Cons.prems(1) [of "[]" c rs]) auto
  next
    case False
    with Cons.prems(2) p have "en \<in> set (layout (length (pre @ rec_bytes p)) rs)" by simp
    then obtain rs1 c' rs2 where "rs = rs1 @ (ie_id en, c') # rs2"
      "ie_offset en = length ((pre @ rec_bytes p) @ concat (map rec_bytes rs1) @ id_bytes (ie_id en))"
      "ie_length en = length c'"
      using Cons.IH by blast
    then show ?thesis using p by (intro Cons.prems(1) [of "p # rs1" c' rs2]) auto
  qed
qed

text \<open>Random access through the index finds every packed object.\<close>

lemma read_at_layout:
  assumes "list_all2 (packed e mx) rs qs" "en \<in> set (layout (length pre) rs)"
    and "length (pre @ concat (map rec_bytes rs)) < 2 ^ 64"
  shows "\<exists>ob. (ie_id en, ob) \<in> set qs
    \<and> bindE (record_bounds (pre @ concat (map rec_bytes rs)) (word_of_nat (ie_offset en)) mx)
        (\<lambda>(s, t). decompress_and_decode e (sub_slice s (t - s) (pre @ concat (map rec_bytes rs))) (ie_id en) mx)
      = Inr ob"
proof -
  from assms(2) obtain rs1 c rs2 where s: "rs = rs1 @ (ie_id en, c) # rs2"
    and off: "ie_offset en = length (pre @ concat (map rec_bytes rs1) @ id_bytes (ie_id en))"
    by (rule layout_split)
  from assms(1) s obtain q where q: "q \<in> set qs" "packed e mx (ie_id en, c) q"
    by (fastforce simp: list_all2_append1 list_all2_Cons1)
  then obtain b where b: "fst q = ie_id en" "id_ok (ie_id en)" "length c < 2 ^ 32"
    "zstd_stream e c = (b, True)" "id_of e b = ie_id en" "decode b = Inr (snd q)"
    "\<And>m. mx = Some m \<Longrightarrow> length c \<le> m \<and> length b \<le> m"
    by (auto simp: packed_def)
  let ?pre = "pre @ concat (map rec_bytes rs1) @ id_bytes (ie_id en)"
  let ?pack = "pre @ concat (map rec_bytes rs)"
  have pk: "?pack = ?pre @ nat_le 4 (length c) @ c @ concat (map rec_bytes rs2)"
    using s by (simp add: rec_bytes_pair)
  have "record_bounds ?pack (word_of_nat (ie_offset en)) mx = Inr (length ?pre + 4, length ?pre + 4 + length c)"
    unfolding pk off by (rule record_bounds_at) (use assms(3) pk b in \<open>auto\<close>)
  moreover have "sub_slice (length ?pre + 4) (length c) ?pack = c"
    unfolding pk by (rule slice_parts) simp_all
  moreover have "decompress_and_decode e c (ie_id en) mx = Inr (snd q)"
    using b by (cases mx) (auto simp: decompress_and_decode_def zstd_decode_all_def decompress_bounded_eq)
  moreover have "(ie_id en, snd q) \<in> set qs" using q(1) b(1) by (metis prod.collapse)
  ultimately show ?thesis by (intro exI [of _ "snd q"]) simp
qed


section \<open>The streaming parser\<close>

lemma rd_read_keeps_no_intr: "rd_read n r = (x, r') \<Longrightarrow> no_intr r \<Longrightarrow> no_intr r'"
  using rd_read_no_intr by blast

lemma no_intr_read_exact: "no_intr r \<Longrightarrow> no_intr (snd (read_exact n data r))"
proof (induction n data r rule: read_exact.induct)
  case (1 n data r)
  show ?case using 1 rd_read_keeps_no_intr [of "n - length data" r]
    by (subst read_exact.simps) (fastforce split: prod.splits sum.splits io_kind.splits)
qed

lemma no_intr_read_loop: "no_intr r \<Longrightarrow> no_intr (snd (snd (read_loop limit fs data buflen r)))"
proof (induction limit fs data buflen r rule: read_loop.induct)
  case (1 limit fs data buflen r)
  show ?case using 1 rd_read_keeps_no_intr [of "grow limit fs (length data) buflen - length data" r]
    by (subst read_loop.simps) (fastforce simp: Let_def split: prod.splits sum.splits io_kind.splits)
qed

lemma no_intr_read_exact_vec: "no_intr r \<Longrightarrow> no_intr (snd (read_exact_vec n r))"
  using no_intr_read_loop [of r n n "[]" 0]
  by (auto simp: read_exact_vec_def read_limited_def split: prod.splits sum.splits)

text \<open>A well-behaved source: reads make progress, no call is interrupted, the stream ends cleanly.\<close>

definition clean :: "source \<Rightarrow> bool" where
  "clean r \<longleftrightarrow> source_ok r \<and> no_intr r \<and> \<not> fails r"

lemma clean_read_up_to:
  assumes "clean r" "content r = x @ y" "length x = n"
  obtains r' where "read_up_to n [] r = (Inr x, r')" "clean r'" "content r' = y"
  using read_up_to_spec [of r "[]" n] assms
  by (cases "read_up_to n [] r") (auto simp: clean_def limited_spec_def)

lemma clean_read_up_to_end: "clean r \<Longrightarrow> content r = [] \<Longrightarrow> 0 < n \<Longrightarrow> fst (read_up_to n [] r) = Inr []"
  using read_up_to_spec [of r "[]" n] by (auto simp: clean_def limited_spec_def)

lemma clean_read_exact:
  assumes "clean r" "content r = x @ y" "length x = n"
  obtains r' where "read_exact n [] r = (Inr x, r')" "clean r'" "content r' = y"
  using read_exact_spec [of r "[]" n] no_intr_read_exact [of r n "[]"] assms
  by (cases "read_exact n [] r") (auto simp: clean_def)

lemma clean_read_exact_vec:
  assumes "clean r" "content r = x @ y" "length x = n"
  obtains r' where "read_exact_vec n r = (Inr x, r')" "clean r'" "content r' = y"
  using read_exact_vec_spec [of r n] no_intr_read_exact_vec [of r n] assms
  by (cases "read_exact_vec n r") (auto simp: clean_def)

text \<open>The callback applied to a list of objects in turn.\<close>

fun feed :: "('s \<Rightarrow> object_id \<Rightarrow> object \<Rightarrow> 's core_result) \<Rightarrow> (object_id \<times> object) list \<Rightarrow> 's \<Rightarrow> 's core_result" where
  "feed f [] st = Inr st"
| "feed f ((i, ob) # qs) st = bindE (f st i ob) (feed f qs)"

lemma parse_stream_packed:
  assumes "list_all2 (packed e (Some m)) rs qs" "clean r" "content r = concat (map rec_bytes rs)"
  shows "parse_stream e m f r st = feed f qs st"
  using assms
proof (induction rs qs arbitrary: r st rule: list_all2_induct)
  case Nil
  then have "fst (read_up_to 32 [] r) = Inr []" by (intro clean_read_up_to_end) auto
  then show ?case by (subst parse_stream.simps) (auto split: prod.splits)
next
  case (Cons p rs q qs)
  obtain i c where p: "p = (i, c)" by (cases p)
  obtain j ob where q: "q = (j, ob)" by (cases q)
  from Cons.hyps p q obtain b where pk: "j = i" "length (id_bytes i) = 32" "length c < 2 ^ 32"
    "zstd_stream e c = (b, True)" "id_of e b = i" "decode b = Inr ob" "length c \<le> m" "length b \<le> m"
    by (auto simp: packed_def id_ok_def)
  from Cons.prems p obtain r1 where r1: "read_up_to 32 [] r = (Inr (id_bytes i), r1)" "clean r1"
    "content r1 = nat_le 4 (length c) @ c @ concat (map rec_bytes rs)"
    using clean_read_up_to [of r "id_bytes i" _ 32] pk(2) by (metis rec_bytes_pair list.map(2) concat.simps(2) append_assoc)
  from clean_read_exact [OF r1(2,3)] obtain r2 where r2: "read_exact 4 [] r1 = (Inr (nat_le 4 (length c)), r2)"
    "clean r2" "content r2 = c @ concat (map rec_bytes rs)" by auto
  from clean_read_exact_vec [OF r2(2,3) refl] obtain r3 where r3: "read_exact_vec (length c) r2 = (Inr c, r3)"
    "clean r3" "content r3 = concat (map rec_bytes rs)" by auto
  have "id_bytes i \<noteq> []" using pk(2) by auto
  then have "parse_stream e m f r st = bindE (f st i ob) (\<lambda>st. parse_stream e m f r3 st)"
    using pk by (subst parse_stream.simps) (simp add: r1 r2 r3 decompress_bounded_eq)
  also have "(\<lambda>st. parse_stream e m f r3 st) = feed f qs"
    using Cons.IH [OF r3(2,3)] by auto
  finally show ?case using p q pk(1) by simp
qed

text \<open>
  Whatever the stream holds, an object reaches the callback only after its bytes were checked
  against its id and the cap.
\<close>

definition verified :: "ext \<Rightarrow> nat \<Rightarrow> object_id \<Rightarrow> object \<Rightarrow> bool" where
  "verified e m i ob \<longleftrightarrow> (\<exists>c. id_of e c = i \<and> decode c = Inr ob \<and> length c \<le> m)"

lemma parse_stream_inv:
  assumes "parse_stream e m f r st = Inr st'" "P st"
    and step: "\<And>st i ob st'. P st \<Longrightarrow> verified e m i ob \<Longrightarrow> f st i ob = Inr st' \<Longrightarrow> P st'"
  shows "P st'"
  using assms
proof (induction e m f r st rule: parse_stream.induct)
  case (1 e m f r st)
  show ?case
  proof (cases "fst (read_up_to 32 [] r) = Inr []")
    case True
    with 1 show ?thesis by (subst (asm) parse_stream.simps) (auto split: prod.splits)
  next
    case False
    with "1.prems"(1) obtain idb r1 lenb r2 payload r3 canonical ob st1 where
      a: "read_up_to 32 [] r = (Inr idb, r1)" "idb \<noteq> []" "\<not> length idb \<noteq> 32"
      and b: "read_exact 4 [] r1 = (Inr lenb, r2)" "\<not> le_nat lenb > m"
      and c: "read_exact_vec (le_nat lenb) r2 = (Inr payload, r3)"
        "decompress_bounded e m payload = Inr canonical"
        "\<not> id_of e canonical \<noteq> ObjectId idb" "decode canonical = Inr ob"
      and d: "f st (id_of e canonical) ob = Inr st1" "parse_stream e m f r3 st1 = Inr st'"
      by (subst (asm) parse_stream.simps)
        (auto simp: Let_def bindE_eq_Inr split: prod.splits sum.splits if_splits)
    have "verified e m (id_of e canonical) ob"
      using c(2,4) decompress_bounded_InrD by (auto simp: verified_def)
    then have "P st1" using "1.prems"(3) d(1) "1.prems"(2) by blast
    then show ?thesis
      using "1.IH" [OF a(1)[symmetric] refl a(2,3) refl b(1)[symmetric] refl refl b(2) c(1)[symmetric] refl c(2) refl c(3,4) d(1) d(2)] "1.prems"(3)
      by blast
  qed
qed

end
