(* ===== verification/Store.thy ===== *)
theory Store
  imports Pack_Correct
begin

text \<open>
  The content-addressed store (\<^verbatim>\<open>crates/core/src/store.rs\<close>): the resident set under a byte
  budget, least-recently-used eviction, the spill directory of the ephemeral backend and the loose
  files and packs of the persistent one. The directories of a store are the association lists of
  their files; a hash map is an association list with distinct keys, whose order stands for the
  unspecified iteration order. File system calls do not fail except where a file does not exist.
\<close>

section \<open>State\<close>

datatype spill_policy = Disallow | SpillTo

datatype backend = Ephemeral spill_policy | Persistent

record resident =
  rs_obj :: object
  rs_blob_size :: nat
  rs_last_used :: nat

record pack_loc =
  pl_pack :: string
  pl_offset :: nat

text \<open>Files below the objects directory, by name: shards, legacy flat files, packs and indexes; and the spill directory.\<close>

record disk =
  dk_sharded :: "((string \<times> string) \<times> bytes) list"
  dk_flat :: "(string \<times> bytes) list"
  dk_pack :: "(string \<times> bytes) list"
  dk_idx :: "(string \<times> bytes) list"
  dk_spill :: "(string \<times> bytes) list"

record store =
  st_budget :: nat
  st_backend :: backend
  st_resident :: "(object_id \<times> resident) list"
  st_spilled :: "(object_id \<times> nat) list"
  st_pack_index :: "(object_id \<times> pack_loc) list"
  st_clock :: nat
  st_resident_blob_bytes :: nat
  st_spill_dir_ready :: bool
  st_evictions :: nat
  st_rehydrations :: nat
  st_disk :: disk

definition empty_disk :: disk where
  "empty_disk = \<lparr>dk_sharded = [], dk_flat = [], dk_pack = [], dk_idx = [], dk_spill = []\<rparr>"

definition store_new :: "nat \<Rightarrow> backend \<Rightarrow> disk \<Rightarrow> store" where
  "store_new budget b d =
     \<lparr>st_budget = budget, st_backend = b, st_resident = [], st_spilled = [], st_pack_index = [],
      st_clock = 0, st_resident_blob_bytes = 0, st_spill_dir_ready = False, st_evictions = 0,
      st_rehydrations = 0, st_disk = d\<rparr>"

record store_stats =
  ss_resident_blob_bytes :: nat
  ss_budget_bytes :: nat
  ss_resident_objects :: nat
  ss_spilled_blobs :: nat
  ss_evictions :: nat
  ss_rehydrations :: nat

definition stats :: "store \<Rightarrow> store_stats" where
  "stats st = \<lparr>ss_resident_blob_bytes = st_resident_blob_bytes st, ss_budget_bytes = st_budget st,
     ss_resident_objects = length (st_resident st), ss_spilled_blobs = length (st_spilled st),
     ss_evictions = st_evictions st, ss_rehydrations = st_rehydrations st\<rparr>"

section \<open>Loose files\<close>

definition shard_path :: "ext \<Rightarrow> object_id \<Rightarrow> string \<times> string" where
  "shard_path e i = (take 2 (id_to_hex e i), drop 2 (id_to_hex e i))"

text \<open>The loose file of an object, the sharded one first; the ephemeral backend has none.\<close>

definition existing_loose :: "ext \<Rightarrow> object_id \<Rightarrow> store \<Rightarrow> bytes option" where
  "existing_loose e i st =
     (if st_backend st \<noteq> Persistent then None
      else case map_of (dk_sharded (st_disk st)) (shard_path e i) of
             Some raw \<Rightarrow> Some raw
           | None \<Rightarrow> map_of (dk_flat (st_disk st)) (id_to_hex e i))"

definition write_object_file :: "ext \<Rightarrow> object_id \<Rightarrow> bytes \<Rightarrow> store \<Rightarrow> unit core_result \<times> store" where
  "write_object_file e i b st =
     (if map_of (dk_sharded (st_disk st)) (shard_path e i) \<noteq> None then (Inr (), st)
      else case zstd_encode e b of
             None \<Rightarrow> (Inl (Io ZstdIo), st)
           | Some c \<Rightarrow> (Inr (), st\<lparr>st_disk := (st_disk st)\<lparr>dk_sharded :=
                 AList.update (shard_path e i) c (dk_sharded (st_disk st))\<rparr>\<rparr>))"

text \<open>The canonical bytes of a loose file: a file zstd cannot read is a legacy uncompressed one.\<close>

definition loose_canonical :: "ext \<Rightarrow> bytes \<Rightarrow> bytes" where
  "loose_canonical e raw = (case zstd_decode_all e raw of Some d \<Rightarrow> d | None \<Rightarrow> raw)"

definition read_object_file :: "ext \<Rightarrow> object_id \<Rightarrow> store \<Rightarrow> object core_result" where
  "read_object_file e i st =
     bindE (ok_or (NotFound i) (existing_loose e i st)) (\<lambda>raw.
       let canonical = loose_canonical e raw in
       if id_of e canonical \<noteq> i then Inl (Malformed (LooseHashMismatch i)) else decode canonical)"

text \<open>Reading a record out of a pack file: seek, length prefix, payload, then the pure reader on that one record.\<close>

definition read_record :: "ext \<Rightarrow> object_id \<Rightarrow> nat \<Rightarrow> bytes \<Rightarrow> object core_result" where
  "read_record e i offset pack =
     (let f = drop offset pack in
      if length f < 4 then Inl (Io UnexpectedEof)
      else let len_buf = take 4 f; len = le_nat len_buf; payload = take len (drop 4 f) in
        if length payload < len then Inl (Io UnexpectedEof)
        else read_object_at e (len_buf @ payload) 0 i)"

definition read_pack_object :: "ext \<Rightarrow> object_id \<Rightarrow> store \<Rightarrow> object core_result" where
  "read_pack_object e i st =
     bindE (ok_or (NotFound i) (map_of (st_pack_index st) i)) (\<lambda>loc.
     bindE (ok_or (Io NotFoundIo) (map_of (dk_pack (st_disk st)) (pl_pack loc))) (read_record e i (pl_offset loc)))"

section \<open>Spill files\<close>

definition write_spill :: "ext \<Rightarrow> object_id \<Rightarrow> bytes \<Rightarrow> store \<Rightarrow> store" where
  "write_spill e i b st =
     (let st = st\<lparr>st_spill_dir_ready := True\<rparr>; d = st_disk st in
      if map_of (dk_spill d) (id_to_hex e i) \<noteq> None then st
      else st\<lparr>st_disk := d\<lparr>dk_spill := AList.update (id_to_hex e i) b (dk_spill d)\<rparr>\<rparr>)"

definition read_spill :: "ext \<Rightarrow> object_id \<Rightarrow> store \<Rightarrow> object core_result" where
  "read_spill e i st =
     (if st_backend st \<noteq> Ephemeral SpillTo then Inl (NotFound i)
      else bindE (ok_or (Io NotFoundIo) (map_of (dk_spill (st_disk st)) (id_to_hex e i))) (\<lambda>b.
        let ob = Blob b in
        if object_id e ob \<noteq> i then Inl (Malformed (SpillHashMismatch i)) else Inr ob))"

section \<open>Eviction\<close>

text \<open>\<^verbatim>\<open>Iterator::min_by_key\<close>: the first of the least elements.\<close>

fun min_by_key :: "('a \<Rightarrow> nat) \<Rightarrow> 'a list \<Rightarrow> 'a option" where
  "min_by_key k [] = None"
| "min_by_key k (x # xs) =
     (case min_by_key k xs of None \<Rightarrow> Some x | Some y \<Rightarrow> if k y < k x then Some y else Some x)"

definition evictable :: "object_id \<Rightarrow> store \<Rightarrow> (object_id \<times> resident) list" where
  "evictable incoming st = filter (\<lambda>(i, r). rs_blob_size r > 0 \<and> i \<noteq> incoming) (st_resident st)"

definition victim :: "object_id \<Rightarrow> store \<Rightarrow> object_id option" where
  "victim incoming st = map_option fst (min_by_key (\<lambda>(i, r). rs_last_used r) (evictable incoming st))"

definition evictable_bytes :: "object_id \<Rightarrow> store \<Rightarrow> nat" where
  "evictable_bytes incoming st = sum_list (map (\<lambda>(i, r). rs_blob_size r) (evictable incoming st))"

text \<open>
  \<^verbatim>\<open>expect\<close> on a missing victim and \<^verbatim>\<open>unreachable!\<close> on a victim that is no blob are panics. The
  subtraction is on \<^verbatim>\<open>usize\<close>; the store invariant below says that it never goes below zero.
\<close>

definition evict_to_spill :: "ext \<Rightarrow> object_id \<Rightarrow> store \<Rightarrow> unit core_result \<times> store" where
  "evict_to_spill e i st =
     (case map_of (st_resident st) i of
        None \<Rightarrow> (Inl Panicked, st)
      | Some r \<Rightarrow>
          (case rs_obj r of
             Blob b \<Rightarrow>
               let sz = rs_blob_size r; st = write_spill e i b st in
               (Inr (), st\<lparr>st_resident := AList.delete i (st_resident st),
                 st_resident_blob_bytes := st_resident_blob_bytes st - sz,
                 st_spilled := AList.update i sz (st_spilled st),
                 st_evictions := st_evictions st + 1\<rparr>)
           | _ \<Rightarrow> (Inl Panicked, st)))"

definition drop_resident_blob :: "object_id \<Rightarrow> store \<Rightarrow> store" where
  "drop_resident_blob i st =
     (case map_of (st_resident st) i of
        None \<Rightarrow> st
      | Some r \<Rightarrow> st\<lparr>st_resident := AList.delete i (st_resident st),
          st_resident_blob_bytes := st_resident_blob_bytes st - rs_blob_size r,
          st_evictions := st_evictions st + 1\<rparr>)"

lemma min_by_key_in: "min_by_key k xs = Some x \<Longrightarrow> x \<in> set xs"
  by (induction xs arbitrary: x) (auto split: option.splits if_splits)

lemma victim_resident: "victim incoming st = Some v \<Longrightarrow> v \<in> fst ` set (st_resident st)"
  by (force simp: victim_def evictable_def dest: min_by_key_in)

lemma length_delete_less: "i \<in> fst ` set xs \<Longrightarrow> length (AList.delete i xs) < length xs"
proof (induction xs)
  case Nil
  then show ?case by simp
next
  case (Cons x xs)
  then show ?case using AList.length_delete_le [of i xs]
    by (cases x) (auto simp: less_Suc_eq_le Suc_le_eq rev_image_eqI)
qed

lemma map_of_key: "map_of xs k = Some v \<Longrightarrow> k \<in> fst ` set xs"
  by (metis map_of_eq_None_iff option.distinct(1))

lemma write_spill_simps [simp]:
  "st_resident (write_spill e i b st) = st_resident st"
  "st_spilled (write_spill e i b st) = st_spilled st"
  "st_budget (write_spill e i b st) = st_budget st"
  "st_backend (write_spill e i b st) = st_backend st"
  "st_clock (write_spill e i b st) = st_clock st"
  "st_pack_index (write_spill e i b st) = st_pack_index st"
  "st_resident_blob_bytes (write_spill e i b st) = st_resident_blob_bytes st"
  "st_spill_dir_ready (write_spill e i b st)"
  "dk_sharded (st_disk (write_spill e i b st)) = dk_sharded (st_disk st)"
  "dk_flat (st_disk (write_spill e i b st)) = dk_flat (st_disk st)"
  "dk_pack (st_disk (write_spill e i b st)) = dk_pack (st_disk st)"
  "dk_idx (st_disk (write_spill e i b st)) = dk_idx (st_disk st)"
  by (simp_all add: write_spill_def Let_def)

lemma length_evict_to_spill:
  "evict_to_spill e v st = (Inr u, st') \<Longrightarrow> length (st_resident st') < length (st_resident st)"
  by (auto simp: evict_to_spill_def Let_def length_delete_less map_of_key
      split: option.splits object.splits)

lemma length_drop_resident_blob:
  "v \<in> fst ` set (st_resident st) \<Longrightarrow> length (st_resident (drop_resident_blob v st)) < length (st_resident st)"
  by (auto simp: drop_resident_blob_def length_delete_less map_of_eq_None_iff rev_image_eqI split: option.splits)

function ensure_capacity :: "ext \<Rightarrow> nat \<Rightarrow> object_id \<Rightarrow> store \<Rightarrow> unit core_result \<times> store" where
  "ensure_capacity e needed incoming st =
     (if st_resident_blob_bytes st + needed \<le> st_budget st then (Inr (), st)
      else case victim incoming st of
             None \<Rightarrow> (Inl (BudgetExceeded needed (st_resident_blob_bytes st) (st_budget st)), st)
           | Some v \<Rightarrow>
               (case st_backend st of
                  Ephemeral Disallow \<Rightarrow>
                    (Inl (BudgetExceeded needed (evictable_bytes incoming st) (st_budget st)), st)
                | Ephemeral SpillTo \<Rightarrow>
                    (case evict_to_spill e v st of
                       (Inl err, st') \<Rightarrow> (Inl err, st')
                     | (Inr _, st') \<Rightarrow> ensure_capacity e needed incoming st')
                | Persistent \<Rightarrow> ensure_capacity e needed incoming (drop_resident_blob v st)))"
  by pat_completeness auto
termination
  by (relation "measure (\<lambda>(e, needed, incoming, st). length (st_resident st))")
    (auto dest!: sym [of "(_, _)"] dest: length_evict_to_spill intro: length_drop_resident_blob victim_resident)

declare ensure_capacity.simps [simp del]

section \<open>Insertion and lookup\<close>

text \<open>\<^verbatim>\<open>self.resident_blob_bytes += size; tick; insert\<close>: the tail shared by \<^verbatim>\<open>put\<close> and the three rehydrations of \<^verbatim>\<open>get\<close>.\<close>

definition admit :: "object_id \<Rightarrow> object \<Rightarrow> nat \<Rightarrow> store \<Rightarrow> store" where
  "admit i ob sz st =
     (let t = st_clock st + 1 in
      st\<lparr>st_resident_blob_bytes := st_resident_blob_bytes st + sz, st_clock := t,
         st_resident := AList.update i \<lparr>rs_obj = ob, rs_blob_size = sz, rs_last_used = t\<rparr> (st_resident st)\<rparr>)"

definition reserve :: "ext \<Rightarrow> nat \<Rightarrow> object_id \<Rightarrow> store \<Rightarrow> unit core_result \<times> store" where
  "reserve e sz i st = (if sz > 0 then ensure_capacity e sz i st else (Inr (), st))"

definition put :: "ext \<Rightarrow> object \<Rightarrow> store \<Rightarrow> object_id core_result \<times> store" where
  "put e ob st =
     (let i = object_id e ob in
      if map_of (st_resident st) i \<noteq> None \<or> map_of (st_spilled st) i \<noteq> None then (Inr i, st)
      else if st_backend st = Persistent \<and> existing_loose e i st \<noteq> None then (Inr i, st)
      else bindS (\<lambda>st. if st_backend st = Persistent then write_object_file e i (encode ob) st else (Inr (), st))
        (\<lambda>_. bindS (reserve e (blob_size ob) i)
        (\<lambda>_ st. (Inr i, admit i ob (blob_size ob) st))) st)"

definition get :: "ext \<Rightarrow> object_id \<Rightarrow> store \<Rightarrow> object core_result \<times> store" where
  "get e i st =
     (case map_of (st_resident st) i of
        Some r \<Rightarrow>
          let t = st_clock st + 1 in
          (Inr (rs_obj r), st\<lparr>st_clock := t,
             st_resident := AList.update i (r\<lparr>rs_last_used := t\<rparr>) (st_resident st)\<rparr>)
      | None \<Rightarrow>
          (case map_of (st_spilled st) i of
             Some sz \<Rightarrow>
               bindS (liftE (read_spill e i st)) (\<lambda>ob.
               bindS (ensure_capacity e sz i) (\<lambda>_ st.
                 (Inr ob, admit i ob sz (st\<lparr>st_spilled := AList.delete i (st_spilled st),
                    st_rehydrations := st_rehydrations st + 1\<rparr>)))) st
           | None \<Rightarrow>
               if st_backend st = Persistent then
                 bindS (liftE (case existing_loose e i st of
                                 Some _ \<Rightarrow> read_object_file e i st
                               | None \<Rightarrow> read_pack_object e i st)) (\<lambda>ob.
                 bindS (reserve e (blob_size ob) i) (\<lambda>_ st.
                   (Inr ob, admit i ob (blob_size ob) (st\<lparr>st_rehydrations := st_rehydrations st + 1\<rparr>)))) st
               else (Inl (NotFound i), st)))"

definition contains :: "ext \<Rightarrow> object_id \<Rightarrow> store \<Rightarrow> bool" where
  "contains e i st \<longleftrightarrow>
     map_of (st_resident st) i \<noteq> None \<or> map_of (st_spilled st) i \<noteq> None
     \<or> existing_loose e i st \<noteq> None \<or> map_of (st_pack_index st) i \<noteq> None"

definition get_tree :: "ext \<Rightarrow> object_id \<Rightarrow> store \<Rightarrow> tree core_result \<times> store" where
  "get_tree e i = bindS (get e i) (\<lambda>ob st. (case ob of Tree t \<Rightarrow> Inr t | _ \<Rightarrow> Inl (WrongKind i ''tree''), st))"

definition get_snapshot :: "ext \<Rightarrow> object_id \<Rightarrow> store \<Rightarrow> snapshot core_result \<times> store" where
  "get_snapshot e i = bindS (get e i) (\<lambda>ob st. (case ob of Snapshot s \<Rightarrow> Inr s | _ \<Rightarrow> Inl (WrongKind i ''snapshot''), st))"

definition get_secret :: "ext \<Rightarrow> object_id \<Rightarrow> store \<Rightarrow> secret core_result \<times> store" where
  "get_secret e i = bindS (get e i) (\<lambda>ob st. (case ob of Secret s \<Rightarrow> Inr s | _ \<Rightarrow> Inl (WrongKind i ''secret''), st))"


section \<open>Packs on disk\<close>

text \<open>
  \<^verbatim>\<open>reload_packs\<close>: every index whose pack exists, in directory order; the first pack to name an id
  keeps it. An index that does not parse stops the scan with what was loaded so far.
\<close>

fun load_entries :: "string \<Rightarrow> index_entry list \<Rightarrow> (object_id \<times> pack_loc) list \<Rightarrow> (object_id \<times> pack_loc) list" where
  "load_entries p [] m = m"
| "load_entries p (en # es) m =
     load_entries p es
       (if map_of m (ie_id en) = None then m @ [(ie_id en, \<lparr>pl_pack = p, pl_offset = ie_offset en\<rparr>)] else m)"

fun load_indexes ::
  "(string \<times> bytes) list \<Rightarrow> (string \<times> bytes) list \<Rightarrow> (object_id \<times> pack_loc) list \<Rightarrow>
   unit core_result \<times> (object_id \<times> pack_loc) list" where
  "load_indexes packs [] m = (Inr (), m)"
| "load_indexes packs ((name, idx) # rest) m =
     (if map_of packs name = None then load_indexes packs rest m
      else case parse_index idx of
             Inl err \<Rightarrow> (Inl err, m)
           | Inr es \<Rightarrow> load_indexes packs rest (load_entries name es m))"

definition reload_packs :: "store \<Rightarrow> unit core_result \<times> store" where
  "reload_packs st =
     (if st_backend st \<noteq> Persistent then (Inr (), st\<lparr>st_pack_index := []\<rparr>)
      else let (r, m) = load_indexes (dk_pack (st_disk st)) (dk_idx (st_disk st)) []
           in (r, st\<lparr>st_pack_index := m\<rparr>))"

definition open_persistent :: "nat \<Rightarrow> disk \<Rightarrow> unit core_result \<times> store" where
  "open_persistent budget d = reload_packs (store_new budget Persistent d)"

fun get_all :: "ext \<Rightarrow> object_id list \<Rightarrow> store \<Rightarrow> (object_id \<times> bytes) list core_result \<times> store" where
  "get_all e [] st = (Inr [], st)"
| "get_all e (i # is) st =
     bindS (get e i) (\<lambda>ob. bindS (get_all e is) (\<lambda>objs st. (Inr ((i, encode ob) # objs), st))) st"

text \<open>\<^verbatim>\<open>write_pack\<close>; outside the persistent backend \<^verbatim>\<open>pack_dir().expect\<close> panics.\<close>

definition write_pack :: "ext \<Rightarrow> object_id list \<Rightarrow> store \<Rightarrow> string core_result \<times> store" where
  "write_pack e is =
     bindS (get_all e is) (\<lambda>objs.
     bindS (liftE (build_pack e objs)) (\<lambda>(pack, idx) st.
       let hash = hex_encode e (blake3 e pack); d = st_disk st in
       if st_backend st \<noteq> Persistent then (Inl Panicked, st)
       else bindS reload_packs (\<lambda>_ st. (Inr hash, st))
         (st\<lparr>st_disk := d\<lparr>dk_pack := AList.update hash pack (dk_pack d),
            dk_idx := AList.update hash idx (dk_idx d)\<rparr>\<rparr>)))"

definition delete_pack :: "string \<Rightarrow> store \<Rightarrow> unit core_result \<times> store" where
  "delete_pack hash st =
     reload_packs (if st_backend st \<noteq> Persistent then st
       else st\<lparr>st_disk := (st_disk st)\<lparr>dk_pack := AList.delete hash (dk_pack (st_disk st)),
              dk_idx := AList.delete hash (dk_idx (st_disk st))\<rparr>\<rparr>)"

definition is_packed :: "object_id \<Rightarrow> store \<Rightarrow> bool" where
  "is_packed i st \<longleftrightarrow> map_of (st_pack_index st) i \<noteq> None"

definition packed_ids :: "store \<Rightarrow> object_id list" where
  "packed_ids st = map fst (st_pack_index st)"

definition resident_ids :: "store \<Rightarrow> object_id list" where
  "resident_ids st = map fst (st_resident st) @ map fst (st_spilled st)"

definition pack_hashes :: "store \<Rightarrow> string list" where
  "pack_hashes st = sort (remdups (map (pl_pack \<circ> snd) (st_pack_index st)))"

section \<open>Deletion and enumeration\<close>

text \<open>\<^verbatim>\<open>delete\<close> removes the one file \<^verbatim>\<open>existing_loose_path\<close> finds: the sharded one if there is one, else the flat one.\<close>

definition delete :: "ext \<Rightarrow> object_id \<Rightarrow> store \<Rightarrow> store" where
  "delete e i st =
     (let d = st_disk st;
          d' = (if st_backend st \<noteq> Persistent then d
                else if map_of (dk_sharded d) (shard_path e i) \<noteq> None
                then d\<lparr>dk_sharded := AList.delete (shard_path e i) (dk_sharded d)\<rparr>
                else d\<lparr>dk_flat := AList.delete (id_to_hex e i) (dk_flat d)\<rparr>);
          sz = (case map_of (st_resident st) i of None \<Rightarrow> 0 | Some r \<Rightarrow> rs_blob_size r)
      in st\<lparr>st_disk := d', st_resident := AList.delete i (st_resident st),
           st_resident_blob_bytes := st_resident_blob_bytes st - sz,
           st_spilled := AList.delete i (st_spilled st)\<rparr>)"

definition is_ascii_hexdigit :: "char \<Rightarrow> bool" where
  "is_ascii_hexdigit c \<longleftrightarrow> (CHR ''0'' \<le> c \<and> c \<le> CHR ''9'') \<or> (CHR ''a'' \<le> c \<and> c \<le> CHR ''f'')
     \<or> (CHR ''A'' \<le> c \<and> c \<le> CHR ''F'')"

definition parsed_ids :: "ext \<Rightarrow> string list \<Rightarrow> object_id list" where
  "parsed_ids e names = List.map_filter
     (\<lambda>n. case id_from_str e n of Inl _ \<Rightarrow> None | Inr i \<Rightarrow> Some i) names"

definition list_loose :: "ext \<Rightarrow> store \<Rightarrow> object_id list" where
  "list_loose e st =
     (if st_backend st \<noteq> Persistent then []
      else parsed_ids e (map (\<lambda>((d, n), _). d @ n)
             (filter (\<lambda>((d, n), _). length d = 2 \<and> list_all is_ascii_hexdigit d) (dk_sharded (st_disk st))))
           @ parsed_ids e (map fst (dk_flat (st_disk st))))"

definition all_ids :: "ext \<Rightarrow> store \<Rightarrow> object_id list" where
  "all_ids e st = sort (remdups (resident_ids st @ list_loose e st @ packed_ids st))"

section \<open>Blob sizes without loading\<close>

definition ZSTD_MAGIC :: bytes where "ZSTD_MAGIC = [40, 181, 47, 253]"

text \<open>The hasher of \<^verbatim>\<open>measure_blob\<close> is fed buffer by buffer; BLAKE3 of a split input is that of the whole.\<close>

definition measure_blob :: "ext \<Rightarrow> object_id \<Rightarrow> bytes \<times> bool \<Rightarrow> nat core_result" where
  "measure_blob e i src =
     (case src of (data, ok) \<Rightarrow>
        if \<not> ok then Inl (Io ZstdIo)
        else if id_of e data \<noteq> i then Inl (Malformed (LooseHashMismatch i))
        else (case data of
                [] \<Rightarrow> Inl (WrongKind i ''blob'')
              | b # _ \<Rightarrow> if b \<noteq> TAG_BLOB then Inl (WrongKind i ''blob'') else Inr (length data - 1)))"

definition store_blob_size :: "ext \<Rightarrow> object_id \<Rightarrow> store \<Rightarrow> nat core_result" where
  "store_blob_size e i st =
     (case map_of (st_resident st) i of
        Some r \<Rightarrow> (case rs_obj r of Blob b \<Rightarrow> Inr (length b) | _ \<Rightarrow> Inl (WrongKind i ''blob''))
      | None \<Rightarrow>
          (case map_of (st_spilled st) i of
             Some sz \<Rightarrow> Inr sz
           | None \<Rightarrow>
               (case existing_loose e i st of
                  Some raw \<Rightarrow>
                    measure_blob e i (if take 4 raw = ZSTD_MAGIC then zstd_stream e raw else (raw, True))
                | None \<Rightarrow>
                    (case map_of (st_pack_index st) i of
                       None \<Rightarrow> Inl (NotFound i)
                     | Some loc \<Rightarrow>
                         bindE (ok_or (Io NotFoundIo) (map_of (dk_pack (st_disk st)) (pl_pack loc))) (\<lambda>pack.
                           let f = drop (pl_offset loc) pack in
                           if length f < 4 then Inl (Io UnexpectedEof)
                           else measure_blob e i (zstd_stream e (take (le_nat (take 4 f)) (drop 4 f))))))))"

text \<open>\<^verbatim>\<open>Drop\<close>: the spill directory is removed if it was created.\<close>

definition drop_store :: "store \<Rightarrow> disk" where
  "drop_store st =
     (if st_spill_dir_ready st \<and> st_backend st = Ephemeral SpillTo
      then (st_disk st)\<lparr>dk_spill := []\<rparr> else st_disk st)"

end
