(* ===== verification/Store_Correct.thy ===== *)
theory Store_Correct
  imports Store
begin

text \<open>
  Correctness of the store. \<open>acct_inv\<close> is the accounting of the resident set (the byte count is
  the sum of the resident blobs and never exceeds the budget, recency stamps are distinct);
  \<open>content_inv\<close> says where every object comes from; \<open>view\<close> abstracts a store to the map from ids to
  canonical objects it serves. The locale \<open>object_store\<close> is the contract the rest of the program
  relies on; it is interpreted on the store at the end.
\<close>

section \<open>Accounting\<close>

definition total :: "(object_id \<times> resident) list \<Rightarrow> nat" where
  "total xs = sum_list (map (\<lambda>(i, r). rs_blob_size r) xs)"

definition stamps_ok :: "(object_id \<rightharpoonup> resident) \<Rightarrow> bool" where
  "stamps_ok m \<longleftrightarrow> inj_on (\<lambda>i. rs_last_used (the (m i))) (dom m)"

definition acct_inv :: "store \<Rightarrow> bool" where
  "acct_inv st \<longleftrightarrow>
     distinct (map fst (st_resident st)) \<and> distinct (map fst (st_spilled st))
     \<and> st_resident_blob_bytes st = total (st_resident st)
     \<and> st_resident_blob_bytes st \<le> st_budget st
     \<and> (\<forall>i r. map_of (st_resident st) i = Some r \<longrightarrow>
          rs_blob_size r = blob_size (rs_obj r) \<and> rs_last_used r \<le> st_clock st \<and> map_of (st_spilled st) i = None)
     \<and> stamps_ok (map_of (st_resident st))"

lemma stamps_sub: "stamps_ok m \<Longrightarrow> m' \<subseteq>\<^sub>m m \<Longrightarrow> stamps_ok m'"
  unfolding stamps_ok_def inj_on_def map_le_def by (metis domIff)

lemma stamps_fresh:
  assumes "stamps_ok m" "\<forall>j s. m j = Some s \<longrightarrow> j \<noteq> i \<longrightarrow> rs_last_used s < rs_last_used r"
  shows "stamps_ok (m(i \<mapsto> r))"
  using assms unfolding stamps_ok_def by (fastforce simp: inj_on_def dom_def split: if_splits)

lemma delete_absent: "i \<notin> fst ` set xs \<Longrightarrow> AList.delete i xs = xs"
  by (auto simp: AList.delete_eq image_iff intro!: filter_True)

lemma delete_unmapped: "map_of xs i = None \<Longrightarrow> AList.delete i xs = xs"
  by (rule delete_absent) (simp add: map_of_eq_None_iff)

lemma total_delete:
  "distinct (map fst xs) \<Longrightarrow> map_of xs i = Some r \<Longrightarrow> total xs = rs_blob_size r + total (AList.delete i xs)"
proof (induction xs)
  case Nil
  then show ?case by simp
next
  case (Cons x xs)
  obtain j s where x: "x = (j, s)" by (cases x)
  show ?case
  proof (cases "j = i")
    case True
    with Cons.prems x have "i \<notin> fst ` set xs" by auto
    then have "AList.delete i xs = xs" by (rule delete_absent)
    with True Cons.prems x show ?thesis by (simp add: total_def)
  next
    case False
    with Cons x show ?thesis by (auto simp: total_def)
  qed
qed

lemma total_delete_le: "distinct (map fst xs) \<Longrightarrow> total (AList.delete i xs) \<le> total xs"
  by (cases "map_of xs i") (auto simp: total_delete delete_absent map_of_eq_None_iff)

lemma total_update_new: "map_of xs i = None \<Longrightarrow> total (AList.update i r xs) = total xs + rs_blob_size r"
  by (induction xs) (auto simp: total_def split: if_splits)

lemma total_update_same:
  "distinct (map fst xs) \<Longrightarrow> map_of xs i = Some r \<Longrightarrow> rs_blob_size r' = rs_blob_size r \<Longrightarrow>
   total (AList.update i r' xs) = total xs"
  by (induction xs) (auto simp: total_def split: if_splits)

lemma delete_conv_fun: "map_of (AList.delete i xs) = (map_of xs)(i := None)"
  by (rule AList.delete_conv')

lemma update_conv_fun: "map_of (AList.update i v xs) = (map_of xs)(i \<mapsto> v)"
  by (rule AList.update_conv')

lemmas alist_simps = delete_conv_fun update_conv_fun AList.distinct_update AList.distinct_delete

lemma delete_map_le: "map_of (AList.delete i xs) \<subseteq>\<^sub>m map_of xs"
  by (auto simp: alist_simps map_le_def)

lemma acct_inv_cong:
  "acct_inv st \<Longrightarrow> st_resident st' = st_resident st \<Longrightarrow> st_spilled st' = st_spilled st \<Longrightarrow>
   st_budget st' = st_budget st \<Longrightarrow> st_clock st' = st_clock st \<Longrightarrow>
   st_resident_blob_bytes st' = st_resident_blob_bytes st \<Longrightarrow> acct_inv st'"
  unfolding acct_inv_def by simp

lemma acct_drop_resident:
  assumes "acct_inv st" "map_of (st_resident st) i = Some r"
  shows "acct_inv (st\<lparr>st_resident := AList.delete i (st_resident st),
    st_resident_blob_bytes := st_resident_blob_bytes st - rs_blob_size r\<rparr>)"
  using assms total_delete [of "st_resident st" i r] stamps_sub [OF _ delete_map_le [of i "st_resident st"]]
  unfolding acct_inv_def by (simp add: alist_simps)

lemma acct_drop_spilled:
  "acct_inv st \<Longrightarrow> acct_inv (st\<lparr>st_spilled := AList.delete i (st_spilled st)\<rparr>)"
  unfolding acct_inv_def by (auto simp: alist_simps)

lemma acct_spill:
  "acct_inv st \<Longrightarrow> map_of (st_resident st) i = None \<Longrightarrow>
   acct_inv (st\<lparr>st_spilled := AList.update i sz (st_spilled st)\<rparr>)"
  unfolding acct_inv_def by (auto simp: alist_simps)

lemma acct_stamped:
  assumes "acct_inv st" "rs_last_used r = Suc (st_clock st)"
  shows "stamps_ok ((map_of (st_resident st))(i \<mapsto> r))"
  using assms by (intro stamps_fresh) (auto simp: acct_inv_def less_Suc_eq_le)

lemma acct_admit:
  assumes "acct_inv st" "map_of (st_resident st) i = None" "map_of (st_spilled st) i = None"
    and "st_resident_blob_bytes st + blob_size ob \<le> st_budget st"
  shows "acct_inv (admit i ob (blob_size ob) st)"
  using assms total_update_new [OF assms(2)] acct_stamped [OF assms(1)]
  unfolding acct_inv_def admit_def Let_def
  by (simp add: alist_simps le_Suc_eq)

lemma acct_touch:
  assumes "acct_inv st" "map_of (st_resident st) i = Some r"
  shows "acct_inv (st\<lparr>st_clock := st_clock st + 1,
    st_resident := AList.update i (r\<lparr>rs_last_used := st_clock st + 1\<rparr>) (st_resident st)\<rparr>)"
  using assms total_update_same [of "st_resident st" i r "r\<lparr>rs_last_used := st_clock st + 1\<rparr>"]
    acct_stamped [OF assms(1)]
  unfolding acct_inv_def
  by (simp add: alist_simps le_Suc_eq)

section \<open>Where objects come from\<close>

definition collision_free :: "ext \<Rightarrow> bytes set \<Rightarrow> bool" where
  "collision_free e U \<longleftrightarrow> inj_on (blake3 e) U"

text \<open>\<open>sourced e U i ob\<close>: some bytes of \<open>U\<close> hash to \<open>i\<close> and decode to \<open>ob\<close>, up to the canonical order.\<close>

definition sourced :: "ext \<Rightarrow> bytes set \<Rightarrow> object_id \<Rightarrow> object \<Rightarrow> bool" where
  "sourced e U i ob \<longleftrightarrow> (\<exists>c \<in> U. \<exists>ob'. id_of e c = i \<and> decode c = Inr ob' \<and> canon ob' = canon ob)"

lemma sourced_unique:
  "collision_free e U \<Longrightarrow> sourced e U i a \<Longrightarrow> sourced e U i b \<Longrightarrow> canon a = canon b"
  by (auto simp: sourced_def collision_free_def id_of_def dest!: inj_onD)

lemma sourced_encode: "encode ob \<in> U \<Longrightarrow> object_ok ob \<Longrightarrow> sourced e U (object_id e ob) ob"
  by (auto simp: sourced_def object_id_def decode_encode_lemma intro!: bexI [of _ "encode ob"])

lemma decode_blob_exact: "decode c = Inr (Blob b) \<Longrightarrow> c = encode (Blob b)"
  by (erule decode_sound) (simp add: accepted_body_def encode_def)

lemma canon_eq_Blob [simp]: "canon ob = Blob b \<longleftrightarrow> ob = Blob b"
  by (cases ob) (auto simp: canon_def)

lemma canon_Blob [simp]: "canon (Blob b) = Blob b"
  by (simp add: canon_def)

lemma sourced_Blob: "sourced e U i (Blob b) \<longleftrightarrow> encode (Blob b) \<in> U \<and> object_id e (Blob b) = i"
  using sourced_encode [of "Blob b" U e]
  by (auto simp: sourced_def object_id_def object_ok_def dest: decode_blob_exact)

definition resident_src :: "ext \<Rightarrow> bytes set \<Rightarrow> store \<Rightarrow> bool" where
  "resident_src e U st \<longleftrightarrow>
     (\<forall>i r. map_of (st_resident st) i = Some r \<longrightarrow> sourced e U i (rs_obj r)
        \<and> (st_backend st = Ephemeral SpillTo \<longrightarrow> blob_size (rs_obj r) > 0 \<longrightarrow> (\<exists>b. rs_obj r = Blob b))
        \<and> (st_backend st = Persistent \<longrightarrow> existing_loose e i st \<noteq> None \<or> map_of (st_pack_index st) i \<noteq> None))"

definition spill_src :: "ext \<Rightarrow> bytes set \<Rightarrow> store \<Rightarrow> bool" where
  "spill_src e U st \<longleftrightarrow>
     (\<forall>i sz. map_of (st_spilled st) i = Some sz \<longrightarrow> st_backend st = Ephemeral SpillTo
        \<and> (\<exists>b. map_of (dk_spill (st_disk st)) (id_to_hex e i) = Some b \<and> sz = length b \<and> sz > 0))
     \<and> (\<forall>i b. map_of (dk_spill (st_disk st)) (id_to_hex e i) = Some b \<longrightarrow> sourced e U i (Blob b))"

definition loose_good :: "ext \<Rightarrow> bytes set \<Rightarrow> object_id \<Rightarrow> bytes \<Rightarrow> bool" where
  "loose_good e U i raw \<longleftrightarrow>
     loose_canonical e raw \<in> U \<and> id_of e (loose_canonical e raw) = i \<and> \<not> isErr (decode (loose_canonical e raw))"

definition disk_src :: "ext \<Rightarrow> bytes set \<Rightarrow> store \<Rightarrow> bool" where
  "disk_src e U st \<longleftrightarrow>
     (\<forall>i raw. map_of (dk_sharded (st_disk st)) (shard_path e i) = Some raw \<longrightarrow> loose_good e U i raw)
     \<and> (\<forall>i raw. map_of (dk_flat (st_disk st)) (id_to_hex e i) = Some raw \<longrightarrow> loose_good e U i raw)
     \<and> (st_backend st \<noteq> Persistent \<longrightarrow> st_pack_index st = [])
     \<and> (\<forall>i. map_of (st_pack_index st) i \<noteq> None \<longrightarrow> (\<exists>ob. read_pack_object e i st = Inr ob \<and> sourced e U i ob))"

lemma existing_loose_good: "disk_src e U st \<Longrightarrow> existing_loose e i st = Some raw \<Longrightarrow> loose_good e U i raw"
  by (auto simp: disk_src_def existing_loose_def split: if_splits option.splits)

definition content_inv :: "ext \<Rightarrow> bytes set \<Rightarrow> store \<Rightarrow> bool" where
  "content_inv e U st \<longleftrightarrow> resident_src e U st \<and> spill_src e U st \<and> disk_src e U st"

lemmas content_defs = content_inv_def resident_src_def spill_src_def disk_src_def

definition store_ok :: "ext \<Rightarrow> bytes set \<Rightarrow> store \<Rightarrow> bool" where
  "store_ok e U st \<longleftrightarrow> hex_ok e \<and> zstd_ok e \<and> collision_free e U \<and> acct_inv st \<and> content_inv e U st"

text \<open>What \<^verbatim>\<open>get\<close> reads, wherever the object lives, before the budget has its say.\<close>

definition lookup :: "ext \<Rightarrow> store \<Rightarrow> object_id \<Rightarrow> object core_result" where
  "lookup e st i =
     (case map_of (st_resident st) i of
        Some r \<Rightarrow> Inr (rs_obj r)
      | None \<Rightarrow> (case map_of (st_spilled st) i of
          Some _ \<Rightarrow> read_spill e i st
        | None \<Rightarrow> if st_backend st \<noteq> Persistent then Inl (NotFound i)
            else case existing_loose e i st of
                   Some _ \<Rightarrow> read_object_file e i st | None \<Rightarrow> read_pack_object e i st))"

definition view :: "ext \<Rightarrow> store \<Rightarrow> object_id \<rightharpoonup> object" where
  "view e st i = (case lookup e st i of Inl _ \<Rightarrow> None | Inr ob \<Rightarrow> Some (canon ob))"

lemma read_object_file_sourced:
  assumes "existing_loose e i st = Some raw" "loose_good e U i raw"
  shows "\<exists>ob. read_object_file e i st = Inr ob \<and> sourced e U i ob"
  using assms
  by (cases "decode (loose_canonical e raw)") (auto simp: read_object_file_def Let_def sourced_def loose_good_def)

lemma lookup_contains:
  assumes "content_inv e U st" "contains e i st"
  obtains ob where "lookup e st i = Inr ob" "sourced e U i ob"
proof (cases "map_of (st_resident st) i")
  case (Some r)
  with assms(1) have "sourced e U i (rs_obj r)" by (auto simp: content_defs)
  with Some that show thesis by (auto simp: lookup_def)
next
  case None
  show thesis
  proof (cases "map_of (st_spilled st) i")
    case (Some sz)
    with assms(1) obtain b where b: "st_backend st = Ephemeral SpillTo"
      "map_of (dk_spill (st_disk st)) (id_to_hex e i) = Some b" "sourced e U i (Blob b)"
      by (fastforce simp: content_defs)
    with Some None that show thesis
      by (auto simp: lookup_def read_spill_def sourced_Blob Let_def)
  next
    case sp: None
    show thesis
    proof (cases "existing_loose e i st")
      case (Some raw)
      with assms(1) have "\<exists>ob. read_object_file e i st = Inr ob \<and> sourced e U i ob"
        by (intro read_object_file_sourced existing_loose_good) (auto simp: content_inv_def)
      with Some None sp that show thesis
        by (auto simp: lookup_def existing_loose_def split: if_splits)
    next
      case lo: None
      with assms None sp have "map_of (st_pack_index st) i \<noteq> None" by (auto simp: contains_def)
      with assms(1) have "\<exists>ob. read_pack_object e i st = Inr ob \<and> sourced e U i ob" "st_backend st = Persistent"
        by (auto simp: content_defs)
      with lo None sp that show thesis by (auto simp: lookup_def)
    qed
  qed
qed

lemma lookup_not_contains: "\<not> contains e i st \<Longrightarrow> isErr (lookup e st i)"
  by (auto simp: contains_def lookup_def read_pack_object_def split: option.splits)

lemma view_contains: "content_inv e U st \<Longrightarrow> view e st i \<noteq> None \<longleftrightarrow> contains e i st"
  using lookup_not_contains [of e i st] lookup_contains [of e U st i]
  by (cases "contains e i st"; cases "lookup e st i") (auto simp: view_def)

lemma view_sourced: "content_inv e U st \<Longrightarrow> view e st i = Some ob \<Longrightarrow> sourced e U i ob"
proof -
  assume a: "content_inv e U st" "view e st i = Some ob"
  then have "contains e i st" using view_contains by fastforce
  with a(1) obtain ob' where "lookup e st i = Inr ob'" "sourced e U i ob'" by (rule lookup_contains)
  with a(2) show ?thesis by (auto simp: view_def sourced_def)
qed

text \<open>Two stores with the same ids serve the same objects.\<close>

lemma view_cong:
  assumes "collision_free e U" "content_inv e U st" "content_inv e U st'"
    and "contains e i st' \<longleftrightarrow> contains e i st"
  shows "view e st' i = view e st i"
proof (cases "view e st i")
  case None
  then show ?thesis using view_contains [OF assms(2), of i] view_contains [OF assms(3), of i] assms(4) by auto
next
  case (Some a)
  then obtain b where b: "view e st' i = Some b"
    using view_contains [OF assms(2), of i] view_contains [OF assms(3), of i] assms(4) by auto
  have "canon b = canon a"
    using sourced_unique [OF assms(1) view_sourced [OF assms(3) b] view_sourced [OF assms(2) Some]] .
  with b Some show ?thesis by (auto simp: view_def split: sum.splits)
qed

lemma view_Some_contains:
  assumes "collision_free e U" "content_inv e U st" "contains e i st" "sourced e U i ob"
  shows "view e st i = Some (canon ob)"
proof -
  obtain ob' where ob': "lookup e st i = Inr ob'" "sourced e U i ob'"
    using lookup_contains [OF assms(2,3)] by blast
  with sourced_unique [OF assms(1) ob'(2) assms(4)] show ?thesis by (simp add: view_def)
qed

section \<open>Eviction keeps every object\<close>

text \<open>
  \<open>shrinks e i st st'\<close>: \<open>st'\<close> is \<open>st\<close> after some evictions that left \<open>i\<close> alone. No object is lost,
  nothing else than the place of blobs changes.
\<close>

definition shrinks :: "ext \<Rightarrow> object_id \<Rightarrow> store \<Rightarrow> store \<Rightarrow> bool" where
  "shrinks e i st st' \<longleftrightarrow>
     st_budget st' = st_budget st \<and> st_backend st' = st_backend st \<and> st_clock st' = st_clock st
     \<and> st_pack_index st' = st_pack_index st
     \<and> dk_sharded (st_disk st') = dk_sharded (st_disk st) \<and> dk_flat (st_disk st') = dk_flat (st_disk st)
     \<and> dk_pack (st_disk st') = dk_pack (st_disk st) \<and> dk_idx (st_disk st') = dk_idx (st_disk st)
     \<and> map_of (st_resident st') i = map_of (st_resident st) i
     \<and> map_of (st_spilled st') i = map_of (st_spilled st) i
     \<and> map_of (st_resident st') \<subseteq>\<^sub>m map_of (st_resident st)
     \<and> st_resident_blob_bytes st' \<le> st_resident_blob_bytes st
     \<and> (\<forall>j. contains e j st' \<longleftrightarrow> contains e j st)"

lemma shrinks_refl [simp]: "shrinks e i st st"
  by (simp add: shrinks_def)

lemma shrinks_trans: "shrinks e i a b \<Longrightarrow> shrinks e i b c \<Longrightarrow> shrinks e i a c"
  unfolding shrinks_def by (auto intro: map_le_trans)

lemma existing_loose_cong:
  "st_backend st' = st_backend st \<Longrightarrow> dk_sharded (st_disk st') = dk_sharded (st_disk st) \<Longrightarrow>
   dk_flat (st_disk st') = dk_flat (st_disk st) \<Longrightarrow> existing_loose e i st' = existing_loose e i st"
  by (simp add: existing_loose_def split: option.splits)

lemma read_pack_object_cong:
  "st_pack_index st' = st_pack_index st \<Longrightarrow> dk_pack (st_disk st') = dk_pack (st_disk st) \<Longrightarrow>
   read_pack_object e i st' = read_pack_object e i st"
  by (simp add: read_pack_object_def)

lemma disk_src_cong:
  assumes "st_backend st' = st_backend st" "dk_sharded (st_disk st') = dk_sharded (st_disk st)"
    "dk_flat (st_disk st') = dk_flat (st_disk st)" "st_pack_index st' = st_pack_index st"
    "dk_pack (st_disk st') = dk_pack (st_disk st)"
  shows "disk_src e U st' = disk_src e U st"
  unfolding disk_src_def
  by (simp add: read_pack_object_cong [OF assms(4,5)] assms(1-4))

lemma resident_src_sub:
  assumes "resident_src e U st" "map_of (st_resident st') \<subseteq>\<^sub>m map_of (st_resident st)"
    and "st_backend st' = st_backend st" "dk_sharded (st_disk st') = dk_sharded (st_disk st)"
    "dk_flat (st_disk st') = dk_flat (st_disk st)" "st_pack_index st' = st_pack_index st"
  shows "resident_src e U st'"
  using assms(1,2) existing_loose_cong [OF assms(3-5)] assms(3,6) unfolding resident_src_def map_le_def
  by (metis domI)

lemma contains_cong:
  assumes "st_backend st' = st_backend st" "dk_sharded (st_disk st') = dk_sharded (st_disk st)"
    "dk_flat (st_disk st') = dk_flat (st_disk st)" "st_pack_index st' = st_pack_index st"
    and "map_of (st_resident st') i = None \<and> map_of (st_spilled st') i = None
      \<longleftrightarrow> map_of (st_resident st) i = None \<and> map_of (st_spilled st) i = None"
  shows "contains e i st' = contains e i st"
  unfolding contains_def existing_loose_cong [OF assms(1-3)] assms(4) using assms(5) by argo

lemma min_by_key_None [simp]: "min_by_key k xs = None \<longleftrightarrow> xs = []"
  by (cases xs) (auto split: option.splits if_splits)

lemma min_by_key_least: "min_by_key k xs = Some x \<Longrightarrow> y \<in> set xs \<Longrightarrow> k x \<le> k y"
proof (induction xs arbitrary: x)
  case Nil
  then show ?case by simp
next
  case (Cons a xs)
  show ?case
  proof (cases "min_by_key k xs")
    case None
    with Cons.prems show ?thesis by simp
  next
    case (Some z)
    with Cons.IH [of z] Cons.prems show ?thesis by (auto split: if_splits)
  qed
qed

lemma victim_SomeD:
  assumes "acct_inv st" "victim incoming st = Some v"
  obtains r where "map_of (st_resident st) v = Some r" "rs_blob_size r > 0" "v \<noteq> incoming"
proof -
  from assms(2) obtain r where "(v, r) \<in> set (evictable incoming st)"
    by (auto simp: victim_def dest: min_by_key_in)
  with assms(1) that show thesis by (auto simp: evictable_def acct_inv_def)
qed

lemma spill_keys:
  assumes "hex_ok e"
  shows "map_of (dk_spill (st_disk (write_spill e v b st))) (id_to_hex e i) =
    (if i = v \<and> map_of (dk_spill (st_disk st)) (id_to_hex e v) = None then Some b
     else map_of (dk_spill (st_disk st)) (id_to_hex e i))"
  using id_to_hex_inj [OF assms, of i v]
  by (auto simp: write_spill_def Let_def alist_simps)

lemma evict_to_spill_ok:
  assumes ok: "store_ok e U st" and b: "st_backend st = Ephemeral SpillTo"
    and v: "victim incoming st = Some v"
  obtains st' where "evict_to_spill e v st = (Inr (), st')" "store_ok e U st'" "shrinks e incoming st st'"
proof -
  from ok have acct: "acct_inv st" and con: "content_inv e U st" and hex: "hex_ok e"
    and cf: "collision_free e U"
    by (simp_all add: store_ok_def)
  obtain r where r: "map_of (st_resident st) v = Some r" "rs_blob_size r > 0" "v \<noteq> incoming"
    using victim_SomeD [OF acct v] .
  from acct r(1) have sz: "rs_blob_size r = blob_size (rs_obj r)" by (simp add: acct_inv_def)
  with con r b obtain blob where blob: "rs_obj r = Blob blob" by (fastforce simp: content_defs)
  from con r(1) have src: "sourced e U v (Blob blob)" by (fastforce simp: content_defs blob)
  define st' where "st' = (write_spill e v blob st)\<lparr>
     st_resident := AList.delete v (st_resident st),
     st_resident_blob_bytes := st_resident_blob_bytes st - rs_blob_size r,
     st_spilled := AList.update v (rs_blob_size r) (st_spilled st),
     st_evictions := st_evictions (write_spill e v blob st) + 1\<rparr>"
  have run: "evict_to_spill e v st = (Inr (), st')"
    using r blob by (simp add: evict_to_spill_def st'_def Let_def)
  have old: "map_of (dk_spill (st_disk st)) (id_to_hex e v) = Some b' \<Longrightarrow> b' = blob" for b'
  proof -
    assume "map_of (dk_spill (st_disk st)) (id_to_hex e v) = Some b'"
    with con have "sourced e U v (Blob b')" by (simp add: content_defs)
    with sourced_unique [OF cf src this] show "b' = blob" by simp
  qed
  have le: "map_of (st_resident st') \<subseteq>\<^sub>m map_of (st_resident st)"
    by (simp add: st'_def delete_map_le)
  have same: "st_backend st' = st_backend st" "dk_sharded (st_disk st') = dk_sharded (st_disk st)"
    "dk_flat (st_disk st') = dk_flat (st_disk st)" "st_pack_index st' = st_pack_index st"
    "dk_pack (st_disk st') = dk_pack (st_disk st)"
    by (simp_all add: st'_def)
  have "acct_inv st'"
    using acct_spill [OF acct_drop_resident [OF acct r(1)], of v "rs_blob_size r"]
    by (rule acct_inv_cong) (simp_all add: st'_def alist_simps)
  moreover have "resident_src e U st'"
    using con resident_src_sub [OF _ le same(1-4)] by (simp add: content_inv_def)
  moreover have "disk_src e U st'"
    using con disk_src_cong [OF same] by (simp add: content_inv_def)
  moreover have "spill_src e U st'"
    using con src old r(2) unfolding spill_src_def content_inv_def same(1)
    by (auto simp: st'_def alist_simps spill_keys [OF hex] b sz blob blob_size_def split: if_splits)
  moreover have "shrinks e incoming st st'"
    using r le contains_cong [OF same(1-4), of _ e] unfolding shrinks_def
    by (auto simp: st'_def alist_simps split: if_splits)
  ultimately show thesis using that run ok by (simp add: store_ok_def content_inv_def)
qed

lemma drop_resident_blob_ok:
  assumes ok: "store_ok e U st" and b: "st_backend st = Persistent"
    and v: "victim incoming st = Some v"
  shows "store_ok e U (drop_resident_blob v st)" "shrinks e incoming st (drop_resident_blob v st)"
proof -
  from ok have acct: "acct_inv st" and con: "content_inv e U st" by (simp_all add: store_ok_def)
  obtain r where r: "map_of (st_resident st) v = Some r" "rs_blob_size r > 0" "v \<noteq> incoming"
    using victim_SomeD [OF acct v] .
  let ?st' = "drop_resident_blob v st"
  have le: "map_of (st_resident ?st') \<subseteq>\<^sub>m map_of (st_resident st)"
    using r by (simp add: drop_resident_blob_def delete_map_le)
  have same: "st_backend ?st' = st_backend st" "dk_sharded (st_disk ?st') = dk_sharded (st_disk st)"
    "dk_flat (st_disk ?st') = dk_flat (st_disk st)" "st_pack_index ?st' = st_pack_index st"
    "dk_pack (st_disk ?st') = dk_pack (st_disk st)" "st_disk ?st' = st_disk st" "st_spilled ?st' = st_spilled st"
    using r by (simp_all add: drop_resident_blob_def)
  have "acct_inv ?st'"
    using acct_drop_resident [OF acct r(1)] by (rule acct_inv_cong) (simp_all add: drop_resident_blob_def r)
  moreover have "content_inv e U ?st'"
    using con resident_src_sub [OF _ le same(1-4)] disk_src_cong [OF same(1-5)]
    by (simp add: content_inv_def spill_src_def same)
  ultimately show "store_ok e U ?st'" using ok by (simp add: store_ok_def)
  have "existing_loose e v st \<noteq> None \<or> map_of (st_pack_index st) v \<noteq> None"
    using con r(1) b unfolding content_inv_def resident_src_def by blast
  then have "contains e j ?st' = contains e j st" for j
    using r(1) existing_loose_cong [OF same(1-3), of e j] unfolding contains_def
    by (auto simp: drop_resident_blob_def alist_simps)
  then show "shrinks e incoming st ?st'"
    using r le same unfolding shrinks_def by (simp add: drop_resident_blob_def alist_simps)
qed

lemma no_victim_empty:
  assumes "acct_inv st" "victim incoming st = None" "map_of (st_resident st) incoming = None"
  shows "st_resident_blob_bytes st = 0"
proof -
  have "evictable incoming st = []" using assms(2) by (simp add: victim_def)
  moreover have "incoming \<notin> fst ` set (st_resident st)" using assms(3) by (simp add: map_of_eq_None_iff)
  ultimately have "\<forall>x \<in> set (st_resident st). (case x of (i, r) \<Rightarrow> rs_blob_size r) = 0"
    by (force simp: evictable_def filter_empty_conv)
  then show ?thesis using assms(1) by (simp add: acct_inv_def total_def)
qed

text \<open>The errors of a reservation are \<^verbatim>\<open>BudgetExceeded\<close>, and only two situations give one.\<close>

definition reserved :: "unit core_result \<Rightarrow> nat \<Rightarrow> object_id \<Rightarrow> store \<Rightarrow> bool" where
  "reserved r needed i st \<longleftrightarrow>
     r = Inr () \<or> (\<exists>h. r = Inl (BudgetExceeded needed h (st_budget st)))
       \<and> (st_backend st = Ephemeral Disallow \<or> map_of (st_resident st) i \<noteq> None \<or> st_budget st < needed)"

lemma reserved_mono: "shrinks e i st st' \<Longrightarrow> reserved r n i st' \<Longrightarrow> reserved r n i st"
  by (auto simp: reserved_def shrinks_def)

lemma ensure_capacity_ok:
  assumes "store_ok e U st"
  shows "\<exists>r st'. ensure_capacity e needed incoming st = (r, st') \<and> store_ok e U st' \<and> shrinks e incoming st st'
    \<and> (\<not> isErr r \<longrightarrow> st_resident_blob_bytes st' + needed \<le> st_budget st')
    \<and> reserved r needed incoming st"
  using assms
proof (induction e needed incoming st rule: ensure_capacity.induct)
  case (1 e needed incoming st)
  show ?case
  proof (cases "st_resident_blob_bytes st + needed \<le> st_budget st")
    case True
    with 1 show ?thesis by (subst ensure_capacity.simps) (simp add: reserved_def)
  next
    case over: False
    show ?thesis
    proof (cases "victim incoming st")
      case None
      have "reserved (Inl (BudgetExceeded needed (st_resident_blob_bytes st) (st_budget st))) needed incoming st"
        using no_victim_empty [OF _ None] 1(3) over
        by (cases "map_of (st_resident st) incoming") (auto simp: reserved_def store_ok_def)
      with None over 1 show ?thesis by (subst ensure_capacity.simps) simp
    next
      case v: (Some v)
      show ?thesis
      proof (cases "st_backend st")
        case Persistent
        note d = drop_resident_blob_ok [OF 1(3) Persistent v]
        from 1(2) [OF over v Persistent d(1)] over v Persistent show ?thesis
          by (subst ensure_capacity.simps) (auto intro: shrinks_trans [OF d(2)] reserved_mono [OF d(2)])
      next
        case (Ephemeral pol)
        show ?thesis
        proof (cases pol)
          case Disallow
          with over v 1 Ephemeral show ?thesis by (subst ensure_capacity.simps) (simp add: reserved_def)
        next
          case SpillTo
          with Ephemeral have b: "st_backend st = Ephemeral SpillTo" by simp
          obtain st1 where s: "evict_to_spill e v st = (Inr (), st1)" "store_ok e U st1" "shrinks e incoming st st1"
            using evict_to_spill_ok [OF 1(3) b v] .
          from 1(1) [OF over v Ephemeral SpillTo s(1) [symmetric] refl s(2)] over v b s(1) show ?thesis
            by (subst ensure_capacity.simps) (auto intro: shrinks_trans [OF s(3)] reserved_mono [OF s(3)])
        qed
      qed
    qed
  qed
qed

section \<open>Putting\<close>

lemma admit_simps [simp]:
  "st_budget (admit i ob sz st) = st_budget st" "st_backend (admit i ob sz st) = st_backend st"
  "st_spilled (admit i ob sz st) = st_spilled st" "st_pack_index (admit i ob sz st) = st_pack_index st"
  "st_disk (admit i ob sz st) = st_disk st"
  "map_of (st_resident (admit i ob sz st)) =
     (map_of (st_resident st))(i \<mapsto> \<lparr>rs_obj = ob, rs_blob_size = sz, rs_last_used = st_clock st + 1\<rparr>)"
  by (simp_all add: admit_def Let_def alist_simps)

lemma existing_loose_admit [simp]: "existing_loose e j (admit i ob sz st) = existing_loose e j st"
  by (rule existing_loose_cong) simp_all

lemma contains_admit: "contains e j (admit i ob sz st) \<longleftrightarrow> j = i \<or> contains e j st"
  by (auto simp: contains_def)

lemma admit_ok:
  assumes ok: "store_ok e U st" and new: "map_of (st_resident st) i = None" "map_of (st_spilled st) i = None"
    and fits: "st_resident_blob_bytes st + blob_size ob \<le> st_budget st" and src: "sourced e U i ob"
    and sp: "st_backend st = Ephemeral SpillTo \<Longrightarrow> blob_size ob > 0 \<Longrightarrow> \<exists>b. ob = Blob b"
    and pe: "st_backend st = Persistent \<Longrightarrow> existing_loose e i st \<noteq> None \<or> map_of (st_pack_index st) i \<noteq> None"
  shows "store_ok e U (admit i ob (blob_size ob) st)"
proof -
  let ?st' = "admit i ob (blob_size ob) st"
  have "acct_inv ?st'" using ok new fits by (intro acct_admit) (simp_all add: store_ok_def)
  moreover have "resident_src e U ?st'"
    using ok src sp pe unfolding resident_src_def store_ok_def content_inv_def by auto
  moreover have "spill_src e U ?st'" "disk_src e U ?st'"
    using ok disk_src_cong [of ?st' st] by (simp_all add: store_ok_def content_inv_def spill_src_def)
  ultimately show ?thesis using ok by (simp add: store_ok_def content_inv_def)
qed

lemma shard_path_inj: "hex_ok e \<Longrightarrow> shard_path e i = shard_path e j \<Longrightarrow> i = j"
  unfolding shard_path_def by (metis append_take_drop_id id_to_hex_inj prod.inject)

lemma write_object_file_ok:
  assumes ok: "store_ok e U st" and p: "st_backend st = Persistent"
    and none: "existing_loose e (object_id e ob) st = None" and U: "encode ob \<in> U" and ob: "object_ok ob"
  obtains d where "write_object_file e (object_id e ob) (encode ob) st = (Inr (), st\<lparr>st_disk := d\<rparr>)"
    "store_ok e U (st\<lparr>st_disk := d\<rparr>)"
    "\<And>j. contains e j (st\<lparr>st_disk := d\<rparr>) \<longleftrightarrow> j = object_id e ob \<or> contains e j st"
    "existing_loose e (object_id e ob) (st\<lparr>st_disk := d\<rparr>) \<noteq> None"
proof -
  let ?i = "object_id e ob"
  obtain c where c: "zstd_encode e (encode ob) = Some c" "zstd_decode_all e c = Some (encode ob)"
    using ok zstd_ok_encode zstd_okD unfolding store_ok_def by metis
  define d where "d = (st_disk st)\<lparr>dk_sharded := AList.update (shard_path e ?i) c (dk_sharded (st_disk st))\<rparr>"
  let ?st' = "st\<lparr>st_disk := d\<rparr>"
  from none p have free: "map_of (dk_sharded (st_disk st)) (shard_path e ?i) = None"
    by (auto simp: existing_loose_def split: option.splits)
  then have run: "write_object_file e ?i (encode ob) st = (Inr (), ?st')"
    by (simp add: write_object_file_def c d_def)
  have inj: "shard_path e j = shard_path e ?i \<longleftrightarrow> j = ?i" for j
    using ok shard_path_inj [of e j ?i] by (auto simp: store_ok_def)
  have loose: "existing_loose e j ?st' = (if j = ?i then Some c else existing_loose e j st)" for j
    using p inj [of j] by (simp add: existing_loose_def d_def alist_simps split: option.split)
  have disk: "disk_src e U ?st'"
    using ok U ob p c inj unfolding disk_src_def store_ok_def content_inv_def
    by (auto simp: loose_good_def loose_canonical_def object_id_def decode_encode_lemma d_def read_pack_object_def
        alist_simps split: if_splits)
  have "spill_src e U ?st'"
    using ok by (simp add: d_def store_ok_def content_inv_def spill_src_def)
  moreover have "resident_src e U ?st'"
    using ok unfolding resident_src_def store_ok_def content_inv_def loose by auto
  moreover have "acct_inv ?st'"
    using ok by (auto simp: store_ok_def intro: acct_inv_cong)
  ultimately have "store_ok e U ?st'" using disk ok by (simp add: store_ok_def content_inv_def)
  moreover have "contains e j ?st' \<longleftrightarrow> j = ?i \<or> contains e j st" for j
    unfolding contains_def loose by simp
  ultimately show thesis using that [of d] run loose by simp
qed

text \<open>\<open>spillable\<close>: what a spilling store may take in, the condition the panic of \<^verbatim>\<open>evict_to_spill\<close> asks for.\<close>

definition spillable :: "object \<Rightarrow> store \<Rightarrow> bool" where
  "spillable ob st \<longleftrightarrow> (st_backend st = Ephemeral SpillTo \<longrightarrow> blob_size ob > 0 \<longrightarrow> (\<exists>b. ob = Blob b))"

lemma reserve_ok:
  assumes "store_ok e U st"
  obtains r st' where "reserve e sz i st = (r, st')" "store_ok e U st'" "shrinks e i st st'"
    "\<not> isErr r \<longrightarrow> st_resident_blob_bytes st' + sz \<le> st_budget st'" "reserved r sz i st"
proof (cases "sz > 0")
  case True
  with ensure_capacity_ok [OF assms, of sz i] that show thesis by (auto simp: reserve_def)
next
  case False
  with assms that [of "Inr ()" st] show thesis by (auto simp: reserve_def store_ok_def acct_inv_def reserved_def)
qed

text \<open>
  The common tail of \<^verbatim>\<open>put\<close> and \<^verbatim>\<open>get\<close>: reserve, forget a spilled copy (there is one only after a
  spill), admit. \<open>f\<close> is what happens between the two.
\<close>

lemma unspill_ok:
  assumes ok: "store_ok e U st"
  shows "store_ok e U (st\<lparr>st_spilled := AList.delete i (st_spilled st), st_rehydrations := n\<rparr>)" (is "store_ok e U ?st'")
proof -
  have "acct_inv ?st'"
    using acct_drop_spilled [of st i] ok by (auto simp: store_ok_def intro: acct_inv_cong)
  moreover have "spill_src e U ?st'"
    using ok by (auto simp: store_ok_def content_inv_def spill_src_def alist_simps)
  moreover have "resident_src e U ?st'" "disk_src e U ?st'"
    using ok resident_src_sub [of e U st ?st'] disk_src_cong [of ?st' st]
    by (simp_all add: store_ok_def content_inv_def)
  ultimately show ?thesis using ok by (simp add: store_ok_def content_inv_def)
qed

definition admitted :: "ext \<Rightarrow> bytes set \<Rightarrow> store \<Rightarrow> object_id \<Rightarrow> nat \<Rightarrow> 'a \<Rightarrow> 'a core_result \<times> store \<Rightarrow> bool" where
  "admitted e U st i sz x res \<longleftrightarrow>
     (case res of (r, st') \<Rightarrow> store_ok e U st' \<and> st_backend st' = st_backend st
        \<and> (r = Inr x \<or> (\<exists>h. r = Inl (BudgetExceeded sz h (st_budget st)))
             \<and> (st_backend st = Ephemeral Disallow \<or> st_budget st < sz))
        \<and> (\<forall>j. contains e j st' \<longleftrightarrow> (\<not> isErr r \<and> j = i) \<or> contains e j st))"

lemma reserve_admit_ok:
  assumes ok: "store_ok e U st" and new: "map_of (st_resident st) i = None"
    and src: "sourced e U i ob" and sp: "spillable ob st"
    and pe: "st_backend st = Persistent \<Longrightarrow> existing_loose e i st \<noteq> None \<or> map_of (st_pack_index st) i \<noteq> None"
    and f: "\<And>s. map_of (st_spilled s) i = map_of (st_spilled st) i \<Longrightarrow>
      f s = s\<lparr>st_spilled := AList.delete i (st_spilled s), st_rehydrations := g s\<rparr>"
  shows "admitted e U st i (blob_size ob) x
    (bindS (reserve e (blob_size ob) i) (\<lambda>_ s. (Inr x, admit i ob (blob_size ob) (f s))) st)"
proof -
  obtain r st1 where r: "reserve e (blob_size ob) i st = (r, st1)" "store_ok e U st1" "shrinks e i st st1"
    "\<not> isErr r \<longrightarrow> st_resident_blob_bytes st1 + blob_size ob \<le> st_budget st1" "reserved r (blob_size ob) i st"
    using reserve_ok [OF ok, of "blob_size ob" i] .
  show ?thesis
  proof (cases r)
    case (Inl err)
    with r new show ?thesis by (simp add: bindS_def shrinks_def reserved_def admitted_def)
  next
    case (Inr u)
    have fs: "f st1 = st1\<lparr>st_spilled := AList.delete i (st_spilled st1), st_rehydrations := g st1\<rparr>"
      using r(3) by (intro f) (simp add: shrinks_def)
    have "store_ok e U (admit i ob (blob_size ob) (f st1))"
    proof (rule admit_ok [OF _ _ _ _ src])
      show "store_ok e U (f st1)" unfolding fs by (rule unspill_ok [OF r(2)])
      show "map_of (st_resident (f st1)) i = None" "map_of (st_spilled (f st1)) i = None"
        using new r(3) by (simp_all add: fs shrinks_def alist_simps)
      show "st_resident_blob_bytes (f st1) + blob_size ob \<le> st_budget (f st1)"
        using r(4) Inr by (simp add: fs)
      show "\<exists>b. ob = Blob b" if "st_backend (f st1) = Ephemeral SpillTo" "blob_size ob > 0"
        using that sp r(3) by (simp add: fs shrinks_def spillable_def)
      show "existing_loose e i (f st1) \<noteq> None \<or> map_of (st_pack_index (f st1)) i \<noteq> None"
        if "st_backend (f st1) = Persistent"
        using pe that r(3) existing_loose_cong [of "f st1" st e i] by (simp add: fs shrinks_def)
    qed
    moreover have "j = i \<or> contains e j (f st1) \<longleftrightarrow> j = i \<or> contains e j st" for j
      using r(3) contains_cong [of "f st1" st1 j e]
      by (cases "j = i") (simp_all add: fs shrinks_def alist_simps)
    ultimately show ?thesis
      using r(1,3) Inr by (simp add: bindS_def contains_admit fs shrinks_def admitted_def)
  qed
qed

lemma put_ok:
  assumes ok: "store_ok e U st" and ob: "object_ok ob" "encode ob \<in> U" "spillable ob st"
  obtains r st' where "put e ob st = (r, st')" "store_ok e U st'" "st_backend st' = st_backend st"
    "r = Inr (object_id e ob) \<or> (\<exists>h. r = Inl (BudgetExceeded (blob_size ob) h (st_budget st)))
       \<and> (st_backend st = Ephemeral Disallow \<or> st_budget st < blob_size ob)"
    "\<And>j. contains e j st' \<longleftrightarrow> (\<not> isErr r \<or> st_backend st = Persistent) \<and> j = object_id e ob \<or> contains e j st"
proof -
  let ?i = "object_id e ob"
  have src: "sourced e U ?i ob" using ob by (intro sourced_encode)
  consider (held) "map_of (st_resident st) ?i \<noteq> None \<or> map_of (st_spilled st) ?i \<noteq> None
      \<or> st_backend st = Persistent \<and> existing_loose e ?i st \<noteq> None"
    | (loose) "map_of (st_resident st) ?i = None" "map_of (st_spilled st) ?i = None"
        "st_backend st = Persistent" "existing_loose e ?i st = None"
    | (fresh) "map_of (st_resident st) ?i = None" "map_of (st_spilled st) ?i = None" "st_backend st \<noteq> Persistent"
    by blast
  then show thesis
  proof cases
    case held
    then have "put e ob st = (Inr ?i, st)" "contains e ?i st" by (auto simp: put_def Let_def contains_def)
    with that [of "Inr ?i" st] ok show thesis by auto
  next
    case fresh
    have "admitted e U st ?i (blob_size ob) ?i
      (bindS (reserve e (blob_size ob) ?i) (\<lambda>_ s. (Inr ?i, admit ?i ob (blob_size ob) s)) st)"
      using fresh by (intro reserve_admit_ok [OF ok _ src ob(3), where g = st_rehydrations]) (auto simp: delete_unmapped)
    also have "bindS (reserve e (blob_size ob) ?i) (\<lambda>_ s. (Inr ?i, admit ?i ob (blob_size ob) s)) st = put e ob st"
      using fresh by (simp add: put_def Let_def bindS_def)
    finally show thesis using that fresh by (cases "put e ob st") (auto simp: admitted_def)
  next
    case loose
    obtain d where d: "write_object_file e ?i (encode ob) st = (Inr (), st\<lparr>st_disk := d\<rparr>)"
      "store_ok e U (st\<lparr>st_disk := d\<rparr>)"
      "\<And>j. contains e j (st\<lparr>st_disk := d\<rparr>) \<longleftrightarrow> j = ?i \<or> contains e j st"
      "existing_loose e ?i (st\<lparr>st_disk := d\<rparr>) \<noteq> None"
      using write_object_file_ok [OF ok loose(3,4) ob(2,1)] by blast
    have "admitted e U (st\<lparr>st_disk := d\<rparr>) ?i (blob_size ob) ?i
      (bindS (reserve e (blob_size ob) ?i) (\<lambda>_ s. (Inr ?i, admit ?i ob (blob_size ob) s)) (st\<lparr>st_disk := d\<rparr>))"
      using loose ob(3) d(4)
      by (intro reserve_admit_ok [OF d(2) _ src, where g = st_rehydrations]) (auto simp: delete_unmapped spillable_def)
    also have "bindS (reserve e (blob_size ob) ?i) (\<lambda>_ s. (Inr ?i, admit ?i ob (blob_size ob) s)) (st\<lparr>st_disk := d\<rparr>)
      = put e ob st"
      using loose d(1) by (simp add: put_def Let_def bindS_def)
    finally show thesis using that loose d(3) by (cases "put e ob st") (auto simp: admitted_def)
  qed
qed

section \<open>Getting\<close>

lemma get_ok:
  assumes ok: "store_ok e U st"
  obtains r st' where "get e i st = (r, st')" "store_ok e U st'" "st_backend st' = st_backend st"
    "\<And>j. contains e j st' \<longleftrightarrow> contains e j st"
    "case lookup e st i of
       Inl err \<Rightarrow> r = Inl err
     | Inr ob \<Rightarrow> r = Inr ob \<or> (\<exists>h. r = Inl (BudgetExceeded (blob_size ob) h (st_budget st)))
         \<and> (st_backend st = Ephemeral Disallow \<or> st_budget st < blob_size ob)"
proof -
  from ok have con: "content_inv e U st" and acct: "acct_inv st" by (simp_all add: store_ok_def)
  show thesis
  proof (cases "map_of (st_resident st) i")
    case (Some r)
    let ?st' = "st\<lparr>st_clock := st_clock st + 1,
      st_resident := AList.update i (r\<lparr>rs_last_used := st_clock st + 1\<rparr>) (st_resident st)\<rparr>"
    have loose: "existing_loose e j ?st' = existing_loose e j st" for j by (rule existing_loose_cong) simp_all
    have "resident_src e U ?st'"
      using con Some unfolding content_inv_def resident_src_def loose by (auto simp: alist_simps)
    moreover have "spill_src e U ?st'" "disk_src e U ?st'"
      using con disk_src_cong [of ?st' st] by (simp_all add: content_inv_def spill_src_def)
    ultimately have "store_ok e U ?st'"
      using ok acct_touch [OF acct Some] by (simp add: store_ok_def content_inv_def)
    moreover have "contains e j ?st' = contains e j st" for j
      by (rule contains_cong) (auto simp: Some alist_simps)
    moreover have "get e i st = (Inr (rs_obj r), ?st')" "lookup e st i = Inr (rs_obj r)"
      by (simp_all add: get_def lookup_def Some)
    ultimately show thesis using that [of "Inr (rs_obj r)" ?st'] by simp
  next
    case new: None
    show thesis
    proof (cases "isErr (lookup e st i)")
      case True
      then have "\<not> contains e i st" using con lookup_contains [of e U st i] by fastforce
      then have "get e i st = (lookup e st i, st)" "isErr (lookup e st i)"
        using True by (auto simp: get_def lookup_def contains_def bindS_def split: sum.splits option.splits)
      with ok that [of "lookup e st i" st] show thesis by (simp split: sum.splits)
    next
      case False
      then have "contains e i st" using lookup_not_contains by blast
      with con obtain ob where ob: "lookup e st i = Inr ob" "sourced e U i ob" by (elim lookup_contains)
      show thesis
      proof (cases "map_of (st_spilled st) i")
        case (Some sz)
        with new ob(1) have rd: "read_spill e i st = Inr ob" by (simp add: lookup_def)
        from con Some obtain b where b: "map_of (dk_spill (st_disk st)) (id_to_hex e i) = Some b"
          "sz = length b" "sz > 0" "st_backend st = Ephemeral SpillTo"
          by (auto simp: content_inv_def spill_src_def)
        with rd have blob: "ob = Blob b" by (auto simp: read_spill_def Let_def split: if_splits)
        have "admitted e U st i (blob_size ob) ob (bindS (reserve e (blob_size ob) i) (\<lambda>_ s. (Inr ob, admit i ob (blob_size ob)
            (s\<lparr>st_spilled := AList.delete i (st_spilled s), st_rehydrations := st_rehydrations s + 1\<rparr>))) st)"
          by (intro reserve_admit_ok [OF ok new ob(2)]) (auto simp: spillable_def blob b)
        then have "admitted e U st i (blob_size ob) ob (get e i st)"
          using b(2,3) by (simp add: get_def new Some rd blob blob_size_def reserve_def bindS_def)
        with \<open>contains e i st\<close> ob(1) that show thesis by (cases "get e i st") (auto simp: admitted_def)
      next
        case sp: None
        with new ob(1) have p: "st_backend st = Persistent" by (auto simp: lookup_def split: if_splits)
        have "admitted e U st i (blob_size ob) ob (bindS (reserve e (blob_size ob) i)
            (\<lambda>_ s. (Inr ob, admit i ob (blob_size ob) (s\<lparr>st_rehydrations := st_rehydrations s + 1\<rparr>))) st)"
          using \<open>contains e i st\<close> new sp
          by (intro reserve_admit_ok [OF ok new ob(2)]) (auto simp: spillable_def p contains_def delete_unmapped)
        also have "bindS (reserve e (blob_size ob) i)
            (\<lambda>_ s. (Inr ob, admit i ob (blob_size ob) (s\<lparr>st_rehydrations := st_rehydrations s + 1\<rparr>))) st = get e i st"
          using ob(1) by (auto simp: get_def lookup_def new sp p bindS_def split: option.splits)
        finally show thesis
          using \<open>contains e i st\<close> ob(1) that by (cases "get e i st") (auto simp: admitted_def)
      qed
    qed
  qed
qed

section \<open>The contract\<close>

text \<open>
  A content-addressed store: a stored object is found under its key in every later state, up to the
  canonical form \<open>norm\<close>; a lookup changes nothing an observer can see; errors lose nothing.
\<close>

locale object_store =
  fixes inv :: "'s \<Rightarrow> bool"
    and view :: "'s \<Rightarrow> 'i \<rightharpoonup> 'o"
    and key :: "'o \<Rightarrow> 'i"
    and norm :: "'o \<Rightarrow> 'o"
    and admissible :: "'o \<Rightarrow> 's \<Rightarrow> bool"
    and put_op :: "'o \<Rightarrow> 's \<Rightarrow> ('e + 'i) \<times> 's"
    and get_op :: "'i \<Rightarrow> 's \<Rightarrow> ('e + 'o) \<times> 's"
  assumes put_inv: "inv s \<Longrightarrow> admissible ob s \<Longrightarrow> put_op ob s = (r, s') \<Longrightarrow> inv s'"
    and put_view: "inv s \<Longrightarrow> admissible ob s \<Longrightarrow> put_op ob s = (Inr i, s') \<Longrightarrow>
      i = key ob \<and> view s' = (view s)(key ob \<mapsto> norm ob)"
    and put_keeps: "inv s \<Longrightarrow> admissible ob s \<Longrightarrow> put_op ob s = (r, s') \<Longrightarrow> view s \<subseteq>\<^sub>m view s'"
    and get_inv: "inv s \<Longrightarrow> get_op i s = (q, s') \<Longrightarrow> inv s'"
    and get_view: "inv s \<Longrightarrow> get_op i s = (q, s') \<Longrightarrow> view s' = view s"
    and get_result: "inv s \<Longrightarrow> get_op i s = (Inr ob, s') \<Longrightarrow> view s i = Some (norm ob)"
    and put_admissible: "inv s \<Longrightarrow> admissible ob s \<Longrightarrow> put_op ob s = (r, s') \<Longrightarrow> admissible ob' s' = admissible ob' s"
    and get_admissible: "inv s \<Longrightarrow> get_op i s = (q, s') \<Longrightarrow> admissible ob' s' = admissible ob' s"
begin

lemma get_unknown: "inv s \<Longrightarrow> view s i = None \<Longrightarrow> get_op i s = (r, s') \<Longrightarrow> isErr r"
  using get_result by (cases r) fastforce+

definition step :: "'s \<Rightarrow> 's \<Rightarrow> bool" where
  "step s s' \<longleftrightarrow> (\<exists>ob r. admissible ob s \<and> put_op ob s = (r, s')) \<or> (\<exists>i r. get_op i s = (r, s'))"

lemma steps_inv: "step\<^sup>*\<^sup>* s s' \<Longrightarrow> inv s \<Longrightarrow> inv s' \<and> view s \<subseteq>\<^sub>m view s' \<and> (\<forall>ob. admissible ob s' = admissible ob s)"
proof (induction rule: rtranclp_induct)
  case base
  then show ?case by simp
next
  case (step y z)
  from step.hyps(2) have "inv z \<and> view y \<subseteq>\<^sub>m view z \<and> (\<forall>ob. admissible ob z = admissible ob y)"
    unfolding step_def
  proof (elim disjE exE conjE)
    fix ob r
    assume "admissible ob y" "put_op ob y = (r, z)"
    with step show ?thesis using put_inv put_keeps put_admissible by blast
  next
    fix i r
    assume "get_op i y = (r, z)"
    with step show ?thesis using get_inv get_view get_admissible by fastforce
  qed
  with step show ?case by (auto intro: map_le_trans)
qed

lemma stored_found:
  assumes "inv s" "admissible ob s" "put_op ob s = (Inr i, s1)" "step\<^sup>*\<^sup>* s1 s2" "get_op i s2 = (Inr ob', s3)"
  shows "norm ob' = norm ob"
proof -
  have "inv s1" using put_inv assms(1-3) .
  with assms(4) have s2: "inv s2" "view s1 \<subseteq>\<^sub>m view s2" using steps_inv by auto
  have "view s1 i = Some (norm ob)" using put_view [OF assms(1-3)] by simp
  with s2(2) have "view s2 i = Some (norm ob)" by (metis domI map_le_def)
  with get_result [OF s2(1) assms(5)] show ?thesis by simp
qed

end

text \<open>The objects the theorems below range over: well-formed, known to the collision-free universe, spillable.\<close>

definition admissible :: "bytes set \<Rightarrow> object \<Rightarrow> store \<Rightarrow> bool" where
  "admissible U ob st \<longleftrightarrow> object_ok ob \<and> encode ob \<in> U \<and> spillable ob st"

lemma put_okD:
  assumes "store_ok e U st" "admissible U ob st" "put e ob st = (r, st')"
  shows "store_ok e U st'" "st_backend st' = st_backend st"
    "r = Inr (object_id e ob) \<or> (\<exists>h. r = Inl (BudgetExceeded (blob_size ob) h (st_budget st)))
       \<and> (st_backend st = Ephemeral Disallow \<or> st_budget st < blob_size ob)"
    "contains e j st' \<longleftrightarrow> (\<not> isErr r \<or> st_backend st = Persistent) \<and> j = object_id e ob \<or> contains e j st"
  using assms(2) by - (rule put_ok [OF assms(1), of ob]; simp add: assms(3) admissible_def)+

lemma get_okD:
  assumes "store_ok e U st" "get e i st = (r, st')"
  shows "store_ok e U st'" "st_backend st' = st_backend st" "contains e j st' \<longleftrightarrow> contains e j st"
    "case lookup e st i of
       Inl err \<Rightarrow> r = Inl err
     | Inr ob \<Rightarrow> r = Inr ob \<or> (\<exists>h. r = Inl (BudgetExceeded (blob_size ob) h (st_budget st)))
         \<and> (st_backend st = Ephemeral Disallow \<or> st_budget st < blob_size ob)"
  by (rule get_ok [OF assms(1), of i]; simp add: assms(2))+

lemma put_view_lemma:
  assumes "store_ok e U st" "admissible U ob st" "put e ob st = (Inr i, st')"
  shows "i = object_id e ob \<and> view e st' = (view e st)(object_id e ob \<mapsto> canon ob)"
proof -
  note ok' = put_okD(1) [OF assms] and c = put_okD(4) [OF assms]
  from put_okD(3) [OF assms] have i: "i = object_id e ob" by simp
  have "sourced e U i ob" using assms(2) i by (auto simp: admissible_def intro: sourced_encode)
  with ok' c i have "view e st' i = Some (canon ob)"
    by (intro view_Some_contains) (auto simp: store_ok_def)
  moreover have "view e st' j = view e st j" if "j \<noteq> i" for j
    using that assms(1) ok' c i by (intro view_cong [of e U]) (auto simp: store_ok_def)
  ultimately show ?thesis using i by auto
qed

lemma view_mono:
  assumes "store_ok e U st" "store_ok e U st'" "\<And>j. contains e j st \<Longrightarrow> contains e j st'"
  shows "view e st \<subseteq>\<^sub>m view e st'"
  unfolding map_le_def
proof
  fix j
  assume "j \<in> dom (view e st)"
  then have "contains e j st" using assms(1) view_contains [of e U st j] by (auto simp: store_ok_def)
  with assms show "view e st j = view e st' j"
    using view_cong [of e U st' st j] by (simp add: store_ok_def)
qed

interpretation os: object_store "store_ok e U" "view e" "object_id e" canon "admissible U" "put e" "get e" for e U
proof
  fix s s' ob r
  assume a: "store_ok e U s" "admissible U ob s" "put e ob s = (r, s')"
  show "store_ok e U s'" using put_okD(1) [OF a] .
  show "view e s \<subseteq>\<^sub>m view e s'" using view_mono [OF a(1) put_okD(1) [OF a]] put_okD(4) [OF a] by blast
  show "admissible U ob' s' = admissible U ob' s" for ob'
    using put_okD(2) [OF a] by (simp add: admissible_def spillable_def)
next
  fix s s' ob i
  assume "store_ok e U s" "admissible U ob s" "put e ob s = (Inr i, s')"
  then show "i = object_id e ob \<and> view e s' = (view e s)(object_id e ob \<mapsto> canon ob)" by (rule put_view_lemma)
next
  fix s s' i r
  assume a: "store_ok e U s" "get e i s = (r, s')"
  show "store_ok e U s'" using get_okD(1) [OF a] .
  show "view e s' = view e s"
    using view_cong [of e U s s'] a(1) get_okD(1,3) [OF a] by (auto simp: store_ok_def intro!: HOL.ext)
  show "admissible U ob' s' = admissible U ob' s" for ob'
    using get_okD(2) [OF a] by (simp add: admissible_def spillable_def)
next
  fix s s' i ob
  assume a: "store_ok e U s" "get e i s = (Inr ob, s')"
  show "view e s i = Some (canon ob)" using get_okD(4) [OF a] by (auto simp: view_def split: sum.splits)
qed

section \<open>Budgets\<close>

lemma ensure_capacity_budget: "st_budget (snd (ensure_capacity e n i st)) = st_budget st"
proof (induction e n i st rule: ensure_capacity.induct)
  case (1 e needed incoming st)
  have w: "evict_to_spill e v st = (x, st') \<Longrightarrow> st_budget st' = st_budget st" for v x st'
    by (auto simp: evict_to_spill_def Let_def split: option.splits object.splits)
  have d: "st_budget (drop_resident_blob v st) = st_budget st" for v
    by (simp add: drop_resident_blob_def split: option.splits)
  show ?case
    using 1 w d by (subst ensure_capacity.simps) (fastforce split: option.splits backend.splits spill_policy.splits prod.splits sum.splits)
qed

lemma reserve_budget: "st_budget (snd (reserve e n i st)) = st_budget st"
  by (simp add: reserve_def ensure_capacity_budget)

lemma bindS_keeps:
  "g s = c \<Longrightarrow> (\<And>s. g s = c \<Longrightarrow> g (snd (m s)) = c) \<Longrightarrow> (\<And>a s. g s = c \<Longrightarrow> g (snd (f a s)) = c) \<Longrightarrow>
   g (snd (bindS m f s)) = c"
  unfolding bindS_def by (cases "m s") (fastforce split: sum.splits)

lemma write_object_file_budget: "st_budget (snd (write_object_file e i b st)) = st_budget st"
  by (simp add: write_object_file_def split: option.splits)

lemma put_budget: "st_budget (snd (put e ob st)) = st_budget st"
  by (auto simp: put_def Let_def reserve_budget write_object_file_budget intro!: bindS_keeps [of st_budget])

lemma get_budget: "st_budget (snd (get e i st)) = st_budget st"
  by (auto simp: get_def Let_def reserve_budget ensure_capacity_budget liftE_def
      intro!: bindS_keeps [of st_budget] split: option.splits)

text \<open>An object the store holds and that fits the budget is read back.\<close>

lemma get_held:
  assumes "store_ok e U st" "view e st i = Some (canon ob)" "blob_size ob \<le> st_budget st"
  shows "\<exists>ob' st'. get e i st = (Inr ob', st') \<and> canon ob' = canon ob"
proof -
  obtain r st' where g: "get e i st = (r, st')" by (cases "get e i st")
  obtain ob' where l: "lookup e st i = Inr ob'" "canon ob' = canon ob"
    using assms(2) by (auto simp: view_def split: sum.splits)
  then have "blob_size ob' = blob_size ob" by (metis blob_size_canon)
  moreover have "st_backend st = Ephemeral Disallow \<Longrightarrow> \<not> isErr r"
  proof -
    assume d: "st_backend st = Ephemeral Disallow"
    then have "map_of (st_spilled st) i = None"
      using assms(1) by (cases "map_of (st_spilled st) i") (auto simp: store_ok_def content_defs)
    with d l obtain x where "map_of (st_resident st) i = Some x"
      by (auto simp: lookup_def split: option.splits)
    with g show ?thesis by (auto simp: get_def)
  qed
  ultimately show ?thesis
    using get_okD(4) [OF assms(1) g] l g assms(3) by auto
qed

section \<open>Deletion\<close>

definition both_loose :: "ext \<Rightarrow> object_id \<Rightarrow> store \<Rightarrow> bool" where
  "both_loose e i st \<longleftrightarrow> st_backend st = Persistent \<and> map_of (dk_sharded (st_disk st)) (shard_path e i) \<noteq> None
     \<and> map_of (dk_flat (st_disk st)) (id_to_hex e i) \<noteq> None"

lemma delete_simps [simp]:
  "st_budget (delete e i st) = st_budget st" "st_backend (delete e i st) = st_backend st"
  "st_clock (delete e i st) = st_clock st" "st_pack_index (delete e i st) = st_pack_index st"
  "map_of (st_resident (delete e i st)) = (map_of (st_resident st))(i := None)"
  "map_of (st_spilled (delete e i st)) = (map_of (st_spilled st))(i := None)"
  "dk_spill (st_disk (delete e i st)) = dk_spill (st_disk st)"
  "dk_pack (st_disk (delete e i st)) = dk_pack (st_disk st)"
  by (simp_all add: delete_def Let_def alist_simps)

lemma delete_files:
  assumes "hex_ok e"
  shows "map_of (dk_sharded (st_disk (delete e i st))) (shard_path e j) =
      (if j = i \<and> st_backend st = Persistent then None else map_of (dk_sharded (st_disk st)) (shard_path e j))"
    and "map_of (dk_flat (st_disk (delete e i st))) (id_to_hex e j) =
      (if j = i \<and> st_backend st = Persistent \<and> map_of (dk_sharded (st_disk st)) (shard_path e i) = None
       then None else map_of (dk_flat (st_disk st)) (id_to_hex e j))"
  using shard_path_inj [OF assms, of j i] id_to_hex_inj [OF assms, of j i]
  by (auto simp: delete_def Let_def alist_simps)

lemma delete_loose:
  assumes "hex_ok e"
  shows "existing_loose e j (delete e i st) =
    (if j \<noteq> i then existing_loose e j st
     else if both_loose e i st then map_of (dk_flat (st_disk st)) (id_to_hex e i) else None)"
  by (auto simp: existing_loose_def delete_files [OF assms] both_loose_def split: option.splits)

lemma acct_delete: "acct_inv st \<Longrightarrow> acct_inv (delete e i st)"
proof (cases "map_of (st_resident st) i")
  case None
  assume "acct_inv st"
  from acct_drop_spilled [OF this, of i] show ?thesis
    by (rule acct_inv_cong) (simp_all add: delete_def Let_def None delete_unmapped)
next
  case (Some r)
  assume "acct_inv st"
  from acct_drop_spilled [OF acct_drop_resident [OF this Some], of i] show ?thesis
    by (rule acct_inv_cong) (simp_all add: delete_def Let_def Some)
qed

lemma delete_ok:
  assumes ok: "store_ok e U st"
  shows "store_ok e U (delete e i st)"
    "contains e j (delete e i st) \<longleftrightarrow> (if j = i then is_packed i st \<or> both_loose e i st else contains e j st)"
proof -
  from ok have hex: "hex_ok e" and con: "content_inv e U st" by (simp_all add: store_ok_def)
  note loose = delete_loose [OF hex]
  have "resident_src e U (delete e i st)"
    using con unfolding content_inv_def resident_src_def loose by auto
  moreover have "spill_src e U (delete e i st)"
    using con by (auto simp: content_inv_def spill_src_def)
  moreover have "disk_src e U (delete e i st)"
    using con unfolding content_inv_def disk_src_def delete_files [OF hex]
    by (auto simp: read_pack_object_def split: if_splits)
  ultimately show "store_ok e U (delete e i st)"
    using ok acct_delete [of st e i] by (simp add: store_ok_def content_inv_def)
  show "contains e j (delete e i st) \<longleftrightarrow> (if j = i then is_packed i st \<or> both_loose e i st else contains e j st)"
    by (auto simp: contains_def loose is_packed_def both_loose_def)
qed

end
