(* ===== verification/Instances.thy ===== *)
theory Instances
  imports Object_Id
begin

text \<open>
  Concrete third-party functions, at which the theorems with hypotheses on BLAKE3, hex and zstd are
  applied: a 32-byte digest of the length and the last bytes, lower-case hexadecimal, and a
  container that stores its payload behind the zstd magic number.
\<close>

definition hex_digit :: "nat \<Rightarrow> char" where
  "hex_digit n = (if n < 10 then char_of (48 + n) else char_of (87 + n))"

definition digit_val :: "char \<Rightarrow> nat option" where
  "digit_val c = (let n = of_char c :: nat in
     if 48 \<le> n \<and> n \<le> 57 then Some (n - 48) else if 97 \<le> n \<and> n \<le> 102 then Some (n - 87) else None)"

definition demo_hex :: "bytes \<Rightarrow> string" where
  "demo_hex b = concat (map (\<lambda>x. [hex_digit (unat x div 16), hex_digit (unat x mod 16)]) b)"

fun demo_unhex :: "string \<Rightarrow> bytes option" where
  "demo_unhex [] = Some []"
| "demo_unhex [c] = None"
| "demo_unhex (c # d # s) =
     (case (digit_val c, digit_val d, demo_unhex s) of
        (Some x, Some y, Some b) \<Rightarrow> Some (word_of_nat (16 * x + y) # b)
      | _ \<Rightarrow> None)"

definition demo_digest :: "bytes \<Rightarrow> bytes" where
  "demo_digest b = word_of_nat (length b) # take 31 (rev b @ replicate 31 0)"

definition demo_ext :: ext where
  "demo_ext = \<lparr>blake3 = demo_digest, hex_encode = demo_hex, hex_decode = demo_unhex,
     zstd_encode = (\<lambda>b. Some ([40, 181, 47, 253] @ b)),
     zstd_stream = (\<lambda>p. if take 4 p = [40, 181, 47, 253] then (drop 4 p, True) else ([], False))\<rparr>"

lemma digit_val_hex_digit: "n < 16 \<Longrightarrow> digit_val (hex_digit n) = Some n"
  by (auto simp: digit_val_def hex_digit_def)

lemma unat_u8_less [simp]: "unat (x :: u8) < 256"
  using unsigned_less [of x, where 'a = nat] by simp

lemma demo_unhex_hex: "demo_unhex (demo_hex b) = Some b"
proof (induction b)
  case Nil
  then show ?case by (simp add: demo_hex_def)
next
  case (Cons x b)
  have "unat x div 16 < 16" using unat_u8_less [of x] by (simp add: less_mult_imp_div_less)
  then have "demo_unhex (demo_hex (x # b)) =
      (case demo_unhex (demo_hex b) of Some r \<Rightarrow> Some (word_of_nat (16 * (unat x div 16) + unat x mod 16) # r) | None \<Rightarrow> None)"
    by (simp add: demo_hex_def digit_val_hex_digit)
  with Cons show ?case by (simp del: of_nat_add of_nat_mult add: mult_div_mod_eq)
qed

lemma demo_hex_ok: "hex_ok demo_ext"
  by (auto simp: hex_ok_def demo_ext_def demo_unhex_hex) (simp add: demo_hex_def length_concat comp_def sum_list_triv)

lemma demo_blake3_ok: "blake3_ok demo_ext"
  by (auto simp: blake3_ok_def demo_ext_def demo_digest_def min_def)

lemma demo_zstd_ok: "zstd_ok demo_ext"
  by (simp add: zstd_ok_def demo_ext_def)

lemmas demo_simps = demo_ext_def demo_digest_def

text \<open>A digest that keeps the first 32 bytes, so that objects with different headers have different ids.\<close>

definition prefix_ext :: ext where
  "prefix_ext = demo_ext\<lparr>blake3 := \<lambda>b. take 32 (b @ replicate 32 0)\<rparr>"

lemma prefix_ext_ok: "hex_ok prefix_ext" "zstd_ok prefix_ext"
  using demo_hex_ok demo_zstd_ok by (simp_all add: prefix_ext_def hex_ok_def zstd_ok_def)

lemma prefix_digest: "blake3 prefix_ext x = take 32 (x @ replicate 32 0)"
  by (simp add: prefix_ext_def)

end
