(* ===== verification/Store_Theorems.thy ===== *)
theory Store_Theorems
  imports Store_Correct Instances
begin

text \<open>
  The properties of the content-addressed store: it implements a map from ids to objects under any
  sequence of insertions and lookups, keeps its memory budget, evicts the least recently used blob,
  and loses nothing when it fails, deletes, packs or spills.
\<close>

section \<open>Runs\<close>

datatype store_op = PutOp object | GetOp object_id

fun run_op :: "ext \<Rightarrow> store_op \<Rightarrow> store \<Rightarrow> store" where
  "run_op e (PutOp ob) st = snd (put e ob st)"
| "run_op e (GetOp i) st = snd (get e i st)"

definition run_ops :: "ext \<Rightarrow> store_op list \<Rightarrow> store \<Rightarrow> store" where
  "run_ops e ops st = fold (run_op e) ops st"

definition ops_ok :: "bytes set \<Rightarrow> store_op list \<Rightarrow> store \<Rightarrow> bool" where
  "ops_ok U ops st \<longleftrightarrow> (\<forall>ob. PutOp ob \<in> set ops \<longrightarrow> admissible U ob st)"

lemma run_op_ok:
  assumes "store_ok e U st" "\<And>ob. a = PutOp ob \<Longrightarrow> admissible U ob st"
  shows "store_ok e U (run_op e a st)" "st_budget (run_op e a st) = st_budget st"
    "admissible U ob (run_op e a st) = admissible U ob st" "view e st \<subseteq>\<^sub>m view e (run_op e a st)"
    "st_backend (run_op e a st) = st_backend st"
proof -
  show "st_budget (run_op e a st) = st_budget st"
    by (cases a) (simp_all add: put_budget get_budget)
  have "store_ok e U (run_op e a st) \<and> st_backend (run_op e a st) = st_backend st
    \<and> view e st \<subseteq>\<^sub>m view e (run_op e a st)"
  proof (cases a)
    case (PutOp ob)
    obtain r st' where p: "put e ob st = (r, st')" by (cases "put e ob st")
    with put_okD [OF assms(1) assms(2) [OF PutOp] p] os.put_keeps [OF assms(1) assms(2) [OF PutOp] p] PutOp
    show ?thesis by simp
  next
    case (GetOp i)
    obtain r st' where g: "get e i st = (r, st')" by (cases "get e i st")
    with get_okD [OF assms(1) g] os.get_view [OF assms(1) g] GetOp show ?thesis by simp
  qed
  then show "store_ok e U (run_op e a st)" "st_backend (run_op e a st) = st_backend st"
    "view e st \<subseteq>\<^sub>m view e (run_op e a st)" "admissible U ob (run_op e a st) = admissible U ob st"
    by (simp_all add: admissible_def spillable_def)
qed

lemma run_ops_ok:
  assumes "store_ok e U st" "ops_ok U ops st"
  shows "store_ok e U (run_ops e ops st) \<and> st_budget (run_ops e ops st) = st_budget st
    \<and> view e st \<subseteq>\<^sub>m view e (run_ops e ops st) \<and> st_backend (run_ops e ops st) = st_backend st"
  using assms
proof (induction ops arbitrary: st)
  case Nil
  then show ?case by (simp add: run_ops_def)
next
  case (Cons a ops)
  have a: "a = PutOp ob \<Longrightarrow> admissible U ob st" for ob using Cons.prems(2) by (simp add: ops_ok_def)
  note one = run_op_ok [of e U st a, OF Cons.prems(1) a]
  have "ops_ok U ops (run_op e a st)" using Cons.prems(2) one(3) by (simp add: ops_ok_def)
  from Cons.IH [OF one(1) this] one show ?case
    using map_le_trans by (auto simp: run_ops_def)
qed

lemma store_new_ok:
  assumes "hex_ok e" "zstd_ok e" "collision_free e U"
  shows "store_ok e U (store_new n b empty_disk)"
  using assms
  by (auto simp: store_ok_def acct_inv_def total_def stamps_ok_def content_defs store_new_def empty_disk_def
      existing_loose_def)

lemma victim_lru:
  assumes "acct_inv st" "victim incoming st = Some v"
  shows "\<exists>r. (v, r) \<in> set (st_resident st) \<and> 0 < rs_blob_size r \<and> v \<noteq> incoming
      \<and> (\<forall>(j, s) \<in> set (st_resident st). 0 < rs_blob_size s \<longrightarrow> j \<noteq> incoming \<longrightarrow> j \<noteq> v \<longrightarrow>
           rs_last_used r < rs_last_used s)"
proof -
  obtain r where r: "min_by_key (\<lambda>(i, r). rs_last_used r) (evictable incoming st) = Some (v, r)"
    using assms(2) by (auto simp: victim_def)
  then have v: "(v, r) \<in> set (st_resident st)" "0 < rs_blob_size r" "v \<noteq> incoming"
    using min_by_key_in [OF r] by (auto simp: evictable_def)
  have "rs_last_used r < rs_last_used s"
    if j: "(j, s) \<in> set (st_resident st)" "0 < rs_blob_size s" "j \<noteq> incoming" "j \<noteq> v" for j s
  proof -
    have "(j, s) \<in> set (evictable incoming st)" using j by (simp add: evictable_def)
    then have "rs_last_used r \<le> rs_last_used s" using min_by_key_least [OF r] by fastforce
    moreover have "map_of (st_resident st) v = Some r" "map_of (st_resident st) j = Some s"
      using assms(1) v(1) j(1) by (simp_all add: acct_inv_def)
    then have "rs_last_used r \<noteq> rs_last_used s"
      using assms(1) j(4) unfolding acct_inv_def stamps_ok_def inj_on_def by (metis domI option.sel)
    ultimately show ?thesis by simp
  qed
  with v show ?thesis by blast
qed

lemma victim_order:
  assumes "acct_inv st" "victim incoming st = Some v" "mset (st_resident st') = mset (st_resident st)"
  shows "victim incoming st' = Some v"
proof -
  have s: "set (st_resident st') = set (st_resident st)" using assms(3) by (rule mset_eq_setD)
  obtain r where r: "(v, r) \<in> set (st_resident st)" "0 < rs_blob_size r" "v \<noteq> incoming"
      "\<forall>(j, s) \<in> set (st_resident st). 0 < rs_blob_size s \<longrightarrow> j \<noteq> incoming \<longrightarrow> j \<noteq> v \<longrightarrow>
           rs_last_used r < rs_last_used s"
    using victim_lru [OF assms(1,2)] by blast
  have ev: "(v, r) \<in> set (evictable incoming st')" using r s by (simp add: evictable_def)
  then obtain w q where w: "min_by_key (\<lambda>(i, r). rs_last_used r) (evictable incoming st') = Some (w, q)"
    by (cases "min_by_key (\<lambda>(i, r). rs_last_used r) (evictable incoming st')") auto
  then have q: "(w, q) \<in> set (st_resident st)" "0 < rs_blob_size q" "w \<noteq> incoming"
    using min_by_key_in [OF w] s by (auto simp: evictable_def)
  have "rs_last_used q \<le> rs_last_used r" using min_by_key_least [OF w ev] by simp
  with r(4) q have "w = v" by fastforce
  with w show ?thesis by (simp add: victim_def)
qed

section \<open>The store implements a map\<close>

text \<open>
  C1: after a successful \<open>put\<close>, and whatever puts and gets (failing ones included) happen in
  between, a \<open>get\<close> of the returned id succeeds and returns an object with the same canonical bytes,
  wherever eviction has moved it: memory, spill file, loose file or pack.
\<close>

theorem stored_object_readable:
  assumes "store_ok e U st" "admissible U ob st" "put e ob st = (Inr i, st1)"
    and "blob_size ob \<le> st_budget st" "ops_ok U ops st"
  shows "\<exists>ob' st2. get e i (run_ops e ops st1) = (Inr ob', st2) \<and> i = object_id e ob \<and> encode ob' = encode ob"
proof -
  have s1: "store_ok e U st1" and v: "i = object_id e ob" "view e st1 i = Some (canon ob)"
    using os.put_inv [OF assms(1-3)] os.put_view [OF assms(1-3)] by auto
  have b: "st_budget st1 = st_budget st" using put_budget [of e ob st] assms(3) by simp
  have "ops_ok U ops st1" using assms(5) os.put_admissible [OF assms(1-3)] by (simp add: ops_ok_def)
  note r = run_ops_ok [OF s1 this]
  then have "view e (run_ops e ops st1) i = Some (canon ob)" using v(2) by (metis domI map_le_def)
  with get_held [of e U "run_ops e ops st1" i ob] r assms(4) b obtain ob' st2 where
    "get e i (run_ops e ops st1) = (Inr ob', st2)" "canon ob' = canon ob" by auto
  with v(1) show ?thesis by (metis encode_canon)
qed

definition demo_universe :: "bytes set" where
  "demo_universe = {encode (Blob [1, 2, 3]), encode (Blob [4, 5, 6, 7]), encode (Blob [])}"

definition demo_store :: store where
  "demo_store = store_new 5 (Ephemeral SpillTo) empty_disk"

lemma demo_store_ok: "store_ok demo_ext demo_universe demo_store"
  unfolding demo_store_def
proof (rule store_new_ok [OF demo_hex_ok demo_zstd_ok])
  show "collision_free demo_ext demo_universe"
    by (simp add: collision_free_def demo_universe_def demo_simps encode_def w_u8_def tag_defs)
qed

lemma demo_admissible:
  "admissible demo_universe (Blob [1, 2, 3]) st" "admissible demo_universe (Blob [4, 5, 6, 7]) st"
  by (simp_all add: admissible_def demo_universe_def object_ok_def spillable_def)

theorem stored_object_readable_witness:
  "\<exists>ob' st2. get demo_ext (object_id demo_ext (Blob [1, 2, 3]))
     (run_ops demo_ext [PutOp (Blob [4, 5, 6, 7])] (snd (put demo_ext (Blob [1, 2, 3]) demo_store))) = (Inr ob', st2)
     \<and> encode ob' = encode (Blob [1, 2, 3])"
proof -
  have p: "put demo_ext (Blob [1, 2, 3]) demo_store =
      (Inr (object_id demo_ext (Blob [1, 2, 3])), snd (put demo_ext (Blob [1, 2, 3]) demo_store))"
    by (simp add: put_def demo_store_def store_new_def bindS_def reserve_def ensure_capacity.simps blob_size_def Let_def)
  show ?thesis
    using stored_object_readable [OF demo_store_ok demo_admissible(1) p, of "[PutOp (Blob [4, 5, 6, 7])]"]
    by (simp add: ops_ok_def demo_admissible blob_size_def demo_store_def store_new_def)
qed

text \<open>
  C2: \<open>put\<close> refines the insertion of a map: on success the store serves the old objects and the new
  one under its id; the only error is an exceeded budget, of a store that may not evict or an object
  larger than the budget, and then no object is lost.
\<close>

theorem put_refines_map:
  assumes "store_ok e U st" "admissible U ob st" "put e ob st = (r, st')"
  shows "store_ok e U st' \<and> view e st \<subseteq>\<^sub>m view e st' \<and> st_budget st' = st_budget st
    \<and> (case r of
         Inr i \<Rightarrow> i = object_id e ob \<and> view e st' = (view e st)(i \<mapsto> canon ob)
       | Inl err \<Rightarrow> (\<exists>h. err = BudgetExceeded (blob_size ob) h (st_budget st))
           \<and> (st_backend st = Ephemeral Disallow \<or> st_budget st < blob_size ob))"
  using os.put_inv [OF assms] os.put_keeps [OF assms] put_budget [of e ob st] put_okD(3) [OF assms]
    os.put_view [OF assms(1,2)] assms(3)
  by (auto split: sum.splits)

theorem put_refines_map_witness:
  "view demo_ext (snd (put demo_ext (Blob [4, 5, 6, 7]) demo_store)) (object_id demo_ext (Blob [4, 5, 6, 7]))
     = Some (Blob [4, 5, 6, 7])"
proof -
  obtain r st' where p: "put demo_ext (Blob [4, 5, 6, 7]) demo_store = (r, st')"
    by (cases "put demo_ext (Blob [4, 5, 6, 7]) demo_store")
  have "\<not> isErr r"
    using p by (auto simp: put_def demo_store_def store_new_def bindS_def reserve_def ensure_capacity.simps blob_size_def Let_def)
  with put_refines_map [OF demo_store_ok demo_admissible(2) p] p show ?thesis by (cases r) auto
qed

text \<open>
  C3: \<open>get\<close> refines lookup in that map and changes nothing an observer can see: an id the map does not
  have is reported as missing, one it has is returned unless the object does not fit the budget.
\<close>

theorem get_refines_map:
  assumes "store_ok e U st" "get e i st = (r, st')"
  shows "store_ok e U st' \<and> view e st' = view e st
    \<and> (case r of
         Inr ob \<Rightarrow> view e st i = Some (canon ob)
       | Inl err \<Rightarrow> (view e st i = None \<and> err = NotFound i)
           \<or> (\<exists>ob h. view e st i = Some ob \<and> err = BudgetExceeded (blob_size ob) h (st_budget st)
               \<and> st_budget st < blob_size ob))"
proof (cases "view e st i")
  case None
  then have "\<not> contains e i st" using view_contains [of e U st i] assms(1) by (auto simp: store_ok_def)
  then have "r = Inl (NotFound i)"
    using assms(2) by (auto simp: contains_def get_def read_pack_object_def bindS_def split: if_splits)
  with None show ?thesis using os.get_inv [OF assms] os.get_view [OF assms] by auto
next
  case (Some ob)
  then have c: "canon ob = ob" by (auto simp: view_def split: sum.splits)
  show ?thesis
  proof (cases "blob_size ob \<le> st_budget st")
    case True
    with get_held [OF assms(1), of i ob] Some c assms(2) have "\<exists>ob'. r = Inr ob' \<and> canon ob' = ob" by auto
    with Some show ?thesis using os.get_inv [OF assms] os.get_view [OF assms] by auto
  next
    case False
    obtain ob' where l: "lookup e st i = Inr ob'" "canon ob' = ob"
      using Some by (auto simp: view_def split: sum.splits)
    then have b: "blob_size ob' = blob_size ob" by auto
    have "r = Inr ob' \<or> (\<exists>h. r = Inl (BudgetExceeded (blob_size ob) h (st_budget st)))"
      using get_okD(4) [OF assms] unfolding l(1) b sum.case by blast
    with l(2) Some False show ?thesis
      using os.get_inv [OF assms] os.get_view [OF assms] by (elim disjE exE) auto
  qed
qed

theorem get_refines_map_witness:
  "fst (get demo_ext (object_id demo_ext (Blob [])) demo_store) = Inl (NotFound (object_id demo_ext (Blob [])))"
proof -
  obtain r st' where g: "get demo_ext (object_id demo_ext (Blob [])) demo_store = (r, st')"
    by (cases "get demo_ext (object_id demo_ext (Blob [])) demo_store")
  have "view demo_ext demo_store (object_id demo_ext (Blob [])) = None"
    by (simp add: view_def lookup_def demo_store_def store_new_def)
  with get_refines_map [OF demo_store_ok g] g show ?thesis by (cases r) auto
qed

section \<open>The memory budget\<close>

text \<open>
  C21: through any sequence of puts and gets, failing ones included, the bytes the store accounts for
  are the bytes of the resident blobs and never exceed the budget.
\<close>

theorem budget_respected:
  assumes "store_ok e U st" "ops_ok U ops st"
  shows "let st' = run_ops e ops st in
    st_resident_blob_bytes st' = (\<Sum>(i, r) \<leftarrow> st_resident st'. blob_size (rs_obj r))
    \<and> st_resident_blob_bytes st' \<le> st_budget st"
proof -
  let ?st' = "run_ops e ops st"
  from run_ops_ok [OF assms] have a: "acct_inv ?st'" and b: "st_budget ?st' = st_budget st"
    by (auto simp: store_ok_def)
  have eq: "map (\<lambda>(i, r). blob_size (rs_obj r)) (st_resident ?st') = map (\<lambda>(i, r). rs_blob_size r) (st_resident ?st')"
    using a by (auto simp: acct_inv_def)
  show ?thesis using a b unfolding Let_def acct_inv_def total_def eq by simp
qed

theorem budget_respected_witness:
  "st_resident_blob_bytes (run_ops demo_ext [PutOp (Blob [1, 2, 3]), PutOp (Blob [4, 5, 6, 7])] demo_store) \<le> 5"
  using budget_respected [OF demo_store_ok, of "[PutOp (Blob [1, 2, 3]), PutOp (Blob [4, 5, 6, 7])]"]
  by (simp add: ops_ok_def demo_admissible Let_def demo_store_def store_new_def)

text \<open>
  The blob chosen for eviction is the least recently used one that may go (nonempty, and not the
  object room is made for), whatever order the hash map iterates in.
\<close>

lemma victim_least_recently_used:
  assumes "acct_inv st" "victim incoming st = Some v"
  shows "(\<exists>r. (v, r) \<in> set (st_resident st) \<and> 0 < rs_blob_size r \<and> v \<noteq> incoming
      \<and> (\<forall>(j, s) \<in> set (st_resident st). 0 < rs_blob_size s \<longrightarrow> j \<noteq> incoming \<longrightarrow> j \<noteq> v \<longrightarrow>
           rs_last_used r < rs_last_used s))
    \<and> (mset (st_resident st') = mset (st_resident st) \<longrightarrow> victim incoming st' = Some v)"
  using victim_lru [OF assms] victim_order [OF assms] by blast

text \<open>
  A store that may not spill refuses a new blob that does not fit, names the shortfall and stays
  as it was.
\<close>

lemma disallow_refuses:
  assumes "st_backend st = Ephemeral Disallow" "map_of (st_resident st) (object_id e ob) = None"
    and "map_of (st_spilled st) (object_id e ob) = None"
    and "0 < blob_size ob" "st_budget st < st_resident_blob_bytes st + blob_size ob"
  shows "\<exists>h. put e ob st = (Inl (BudgetExceeded (blob_size ob) h (st_budget st)), st)"
  using assms
  by (auto simp: put_def Let_def bindS_def reserve_def ensure_capacity.simps split: option.splits)

text \<open>
  C25: eviction panics on a sealed object. A sealed object counts against the budget like a blob, so a
  spilling store that has to evict it runs into the \<open>unreachable!\<close> of \<open>evict_to_spill\<close>.
\<close>

theorem sealed_eviction_panics:
  assumes "object_id e (Blob b) \<noteq> object_id e (Sealed s)"
    and "0 < length (so_payload s)" "length (so_payload s) \<le> n" "n < length (so_payload s) + length b"
  shows "fst (put e (Blob b) (snd (put e (Sealed s) (store_new n (Ephemeral SpillTo) empty_disk)))) = Inl Panicked"
  using assms
  by (cases "b = []") (simp_all add: put_def Let_def bindS_def reserve_def ensure_capacity.simps store_new_def
      blob_size_def admit_def victim_def evictable_def evict_to_spill_def)

theorem sealed_eviction_panics_witness:
  "fst (put demo_ext (Blob [1, 2, 3]) (snd (put demo_ext (Sealed \<lparr>so_payload = [4, 5]\<rparr>)
     (store_new 4 (Ephemeral SpillTo) empty_disk)))) = Inl Panicked"
  by (rule sealed_eviction_panics) (simp_all add: object_id_def id_of_def demo_simps encode_def w_u8_def tag_defs)

text \<open>
  C22: \<open>delete\<close> keeps the store consistent and every other object, and the deleted one is gone unless a
  pack or a second, legacy loose file still holds it.
\<close>

theorem delete_correct:
  assumes "store_ok e U st"
  shows "store_ok e U (delete e i st)
    \<and> (\<forall>j. j \<noteq> i \<longrightarrow> view e (delete e i st) j = view e st j)
    \<and> (contains e i (delete e i st) \<longleftrightarrow> is_packed i st \<or> both_loose e i st)"
proof -
  note d = delete_ok(1) [OF assms, of i] delete_ok(2) [OF assms, where i = i]
  have "view e (delete e i st) j = view e st j" if "j \<noteq> i" for j
    using that d assms by (intro view_cong [of e U]) (simp_all add: store_ok_def)
  with d show ?thesis by auto
qed

theorem delete_correct_witness:
  "\<not> contains demo_ext (object_id demo_ext (Blob [1, 2, 3]))
     (delete demo_ext (object_id demo_ext (Blob [1, 2, 3])) (snd (put demo_ext (Blob [1, 2, 3]) demo_store)))"
proof -
  let ?st = "snd (put demo_ext (Blob [1, 2, 3]) demo_store)"
  obtain r where p: "put demo_ext (Blob [1, 2, 3]) demo_store = (r, ?st)"
    by (cases "put demo_ext (Blob [1, 2, 3]) demo_store") auto
  have "store_ok demo_ext demo_universe ?st" using os.put_inv [OF demo_store_ok demo_admissible(1) p] .
  moreover have "\<not> is_packed i ?st \<and> \<not> both_loose demo_ext i ?st" for i
    using put_okD(2) [OF demo_store_ok demo_admissible(1) p]
    by (simp add: put_def demo_store_def store_new_def bindS_def reserve_def ensure_capacity.simps blob_size_def
        Let_def admit_def is_packed_def both_loose_def)
  ultimately show ?thesis using delete_correct by blast
qed

end
