(* ===== verification/Core_Theorems.thy ===== *)
theory Core_Theorems
  imports Pack_Correct Instances
begin

text \<open>
  The properties of the core crate's data formats: objects and their encoding, the readers, the
  object size cap, packs and their indexes.
\<close>

section \<open>Sample objects\<close>

definition demo_entry :: "string \<Rightarrow> tree_entry" where
  "demo_entry n = \<lparr>te_name = n, te_kind = BlobKind, te_id = ObjectId (replicate 32 7),
     te_mode = MODE_FILE, te_perms = 0\<rparr>"

definition demo_tree :: object where
  "demo_tree = Tree [demo_entry ''a'', demo_entry ''b'']"

definition demo_prefix :: "string \<Rightarrow> nat list \<Rightarrow> protect_prefix" where
  "demo_prefix n ks = \<lparr>pp_prefix = n, pp_recipients =
     map (\<lambda>k. \<lparr>re_key = [word_of_nat k], re_epoch = 1, re_state = Granted\<rparr>) ks\<rparr>"

definition demo_snapshot :: "protect_prefix list \<Rightarrow> snapshot" where
  "demo_snapshot ps = \<lparr>sn_root = ObjectId (replicate 32 1), sn_parents = [], sn_author = ''me'',
     sn_timestamp = 5, sn_message = ''m'', sn_secrets = [],
     sn_protection = \<lparr>pr_prefixes = ps, pr_wrapped = []\<rparr>\<rparr>"

definition demo_manifest :: "object_id list \<Rightarrow> object_id list \<Rightarrow> branch_manifest" where
  "demo_manifest as cs = \<lparr>bm_base = ObjectId (replicate 32 1), bm_prev = None, bm_anchors = as,
     bm_closure = cs, bm_index_ct = [1, 2], bm_kek_wraps = []\<rparr>"

lemma demo_tree_ok: "object_ok demo_tree"
  by (simp add: demo_tree_def demo_entry_def object_ok_def vec_ok_def tree_entry_ok_def id_ok_def str_ok_def)
    code_simp

section \<open>Objects\<close>

text \<open>C17: decoding the encoding of a well-formed object gives the object back, in canonical order.\<close>

theorem decode_encode:
  assumes "object_ok ob"
  shows "decode (encode ob) = Inr (canon ob)"
  using assms by (rule decode_encode_lemma)

theorem decode_encode_witness: "decode (encode demo_tree) = Inr demo_tree"
  using decode_encode [OF demo_tree_ok] by (simp add: demo_tree_def canon_def)

text \<open>
  The encoding is injective up to canonical order, so two objects have the same canonical bytes
  (and the same id) exactly when they are the same object.
\<close>

lemma encode_injective:
  assumes "object_ok a" "object_ok b"
  shows "encode a = encode b \<longleftrightarrow> canon a = canon b"
  using decode_encode_lemma [OF assms(1)] decode_encode_lemma [OF assms(2)]
  by (metis encode_canon sum.inject(2))



text \<open>A proper prefix of an encoding never decodes, for every kind whose body is not the rest of the buffer.\<close>

lemma truncation_rejected:
  assumes "object_ok ob" "self_delimiting ob" "strict_prefix p (encode ob)"
  shows "isErr (decode p)"
  using assms by (rule decode_cut_lemma)

lemma insort_key_map: "(\<And>x. f (g x) = f x) \<Longrightarrow> insort_key f (g x) (map g ys) = map g (insort_key f x ys)"
  by (induction ys) auto

lemma sort_key_map: "(\<And>x. f (g x) = f x) \<Longrightarrow> sort_key f (map g xs) = map g (sort_key f xs)"
  by (induction xs) (auto simp: insort_key_map)

text \<open>What a prefix grants, without the order of its registers.\<close>

definition prefix_content :: "protect_prefix \<Rightarrow> string \<times> recipient_entry multiset" where
  "prefix_content p = (pp_prefix p, mset (pp_recipients p))"

lemma sort_prefix_content:
  assumes "list_all registers_ok ps" "list_all registers_ok qs"
    and "image_mset prefix_content (mset ps) = image_mset prefix_content (mset qs)"
  shows "image_mset sort_prefix (mset ps) = image_mset sort_prefix (mset qs)"
proof -
  define F where "F x = (case x of (n, M) \<Rightarrow>
    sort_prefix \<lparr>pp_prefix = n, pp_recipients = (SOME xs. mset xs = M)\<rparr>)" for x
  have F: "sort_prefix p = F (prefix_content p)" if "registers_ok p" for p
  proof -
    have "mset (SOME xs. mset xs = mset (pp_recipients p)) = mset (pp_recipients p)"
      by (rule someI [of _ "pp_recipients p"]) simp
    then show ?thesis
      unfolding F_def prefix_content_def prod.case using that by (intro sort_prefix_eq) simp_all
  qed
  have "image_mset sort_prefix (mset xs) = image_mset F (image_mset prefix_content (mset xs))"
    if "list_all registers_ok xs" for xs
    using that F by (auto simp: list_all_iff multiset.map_comp comp_def intro: image_mset_cong)
  with assms show ?thesis by simp
qed

text \<open>
  The id of a snapshot does not depend on the order in which its protected prefixes and the
  recipients of each were collected, nor the id of a manifest on the order of its anchors and closure.
\<close>

lemma id_order_independent:
  assumes "distinct (map pp_prefix ps)" "list_all registers_ok ps" "list_all registers_ok qs"
    and "image_mset prefix_content (mset ps) = image_mset prefix_content (mset qs)"
    and "mset as = mset bs" "mset cs = mset ds"
  shows "object_id e (Snapshot (s\<lparr>sn_protection := \<lparr>pr_prefixes = ps, pr_wrapped = w\<rparr>\<rparr>))
       = object_id e (Snapshot (s\<lparr>sn_protection := \<lparr>pr_prefixes = qs, pr_wrapped = w\<rparr>\<rparr>))
    \<and> object_id e (Manifest (m\<lparr>bm_anchors := as, bm_closure := cs\<rparr>))
       = object_id e (Manifest (m\<lparr>bm_anchors := bs, bm_closure := ds\<rparr>))"
proof -
  have "sort_key pp_prefix (map sort_prefix ps) = sort_key pp_prefix (map sort_prefix qs)"
    using assms(1) sort_prefix_content [OF assms(2-4)] by (intro mset_eq_sort_key) (simp_all add: comp_def)
  moreover have "sort as = sort bs" "sort cs = sort ds"
    using assms(5,6) by (simp_all add: properties_for_sort)
  ultimately show ?thesis
    by (simp add: object_id_def encode_def sort_snapshot_def sort_manifest_def sort_key_map)
qed

lemma length_w_tree_entry: "tree_entry_ok en \<Longrightarrow> 42 \<le> length (w_tree_entry en)"
  by (simp add: w_tree_entry_def tree_entry_ok_def w_str_def w_bytes_def w_id_def w_u8_def w_u32_def id_ok_def
      w_kind_def)

text \<open>
  A tree decodes only from a buffer long enough for every entry it announces (42 bytes each), so
  a fabricated count cannot make the decoder build more than the input pays for.
\<close>

lemma tree_count_bounded:
  assumes "decode b = Inr (Tree t)"
  shows "5 + 42 * length t \<le> length b"
  using assms
proof (rule decode_sound)
  fix tag s
  assume a: "b = w_u8 tag @ s" "object_ok (Tree t)" "accepted_body (Tree t) tag s"
  have "42 * length xs \<le> length (concat (map w_tree_entry xs))" if "list_all tree_entry_ok xs" for xs
    using that by (induction xs) (use length_w_tree_entry in fastforce)+
  with a(2) have "42 * length t \<le> length (concat (map w_tree_entry t))"
    by (simp add: object_ok_def vec_ok_def)
  with a show ?thesis
    by (auto simp: accepted_body_def w_vec_def w_u8_def w_u32_def)
qed

text \<open>Binary search in a tree built from entries of distinct names finds exactly those entries.\<close>

lemma tree_lookup:
  assumes "distinct (map te_name es)"
  shows "tree_get (tree_new es) n = Some x \<longleftrightarrow> x \<in> set es \<and> te_name x = n"
  using assms by (rule tree_get_new)

section \<open>Recipient registers\<close>

lemma fold_max_in: "fold max xs (y :: u32) \<in> insert y (set xs)"
proof (induction xs arbitrary: y)
  case Nil
  then show ?case by simp
next
  case (Cons x xs)
  then show ?case using Cons [of "max x y"] by (auto simp: max_def split: if_splits)
qed

lemma max_epoch_in: "rs \<noteq> [] \<Longrightarrow> max_epoch rs \<in> re_epoch ` set rs"
proof (cases rs)
  case (Cons r rs')
  then show ?thesis using fold_max_in [of "map re_epoch rs'" "re_epoch r"] by (auto simp: max_epoch_def)
qed simp

text \<open>
  Standing changes made at the next epoch are last-writer-wins and leave every other key alone:
  the key has exactly the new standing, its epoch is above every register of the prefix, and it is
  among the granted keys exactly when it was granted. The epoch counter must not be at its maximum.
\<close>

lemma next_epoch_standing:
  assumes "registers_ok p" "\<forall>r \<in> set (pp_recipients p). re_epoch r \<noteq> - 1"
  shows "let p' = set_standing k (next_epoch p) s p in
    registers_ok p' \<and> standing p' = (standing p)(k \<mapsto> (next_epoch p, s))
    \<and> (\<forall>r \<in> set (pp_recipients p). re_epoch r < next_epoch p)
    \<and> (k \<in> set (granted_keys p') \<longleftrightarrow> s = Granted)"
proof -
  have "re_epoch r < next_epoch p" if "r \<in> set (pp_recipients p)" for r
  proof -
    have "max_epoch (pp_recipients p) \<noteq> - 1"
      using assms(2) max_epoch_in [of "pp_recipients p"] that by fastforce
    then have "max_epoch (pp_recipients p) < next_epoch p"
      unfolding next_epoch_def by (metis linorder_not_less inc_less_eq_self_iff_eq)
    with max_epoch_ge [OF that] show ?thesis by simp
  qed
  moreover have "registers_ok (set_standing k (next_epoch p) s p)"
    using assms(1) by (rule registers_ok_set_standing)
  ultimately show ?thesis
    by (auto simp: Let_def granted_keys_standing standing_set_standing)
qed

text \<open>
  At the maximum epoch the counter wraps around: the epoch of the next change is 0, below every
  register it has to override.
\<close>

lemma next_epoch_wraps:
  assumes "r \<in> set (pp_recipients p)" "re_epoch r = - 1"
  shows "next_epoch p = 0 \<and> \<not> re_epoch r < next_epoch p"
proof -
  have "max_epoch (pp_recipients p) = - 1"
    using max_epoch_ge [OF assms(1)] assms(2) by (metis word_order.extremum_uniqueI)
  then show ?thesis by (simp add: next_epoch_def)
qed

section \<open>Readers and the size cap\<close>

text \<open>
  C23: a bounded read returns the same bytes whatever chunks and interruptions the source delivers
  them in: the first \<open>limit\<close> bytes, or all of them, or the error of a source that breaks before the
  limit; it never buffers more than one growth step beyond what it received.
\<close>

theorem read_limited_correct:
  assumes "source_ok r"
  shows "fst (read_limited limit first_step r) = limited_spec limit (content r) (fails r)
    \<and> (case read_loop limit first_step [] 0 r of (_, peak, _) \<Rightarrow>
        peak \<le> length (content r) + max READ_STEP (length (content r) div 8))"
  using read_limited_spec(1) [OF assms] read_loop_spec [OF assms, of "[]" 0 limit first_step]
  by (auto split: prod.splits)

theorem read_limited_correct_witness:
  "fst (read_limited 3 1 [Chunk [1, 2], Intr, Chunk [3, 4]]) = Inr [1, 2, 3]"
  using read_limited_correct [of "[Chunk [1, 2], Intr, Chunk [3, 4]]" 3 1]
  by (simp add: source_ok_def limited_spec_def)

text \<open>
  Whatever calls a process makes, the object size cap stays within its bounds, and once a call
  has fixed it no later call changes it.
\<close>

lemma size_cap_stable:
  "cap_ok (foldl cap_step None calls)
   \<and> (foldl cap_step None calls = Some n \<longrightarrow> foldl cap_step None (calls @ later) = Some n)"
  using cap_run_ok [of None calls] cap_run_fixed [of n later] by (auto simp: cap_ok_def)

section \<open>Packs\<close>

text \<open>The entries a pack is built from, what parsing returns for them, and the sizes the format and a cap allow.\<close>

definition pack_input :: "ext \<Rightarrow> object list \<Rightarrow> (object_id \<times> bytes) list" where
  "pack_input e obs = map (\<lambda>ob. (object_id e ob, encode ob)) obs"

definition pack_output :: "ext \<Rightarrow> object list \<Rightarrow> (object_id \<times> object) list" where
  "pack_output e obs = map (\<lambda>ob. (object_id e ob, canon ob)) obs"

definition fits :: "ext \<Rightarrow> nat option \<Rightarrow> object \<Rightarrow> bool" where
  "fits e mx ob \<longleftrightarrow> object_ok ob \<and> (\<forall>c. zstd_encode e (encode ob) = Some c \<longrightarrow> length c < 2 ^ 32
     \<and> (\<forall>m. mx = Some m \<longrightarrow> length c \<le> m \<and> length (encode ob) \<le> m))"

lemma fits_None: "fits e mx ob \<Longrightarrow> fits e None ob"
  by (simp add: fits_def)

lemma compress_packed:
  assumes "zstd_ok e" "blake3_ok e" "list_all (fits e mx) obs"
  obtains rs where "compress_all e (pack_input e obs) = Some rs"
    "list_all2 (packed e mx) rs (pack_output e obs)"
  using assms(3)
proof (induction obs arbitrary: thesis)
  case Nil
  then show ?case by (simp add: pack_input_def pack_output_def)
next
  case (Cons ob obs)
  obtain c where c: "zstd_encode e (encode ob) = Some c" using zstd_ok_encode [OF assms(1)] by blast
  from Cons.IH Cons.prems(2) obtain rs where rs: "compress_all e (pack_input e obs) = Some rs"
    "list_all2 (packed e mx) rs (pack_output e obs)" by auto
  have "packed e mx (object_id e ob, c) (object_id e ob, canon ob)"
    using Cons.prems(2) c zstd_okD(1) [OF assms(1) c] id_of_ok [OF assms(2)]
    by (auto simp: packed_def object_id_def fits_def decode_encode_lemma)
  with rs c show ?case
    by (intro Cons.prems(1) [of "(object_id e ob, c) # rs"]) (auto simp: pack_input_def pack_output_def)
qed

lemma build_pack_layout:
  assumes "zstd_ok e" "blake3_ok e" "list_all (fits e mx) obs" "build_pack e (pack_input e obs) = Inr (pack, idx)"
  obtains rs where "pack = pack_header @ concat (map rec_bytes rs)"
    "idx = write_idx (sort_key ie_id (layout (length pack_header) rs))"
    "list_all2 (packed e mx) rs (pack_output e obs)"
proof -
  obtain rs where rs: "compress_all e (pack_input e obs) = Some rs"
    "list_all2 (packed e mx) rs (pack_output e obs)" using compress_packed [OF assms(1-3)] .
  with assms(4) that show thesis by (auto simp: build_pack_def pack_records_eq)
qed

lemma packed_ids_eq: "list_all2 (packed e mx) rs qs \<Longrightarrow> map fst rs = map fst qs"
  by (induction rs qs rule: list_all2_induct) (auto simp: packed_def)

lemma map_sort_key_same: "map f (sort_key f xs) = sort (map f xs)"
  by (rule properties_for_sort [symmetric]) simp_all

lemma reader_packed:
  assumes "list_all2 (packed e (Some m)) rs qs" "clean r" "content r = pack_header @ concat (map rec_bytes rs)"
  shows "parse_pack_reader_max e r m f st = feed f qs st"
proof -
  obtain r' where r': "read_exact 8 [] r = (Inr pack_header, r')" "clean r'" "content r' = concat (map rec_bytes rs)"
    using clean_read_exact [OF assms(2,3), of 8] by auto
  then show ?thesis
    using parse_stream_packed [OF assms(1) r'(2,3)]
    by (simp add: parse_pack_reader_max_def pack_header_def PACK_MAGIC_def FORMAT_VERSION_def sub_slice_def Let_def)
qed

definition demo_objects :: "object list" where
  "demo_objects = [Blob [1, 2, 3], Blob [9]]"

lemma demo_fits: "list_all (fits demo_ext (Some 100)) demo_objects"
  by (simp add: demo_objects_def fits_def demo_ext_def encode_def w_u8_def object_ok_def)

definition demo_pack :: "bytes \<times> bytes" where
  "demo_pack = (case build_pack demo_ext (pack_input demo_ext demo_objects) of Inr p \<Rightarrow> p | Inl _ \<Rightarrow> ([], []))"

lemma demo_build: "build_pack demo_ext (pack_input demo_ext demo_objects) = Inr (fst demo_pack, snd demo_pack)"
  by (simp add: demo_pack_def build_pack_def demo_objects_def pack_input_def demo_ext_def Let_def)

text \<open>The streaming writer and the in-memory builder produce the same pack and the same index.\<close>

lemma pack_writer_equiv:
  assumes "list_all (id_ok \<circ> fst) objs"
  shows "bindE (pw_new \<lparr>sk_out = [], sk_room = None\<rparr> (word_of_nat (length objs))) (\<lambda>pw.
           bindE (pw_write_all e objs pw) (\<lambda>pw.
           bindE (pw_finish pw) (\<lambda>idx. Inr (sk_out (pw_w pw), idx)))) = build_pack e objs"
proof -
  let ?pw = "\<lparr>pw_w = \<lparr>sk_out = pack_header, sk_room = None\<rparr>, pw_pos = 8, pw_count_written = 0,
    pw_expected_count = word_of_nat (length objs), pw_entries = []\<rparr>"
  have n: "pw_new \<lparr>sk_out = [], sk_room = None\<rparr> (word_of_nat (length objs)) = Inr ?pw"
    by (simp add: pw_new_def write_all_def pack_header_def)
  show ?thesis
    using pw_write_all_eq [of ?pw objs e] assms length_compress_all [of e objs]
    by (cases "compress_all e objs") (auto simp: n build_pack_def pack_records_eq pw_finish_def)
qed

text \<open>Parsing the pack built from a list of objects gives back these objects, in order, under their ids.\<close>

lemma parse_build_pack:
  assumes "zstd_ok e" "blake3_ok e" "list_all (fits e None) obs"
    and "build_pack e (pack_input e obs) = Inr (pack, idx)"
  shows "parse_pack e pack = Inr (pack_output e obs)"
proof -
  obtain rs where rs: "pack = pack_header @ concat (map rec_bytes rs)"
    "list_all2 (packed e None) rs (pack_output e obs)"
    using build_pack_layout [OF assms] .
  have "parse_records e pack 8 = Inr (pack_output e obs)"
    using parse_records_packed [OF rs(2), of pack_header] rs(1) by simp
  then show ?thesis
    by (simp add: parse_pack_def rs(1) pack_header_def PACK_MAGIC_def FORMAT_VERSION_def sub_slice_def Let_def)
qed

text \<open>
  C19: the index of a built pack parses to one entry per object, sorted by id, and random access
  through each entry, with or without a size bound, returns the object of that id.
\<close>

theorem index_serves_objects:
  assumes "zstd_ok e" "blake3_ok e" "list_all (fits e (Some m)) obs" "distinct (map (object_id e) obs)"
    and "build_pack e (pack_input e obs) = Inr (pack, idx)" "length pack < 2 ^ 64" "length obs * IDX_ROW + 16 < 2 ^ 64"
  shows "\<exists>es. parse_index idx = Inr es \<and> map ie_id es = sort (map (object_id e) obs)
    \<and> (\<forall>en \<in> set es. \<exists>ob \<in> set obs. object_id e ob = ie_id en
         \<and> read_object_at e pack (word_of_nat (ie_offset en)) (ie_id en) = Inr (canon ob)
         \<and> read_object_at_bounded e pack (word_of_nat (ie_offset en)) (ie_id en) m = Inr (canon ob))"
proof -
  obtain rs where rs: "pack = pack_header @ concat (map rec_bytes rs)"
    "idx = write_idx (sort_key ie_id (layout (length pack_header) rs))"
    "list_all2 (packed e (Some m)) rs (pack_output e obs)"
    using build_pack_layout [OF assms(1-3,5)] .
  let ?es = "sort_key ie_id (layout (length pack_header) rs)"
  have ids: "map fst rs = map (object_id e) obs" and n: "length rs = length obs"
    using packed_ids_eq [OF rs(3)] list_all2_lengthD [OF rs(3)] by (simp_all add: pack_output_def comp_def)
  have es: "map ie_id ?es = sort (map (object_id e) obs)"
    by (simp add: map_sort_key_same layout_ids ids)
  have rok: "list_all (\<lambda>p. id_ok (fst p)) rs"
    using rs(3) by (auto simp: list_all2_conv_all_nth list_all_length packed_def)
  have "list_all entry_ok (layout (length pack_header) rs)"
    using assms(6) rs(1) by (intro layout_entry_ok [OF rok]) simp
  moreover have "length (layout (length pack_header) rs) = length obs"
    using arg_cong [OF layout_ids [of "length pack_header" rs], of length] n by simp
  ultimately have "parse_index idx = Inr ?es"
    unfolding rs(2) using assms(4,7) es
    by (intro parse_index_write_idx) (simp_all add: list_all_iff strict_sorted_iff del: sort_key_simps)
  moreover have "\<exists>ob \<in> set obs. object_id e ob = ie_id en
      \<and> read_object_at e pack (word_of_nat (ie_offset en)) (ie_id en) = Inr (canon ob)
      \<and> read_object_at_bounded e pack (word_of_nat (ie_offset en)) (ie_id en) m = Inr (canon ob)"
    if "en \<in> set ?es" for en
  proof -
    have en: "en \<in> set (layout (length pack_header) rs)" using that by simp
    have len: "length (pack_header @ concat (map rec_bytes rs)) < 2 ^ 64" using assms(6) rs(1) by simp
    have p0: "list_all2 (packed e None) rs (pack_output e obs)"
      using rs(3) by (rule list_all2_mono) (auto simp: packed_def)
    from read_at_layout [OF rs(3) en len] obtain a where a: "a \<in> set obs" "object_id e a = ie_id en"
      "read_object_at_bounded e pack (word_of_nat (ie_offset en)) (ie_id en) m = Inr (canon a)"
      by (auto simp: read_object_at_bounded_def rs(1) pack_output_def)
    from read_at_layout [OF p0 en len] obtain b where b: "b \<in> set obs" "object_id e b = ie_id en"
      "read_object_at e pack (word_of_nat (ie_offset en)) (ie_id en) = Inr (canon b)"
      by (auto simp: read_object_at_def rs(1) pack_output_def)
    have "a = b" using a(1,2) b(1,2) assms(4) inj_onD [of "object_id e" "set obs" a b] by (simp add: distinct_map)
    with a b show ?thesis by blast
  qed
  ultimately show ?thesis using es by blast
qed

theorem index_serves_objects_witness:
  "\<exists>es. parse_index (snd demo_pack) = Inr es
    \<and> map ie_id es = sort (map (object_id demo_ext) demo_objects)"
proof -
  have "distinct (map (object_id demo_ext) demo_objects)" "length (fst demo_pack) < 2 ^ 64"
    "length demo_objects * IDX_ROW + 16 < 2 ^ 64"
    by (simp_all add: demo_objects_def object_id_def id_of_def demo_simps encode_def w_u8_def tag_defs IDX_ROW_def
      demo_pack_def build_pack_def pack_input_def Let_def pack_header_def PACK_MAGIC_def)
  from index_serves_objects [OF demo_zstd_ok demo_blake3_ok demo_fits this(1) demo_build this(2,3)]
  show ?thesis by blast
qed

text \<open>
  The streaming parser, fed the bytes of a built pack in any chunking, hands the callback the
  same objects in the same order.
\<close>

lemma stream_delivers_objects:
  assumes "zstd_ok e" "blake3_ok e" "list_all (fits e (Some m)) obs"
    and "build_pack e (pack_input e obs) = Inr (pack, idx)" "clean r" "content r = pack"
  shows "parse_pack_reader_max e r m f st = feed f (pack_output e obs) st"
  using build_pack_layout [OF assms(1-4)] reader_packed assms(5,6) by metis



text \<open>An index that parses has strictly ascending ids and exactly the length its count announces.\<close>

lemma parse_index_canonical:
  assumes "parse_index idx = Inr es"
  shows "sorted_wrt (<) (map ie_id es) \<and> length idx = 16 + 48 * length es"
  using assms parse_rows_ascending [of idx 0 _ None es]
  by (fastforce simp: parse_index_def Let_def IDX_ROW_def split: if_splits)

text \<open>
  C24: an object read out of a pack at any offset has the id that was asked for; the read panics
  exactly when the offset is within four bytes of the end of the address space and the pack is long
  enough to hold the wrapped sum.
\<close>

theorem read_object_at_verified:
  "(\<forall>ob. read_object_at e pack off i = Inr ob \<longrightarrow> (\<exists>c. id_of e c = i \<and> decode c = Inr ob))
   \<and> (record_bounds pack off mx = Inl Panicked \<longleftrightarrow>
        2 ^ 64 - 4 \<le> unat off \<and> unat off + 4 - 2 ^ 64 \<le> length pack)"
proof -
  have "unat (off + 4) = (if unat off + 4 < 2 ^ 64 then unat off + 4 else unat off + 4 - 2 ^ 64)"
    using unsigned_less [of off, where 'a = nat] by (simp add: unat_word_ariths mod_if)
  then show ?thesis
    using unsigned_less [of off, where 'a = nat]
    by (fastforce simp: read_object_at_def record_bounds_def Let_def bindE_eq_Inr
        split: if_splits option.splits dest: decompress_and_decode_InrD)
qed

theorem read_object_at_verified_witness:
  "record_bounds [0, 0, 0] (- 1) None = Inl Panicked"
  using read_object_at_verified [of demo_ext "[0, 0, 0]" "- 1" "ObjectId []" None]
  by (simp add: unsigned_minus_1_eq_mask mask_eq_exp_minus_1)

end
