(* ===== verification/Vfs.thy ===== *)
theory Vfs
  imports Store_Correct
begin

text \<open>
  The virtual worktree engine (\<^verbatim>\<open>crates/vfs/src/lib.rs\<close>): path normalisation, the refusal of
  paths that would be both a file and a directory, the tree builder, snapshots, and the
  copy-on-write worktree with its overlay. The shared store behind its mutex is the state every
  operation takes and returns; a \<^verbatim>\<open>BTreeMap\<close> is its sorted list of entries.
\<close>

section \<open>Errors and paths\<close>

datatype vfs_error =
    CoreErr core_error
  | PathMissing string
  | FileDirCollision string string

type_synonym 'a vfs_op = "store \<Rightarrow> (vfs_error + 'a) \<times> store"

text \<open>\<^verbatim>\<open>?\<close> on a result of the core crate, by \<^verbatim>\<open>From<scl_core::Error>\<close>.\<close>

definition liftC :: "(store \<Rightarrow> 'a core_result \<times> store) \<Rightarrow> 'a vfs_op" where
  "liftC m st = (case m st of (Inl err, st') \<Rightarrow> (Inl (CoreErr err), st') | (Inr a, st') \<Rightarrow> (Inr a, st'))"

abbreviation slash :: char where "slash \<equiv> CHR ''/''"

abbreviation split_slash :: "string \<Rightarrow> string list" where "split_slash \<equiv> split_on slash"

abbreviation join_slash :: "string list \<Rightarrow> string" where "join_slash \<equiv> join_with slash"

fun trim_start_dot_slash :: "string \<Rightarrow> string" where
  "trim_start_dot_slash (c # d # s) =
     (if c = CHR ''.'' \<and> d = slash then trim_start_dot_slash s else c # d # s)"
| "trim_start_dot_slash s = s"

definition normalize :: "string \<Rightarrow> string" where
  "normalize path = join_slash (filter (\<lambda>c. c \<noteq> [] \<and> c \<noteq> ''.'') (split_slash (trim_start_dot_slash path)))"

definition strip_prefix_dir :: "string \<Rightarrow> string \<Rightarrow> string option" where
  "strip_prefix_dir path pre =
     (if pre = [] then Some path else if prefix pre path then Some (drop (length pre) path) else None)"

text \<open>\<^verbatim>\<open>str::split_once('/')\<close>.\<close>

definition split_once :: "string \<Rightarrow> (string \<times> string) option" where
  "split_once s =
     (if slash \<in> set s then Some (takeWhile (\<lambda>c. c \<noteq> slash) s, tl (dropWhile (\<lambda>c. c \<noteq> slash) s)) else None)"

section \<open>File and directory collisions\<close>

fun first_dup :: "string list \<Rightarrow> string list \<Rightarrow> string option" where
  "first_dup seen [] = None"
| "first_dup seen (p # ps) = (if p \<in> set seen then Some p else first_dup (p # seen) ps)"

text \<open>\<open>&p[..i]\<close> for every index of a \<open>/\<close>, in order.\<close>

definition ancestors :: "string \<Rightarrow> string list" where
  "ancestors p = map (\<lambda>i. take i p) (filter (\<lambda>i. p ! i = slash) [0..<length p])"

definition check_file_dir_collisions :: "string list \<Rightarrow> vfs_error + unit" where
  "check_file_dir_collisions paths =
     (case first_dup [] paths of
        Some p \<Rightarrow> Inl (FileDirCollision p p)
      | None \<Rightarrow>
          (case find (\<lambda>(f, p). f \<in> set paths) (concat (map (\<lambda>p. map (\<lambda>f. (f, p)) (ancestors p)) (sort paths))) of
             Some (f, p) \<Rightarrow> Inl (FileDirCollision f p)
           | None \<Rightarrow> Inr ()))"

section \<open>Building trees\<close>

text \<open>A loop that stops at the first error, collecting the results.\<close>

fun mapS :: "('a \<Rightarrow> 's \<Rightarrow> ('e + 'b) \<times> 's) \<Rightarrow> 'a list \<Rightarrow> 's \<Rightarrow> ('e + 'b list) \<times> 's" where
  "mapS f [] s = (Inr [], s)"
| "mapS f (x # xs) s = bindS (f x) (\<lambda>y. bindS (mapS f xs) (\<lambda>ys s. (Inr (y # ys), s))) s"

lemma mapS_cong [fundef_cong]:
  "xs = ys \<Longrightarrow> s = t \<Longrightarrow> (\<And>x s. x \<in> set ys \<Longrightarrow> f x s = g x s) \<Longrightarrow> mapS f xs s = mapS g ys t"
proof (induction ys arbitrary: xs s t)
  case Nil
  then show ?case by simp
next
  case (Cons y ys)
  have "mapS f ys u = mapS g ys u" for u using Cons.IH [OF refl refl] Cons.prems(3) by simp
  then have "mapS f ys = mapS g ys" by (rule HOL.ext)
  with Cons.prems show ?case by (simp add: bindS_def)
qed

type_synonym file_map = "(string, object_id \<times> file_mode \<times> u8) btree"
type_synonym carried_map = "(string, tree_entry) btree"

text \<open>The entries directly under a prefix, and the names of its subdirectories (a \<^verbatim>\<open>BTreeMap\<close>, so sorted and without repetition).\<close>

definition rests :: "('k \<Rightarrow> string) \<Rightarrow> 'k list \<Rightarrow> string \<Rightarrow> ('k \<times> string) list" where
  "rests key xs pre = List.map_filter (\<lambda>x. map_option (Pair x) (strip_prefix_dir (key x) pre)) xs"

definition file_entries :: "file_map \<Rightarrow> string \<Rightarrow> tree_entry list" where
  "file_entries files pre =
     map (\<lambda>((p, (i, mode, perms)), rest).
         \<lparr>te_name = rest, te_kind = BlobKind, te_id = i, te_mode = mode, te_perms = perms\<rparr>)
       (filter (\<lambda>(x, rest). split_once rest = None) (rests fst files pre))"

definition carried_entries :: "carried_map \<Rightarrow> string \<Rightarrow> tree_entry list" where
  "carried_entries carried pre =
     map (\<lambda>((p, entry), rest). entry\<lparr>te_name := rest\<rparr>)
       (filter (\<lambda>(x, rest). split_once rest = None) (rests fst carried pre))"

definition dirs_of :: "string list \<Rightarrow> string list" where
  "dirs_of rs = List.map_filter (\<lambda>rest. map_option fst (split_once rest)) rs"

definition subdirs :: "file_map \<Rightarrow> carried_map \<Rightarrow> string \<Rightarrow> string list" where
  "subdirs files carried pre =
     sort (remdups (dirs_of (map snd (rests fst files pre)) @ dirs_of (map snd (rests fst carried pre))))"

text \<open>\<open>format!("{dir}/")\<close> at the root, \<open>format!("{prefix}{dir}/")\<close> below it.\<close>

definition child_prefix :: "string \<Rightarrow> string \<Rightarrow> string" where
  "child_prefix pre dir = (if pre = [] then dir @ [slash] else pre @ dir @ [slash])"

definition dir_entry :: "string \<Rightarrow> object_id \<Rightarrow> tree_entry" where
  "dir_entry dir i = \<lparr>te_name = dir, te_kind = TreeKind, te_id = i, te_mode = FileMode 493, te_perms = 0\<rparr>"

definition max_len :: "file_map \<Rightarrow> carried_map \<Rightarrow> nat" where
  "max_len files carried = Max (insert 0 (length ` (fst ` set files \<union> fst ` set carried)))"

lemma rests_mem: "(x, r) \<in> set (rests key xs pre) \<longleftrightarrow> x \<in> set xs \<and> key x = pre @ r"
  by (auto simp: rests_def List.map_filter_def strip_prefix_dir_def prefix_def image_iff split: if_splits)

lemma split_once_Some: "split_once s = Some (d, r) \<longleftrightarrow> slash \<notin> set d \<and> s = d @ slash # r"
proof
  assume a: "split_once s = Some (d, r)"
  then have s: "slash \<in> set s" "d = takeWhile (\<lambda>c. c \<noteq> slash) s" "r = tl (dropWhile (\<lambda>c. c \<noteq> slash) s)"
    by (auto simp: split_once_def split: if_splits)
  then have "dropWhile (\<lambda>c. c \<noteq> slash) s \<noteq> []" by auto
  then have "dropWhile (\<lambda>c. c \<noteq> slash) s = slash # r"
    using hd_dropWhile [of "\<lambda>c. c \<noteq> slash" s] s(3) by (metis list.collapse)
  then have "s = d @ slash # r" using takeWhile_dropWhile_id [of "\<lambda>c. c \<noteq> slash" s] s(2) by simp
  moreover have "slash \<notin> set d" using s(2) by (auto dest: set_takeWhileD)
  ultimately show "slash \<notin> set d \<and> s = d @ slash # r" by simp
next
  assume a: "slash \<notin> set d \<and> s = d @ slash # r"
  have "takeWhile (\<lambda>c. c \<noteq> slash) (d @ slash # r) = d" "dropWhile (\<lambda>c. c \<noteq> slash) (d @ slash # r) = slash # r"
    using a by (auto simp: takeWhile_append dropWhile_append)
  with a show "split_once s = Some (d, r)" by (simp add: split_once_def)
qed

lemma split_once_None: "split_once s = None \<longleftrightarrow> slash \<notin> set s"
  by (simp add: split_once_def)

lemma dirs_of_mem: "d \<in> set (dirs_of rs) \<longleftrightarrow> slash \<notin> set d \<and> (\<exists>s. d @ slash # s \<in> set rs)"
proof -
  have eq: "map_option fst (split_once r) = Some d \<longleftrightarrow> slash \<notin> set d \<and> (\<exists>s. r = d @ slash # s)" for r
  proof -
    have "map_option fst (split_once r) = Some d \<longleftrightarrow> (\<exists>s. split_once r = Some (d, s))"
      by (cases "split_once r") auto
    then show ?thesis unfolding split_once_Some by blast
  qed
  show ?thesis unfolding dirs_of_def mem_map_filter eq by auto
qed

lemma child_prefix_eq: "child_prefix pre d = pre @ d @ [slash]"
  by (simp add: child_prefix_def)

lemma rests_snd: "r \<in> set (map snd (rests fst xs pre)) \<longleftrightarrow> pre @ r \<in> fst ` set xs"
proof -
  have "r \<in> set (map snd (rests fst xs pre)) \<longleftrightarrow> (\<exists>x. (x, r) \<in> set (rests fst xs pre))"
    by (metis (no_types, lifting) image_iff list.set_map prod.collapse snd_conv)
  then show ?thesis unfolding rests_mem image_iff by metis
qed

lemma subdirs_mem:
  "d \<in> set (subdirs files carried pre) \<longleftrightarrow> slash \<notin> set d \<and>
     (\<exists>s. child_prefix pre d @ s \<in> fst ` set files \<union> fst ` set carried)"
  unfolding subdirs_def set_sort set_remdups set_append Un_iff dirs_of_mem rests_snd
  by (auto simp: child_prefix_eq)

lemma child_prefix_bounded:
  assumes "d \<in> set (subdirs files carried pre)"
  shows "length (child_prefix pre d) \<le> max_len files carried"
proof -
  obtain p s where p: "p \<in> fst ` set files \<union> fst ` set carried" "p = child_prefix pre d @ s"
    using assms unfolding subdirs_mem by blast
  have "length p \<le> max_len files carried"
    unfolding max_len_def using p(1) by (intro Max_ge) auto
  with p(2) show ?thesis by simp
qed

function build_subtree_inner :: "ext \<Rightarrow> file_map \<Rightarrow> carried_map \<Rightarrow> string \<Rightarrow> object_id vfs_op" where
  "build_subtree_inner e files carried pre st =
     bindS (mapS (\<lambda>dir. bindS (build_subtree_inner e files carried (child_prefix pre dir))
              (\<lambda>sub_id st. (Inr (dir_entry dir sub_id), st))) (subdirs files carried pre))
       (\<lambda>dirs. liftC (put e (Tree (tree_new (file_entries files pre @ carried_entries carried pre @ dirs))))) st"
  by pat_completeness auto
termination
  by (relation "measure (\<lambda>(e, files, carried, pre, st). max_len files carried - length pre)")
    (use child_prefix_bounded in \<open>fastforce simp: child_prefix_eq\<close>)+

declare build_subtree_inner.simps [simp del]

definition build_root :: "ext \<Rightarrow> file_map \<Rightarrow> carried_map \<Rightarrow> object_id vfs_op" where
  "build_root e files carried =
     bindS (liftE (check_file_dir_collisions (map fst files @ map fst carried)))
       (\<lambda>_. build_subtree_inner e files carried [])"

definition build_tree :: "ext \<Rightarrow> (string, object_id \<times> file_mode) btree \<Rightarrow> object_id vfs_op" where
  "build_tree e files = build_root e (map (\<lambda>(p, (i, mode)). (p, (i, mode, 0))) files) []"

text \<open>The loop that puts the blobs of a file set and indexes them by normalised path; \<open>'m\<close> is the mode, or mode and perms.\<close>

fun put_files :: "ext \<Rightarrow> (string \<times> bytes \<times> 'm) list \<Rightarrow> (string, object_id \<times> 'm) btree \<Rightarrow>
    (string, object_id \<times> 'm) btree vfs_op" where
  "put_files e [] m st = (Inr m, st)"
| "put_files e ((path, b, mode) # fs) m st =
     bindS (liftC (put e (Blob b))) (\<lambda>i. put_files e fs (bt_insert (normalize path) (i, mode) m)) st"

section \<open>Snapshots\<close>

definition commit_files :: "ext \<Rightarrow> (string \<times> bytes \<times> file_mode) list \<Rightarrow> string \<Rightarrow> string \<Rightarrow> object_id vfs_op" where
  "commit_files e files author message =
     bindS (put_files e files []) (\<lambda>m.
     bindS (build_tree e m) (\<lambda>root.
       liftC (put e (Snapshot \<lparr>sn_root = root, sn_parents = [], sn_author = author, sn_timestamp = 0,
         sn_message = message, sn_secrets = [], sn_protection = protection_default\<rparr>))))"

definition write_tree :: "ext \<Rightarrow> (string \<times> bytes \<times> file_mode) list \<Rightarrow> object_id vfs_op" where
  "write_tree e files = bindS (put_files e files []) (build_tree e)"

definition write_tree_with_perms :: "ext \<Rightarrow> (string \<times> bytes \<times> file_mode \<times> u8) list \<Rightarrow> object_id vfs_op" where
  "write_tree_with_perms e files = bindS (put_files e files []) (\<lambda>m. build_root e m [])"

definition write_tree_with_carried ::
  "ext \<Rightarrow> (string \<times> bytes \<times> file_mode \<times> u8) list \<Rightarrow> (string \<times> tree_entry) list \<Rightarrow> object_id vfs_op" where
  "write_tree_with_carried e files carried =
     bindS (put_files e files []) (\<lambda>m.
       build_root e m (foldl (\<lambda>c (p, en). bt_insert (normalize p) en c) [] carried))"

section \<open>Reading trees\<close>

text \<open>\<^verbatim>\<open>walk\<close> recurses to the depth of the tree; the first argument bounds the depth of the stack.\<close>

fun walk :: "nat \<Rightarrow> ext \<Rightarrow> object_id \<Rightarrow> string \<Rightarrow> (string \<times> object_id \<times> file_mode) list vfs_op" where
  "walk 0 e tree_id pre st = (Inl (CoreErr Panicked), st)"
| "walk (Suc n) e tree_id pre st =
     bindS (liftC (get_tree e tree_id)) (\<lambda>t.
     bindS (mapS (\<lambda>en. let path = (if pre = [] then te_name en else pre @ slash # te_name en) in
                 case te_kind en of
                   BlobKind \<Rightarrow> (\<lambda>st. (Inr [(path, te_id en, te_mode en)], st))
                 | TreeKind \<Rightarrow> walk n e (te_id en) path) t) (\<lambda>outs st. (Inr (concat outs), st))) st"

fun resolve :: "ext \<Rightarrow> object_id \<Rightarrow> string list \<Rightarrow> object_id option vfs_op" where
  "resolve e tree_id [] st = (Inr None, st)"
| "resolve e tree_id (c # cs) st =
     bindS (liftC (get_tree e tree_id)) (\<lambda>t.
       case tree_get t c of
         None \<Rightarrow> (\<lambda>st. (Inr None, st))
       | Some en \<Rightarrow>
           (case te_kind en of
              BlobKind \<Rightarrow> (\<lambda>st. (Inr (if cs = [] then Some (te_id en) else None), st))
            | TreeKind \<Rightarrow> if cs = [] then (\<lambda>st. (Inr None, st)) else resolve e (te_id en) cs)) st"

section \<open>Worktrees\<close>

datatype overlay = Written bytes file_mode | Removed

record worktree =
  wt_base_snapshot :: object_id
  wt_base_root :: object_id
  wt_overlay :: "(string, overlay) btree"
  wt_secrets :: "(string, object_id) btree"
  wt_protection :: protection
  wt_label :: string

definition fork :: "ext \<Rightarrow> object_id \<Rightarrow> string \<Rightarrow> worktree vfs_op" where
  "fork e snap_id label =
     bindS (liftC (get_snapshot e snap_id)) (\<lambda>snap st.
       (Inr \<lparr>wt_base_snapshot = snap_id, wt_base_root = sn_root snap, wt_overlay = [],
          wt_secrets = sn_secrets snap, wt_protection = sn_protection snap, wt_label = label\<rparr>, st))"

definition resolve_base :: "ext \<Rightarrow> worktree \<Rightarrow> string \<Rightarrow> object_id option vfs_op" where
  "resolve_base e wt path = resolve e (wt_base_root wt) (filter (\<lambda>c. c \<noteq> []) (split_slash path))"

definition walk_base :: "nat \<Rightarrow> ext \<Rightarrow> worktree \<Rightarrow> (string \<times> object_id \<times> file_mode) list vfs_op" where
  "walk_base n e wt = walk n e (wt_base_root wt) []"

definition wt_read :: "ext \<Rightarrow> worktree \<Rightarrow> string \<Rightarrow> bytes vfs_op" where
  "wt_read e wt path0 =
     (let path = normalize path0 in
      case map_of (wt_overlay wt) path of
        Some (Written b _) \<Rightarrow> (\<lambda>st. (Inr b, st))
      | Some Removed \<Rightarrow> (\<lambda>st. (Inl (PathMissing path), st))
      | None \<Rightarrow>
          bindS (resolve_base e wt path) (\<lambda>found.
          bindS (liftE (ok_or (PathMissing path) found)) (\<lambda>i.
          bindS (liftC (get e i)) (\<lambda>ob st.
            (case ob of Blob b \<Rightarrow> Inr b | _ \<Rightarrow> Inl (PathMissing path), st)))))"

definition wt_write :: "string \<Rightarrow> bytes \<Rightarrow> file_mode \<Rightarrow> worktree \<Rightarrow> worktree" where
  "wt_write path b mode wt = wt\<lparr>wt_overlay := bt_insert (normalize path) (Written b mode) (wt_overlay wt)\<rparr>"

definition wt_remove :: "string \<Rightarrow> worktree \<Rightarrow> worktree" where
  "wt_remove path wt = wt\<lparr>wt_overlay := bt_insert (normalize path) Removed (wt_overlay wt)\<rparr>"

definition put_secret :: "ext \<Rightarrow> secret \<Rightarrow> worktree \<Rightarrow> (object_id \<times> worktree) vfs_op" where
  "put_secret e s wt =
     bindS (liftC (put e (Secret s))) (\<lambda>i st. (Inr (i, wt\<lparr>wt_secrets := bt_insert (se_name s) i (wt_secrets wt)\<rparr>), st))"

definition remove_secret :: "string \<Rightarrow> worktree \<Rightarrow> worktree" where
  "remove_secret name wt = wt\<lparr>wt_secrets := bt_remove name (wt_secrets wt)\<rparr>"

definition list_secrets :: "worktree \<Rightarrow> (string \<times> object_id) list" where
  "list_secrets wt = wt_secrets wt"

definition secret_id :: "worktree \<Rightarrow> string \<Rightarrow> object_id option" where
  "secret_id wt name = map_of (wt_secrets wt) name"

definition wt_exists :: "ext \<Rightarrow> worktree \<Rightarrow> string \<Rightarrow> store \<Rightarrow> bool \<times> store" where
  "wt_exists e wt path0 st =
     (let path = normalize path0 in
      case map_of (wt_overlay wt) path of
        Some (Written _ _) \<Rightarrow> (True, st)
      | Some Removed \<Rightarrow> (False, st)
      | None \<Rightarrow> (case resolve_base e wt path st of (Inr (Some _), st') \<Rightarrow> (True, st') | (_, st') \<Rightarrow> (False, st')))"

definition overlay_keys :: "(string, overlay) btree \<Rightarrow> (string, unit) btree \<Rightarrow> (string, unit) btree" where
  "overlay_keys ov m = foldl (\<lambda>m (p, o').
     case o' of Written _ _ \<Rightarrow> bt_insert p () m | Removed \<Rightarrow> bt_remove p m) m ov"

definition wt_list :: "nat \<Rightarrow> ext \<Rightarrow> worktree \<Rightarrow> string list vfs_op" where
  "wt_list n e wt =
     bindS (walk_base n e wt) (\<lambda>out st.
       (Inr (map fst (overlay_keys (wt_overlay wt) (foldl (\<lambda>m (p, _, _). bt_insert p () m) [] out))), st))"

definition overlay_footprint :: "worktree \<Rightarrow> nat" where
  "overlay_footprint wt = sum_list (map (\<lambda>(p, o'). case o' of Written b _ \<Rightarrow> length b | Removed \<Rightarrow> 0) (wt_overlay wt))"

fun apply_overlay :: "ext \<Rightarrow> (string, overlay) btree \<Rightarrow> (string, object_id \<times> file_mode) btree \<Rightarrow>
    (string, object_id \<times> file_mode) btree vfs_op" where
  "apply_overlay e [] m st = (Inr m, st)"
| "apply_overlay e ((path, Written b mode) # ov) m st =
     bindS (liftC (put e (Blob b))) (\<lambda>i. apply_overlay e ov (bt_insert path (i, mode) m)) st"
| "apply_overlay e ((path, Removed) # ov) m st = apply_overlay e ov (bt_remove path m) st"

definition commit :: "nat \<Rightarrow> ext \<Rightarrow> worktree \<Rightarrow> string \<Rightarrow> string \<Rightarrow> object_id vfs_op" where
  "commit n e wt author message =
     bindS (walk_base n e wt) (\<lambda>out.
     bindS (apply_overlay e (wt_overlay wt) (foldl (\<lambda>m (p, i, mode). bt_insert p (i, mode) m) [] out)) (\<lambda>m.
     bindS (build_tree e m) (\<lambda>root.
       liftC (put e (Snapshot \<lparr>sn_root = root, sn_parents = [wt_base_snapshot wt], sn_author = author,
         sn_timestamp = 0, sn_message = message, sn_secrets = wt_secrets wt,
         sn_protection = wt_protection wt\<rparr>)))))"

definition mode_of :: "nat \<Rightarrow> ext \<Rightarrow> worktree \<Rightarrow> string \<Rightarrow> store \<Rightarrow> file_mode \<times> store" where
  "mode_of n e wt path st =
     (case map_of (wt_overlay wt) path of
        Some (Written _ m) \<Rightarrow> (m, st)
      | _ \<Rightarrow> (case walk_base n e wt st of
                (Inr out, st') \<Rightarrow>
                  (case find (\<lambda>(p, _, _). p = path) out of Some (_, _, m) \<Rightarrow> m | None \<Rightarrow> MODE_FILE, st')
              | (Inl _, st') \<Rightarrow> (MODE_FILE, st')))"

section \<open>Checkout\<close>

unbundle bit_operations_syntax

text \<open>The mode bits \<^verbatim>\<open>apply_file_mode\<close> sets on a file that has \<open>cur\<close>, on Unix.\<close>

definition apply_file_mode :: "u32 \<Rightarrow> file_mode \<Rightarrow> u32" where
  "apply_file_mode cur mode =
     (let want = (if mode_bits mode AND 0x49 \<noteq> 0 then cur OR drop_bit 2 (cur AND 0x124) else cur AND NOT 0x49)
      in want AND NOT 0xE00)"

text \<open>The files below the destination: path, bytes and mode bits; a file that is created has the bits \<open>fresh\<close>.\<close>

type_synonym file_tree = "(string \<times> (bytes \<times> u32)) list"

fun checkout_files :: "nat \<Rightarrow> ext \<Rightarrow> u32 \<Rightarrow> worktree \<Rightarrow> string list \<Rightarrow> file_tree \<Rightarrow> (nat \<times> file_tree) vfs_op" where
  "checkout_files n e fresh wt [] fs st = (Inr (0, fs), st)"
| "checkout_files n e fresh wt (path # paths) fs st =
     bindS (wt_read e wt path) (\<lambda>b st.
       let (mode, st') = mode_of n e wt path st;
           cur = (case map_of fs path of Some (_, m) \<Rightarrow> m | None \<Rightarrow> fresh);
           fs' = AList.update path (b, apply_file_mode cur mode) fs
       in bindS (checkout_files n e fresh wt paths fs') (\<lambda>(k, fs) st. (Inr (Suc k, fs), st)) st') st"

definition checkout :: "nat \<Rightarrow> ext \<Rightarrow> u32 \<Rightarrow> worktree \<Rightarrow> file_tree \<Rightarrow> (nat \<times> file_tree) vfs_op" where
  "checkout n e fresh wt fs = bindS (wt_list n e wt) (\<lambda>paths. checkout_files n e fresh wt paths fs)"

end
