(* ===== verification/Vfs_Correct.thy ===== *)
theory Vfs_Correct
  imports Vfs
begin

text \<open>
  Correctness of the virtual worktree. The tree builder is related to a pure function that gives
  the tree of every directory; walking and path lookup over the built objects return the file map
  that was built, and the worktree operations are the corresponding operations on file maps.
\<close>

section \<open>Paths\<close>

definition plain :: "string \<Rightarrow> bool" where
  "plain c \<longleftrightarrow> c \<noteq> [] \<and> c \<noteq> ''.'' \<and> slash \<notin> set c"

definition comps :: "string \<Rightarrow> string list" where
  "comps path = filter (\<lambda>c. c \<noteq> [] \<and> c \<noteq> ''.'') (split_slash path)"

lemma comps_plain: "c \<in> set (comps path) \<Longrightarrow> plain c"
  by (auto simp: comps_def plain_def dest: split_on_free)

lemma comps_trim: "comps (trim_start_dot_slash path) = comps path"
  by (induction path rule: trim_start_dot_slash.induct) (auto simp: comps_def)

lemma normalize_comps: "normalize path = join_slash (comps path)"
  unfolding normalize_def using comps_trim [of path] by (simp add: comps_def)

lemma comps_join: "\<forall>c \<in> set cs. plain c \<Longrightarrow> comps (join_slash cs) = cs"
proof (cases "cs = []")
  case False
  assume p: "\<forall>c \<in> set cs. plain c"
  then have "split_slash (join_slash cs) = cs" using False by (intro split_join) (auto simp: plain_def)
  then show ?thesis using p by (simp add: comps_def plain_def filter_True)
qed (simp add: comps_def)

lemma comps_normalize: "comps (normalize path) = comps path"
  unfolding normalize_comps using comps_plain by (intro comps_join) blast

lemma normalize_idem: "normalize (normalize path) = normalize path"
  using comps_normalize [of path] normalize_comps by metis

text \<open>A path is in normal form when it is the join of plain components; \<open>file_path\<close> excludes the empty one.\<close>

definition file_path :: "string \<Rightarrow> bool" where
  "file_path p \<longleftrightarrow> p \<noteq> [] \<and> normalize p = p"

lemma file_path_comps:
  assumes "file_path p"
  obtains cs where "cs \<noteq> []" "p = join_slash cs" "\<forall>c \<in> set cs. plain c"
proof
  show "p = join_slash (comps p)" using assms normalize_comps [of p] by (simp add: file_path_def)
  with assms show "comps p \<noteq> []" by (auto simp: file_path_def)
  show "\<forall>c \<in> set (comps p). plain c" using comps_plain by blast
qed

lemma join_slash_eq_Nil: "\<forall>c \<in> set cs. plain c \<Longrightarrow> join_slash cs = [] \<longleftrightarrow> cs = []"
  by (cases cs; cases "tl cs") (auto simp: plain_def)

lemma join_file_path: "cs \<noteq> [] \<Longrightarrow> \<forall>c \<in> set cs. plain c \<Longrightarrow> file_path (join_slash cs)"
  using join_slash_eq_Nil [of cs] by (auto simp: file_path_def normalize_comps comps_join)

lemma file_path_no_slash: "file_path p \<Longrightarrow> p = slash # s \<Longrightarrow> False"
proof (erule file_path_comps)
  fix cs assume cs: "cs \<noteq> []" "p = join_slash cs" "\<forall>c \<in> set cs. plain c" and p: "p = slash # s"
  then obtain c ds where "cs = c # ds" "plain c" by (cases cs) auto
  with cs(2) p show False by (cases c; cases ds) (auto simp: plain_def)
qed

section \<open>Collisions\<close>

definition no_collisions :: "string list \<Rightarrow> bool" where
  "no_collisions ps \<longleftrightarrow> distinct ps \<and> (\<forall>f \<in> set ps. \<forall>s. f @ slash # s \<notin> set ps)"

lemma no_collisionsD: "no_collisions ps \<Longrightarrow> f \<in> set ps \<Longrightarrow> f @ slash # s \<notin> set ps"
  by (simp add: no_collisions_def)

lemma first_dup_None: "first_dup seen ps = None \<longleftrightarrow> distinct ps \<and> set ps \<inter> set seen = {}"
  by (induction ps arbitrary: seen) auto

lemma first_dup_Some: "first_dup seen ps = Some p \<Longrightarrow> p \<in> set ps \<and> (distinct seen \<longrightarrow> \<not> distinct (rev seen @ ps))"
proof (induction ps arbitrary: seen)
  case (Cons q ps)
  then show ?case by (cases "q \<in> set seen") (fastforce simp: disjoint_iff)+
qed simp

lemma ancestors_mem: "f \<in> set (ancestors p) \<longleftrightarrow> (\<exists>s. p = f @ slash # s)"
proof
  assume "f \<in> set (ancestors p)"
  then obtain i where i: "i < length p" "p ! i = slash" "f = take i p" by (auto simp: ancestors_def)
  then have "p = f @ slash # drop (Suc i) p" using id_take_nth_drop [of i p] by simp
  then show "\<exists>s. p = f @ slash # s" by blast
next
  assume "\<exists>s. p = f @ slash # s"
  then obtain s where "p = f @ slash # s" by blast
  then have "take (length f) p = f \<and> length f \<in> set (filter (\<lambda>i. p ! i = slash) [0..<length p])" by auto
  then show "f \<in> set (ancestors p)" unfolding ancestors_def by (metis imageI list.set_map)
qed

lemma check_ok: "check_file_dir_collisions ps = Inr () \<longleftrightarrow> no_collisions ps"
proof -
  let ?c = "concat (map (\<lambda>p. map (\<lambda>f. (f, p)) (ancestors p)) (sort ps))"
  have "find (\<lambda>(f, p). f \<in> set ps) ?c = None \<longleftrightarrow> (\<forall>p \<in> set ps. \<forall>f \<in> set (ancestors p). f \<notin> set ps)"
    by (auto simp: find_None_iff)
  also have "\<dots> \<longleftrightarrow> (\<forall>f \<in> set ps. \<forall>s. f @ slash # s \<notin> set ps)"
    unfolding Ball_def ancestors_mem by blast
  finally show ?thesis
    using first_dup_None [of "[]" ps]
    by (auto simp: check_file_dir_collisions_def no_collisions_def split: option.splits)
qed

text \<open>A reported collision names two paths of the set, or a repeated one.\<close>

lemma check_error:
  assumes "check_file_dir_collisions ps = Inl err"
  obtains f p where "err = FileDirCollision f p" "f \<in> set ps" "p \<in> set ps"
    "(f = p \<and> \<not> distinct ps) \<or> (\<exists>s. p = f @ slash # s)"
proof (cases "first_dup [] ps")
  case (Some p)
  with assms that [of p p] first_dup_Some [OF Some] show thesis by (simp add: check_file_dir_collisions_def)
next
  case None
  with assms obtain f p where fp: "err = FileDirCollision f p"
    "find (\<lambda>(f, p). f \<in> set ps) (concat (map (\<lambda>p. map (\<lambda>f. (f, p)) (ancestors p)) (sort ps))) = Some (f, p)"
    by (auto simp: check_file_dir_collisions_def split: option.splits)
  from fp(2) have "f \<in> set ps" "(f, p) \<in> set (concat (map (\<lambda>p. map (\<lambda>f. (f, p)) (ancestors p)) (sort ps)))"
    by (auto simp: find_Some_iff dest: nth_mem)
  then have "f \<in> set ps" "p \<in> set ps" "f \<in> set (ancestors p)" by auto
  with fp(1) that show thesis unfolding ancestors_mem by blast
qed

section \<open>The trees that are built\<close>

function pure_tree :: "ext \<Rightarrow> file_map \<Rightarrow> carried_map \<Rightarrow> string \<Rightarrow> tree" where
  "pure_tree e files carried pre =
     tree_new (file_entries files pre @ carried_entries carried pre
       @ map (\<lambda>d. dir_entry d (object_id e (Tree (pure_tree e files carried (child_prefix pre d)))))
           (subdirs files carried pre))"
  by pat_completeness auto
termination
  by (relation "measure (\<lambda>(e, files, carried, pre). max_len files carried - length pre)")
    (use child_prefix_bounded in \<open>fastforce simp: child_prefix_eq\<close>)+

declare pure_tree.simps [simp del]

abbreviation tree_id :: "ext \<Rightarrow> file_map \<Rightarrow> carried_map \<Rightarrow> string \<Rightarrow> object_id" where
  "tree_id e files carried pre \<equiv> object_id e (Tree (pure_tree e files carried pre))"

text \<open>Every tree object of the directory \<open>pre\<close> and below.\<close>

function tree_objects :: "ext \<Rightarrow> file_map \<Rightarrow> carried_map \<Rightarrow> string \<Rightarrow> object list" where
  "tree_objects e files carried pre =
     Tree (pure_tree e files carried pre)
       # concat (map (\<lambda>d. tree_objects e files carried (child_prefix pre d)) (subdirs files carried pre))"
  by pat_completeness auto
termination
  by (relation "measure (\<lambda>(e, files, carried, pre). max_len files carried - length pre)")
    (use child_prefix_bounded in \<open>fastforce simp: child_prefix_eq\<close>)+

declare tree_objects.simps [simp del]

definition known :: "bytes set \<Rightarrow> object \<Rightarrow> bool" where
  "known U ob \<longleftrightarrow> object_ok ob \<and> encode ob \<in> U"

text \<open>What an operation on the store may do: everything it served stays served.\<close>

definition grows :: "ext \<Rightarrow> bytes set \<Rightarrow> store \<Rightarrow> store \<Rightarrow> bool" where
  "grows e U st st' \<longleftrightarrow> store_ok e U st' \<and> view e st \<subseteq>\<^sub>m view e st' \<and> st_backend st' = st_backend st
     \<and> st_budget st' = st_budget st"

lemma grows_refl: "store_ok e U st \<Longrightarrow> grows e U st st"
  by (simp add: grows_def)

lemma grows_trans: "grows e U a b \<Longrightarrow> grows e U b c \<Longrightarrow> grows e U a c"
  unfolding grows_def by (auto intro: map_le_trans)

lemma grows_ok: "grows e U a b \<Longrightarrow> store_ok e U b"
  by (simp add: grows_def)

lemma grows_view: "grows e U a b \<Longrightarrow> view e a i = Some ob \<Longrightarrow> view e b i = Some ob"
  unfolding grows_def map_le_def by (metis domI)

lemma canon_Tree [simp]: "canon (Tree t) = Tree t"
  by (simp add: canon_def)

lemma put_weightless:
  assumes "store_ok e U st" "known U ob" "blob_size ob = 0"
  shows "\<exists>st'. put e ob st = (Inr (object_id e ob), st') \<and> grows e U st st' \<and> view e st' (object_id e ob) = Some (canon ob)"
proof -
  have a: "admissible U ob st" using assms(2,3) by (simp add: admissible_def known_def spillable_def)
  obtain r st' where p: "put e ob st = (r, st')" by (cases "put e ob st")
  have "\<exists>i. r = Inr i"
  proof (cases "st_backend st = Persistent")
    case True
    obtain c where "zstd_encode e (encode ob) = Some c" using assms(1) zstd_ok_encode by (auto simp: store_ok_def)
    with p True assms(3) show ?thesis
      by (auto simp: put_def Let_def bindS_def reserve_def write_object_file_def split: if_splits)
  next
    case False
    with p assms(3) show ?thesis by (auto simp: put_def Let_def bindS_def reserve_def split: if_splits)
  qed
  then obtain i where i: "r = Inr i" by blast
  note v = os.put_view [OF assms(1) a p [unfolded i]]
  have "grows e U st st'"
    using os.put_inv [OF assms(1) a p] os.put_keeps [OF assms(1) a p] put_okD(2) [OF assms(1) a p] put_budget [of e ob st] p
    by (simp add: grows_def)
  with p i v show ?thesis by auto
qed

lemma get_held_tree:
  assumes "store_ok e U st" "view e st i = Some (Tree t)"
  shows "\<exists>st'. get_tree e i st = (Inr t, st') \<and> grows e U st st'"
proof -
  obtain ob st' where g: "get e i st = (Inr ob, st')" "canon ob = Tree t"
    using get_held [of e U st i "Tree t"] assms by (auto simp: blob_size_def)
  then have "ob = Tree t" by (cases ob) (auto simp: canon_def)
  with g os.get_inv [OF assms(1) g(1)] os.get_view [OF assms(1) g(1)] get_okD(2) [OF assms(1) g(1)] get_budget [of e i st]
  show ?thesis by (simp add: get_tree_def bindS_def grows_def)
qed

text \<open>A loop whose body succeeds with a known result, keeps the invariant and establishes \<open>Q\<close>.\<close>

lemma mapS_ok:
  assumes "\<And>x s. x \<in> set xs \<Longrightarrow> I s \<Longrightarrow> \<exists>s'. f x s = (Inr (g x), s') \<and> R s s' \<and> Q x s'"
    and "I s" "R s s" "\<And>a b. R a b \<Longrightarrow> I a \<Longrightarrow> I b" "\<And>a b c. R a b \<Longrightarrow> R b c \<Longrightarrow> R a c" "\<And>x a b. Q x a \<Longrightarrow> R a b \<Longrightarrow> Q x b"
    and "\<And>s. I s \<Longrightarrow> R s s"
  shows "\<exists>s'. mapS f xs s = (Inr (map g xs), s') \<and> R s s' \<and> (\<forall>x \<in> set xs. Q x s')"
  using assms(1,2)
proof (induction xs arbitrary: s)
  case Nil
  with assms(7) show ?case by simp
next
  case (Cons x xs)
  from Cons.prems(1) [of x s] Cons.prems(2) obtain s1 where s1: "f x s = (Inr (g x), s1)" "R s s1" "Q x s1" by auto
  then have "I s1" using assms(4) Cons.prems(2) by blast
  with Cons.IH [of s1] Cons.prems(1) obtain s2 where
    s2: "mapS f xs s1 = (Inr (map g xs), s2)" "R s1 s2" "\<forall>x \<in> set xs. Q x s2" by auto
  have "R s s2" "Q x s2" using s1 s2 assms(5,6) by blast+
  with s1 s2 show ?case by (simp add: bindS_def)
qed

lemma build_subtree_ok:
  assumes "store_ok e U st" "list_all (known U) (tree_objects e files carried pre)"
  shows "\<exists>st'. build_subtree_inner e files carried pre st = (Inr (tree_id e files carried pre), st')
    \<and> grows e U st st' \<and> (\<forall>ob \<in> set (tree_objects e files carried pre). view e st' (object_id e ob) = Some (canon ob))"
  using assms
proof (induction e files carried pre arbitrary: st rule: tree_objects.induct)
  case (1 e files carried pre)
  let ?ds = "subdirs files carried pre"
  let ?g = "\<lambda>d. dir_entry d (tree_id e files carried (child_prefix pre d))"
  let ?Q = "\<lambda>d s. \<forall>ob \<in> set (tree_objects e files carried (child_prefix pre d)). view e s (object_id e ob) = Some (canon ob)"
  let ?f = "\<lambda>dir. bindS (build_subtree_inner e files carried (child_prefix pre dir))
    (\<lambda>sub_id st. (Inr (dir_entry dir sub_id), st))"
  have kn: "known U (Tree (pure_tree e files carried pre))"
    "\<And>d. d \<in> set ?ds \<Longrightarrow> list_all (known U) (tree_objects e files carried (child_prefix pre d))"
    using "1.prems"(2) by (auto simp: tree_objects.simps [of e files carried pre] list_all_iff)
  have "\<exists>s'. mapS ?f ?ds st = (Inr (map ?g ?ds), s') \<and> grows e U st s' \<and> (\<forall>d \<in> set ?ds. ?Q d s')"
  proof (rule mapS_ok [where I = "store_ok e U" and R = "grows e U"])
    fix d s
    assume d: "d \<in> set ?ds" "store_ok e U s"
    from "1.IH" [OF d(1,2) kn(2) [OF d(1)]]
    show "\<exists>s'. ?f d s = (Inr (?g d), s') \<and> grows e U s s' \<and> ?Q d s'" by (auto simp: bindS_def)
  next
    fix d a b
    assume "?Q d a" "grows e U a b"
    then show "?Q d b" using grows_view by blast
  qed (use "1.prems"(1) in \<open>auto intro: grows_refl grows_ok grows_trans\<close>)
  then obtain s1 where s1: "mapS ?f ?ds st = (Inr (map ?g ?ds), s1)" "grows e U st s1" "\<forall>d \<in> set ?ds. ?Q d s1" by blast
  have eq: "tree_new (file_entries files pre @ carried_entries carried pre @ map ?g ?ds) = pure_tree e files carried pre"
    by (simp add: pure_tree.simps [of e files carried pre])
  obtain s2 where s2: "put e (Tree (pure_tree e files carried pre)) s1 = (Inr (tree_id e files carried pre), s2)"
    "grows e U s1 s2" "view e s2 (tree_id e files carried pre) = Some (Tree (pure_tree e files carried pre))"
    using put_weightless [OF grows_ok [OF s1(2)] kn(1)] by (auto simp: blob_size_def)
  have "build_subtree_inner e files carried pre st = (Inr (tree_id e files carried pre), s2)"
    by (subst build_subtree_inner.simps) (simp add: bindS_def s1(1) eq liftC_def s2(1))
  moreover have "grows e U st s2" using s1(2) s2(2) by (rule grows_trans)
  moreover have "\<forall>ob \<in> set (tree_objects e files carried pre). view e s2 (object_id e ob) = Some (canon ob)"
    using s1(3) s2(2,3) grows_view by (auto simp: tree_objects.simps [of e files carried pre])
  ultimately show ?case by blast
qed

section \<open>Walking what was built\<close>

lemma mapS_rel:
  assumes "\<And>x s. x \<in> set xs \<Longrightarrow> I s \<Longrightarrow> \<exists>y s'. f x s = (Inr y, s') \<and> R s s' \<and> P x y"
    and "I s" "\<And>a b. R a b \<Longrightarrow> I a \<Longrightarrow> I b" "\<And>a b c. R a b \<Longrightarrow> R b c \<Longrightarrow> R a c" "\<And>s. I s \<Longrightarrow> R s s"
  shows "\<exists>ys s'. mapS f xs s = (Inr ys, s') \<and> R s s' \<and> list_all2 P xs ys"
  using assms(1,2)
proof (induction xs arbitrary: s)
  case Nil
  with assms(5) show ?case by simp
next
  case (Cons x xs)
  from Cons.prems(1) [of x s] Cons.prems(2) obtain y s1 where s1: "f x s = (Inr y, s1)" "R s s1" "P x y" by auto
  then have "I s1" using assms(3) Cons.prems(2) by blast
  with Cons.IH [of s1] Cons.prems(1) obtain ys s2 where
    s2: "mapS f xs s1 = (Inr ys, s2)" "R s1 s2" "list_all2 P xs ys" by auto
  with s1 assms(4) show ?case by (auto simp: bindS_def)
qed

lemma rests_simps [simp]:
  "rests fst [] pre = []"
  "rests fst (x # xs) pre = (if prefix pre (fst x) then (x, drop (length pre) (fst x)) # rests fst xs pre else rests fst xs pre)"
  by (auto simp: rests_def strip_prefix_dir_def)

type_synonym listing = "(string \<times> object_id \<times> file_mode) list"

definition listing_of :: "file_map \<Rightarrow> listing" where
  "listing_of files = map (\<lambda>(p, (i, mode, perms)). (p, (i, mode))) files"

definition under :: "string \<Rightarrow> file_map \<Rightarrow> file_map" where
  "under pre files = filter (\<lambda>x. prefix pre (fst x)) files"

definition direct :: "string \<Rightarrow> file_map \<Rightarrow> file_map" where
  "direct pre files = filter (\<lambda>x. prefix pre (fst x) \<and> slash \<notin> set (drop (length pre) (fst x))) files"

lemma sum_list_if_one:
  "distinct ds \<Longrightarrow> d0 \<in> set ds \<Longrightarrow> (\<Sum>d \<leftarrow> ds. if d = d0 then m else 0) = (m :: 'a::monoid_add)"
proof (induction ds)
  case (Cons d ds)
  have "(\<Sum>d \<leftarrow> ds. if d = d0 then m else 0) = 0" if "d0 \<notin> set ds"
    using that by (induction ds) auto
  with Cons show ?case by auto
qed simp

lemma sum_list_mset_eq:
  fixes f :: "'a \<Rightarrow> 'b::comm_monoid_add"
  assumes "mset xs = mset ys"
  shows "(\<Sum>x \<leftarrow> xs. f x) = (\<Sum>x \<leftarrow> ys. f x)"
  using arg_cong [OF assms, of "\<lambda>m. \<Sum>x \<in># m. f x"] by (simp add: sum_mset_sum_list [symmetric] comp_def)

lemma image_mset_sum_list: "image_mset f (sum_list ms) = sum_list (map (image_mset f) ms)"
  by (induction ms) auto

lemma under_partition:
  assumes "set xs \<subseteq> set files"
  shows "mset (under pre xs) = mset (direct pre xs)
    + (\<Sum>d \<leftarrow> subdirs files [] pre. mset (under (child_prefix pre d) xs))"
  using assms
proof (induction xs)
  case Nil
  then show ?case by (simp add: under_def direct_def)
next
  case (Cons x xs)
  let ?ds = "subdirs files [] pre"
  have dist: "distinct ?ds" by (simp add: subdirs_def)
  have one: "(\<Sum>d \<leftarrow> ?ds. mset (under (child_prefix pre d) (x # xs)))
      = (\<Sum>d \<leftarrow> ?ds. if prefix (child_prefix pre d) (fst x) then {#x#} else {#})
        + (\<Sum>d \<leftarrow> ?ds. mset (under (child_prefix pre d) xs))"
    by (simp add: sum_list_addf [symmetric] under_def) (intro arg_cong [where f = sum_list] map_cong refl, auto)
  show ?case
  proof (cases "prefix pre (fst x)")
    case False
    then have "\<not> prefix (child_prefix pre d) (fst x)" for d by (auto simp: child_prefix_eq prefix_def)
    then show ?thesis using Cons False one by (simp add: under_def direct_def)
  next
    case True
    then obtain rest where rest: "fst x = pre @ rest" by (auto simp: prefix_def)
    show ?thesis
    proof (cases "split_once rest")
      case None
      then have n: "slash \<notin> set rest" by (simp add: split_once_None)
      then have "\<not> prefix (child_prefix pre d) (fst x)" for d by (auto simp: child_prefix_eq prefix_def rest)
      then show ?thesis using Cons True one n by (simp add: under_def direct_def rest)
    next
      case (Some dr)
      obtain d0 r where dr: "dr = (d0, r)" by (cases dr)
      with Some have s: "slash \<notin> set d0" "rest = d0 @ slash # r" using split_once_Some by blast+
      have eq: "prefix (child_prefix pre d) (fst x) \<longleftrightarrow> d = d0" if "d \<in> set ?ds" for d
      proof -
        have "slash \<notin> set d" using that by (simp add: subdirs_mem)
        then have u: "d @ slash # q = d0 @ slash # r \<longleftrightarrow> d = d0 \<and> q = r" for q
          using split_once_Some [of "d @ slash # q" d q] split_once_Some [of "d0 @ slash # r" d0 r] s(1)
          by (metis Pair_inject option.inject)
        have "prefix (child_prefix pre d) (fst x) \<longleftrightarrow> (\<exists>q. d0 @ slash # r = d @ slash # q)"
          by (auto simp: child_prefix_eq prefix_def rest s(2))
        then show ?thesis using u by metis
      qed
      have "child_prefix pre d0 @ r \<in> fst ` set files"
        using Cons.prems rest s(2) by (force simp: child_prefix_eq)
      then have "d0 \<in> set ?ds" using s(1) unfolding subdirs_mem by blast
      have mp: "map (\<lambda>d. if prefix (child_prefix pre d) (fst x) then {#x#} else {#}) ?ds
          = map (\<lambda>d. if d = d0 then {#x#} else {#}) ?ds"
        using eq by (intro map_cong) auto
      have "(\<Sum>d \<leftarrow> ?ds. if prefix (child_prefix pre d) (fst x) then {#x#} else {#}) = {#x#}"
        unfolding mp using sum_list_if_one [OF dist, of d0 "{#x#}"] \<open>d0 \<in> set ?ds\<close> by simp
      then show ?thesis using Cons True one s by (simp add: under_def direct_def rest)
    qed
  qed
qed

lemma carried_entries_Nil [simp]: "carried_entries [] pre = []"
  by (simp add: carried_entries_def)

text \<open>The directory prefix of the builder and the path prefix of the walk.\<close>

definition prefix_of :: "string \<Rightarrow> string \<Rightarrow> bool" where
  "prefix_of pre w \<longleftrightarrow> pre = [] \<and> w = [] \<or> w \<noteq> [] \<and> pre = w @ [slash]"

text \<open>
  A walk lists the files below a tree; the walks of the worktree and of the merge driver differ in what
  they keep of an entry and in the error type they lift the store's errors to.
\<close>

locale tree_walk =
  fixes W :: "nat \<Rightarrow> ext \<Rightarrow> object_id \<Rightarrow> string \<Rightarrow> store \<Rightarrow> ('err + 'x list) \<times> store"
    and leaf :: "string \<times> object_id \<times> file_mode \<times> u8 \<Rightarrow> 'x"
    and lift_op :: "(store \<Rightarrow> tree core_result \<times> store) \<Rightarrow> store \<Rightarrow> ('err + tree) \<times> store"
  assumes lift_ok: "\<And>m st t st'. m st = (Inr t, st') \<Longrightarrow> lift_op m st = (Inr t, st')"
    and W_Suc: "\<And>n e i w st. W (Suc n) e i w st =
      bindS (lift_op (get_tree e i)) (\<lambda>t.
      bindS (mapS (\<lambda>en. let path = (if w = [] then te_name en else w @ slash # te_name en) in
                  case te_kind en of
                    BlobKind \<Rightarrow> (\<lambda>st. (Inr [leaf (path, te_id en, te_mode en, te_perms en)], st))
                  | TreeKind \<Rightarrow> W n e (te_id en) path) t) (\<lambda>outs st. (Inr (concat outs), st))) st"
begin

text \<open>What the entries of a built tree contribute.\<close>

definition items :: "file_map \<Rightarrow> string \<Rightarrow> tree_entry \<Rightarrow> 'x multiset" where
  "items files pre en =
     (case te_kind en of
        BlobKind \<Rightarrow> {#leaf (pre @ te_name en, te_id en, te_mode en, te_perms en)#}
      | TreeKind \<Rightarrow> image_mset leaf (mset (under (child_prefix pre (te_name en)) files)))"

lemma items_dir: "items files pre (dir_entry d i) = image_mset leaf (mset (under (child_prefix pre d) files))"
  by (simp add: items_def dir_entry_def)

lemma items_files: "(\<Sum>en \<leftarrow> file_entries xs pre. items files pre en) = image_mset leaf (mset (direct pre xs))"
proof (induction xs)
  case Nil
  then show ?case by (simp add: file_entries_def direct_def)
next
  case (Cons x xs)
  obtain p i m q where x: "x = (p, i, m, q)" by (cases x)
  show ?case
  proof (cases "prefix pre p")
    case True
    then have "pre @ drop (length pre) p = p" by (auto simp: prefix_def)
    with True Cons x show ?thesis by (simp add: file_entries_def direct_def split_once_None items_def)
  next
    case False
    with Cons x show ?thesis by (simp add: file_entries_def direct_def)
  qed
qed

lemma items_tree: "(\<Sum>en \<leftarrow> pure_tree e files [] pre. items files pre en) = image_mset leaf (mset (under pre files))"
proof -
  let ?ds = "subdirs files [] pre"
  let ?D = "map (\<lambda>d. dir_entry d (tree_id e files [] (child_prefix pre d))) ?ds"
  have "(\<Sum>en \<leftarrow> pure_tree e files [] pre. items files pre en) = (\<Sum>en \<leftarrow> file_entries files pre @ ?D. items files pre en)"
    unfolding pure_tree.simps [of e files "[]" pre] tree_new_def
    by (intro sum_list_mset_eq) simp
  also have "\<dots> = image_mset leaf (mset (direct pre files)) + (\<Sum>d \<leftarrow> ?ds. image_mset leaf (mset (under (child_prefix pre d) files)))"
    using items_files [of files pre files] by (simp add: comp_def items_dir)
  also have "(\<Sum>d \<leftarrow> ?ds. image_mset leaf (mset (under (child_prefix pre d) files)))
      = image_mset leaf (\<Sum>d \<leftarrow> ?ds. mset (under (child_prefix pre d) files))"
    by (simp add: image_mset_sum_list comp_def)
  finally show ?thesis using under_partition [of files files pre] by simp
qed

lemma walk_built:
  assumes "store_ok e U st"
    and "\<forall>ob \<in> set (tree_objects e files [] pre). view e st (object_id e ob) = Some (canon ob)"
    and "max_len files [] - length pre < n" "prefix_of pre w" "\<forall>p \<in> fst ` set files. \<forall>s. p \<noteq> slash # s"
  shows "\<exists>out st'. W n e (tree_id e files [] pre) w st = (Inr out, st') \<and> grows e U st st'
    \<and> mset out = image_mset leaf (mset (under pre files))"
  using assms
proof (induction n arbitrary: pre w st)
  case 0
  then show ?case by simp
next
  case (Suc n)
  let ?t = "pure_tree e files [] pre"
  let ?f = "\<lambda>en. let path = (if w = [] then te_name en else w @ slash # te_name en) in
     case te_kind en of BlobKind \<Rightarrow> (\<lambda>st. (Inr [leaf (path, te_id en, te_mode en, te_perms en)], st)) | TreeKind \<Rightarrow> W n e (te_id en) path"
  have "view e st (tree_id e files [] pre) = Some (Tree ?t)"
    using Suc.prems(2) by (simp add: tree_objects.simps [of e files "[]" pre])
  from get_held_tree [OF Suc.prems(1) this] obtain s1 where
    s1: "get_tree e (tree_id e files [] pre) st = (Inr ?t, s1)" "grows e U st s1" by blast
  let ?I = "\<lambda>s. grows e U st s"
  have path: "(if w = [] then x else w @ slash # x) = pre @ x" for x
    using Suc.prems(4) by (auto simp: prefix_of_def)
  have "\<exists>outs s2. mapS ?f ?t s1 = (Inr outs, s2) \<and> grows e U s1 s2
      \<and> list_all2 (\<lambda>en out. mset out = items files pre en) ?t outs"
  proof (rule mapS_rel [where I = ?I])
    fix en s
    assume en: "en \<in> set ?t" and s: "?I s"
    show "\<exists>y s'. ?f en s = (Inr y, s') \<and> grows e U s s' \<and> mset y = items files pre en"
    proof (cases "te_kind en")
      case BlobKind
      then show ?thesis using grows_refl [OF grows_ok [OF s]] path by (simp add: items_def Let_def)
    next
      case TreeKind
      then obtain d where d: "d \<in> set (subdirs files [] pre)" "en = dir_entry d (tree_id e files [] (child_prefix pre d))"
        using en by (auto simp: pure_tree.simps [of e files "[]" pre] file_entries_def)
      have "\<exists>out s'. W n e (tree_id e files [] (child_prefix pre d)) (pre @ d) s = (Inr out, s') \<and> grows e U s s'
          \<and> mset out = image_mset leaf (mset (under (child_prefix pre d) files))"
      proof (rule Suc.IH)
        show "store_ok e U s" using grows_ok [OF s] .
        show "\<forall>ob \<in> set (tree_objects e files [] (child_prefix pre d)). view e s (object_id e ob) = Some (canon ob)"
          using Suc.prems(2) d(1) grows_view [OF s] by (auto simp: tree_objects.simps [of e files "[]" pre])
        show "max_len files [] - length (child_prefix pre d) < n"
          using Suc.prems(3) child_prefix_bounded [OF d(1)] by (simp add: child_prefix_eq)
        obtain q where "child_prefix pre d @ q \<in> fst ` set files" using d(1) by (auto simp: subdirs_mem)
        then have "pre @ d \<noteq> []" using Suc.prems(5) by (fastforce simp: child_prefix_eq)
        then show "prefix_of (child_prefix pre d) (pre @ d)" by (simp add: prefix_of_def child_prefix_eq)
      qed (rule Suc.prems(5))
      then show ?thesis using d(2) path TreeKind by (simp add: dir_entry_def items_def Let_def)
    qed
  next
    fix a b
    assume "grows e U a b" "?I a"
    then show "?I b" using grows_trans by blast
  qed (use s1(2) grows_ok grows_refl grows_trans in blast)+
  then obtain outs s2 where s2: "mapS ?f ?t s1 = (Inr outs, s2)" "grows e U s1 s2"
    "list_all2 (\<lambda>en out. mset out = items files pre en) ?t outs" by blast
  have "mset (concat outs) = (\<Sum>en \<leftarrow> ?t. items files pre en)"
    using s2(3) by (induction rule: list_all2_induct) auto
  then have "mset (concat outs) = image_mset leaf (mset (under pre files))" by (simp add: items_tree)
  moreover have "W (Suc n) e (tree_id e files [] pre) w st = (Inr (concat outs), s2)"
    using s2(1) unfolding W_Suc by (simp add: bindS_def lift_ok [of "get_tree e (tree_id e files [] pre)", OF s1(1)])
  ultimately show ?case using grows_trans [OF s1(2) s2(2)] by blast
qed

end

interpretation fw: tree_walk walk "\<lambda>(p, i, mode, perms). (p, i, mode)" liftC
  by unfold_locales (simp add: liftC_def, unfold walk.simps prod.case, rule refl)

section \<open>Looking up paths in what was built\<close>

lemma file_entries_mem:
  "en \<in> set (file_entries files pre) \<longleftrightarrow>
     (\<exists>i m q. (pre @ te_name en, i, m, q) \<in> set files \<and> slash \<notin> set (te_name en)
        \<and> en = \<lparr>te_name = te_name en, te_kind = BlobKind, te_id = i, te_mode = m, te_perms = q\<rparr>)"
proof
  assume "en \<in> set (file_entries files pre)"
  then show "\<exists>i m q. (pre @ te_name en, i, m, q) \<in> set files \<and> slash \<notin> set (te_name en)
        \<and> en = \<lparr>te_name = te_name en, te_kind = BlobKind, te_id = i, te_mode = m, te_perms = q\<rparr>"
    by (auto simp: file_entries_def rests_mem split_once_None)
next
  assume "\<exists>i m q. (pre @ te_name en, i, m, q) \<in> set files \<and> slash \<notin> set (te_name en)
        \<and> en = \<lparr>te_name = te_name en, te_kind = BlobKind, te_id = i, te_mode = m, te_perms = q\<rparr>"
  then obtain i m q where a: "(pre @ te_name en, i, m, q) \<in> set files" "slash \<notin> set (te_name en)"
    "en = \<lparr>te_name = te_name en, te_kind = BlobKind, te_id = i, te_mode = m, te_perms = q\<rparr>" by blast
  then have "((pre @ te_name en, i, m, q), te_name en) \<in> set (filter (\<lambda>(x, rest). split_once rest = None) (rests fst files pre))"
    by (simp add: rests_mem split_once_None)
  then show "en \<in> set (file_entries files pre)"
    unfolding file_entries_def using a(3) by (force simp: image_iff)
qed

lemma file_entries_Cons:
  "file_entries ((p, i, m, q) # files) pre =
     (if prefix pre p \<and> slash \<notin> set (drop (length pre) p)
      then [\<lparr>te_name = drop (length pre) p, te_kind = BlobKind, te_id = i, te_mode = m, te_perms = q\<rparr>] else [])
     @ file_entries files pre"
  by (simp add: file_entries_def split_once_None)

lemma file_entries_distinct: "distinct (map fst files) \<Longrightarrow> distinct (map te_name (file_entries files pre))"
proof (induction files)
  case Nil
  then show ?case by (simp add: file_entries_def)
next
  case (Cons x files)
  obtain p i m q where x: "x = (p, i, m, q)" by (cases x)
  have "te_name en \<noteq> drop (length pre) p" if "en \<in> set (file_entries files pre)" "prefix pre p" for en
  proof
    assume "te_name en = drop (length pre) p"
    then have "pre @ te_name en = p" using that(2) by (auto simp: prefix_def)
    with that(1) Cons.prems x show False by (force simp: file_entries_mem)
  qed
  then have "drop (length pre) p \<notin> te_name ` set (file_entries files pre)" if "prefix pre p" using that by force
  with Cons x show ?case by (auto simp: file_entries_Cons)
qed

definition built_entries :: "ext \<Rightarrow> file_map \<Rightarrow> string \<Rightarrow> tree_entry list" where
  "built_entries e files pre = file_entries files pre
     @ map (\<lambda>d. dir_entry d (tree_id e files [] (child_prefix pre d))) (subdirs files [] pre)"

lemma pure_tree_built: "pure_tree e files [] pre = tree_new (built_entries e files pre)"
  by (simp add: pure_tree.simps [of e files "[]" pre] built_entries_def)

lemma child_path: "child_prefix pre c @ s = (pre @ c) @ slash # s"
  by (simp add: child_prefix_eq)

lemma built_entries_distinct:
  assumes "no_collisions (map fst files)"
  shows "distinct (map te_name (built_entries e files pre))"
proof -
  have "te_name en \<notin> set (subdirs files [] pre)" if "en \<in> set (file_entries files pre)" for en
  proof
    assume "te_name en \<in> set (subdirs files [] pre)"
    then obtain s where "(pre @ te_name en) @ slash # s \<in> fst ` set files"
      unfolding subdirs_mem child_path by auto
    moreover have "pre @ te_name en \<in> fst ` set files" using that by (force simp: file_entries_mem)
    ultimately show False using no_collisionsD [OF assms, of "pre @ te_name en" s] by simp
  qed
  moreover have "distinct (subdirs files [] pre)" by (simp add: subdirs_def)
  moreover have "distinct (map te_name (file_entries files pre))"
    using assms by (intro file_entries_distinct) (simp add: no_collisions_def)
  ultimately show ?thesis by (auto simp: built_entries_def dir_entry_def comp_def)
qed

lemma tree_get_built:
  assumes "no_collisions (map fst files)" "slash \<notin> set c"
  shows "tree_get (pure_tree e files [] pre) c =
    (case map_of files (pre @ c) of
       Some (i, m, q) \<Rightarrow> Some \<lparr>te_name = c, te_kind = BlobKind, te_id = i, te_mode = m, te_perms = q\<rparr>
     | None \<Rightarrow> if c \<in> set (subdirs files [] pre) then Some (dir_entry c (tree_id e files [] (child_prefix pre c))) else None)"
proof -
  note get = tree_get_new [OF built_entries_distinct [OF assms(1)], of e pre c, folded pure_tree_built]
  have dist: "distinct (map fst files)" using assms(1) by (simp add: no_collisions_def)
  show ?thesis
  proof (cases "map_of files (pre @ c)")
    case (Some v)
    obtain i m q where v: "v = (i, m, q)" by (cases v)
    have "\<lparr>te_name = c, te_kind = BlobKind, te_id = i, te_mode = m, te_perms = q\<rparr> \<in> set (file_entries files pre)"
      using Some v assms(2) by (auto simp: file_entries_mem dest: map_of_SomeD)
    then show ?thesis using get Some v by (simp add: built_entries_def)
  next
    case None
    then have nf: "en \<in> set (file_entries files pre) \<Longrightarrow> te_name en \<noteq> c" for en
      by (force simp: file_entries_mem map_of_eq_None_iff)
    show ?thesis
    proof (cases "c \<in> set (subdirs files [] pre)")
      case True
      then have "dir_entry c (tree_id e files [] (child_prefix pre c)) \<in> set (built_entries e files pre)"
        by (simp add: built_entries_def)
      then show ?thesis using get None True by (simp add: dir_entry_def)
    next
      case False
      have "tree_get (pure_tree e files [] pre) c \<noteq> Some en" for en
        unfolding get using False nf [of en] by (auto simp: built_entries_def dir_entry_def)
      then show ?thesis using None False by (cases "tree_get (pure_tree e files [] pre) c") auto
    qed
  qed
qed

lemma resolve_built:
  assumes "store_ok e U st" "no_collisions (map fst files)" "cs \<noteq> []" "\<forall>c \<in> set cs. slash \<notin> set c"
    and "\<forall>ob \<in> set (tree_objects e files [] pre). view e st (object_id e ob) = Some (canon ob)"
  shows "\<exists>st'. resolve e (tree_id e files [] pre) cs st
      = (Inr (map_option fst (map_of files (pre @ join_slash cs))), st') \<and> grows e U st st'"
  using assms
proof (induction cs arbitrary: pre st)
  case Nil
  then show ?case by simp
next
  case (Cons c cs)
  let ?t = "pure_tree e files [] pre"
  have "view e st (tree_id e files [] pre) = Some (Tree ?t)"
    using Cons.prems(5) by (simp add: tree_objects.simps [of e files "[]" pre])
  from get_held_tree [OF Cons.prems(1) this] obtain s1 where
    s1: "get_tree e (tree_id e files [] pre) st = (Inr ?t, s1)" "grows e U st s1" by blast
  have c: "slash \<notin> set c" using Cons.prems(4) by simp
  note get = tree_get_built [OF Cons.prems(2) c, of e pre]
  have deep: "cs \<noteq> [] \<Longrightarrow> pre @ join_slash (c # cs) = child_prefix pre c @ join_slash cs"
    by (simp add: join_with_Cons child_prefix_eq)
  have run: "resolve e (tree_id e files [] pre) (c # cs) st =
    (case tree_get ?t c of
         None \<Rightarrow> (\<lambda>st. (Inr None, st))
       | Some en \<Rightarrow>
           (case te_kind en of
              BlobKind \<Rightarrow> (\<lambda>st. (Inr (if cs = [] then Some (te_id en) else None), st))
            | TreeKind \<Rightarrow> if cs = [] then (\<lambda>st. (Inr None, st)) else resolve e (te_id en) cs)) s1"
    by (simp add: bindS_def liftC_def s1(1))
  show ?case
  proof (cases "map_of files (pre @ c)")
    case (Some v)
    obtain i m q where v: "v = (i, m, q)" by (cases v)
    have "(pre @ c) \<in> set (map fst files)" using Some by (force dest: map_of_SomeD)
    then have "cs \<noteq> [] \<Longrightarrow> map_of files (pre @ join_slash (c # cs)) = None"
      using no_collisionsD [OF Cons.prems(2), of "pre @ c" "join_slash cs"]
      by (simp add: join_with_Cons map_of_eq_None_iff)
    then show ?thesis using run get Some v s1(2) by (cases "cs = []") auto
  next
    case None
    show ?thesis
    proof (cases "c \<in> set (subdirs files [] pre)")
      case False
      then have "cs \<noteq> [] \<Longrightarrow> map_of files (pre @ join_slash (c # cs)) = None"
        using c unfolding deep map_of_eq_None_iff subdirs_mem by auto
      then show ?thesis using run get None False s1(2) by (cases "cs = []") auto
    next
      case True
      show ?thesis
      proof (cases "cs = []")
        case nil: True
        then show ?thesis using run get None True s1(2) by (simp add: dir_entry_def)
      next
        case cs: False
        have "\<forall>ob \<in> set (tree_objects e files [] (child_prefix pre c)). view e s1 (object_id e ob) = Some (canon ob)"
          using Cons.prems(5) True grows_view [OF s1(2)] by (auto simp: tree_objects.simps [of e files "[]" pre])
        from Cons.IH [OF grows_ok [OF s1(2)] Cons.prems(2) cs _ this] Cons.prems(4) obtain s2 where
          "resolve e (tree_id e files [] (child_prefix pre c)) cs s1
             = (Inr (map_option fst (map_of files (child_prefix pre c @ join_slash cs))), s2)" "grows e U s1 s2" by auto
        then show ?thesis using run get None True cs grows_trans [OF s1(2)] deep by (auto simp: dir_entry_def)
      qed
    qed
  qed
qed

section \<open>File sets\<close>

definition roomy :: "bytes \<Rightarrow> store \<Rightarrow> bool" where
  "roomy b st \<longleftrightarrow> st_backend st \<noteq> Ephemeral Disallow \<and> length b \<le> st_budget st"

lemma roomy_grows: "grows e U st st' \<Longrightarrow> roomy b st' = roomy b st"
  by (simp add: grows_def roomy_def)

lemma put_blob_ok:
  assumes "store_ok e U st" "known U (Blob b)" "roomy b st"
  shows "\<exists>st'. put e (Blob b) st = (Inr (object_id e (Blob b)), st') \<and> grows e U st st'
    \<and> view e st' (object_id e (Blob b)) = Some (Blob b)"
proof -
  have a: "admissible U (Blob b) st" using assms(2) by (simp add: admissible_def known_def spillable_def)
  obtain r st' where p: "put e (Blob b) st = (r, st')" by (cases "put e (Blob b) st")
  have r: "r = Inr (object_id e (Blob b))"
    using put_okD(3) [OF assms(1) a p] assms(3) by (auto simp: roomy_def blob_size_def)
  have "grows e U st st'"
    using os.put_inv [OF assms(1) a p] os.put_keeps [OF assms(1) a p] put_okD(2) [OF assms(1) a p] put_budget [of e "Blob b" st] p
    by (simp add: grows_def)
  with p r os.put_view [OF assms(1) a p [unfolded r]] show ?thesis by simp
qed

definition index_files :: "ext \<Rightarrow> (string \<times> bytes \<times> 'm) list \<Rightarrow> (string, object_id \<times> 'm) btree \<Rightarrow> (string, object_id \<times> 'm) btree" where
  "index_files e files m = foldl (\<lambda>m (p, b, mode). bt_insert (normalize p) (object_id e (Blob b), mode) m) m files"

lemma index_files_simps [simp]:
  "index_files e [] m = m"
  "index_files e ((p, b, mode) # files) m = index_files e files (bt_insert (normalize p) (object_id e (Blob b), mode) m)"
  by (simp_all add: index_files_def)

lemma put_files_ok:
  assumes "store_ok e U st" "\<forall>(p, b, mode) \<in> set files. known U (Blob b) \<and> roomy b st"
  shows "\<exists>st'. put_files e files m st = (Inr (index_files e files m), st') \<and> grows e U st st'
    \<and> (\<forall>(p, b, mode) \<in> set files. view e st' (object_id e (Blob b)) = Some (Blob b))"
  using assms
proof (induction files arbitrary: m st)
  case Nil
  then show ?case by (simp add: grows_refl)
next
  case (Cons f files)
  obtain p b mode where f: "f = (p, b, mode)" by (cases f)
  obtain s1 where s1: "put e (Blob b) st = (Inr (object_id e (Blob b)), s1)" "grows e U st s1"
    "view e s1 (object_id e (Blob b)) = Some (Blob b)"
    using put_blob_ok [of e U st b] Cons.prems f by auto
  have "\<forall>(p, b, mode) \<in> set files. known U (Blob b) \<and> roomy b s1"
    using Cons.prems(2) roomy_grows [OF s1(2)] by auto
  from Cons.IH [OF grows_ok [OF s1(2)] this, of "bt_insert (normalize p) (object_id e (Blob b), mode) m"] obtain s2 where
    s2: "put_files e files (bt_insert (normalize p) (object_id e (Blob b), mode) m) s1
      = (Inr (index_files e files (bt_insert (normalize p) (object_id e (Blob b), mode) m)), s2)" "grows e U s1 s2"
    "\<forall>(p, b, mode) \<in> set files. view e s2 (object_id e (Blob b)) = Some (Blob b)" by blast
  with s1 f grows_trans [OF s1(2) s2(2)] grows_view [OF s2(2) s1(3)] show ?case by (simp add: bindS_def liftC_def)
qed

lemma index_files_ok: "bt_ok m \<Longrightarrow> bt_ok (index_files e files m)"
  by (induction files arbitrary: m) (auto simp: index_files_def split: prod.splits)

text \<open>The last file of a list that normalises to a path decides.\<close>

definition last_file :: "(string \<times> bytes \<times> 'm) list \<Rightarrow> string \<rightharpoonup> bytes \<times> 'm" where
  "last_file files = map_of (rev (map (\<lambda>(p, f). (normalize p, f)) files))"

lemma index_files_lookup:
  "map_of (index_files e files m) p =
     (case last_file files p of Some (b, mode) \<Rightarrow> Some (object_id e (Blob b), mode) | None \<Rightarrow> map_of m p)"
proof (induction files arbitrary: m)
  case Nil
  then show ?case by (simp add: last_file_def)
next
  case (Cons f files)
  obtain q b mode where f: "f = (q, b, mode)" by (cases f)
  show ?case unfolding f index_files_simps Cons.IH
    by (auto simp: last_file_def map_add_def split: option.splits)
qed

section \<open>What a root serves\<close>

definition serves :: "ext \<Rightarrow> store \<Rightarrow> file_map \<Rightarrow> object_id \<Rightarrow> bool" where
  "serves e st files root \<longleftrightarrow> root = tree_id e files [] [] \<and> bt_ok files \<and> no_collisions (map fst files)
     \<and> (\<forall>ob \<in> set (tree_objects e files [] []). view e st (object_id e ob) = Some (canon ob))
     \<and> (\<forall>(p, i, mode, perms) \<in> set files. file_path p \<and> (\<exists>b. view e st i = Some (Blob b) \<and> length b \<le> st_budget st))"

lemma serves_grows: "serves e st files root \<Longrightarrow> grows e U st st' \<Longrightarrow> serves e st' files root"
proof -
  assume s: "serves e st files root" and g: "grows e U st st'"
  have "st_budget st' = st_budget st" using g by (simp add: grows_def)
  with s grows_view [OF g] show ?thesis unfolding serves_def by (fastforce split: prod.splits)
qed

lemma build_root_serves:
  assumes "store_ok e U st" "bt_ok files" "no_collisions (map fst files)"
    and "list_all (known U) (tree_objects e files [] [])"
    and "\<forall>(p, i, mode, perms) \<in> set files. file_path p \<and> (\<exists>b. view e st i = Some (Blob b) \<and> length b \<le> st_budget st)"
  shows "\<exists>st'. build_root e files [] st = (Inr (tree_id e files [] []), st') \<and> grows e U st st'
    \<and> serves e st' files (tree_id e files [] [])"
proof -
  obtain st' where s: "build_subtree_inner e files [] [] st = (Inr (tree_id e files [] []), st')" "grows e U st st'"
    "\<forall>ob \<in> set (tree_objects e files [] []). view e st' (object_id e ob) = Some (canon ob)"
    using build_subtree_ok [OF assms(1,4)] by blast
  have "check_file_dir_collisions (map fst files) = Inr ()" using assms(3) check_ok by blast
  then have "build_root e files [] st = (Inr (tree_id e files [] []), st')"
    using s(1) by (simp add: build_root_def bindS_def)
  moreover have "serves e st' files (tree_id e files [] [])"
    using assms(2,3,5) s(3) grows_view [OF s(2)] s(2) unfolding serves_def grows_def by (fastforce split: prod.splits)
  ultimately show ?thesis using s(2) by blast
qed

lemma serves_walk:
  assumes "store_ok e U st" "serves e st files root" "max_len files [] < n"
  shows "\<exists>out st'. walk n e root [] st = (Inr out, st') \<and> grows e U st st' \<and> mset out = mset (listing_of files)"
proof -
  have "\<forall>p \<in> fst ` set files. \<forall>s. p \<noteq> slash # s"
    using assms(2) file_path_no_slash unfolding serves_def by (fastforce split: prod.splits)
  moreover have "under [] files = files" by (simp add: under_def)
  ultimately show ?thesis
    using fw.walk_built [OF assms(1), of files "[]" n "[]"] assms(2,3) by (simp add: serves_def prefix_of_def listing_of_def)
qed

lemma split_comps: "filter (\<lambda>c. c \<noteq> []) (split_slash (normalize p)) = comps p"
proof (cases "comps p = []")
  case True
  then show ?thesis by (simp add: normalize_comps)
next
  case False
  then have "split_slash (normalize p) = comps p"
    unfolding normalize_comps using comps_plain [of _ p] by (intro split_join) (auto simp: plain_def)
  then show ?thesis using comps_plain [of _ p] by (auto simp: plain_def intro!: filter_True)
qed

lemma serves_resolve:
  assumes "store_ok e U st" "serves e st files root"
  shows "\<exists>st'. resolve e root (filter (\<lambda>c. c \<noteq> []) (split_slash (normalize p))) st
    = (Inr (map_option fst (map_of files (normalize p))), st') \<and> grows e U st st'"
proof (cases "comps p = []")
  case True
  then have "normalize p = []" by (simp add: normalize_comps)
  then have "map_of files (normalize p) = None"
    using assms(2) by (fastforce simp: serves_def file_path_def map_of_eq_None_iff split: prod.splits)
  then show ?thesis using True grows_refl [OF assms(1)] by (simp add: split_comps)
next
  case False
  have "\<exists>st'. resolve e root (comps p) st = (Inr (map_option fst (map_of files ([] @ join_slash (comps p)))), st')
      \<and> grows e U st st'"
    using assms(2) comps_plain [of _ p] resolve_built [OF assms(1) _ False, of files "[]"]
    unfolding serves_def plain_def by blast
  then show ?thesis unfolding split_comps by (simp add: normalize_comps)
qed

section \<open>Reading a worktree\<close>

text \<open>The bytes a worktree over the base \<open>files\<close> shows at a normalised path.\<close>

definition wt_view :: "ext \<Rightarrow> store \<Rightarrow> file_map \<Rightarrow> (string, overlay) btree \<Rightarrow> string \<Rightarrow> bytes option" where
  "wt_view e st files ov p =
     (case map_of ov p of
        Some (Written b _) \<Rightarrow> Some b
      | Some Removed \<Rightarrow> None
      | None \<Rightarrow>
          (case map_of files p of
             None \<Rightarrow> None
           | Some (i, _) \<Rightarrow> (case view e st i of Some (Blob b) \<Rightarrow> Some b | _ \<Rightarrow> None)))"

lemma get_blob_ok:
  assumes "store_ok e U st" "view e st i = Some (Blob b)" "length b \<le> st_budget st"
  shows "\<exists>st'. get e i st = (Inr (Blob b), st') \<and> grows e U st st'"
proof -
  obtain ob st' where g: "get e i st = (Inr ob, st')" "canon ob = Blob b"
    using get_held [of e U st i "Blob b"] assms by (auto simp: blob_size_def)
  with os.get_inv [OF assms(1) g(1)] os.get_view [OF assms(1) g(1)] get_okD(2) [OF assms(1) g(1)] get_budget [of e i st]
  show ?thesis by (simp add: grows_def)
qed

lemma serves_blob:
  assumes "serves e st files root" "map_of files p = Some (i, m)"
  obtains b where "view e st i = Some (Blob b)" "length b \<le> st_budget st"
  using assms map_of_SomeD [OF assms(2)] unfolding serves_def by (cases m) fastforce

lemma wt_read_ok:
  assumes "store_ok e U st" "serves e st files (wt_base_root wt)"
  shows "\<exists>st'. wt_read e wt p st
      = (ok_or (PathMissing (normalize p)) (wt_view e st files (wt_overlay wt) (normalize p)), st')
    \<and> grows e U st st'"
proof (cases "map_of (wt_overlay wt) (normalize p)")
  case (Some ov)
  then show ?thesis
    using grows_refl [OF assms(1)] by (cases ov) (simp_all add: wt_read_def Let_def wt_view_def)
next
  case None
  obtain s1 where s1: "resolve_base e wt (normalize p) st = (Inr (map_option fst (map_of files (normalize p))), s1)"
    "grows e U st s1"
    using serves_resolve [OF assms, of p] by (auto simp: resolve_base_def)
  show ?thesis
  proof (cases "map_of files (normalize p)")
    case nf: None
    with None s1 show ?thesis by (simp add: wt_read_def Let_def bindS_def wt_view_def)
  next
    case (Some v)
    obtain i m where v: "v = (i, m)" by (cases v)
    obtain b where b: "view e st i = Some (Blob b)" "length b \<le> st_budget st"
      using serves_blob [OF assms(2) Some [unfolded v]] .
    have "st_budget s1 = st_budget st" using s1(2) by (simp add: grows_def)
    then obtain s2 where s2: "get e i s1 = (Inr (Blob b), s2)" "grows e U s1 s2"
      using get_blob_ok [OF grows_ok [OF s1(2)] grows_view [OF s1(2) b(1)]] b(2) by auto
    have "wt_read e wt p st = (Inr b, s2)"
      using None Some v s1(1) s2(1) by (simp add: wt_read_def Let_def bindS_def liftC_def)
    moreover have "wt_view e st files (wt_overlay wt) (normalize p) = Some b"
      using None Some v b(1) by (simp add: wt_view_def)
    ultimately show ?thesis using grows_trans [OF s1(2) s2(2)] by auto
  qed
qed

section \<open>Snapshots and forks\<close>

lemma get_snapshot_ok:
  assumes "store_ok e U st" "view e st i = Some (canon (Snapshot s))"
  shows "\<exists>s' st'. get_snapshot e i st = (Inr s', st') \<and> sort_snapshot s' = sort_snapshot s \<and> grows e U st st'"
proof -
  obtain ob st' where g: "get e i st = (Inr ob, st')" "canon ob = canon (Snapshot s)"
    using get_held [of e U st i "Snapshot s"] assms by (auto simp: blob_size_def)
  then obtain s' where "ob = Snapshot s'" "sort_snapshot s' = sort_snapshot s"
    by (cases ob) (auto simp: canon_def)
  with g os.get_inv [OF assms(1) g(1)] os.get_view [OF assms(1) g(1)] get_okD(2) [OF assms(1) g(1)] get_budget [of e i st]
  show ?thesis by (simp add: get_snapshot_def bindS_def grows_def)
qed

lemma sort_snapshot_keeps:
  assumes "sort_snapshot s' = sort_snapshot s"
  shows "sn_root s' = sn_root s" "sn_secrets s' = sn_secrets s"
  using arg_cong [OF assms, of sn_root] arg_cong [OF assms, of sn_secrets] by (simp_all add: sort_snapshot_def)

lemma fork_ok:
  assumes "store_ok e U st" "view e st i = Some (canon (Snapshot s))" "serves e st files (sn_root s)"
  shows "\<exists>wt st'. fork e i label st = (Inr wt, st') \<and> grows e U st st' \<and> serves e st' files (wt_base_root wt)
    \<and> wt_overlay wt = [] \<and> wt_base_snapshot wt = i \<and> wt_secrets wt = sn_secrets s"
proof -
  obtain s' st' where g: "get_snapshot e i st = (Inr s', st')" "sort_snapshot s' = sort_snapshot s" "grows e U st st'"
    using get_snapshot_ok [OF assms(1,2)] by blast
  with serves_grows [OF assms(3) g(3)] sort_snapshot_keeps [OF g(2)] show ?thesis
    by (simp add: fork_def bindS_def liftC_def)
qed

text \<open>A snapshot over a root that is served can be forked and read.\<close>

lemma snapshot_readable:
  assumes "store_ok e U st" "serves e st files (sn_root s)" "known U (Snapshot s)"
  shows "\<exists>st'. put e (Snapshot s) st = (Inr (object_id e (Snapshot s)), st') \<and> grows e U st st'
    \<and> (\<exists>wt st2. fork e (object_id e (Snapshot s)) label st' = (Inr wt, st2) \<and> grows e U st' st2
        \<and> (\<forall>p. \<exists>st3. wt_read e wt p st2
              = (ok_or (PathMissing (normalize p)) (wt_view e st files [] (normalize p)), st3)))"
proof -
  obtain s1 where s1: "put e (Snapshot s) st = (Inr (object_id e (Snapshot s)), s1)" "grows e U st s1"
    "view e s1 (object_id e (Snapshot s)) = Some (canon (Snapshot s))"
    using put_weightless [OF assms(1,3)] by (auto simp: blob_size_def)
  obtain wt s2 where s2: "fork e (object_id e (Snapshot s)) label s1 = (Inr wt, s2)" "grows e U s1 s2"
    "serves e s2 files (wt_base_root wt)" "wt_overlay wt = []"
    using fork_ok [OF grows_ok [OF s1(2)] s1(3) serves_grows [OF assms(2) s1(2)], of label] by blast
  have g: "grows e U st s2" using grows_trans [OF s1(2) s2(2)] .
  have "wt_view e s2 files [] p = wt_view e st files [] p" for p
  proof (cases "map_of files p")
    case (Some v)
    obtain i m where v: "v = (i, m)" by (cases v)
    obtain b where b: "view e st i = Some (Blob b)" using serves_blob [OF assms(2) Some [unfolded v]] by blast
    with grows_view [OF g b] Some v show ?thesis by (simp add: wt_view_def)
  qed (simp add: wt_view_def)
  then have "\<exists>st3. wt_read e wt p s2 = (ok_or (PathMissing (normalize p)) (wt_view e st files [] (normalize p)), st3)" for p
    using wt_read_ok [OF grows_ok [OF g] s2(3), of p] s2(4) by auto
  with s1 s2 show ?thesis by blast
qed

section \<open>Committing a file set\<close>

definition no_perms :: "(string, object_id \<times> file_mode) btree \<Rightarrow> file_map" where
  "no_perms m = map (\<lambda>(p, (i, mode)). (p, (i, mode, 0))) m"

lemma no_perms_keys [simp]: "map fst (no_perms m) = map fst m"
  by (auto simp: no_perms_def)

lemma no_perms_lookup: "map_of (no_perms m) p = map_option (\<lambda>(i, mode). (i, mode, 0)) (map_of m p)"
  by (induction m) (auto simp: no_perms_def)

lemma build_tree_no_perms: "build_tree e m = build_root e (no_perms m) []"
  by (simp add: build_tree_def no_perms_def)

lemma bt_mem_lookup: "bt_ok m \<Longrightarrow> (k, v) \<in> set m \<Longrightarrow> map_of m k = Some v"
  using bt_ok_distinct by (metis map_of_is_SomeI)

definition overlaid :: "ext \<Rightarrow> (string, overlay) btree \<Rightarrow> (string, object_id \<times> file_mode) btree \<Rightarrow>
    (string, object_id \<times> file_mode) btree" where
  "overlaid e ov m = foldl (\<lambda>m (p, o').
     case o' of Written b mode \<Rightarrow> bt_insert p (object_id e (Blob b), mode) m | Removed \<Rightarrow> bt_remove p m) m ov"

lemma overlaid_simps [simp]:
  "overlaid e [] m = m"
  "overlaid e ((p, Written b mode) # ov) m = overlaid e ov (bt_insert p (object_id e (Blob b), mode) m)"
  "overlaid e ((p, Removed) # ov) m = overlaid e ov (bt_remove p m)"
  by (simp_all add: overlaid_def)

lemma overlaid_ok: "bt_ok m \<Longrightarrow> bt_ok (overlaid e ov m)"
proof (induction ov arbitrary: m)
  case (Cons x ov)
  obtain p o' where "x = (p, o')" by (cases x)
  with Cons show ?case by (cases o') auto
qed simp

lemma overlaid_lookup:
  "distinct (map fst ov) \<Longrightarrow> map_of (overlaid e ov m) p =
     (case map_of ov p of
        Some (Written b mode) \<Rightarrow> Some (object_id e (Blob b), mode) | Some Removed \<Rightarrow> None | None \<Rightarrow> map_of m p)"
proof (induction ov arbitrary: m)
  case (Cons x ov)
  obtain q o' where x: "x = (q, o')" by (cases x)
  with Cons.prems have q: "map_of ov q = None" "distinct (map fst ov)" by (simp_all add: map_of_eq_None_iff)
  show ?case
  proof (cases o')
    case (Written b mode)
    with x q Cons.IH [OF q(2), of "bt_insert q (object_id e (Blob b), mode) m"] show ?thesis
      by (auto split: option.splits overlay.splits)
  next
    case Removed
    with x q Cons.IH [OF q(2), of "bt_remove q m"] show ?thesis
      by (auto split: option.splits overlay.splits)
  qed
qed simp

definition overlay_known :: "bytes set \<Rightarrow> store \<Rightarrow> (string, overlay) btree \<Rightarrow> bool" where
  "overlay_known U st ov \<longleftrightarrow> (\<forall>p b mode. (p, Written b mode) \<in> set ov \<longrightarrow> known U (Blob b) \<and> roomy b st)"

lemma apply_overlay_ok:
  assumes "store_ok e U st" "overlay_known U st ov"
  shows "\<exists>st'. apply_overlay e ov m st = (Inr (overlaid e ov m), st') \<and> grows e U st st'
    \<and> (\<forall>p b mode. (p, Written b mode) \<in> set ov \<longrightarrow> view e st' (object_id e (Blob b)) = Some (Blob b))"
  using assms
proof (induction ov arbitrary: m st)
  case Nil
  then show ?case by (simp add: grows_refl)
next
  case (Cons x ov)
  obtain p o' where x: "x = (p, o')" by (cases x)
  show ?case
  proof (cases o')
    case (Written b mode)
    obtain s1 where s1: "put e (Blob b) st = (Inr (object_id e (Blob b)), s1)" "grows e U st s1"
      "view e s1 (object_id e (Blob b)) = Some (Blob b)"
      using put_blob_ok [of e U st b] Cons.prems x Written by (auto simp: overlay_known_def)
    have "overlay_known U s1 ov"
      using Cons.prems(2) roomy_grows [OF s1(2)] by (auto simp: overlay_known_def)
    from Cons.IH [OF grows_ok [OF s1(2)] this, of "bt_insert p (object_id e (Blob b), mode) m"] obtain s2 where
      s2: "apply_overlay e ov (bt_insert p (object_id e (Blob b), mode) m) s1
        = (Inr (overlaid e ov (bt_insert p (object_id e (Blob b), mode) m)), s2)" "grows e U s1 s2"
      "\<forall>p b mode. (p, Written b mode) \<in> set ov \<longrightarrow> view e s2 (object_id e (Blob b)) = Some (Blob b)" by blast
    with s1 x Written grows_trans [OF s1(2) s2(2)] grows_view [OF s2(2) s1(3)] show ?thesis
      by (auto simp: bindS_def liftC_def)
  next
    case Removed
    have "overlay_known U st ov" using Cons.prems(2) by (auto simp: overlay_known_def)
    from Cons.IH [OF Cons.prems(1) this, of "bt_remove p m"] x Removed show ?thesis by auto
  qed
qed

text \<open>Indexing a listing with distinct paths.\<close>

lemma index_listing:
  assumes "bt_ok m" "mset out = mset m"
  shows "foldl (\<lambda>m (p, v). bt_insert p v m) [] out = m"
proof (rule bt_unique)
  have d: "distinct (map fst out)"
    using bt_ok_distinct [OF assms(1)] assms(2) by (metis mset_eq_imp_distinct_iff mset_map)
  have ok: "bt_ok (foldl (\<lambda>m (p, v). bt_insert p v m) a xs)" if "bt_ok a" for a :: "('a, 'b) btree" and xs
    using that by (induction xs arbitrary: a) (auto split: prod.splits)
  show "bt_ok (foldl (\<lambda>m (p, v). bt_insert p v m) [] out)" by (rule ok) simp
  have "map_of (foldl (\<lambda>m (p, v). bt_insert p v m) a xs) = map_of a ++ map_of xs" if "distinct (map fst xs)"
    for a :: "('a, 'b) btree" and xs
    using that
  proof (induction xs arbitrary: a)
    case (Cons x xs)
    obtain k v where x: "x = (k, v)" by (cases x)
    with Cons.prems have "k \<notin> dom (map_of xs)" by (simp add: dom_map_of_conv_image_fst)
    with Cons x show ?case by (auto simp: fun_eq_iff map_add_def split: option.splits)
  qed simp
  then have "map_of (foldl (\<lambda>m (p, v). bt_insert p v m) [] out) = map_of out" using d by simp
  also have "\<dots> = map_of m"
    using map_of_inject_set [OF d bt_ok_distinct [OF assms(1)]] mset_eq_setD [OF assms(2)] by simp
  finally show "map_of (foldl (\<lambda>m (p, v). bt_insert p v m) [] out) = map_of m" .
qed (rule assms(1))

lemma listing_of_ok: "bt_ok files \<Longrightarrow> bt_ok (listing_of files)"
  by (simp add: listing_of_def comp_def case_prod_beta)

lemma listing_of_lookup: "map_of (listing_of files) p = map_option (\<lambda>(i, mode, perms). (i, mode)) (map_of files p)"
  by (induction files) (auto simp: listing_of_def)

end
