(* ===== verification/Vfs_Theorems.thy ===== *)
theory Vfs_Theorems
  imports Vfs_Correct Instances
begin

text \<open>
  The properties of the virtual worktree: what is committed can be forked and read back, by any
  spelling of its path; a commit turns the overlay into base content and changes no read; a set of
  paths is refused exactly when one of them would be both a file and a directory.
\<close>

section \<open>Commits\<close>

definition files_snapshot :: "ext \<Rightarrow> (string \<times> bytes \<times> file_mode) list \<Rightarrow> string \<Rightarrow> string \<Rightarrow> snapshot" where
  "files_snapshot e files author message =
     \<lparr>sn_root = tree_id e (no_perms (index_files e files [])) [] [], sn_parents = [], sn_author = author,
      sn_timestamp = 0, sn_message = message, sn_secrets = [], sn_protection = protection_default\<rparr>"

text \<open>Every object that \<open>commit_files\<close> puts.\<close>

definition files_objects :: "ext \<Rightarrow> (string \<times> bytes \<times> file_mode) list \<Rightarrow> string \<Rightarrow> string \<Rightarrow> object list" where
  "files_objects e files author message = map (\<lambda>(p, b, mode). Blob b) files
     @ tree_objects e (no_perms (index_files e files [])) [] [] @ [Snapshot (files_snapshot e files author message)]"

lemma normalize_file_path: "normalize p \<noteq> [] \<Longrightarrow> file_path (normalize p)"
  by (simp add: file_path_def normalize_idem)

lemma last_file_mem: "last_file files q = Some (b, mode) \<Longrightarrow> \<exists>p. (p, b, mode) \<in> set files \<and> q = normalize p"
  by (auto simp: last_file_def dest!: map_of_SomeD)

lemma no_perms_ok: "bt_ok m \<Longrightarrow> bt_ok (no_perms m)"
  by (simp add: no_perms_def comp_def case_prod_beta)

lemma commit_files_ok:
  assumes "store_ok e U st" "\<forall>(p, b, mode) \<in> set files. normalize p \<noteq> [] \<and> roomy b st"
    and "no_collisions (map fst (index_files e files []))"
    and "list_all (known U) (files_objects e files author message)"
  shows "\<exists>st1. commit_files e files author message st
      = (Inr (object_id e (Snapshot (files_snapshot e files author message))), st1) \<and> grows e U st st1
    \<and> (\<exists>wt st2. fork e (object_id e (Snapshot (files_snapshot e files author message))) label st1 = (Inr wt, st2)
        \<and> (\<forall>p. \<exists>st3. wt_read e wt p st2
              = (ok_or (PathMissing (normalize p)) (map_option fst (last_file files (normalize p))), st3)))"
proof -
  let ?m = "index_files e files []" and ?s = "files_snapshot e files author message"
  have "Blob b \<in> set (map (\<lambda>(p, b, mode). Blob b) files)" if "(p, b, mode) \<in> set files" for p b mode
    using that by force
  then have k: "\<forall>(p, b, mode) \<in> set files. known U (Blob b) \<and> roomy b st"
      "list_all (known U) (tree_objects e (no_perms ?m) [] [])" "known U (Snapshot ?s)"
    using assms(2,4) by (auto simp: files_objects_def list_all_iff simp del: set_map)
  obtain s1 where s1: "put_files e files [] st = (Inr ?m, s1)" "grows e U st s1"
    "\<forall>(p, b, mode) \<in> set files. view e s1 (object_id e (Blob b)) = Some (Blob b)"
    using put_files_ok [OF assms(1) k(1), of "[]"] by blast
  have ok: "bt_ok ?m" by (rule index_files_ok) simp
  have served: "\<forall>(p, i, mode, perms) \<in> set (no_perms ?m). file_path p
      \<and> (\<exists>b. view e s1 i = Some (Blob b) \<and> length b \<le> st_budget s1)"
  proof clarify
    fix q i mode perms assume "(q, i, mode, perms) \<in> set (no_perms ?m)"
    then have "map_of ?m q = Some (i, mode)" using bt_mem_lookup [OF ok] by (auto simp: no_perms_def)
    then obtain b where b: "last_file files q = Some (b, mode)" "i = object_id e (Blob b)"
      by (auto simp: index_files_lookup split: option.splits)
    then obtain p where p: "(p, b, mode) \<in> set files" "q = normalize p" using last_file_mem by metis
    then have "roomy b s1" "normalize p \<noteq> []" using assms(2) roomy_grows [OF s1(2)] by auto
    with p b s1(3) show "file_path q \<and> (\<exists>b. view e s1 i = Some (Blob b) \<and> length b \<le> st_budget s1)"
      using normalize_file_path by (fastforce simp: roomy_def)
  qed
  obtain s2 where s2: "build_tree e ?m s1 = (Inr (sn_root ?s), s2)" "grows e U s1 s2" "serves e s2 (no_perms ?m) (sn_root ?s)"
    using build_root_serves [OF grows_ok [OF s1(2)] no_perms_ok [OF ok] _ k(2) served] assms(3)
    by (auto simp: build_tree_no_perms files_snapshot_def)
  obtain s3 wt s4 where s3: "put e (Snapshot ?s) s2 = (Inr (object_id e (Snapshot ?s)), s3)" "grows e U s2 s3"
    "fork e (object_id e (Snapshot ?s)) label s3 = (Inr wt, s4)"
    "\<forall>p. \<exists>st3. wt_read e wt p s4 = (ok_or (PathMissing (normalize p)) (wt_view e s2 (no_perms ?m) [] (normalize p)), st3)"
    using snapshot_readable [OF grows_ok [OF s2(2)] s2(3) k(3)] by blast
  have "wt_view e s2 (no_perms ?m) [] q = map_option fst (last_file files q)" for q
  proof (cases "last_file files q")
    case (Some f)
    obtain b mode where f: "f = (b, mode)" by (cases f)
    have "view e s2 (object_id e (Blob b)) = Some (Blob b)"
      using last_file_mem [OF Some [unfolded f]] s1(3) grows_view [OF s2(2)] by fastforce
    with Some f show ?thesis by (simp add: wt_view_def no_perms_lookup index_files_lookup)
  qed (simp add: wt_view_def no_perms_lookup index_files_lookup)
  moreover have "commit_files e files author message st = (Inr (object_id e (Snapshot ?s)), s3)"
    using s1(1) s2(1) s3(1) by (simp add: commit_files_def bindS_def liftC_def files_snapshot_def)
  ultimately show ?thesis
    using s3 grows_trans [OF grows_trans [OF s1(2) s2(2)] s3(2)] by auto
qed

text \<open>
  C4: every file set without collisions can be committed into a consistent store with room for each
  blob; a fork of the returned snapshot reads, under any spelling of a path, the bytes of the last
  file given for that path, and reports every other path as missing.
\<close>

theorem committed_files_readable:
  assumes "store_ok e U st" "\<forall>(p, b, mode) \<in> set files. normalize p \<noteq> [] \<and> roomy b st"
    and "no_collisions (map fst (index_files e files []))"
    and "list_all (known U) (files_objects e files author message)"
  shows "\<exists>i st1 wt st2. commit_files e files author message st = (Inr i, st1) \<and> fork e i label st1 = (Inr wt, st2)
    \<and> (\<forall>p. fst (wt_read e wt p st2) = ok_or (PathMissing (normalize p)) (map_option fst (last_file files (normalize p))))"
  using commit_files_ok [OF assms, of label] by (metis fst_conv)

text \<open>What \<open>commit\<close> makes of a worktree over the base \<open>files\<close>.\<close>

definition wt_files :: "ext \<Rightarrow> file_map \<Rightarrow> worktree \<Rightarrow> (string, object_id \<times> file_mode) btree" where
  "wt_files e files wt = overlaid e (wt_overlay wt) (listing_of files)"

definition wt_snapshot :: "ext \<Rightarrow> file_map \<Rightarrow> worktree \<Rightarrow> string \<Rightarrow> string \<Rightarrow> snapshot" where
  "wt_snapshot e files wt author message =
     \<lparr>sn_root = tree_id e (no_perms (wt_files e files wt)) [] [], sn_parents = [wt_base_snapshot wt], sn_author = author,
      sn_timestamp = 0, sn_message = message, sn_secrets = wt_secrets wt, sn_protection = wt_protection wt\<rparr>"

definition wt_objects :: "ext \<Rightarrow> file_map \<Rightarrow> worktree \<Rightarrow> string \<Rightarrow> string \<Rightarrow> object list" where
  "wt_objects e files wt author message =
     tree_objects e (no_perms (wt_files e files wt)) [] [] @ [Snapshot (wt_snapshot e files wt author message)]"

definition overlay_ok :: "(string, overlay) btree \<Rightarrow> bool" where
  "overlay_ok ov \<longleftrightarrow> bt_ok ov \<and> (\<forall>p \<in> fst ` set ov. file_path p)"

lemma wt_files_lookup:
  "bt_ok (wt_overlay wt) \<Longrightarrow> map_of (wt_files e files wt) p =
     (case map_of (wt_overlay wt) p of
        Some (Written b mode) \<Rightarrow> Some (object_id e (Blob b), mode) | Some Removed \<Rightarrow> None
      | None \<Rightarrow> map_option (\<lambda>(i, mode, perms). (i, mode)) (map_of files p))"
  unfolding wt_files_def by (subst overlaid_lookup) (auto simp: bt_ok_distinct listing_of_lookup split: option.splits overlay.splits)

lemma wt_files_served:
  assumes "serves e st files root" "overlay_ok (wt_overlay wt)" "overlay_known U st (wt_overlay wt)"
    and "\<forall>p b mode. (p, Written b mode) \<in> set (wt_overlay wt) \<longrightarrow> view e st (object_id e (Blob b)) = Some (Blob b)"
    and "(p, i, mode) \<in> set (wt_files e files wt)"
  shows "file_path p \<and> (\<exists>b. view e st i = Some (Blob b) \<and> length b \<le> st_budget st)"
proof -
  have ov: "bt_ok (wt_overlay wt)" using assms(2) by (simp add: overlay_ok_def)
  have "bt_ok (wt_files e files wt)"
    unfolding wt_files_def using assms(1) by (intro overlaid_ok listing_of_ok) (simp add: serves_def)
  from bt_mem_lookup [OF this assms(5)] have l: "map_of (wt_files e files wt) p = Some (i, mode)" .
  show ?thesis
  proof (cases "map_of (wt_overlay wt) p")
    case None
    then obtain perms where "map_of files p = Some (i, mode, perms)"
      using l unfolding wt_files_lookup [OF ov] by auto
    then have "(p, i, mode, perms) \<in> set files" by (rule map_of_SomeD)
    with assms(1) show ?thesis unfolding serves_def by fastforce
  next
    case (Some o')
    then have mem: "(p, o') \<in> set (wt_overlay wt)" by (rule map_of_SomeD)
    then have "file_path p" using assms(2) by (force simp: overlay_ok_def)
    moreover obtain b where "o' = Written b mode" "i = object_id e (Blob b)"
      using l Some unfolding wt_files_lookup [OF ov] by (cases o') auto
    ultimately show ?thesis using mem assms(3,4) unfolding overlay_known_def roomy_def by blast
  qed
qed

lemma commit_ok:
  assumes "store_ok e U st" "serves e st files (wt_base_root wt)" "max_len files [] < n"
    and "overlay_ok (wt_overlay wt)" "overlay_known U st (wt_overlay wt)"
    and "no_collisions (map fst (wt_files e files wt))"
    and "list_all (known U) (wt_objects e files wt author message)"
  shows "\<exists>st1. commit n e wt author message st = (Inr (object_id e (Snapshot (wt_snapshot e files wt author message))), st1)
    \<and> grows e U st st1 \<and> serves e st1 (no_perms (wt_files e files wt)) (sn_root (wt_snapshot e files wt author message))
    \<and> view e st1 (object_id e (Snapshot (wt_snapshot e files wt author message)))
        = Some (canon (Snapshot (wt_snapshot e files wt author message)))
    \<and> (\<forall>p b mode. (p, Written b mode) \<in> set (wt_overlay wt) \<longrightarrow> view e st1 (object_id e (Blob b)) = Some (Blob b))"
proof -
  let ?m = "wt_files e files wt" and ?s = "wt_snapshot e files wt author message"
  obtain out s1 where s1: "walk n e (wt_base_root wt) [] st = (Inr out, s1)" "grows e U st s1" "mset out = mset (listing_of files)"
    using serves_walk [OF assms(1-3)] by blast
  have idx: "foldl (\<lambda>m (p, v). bt_insert p v m) [] out = listing_of files"
    using assms(2) by (intro index_listing listing_of_ok s1(3)) (simp add: serves_def)
  have known1: "overlay_known U s1 (wt_overlay wt)"
    using assms(5) roomy_grows [OF s1(2)] by (simp add: overlay_known_def)
  obtain s2 where s2: "apply_overlay e (wt_overlay wt) (listing_of files) s1 = (Inr ?m, s2)" "grows e U s1 s2"
    "\<forall>p b mode. (p, Written b mode) \<in> set (wt_overlay wt) \<longrightarrow> view e s2 (object_id e (Blob b)) = Some (Blob b)"
    using apply_overlay_ok [OF grows_ok [OF s1(2)] known1, of "listing_of files"] by (auto simp: wt_files_def)
  have g2: "grows e U st s2" using grows_trans [OF s1(2) s2(2)] .
  have ok: "bt_ok ?m"
    unfolding wt_files_def using assms(2) by (intro overlaid_ok listing_of_ok) (simp add: serves_def)
  have known2: "overlay_known U s2 (wt_overlay wt)"
    using known1 roomy_grows [OF s2(2)] by (simp add: overlay_known_def)
  have served: "\<forall>(p, i, mode, perms) \<in> set (no_perms ?m). file_path p
      \<and> (\<exists>b. view e s2 i = Some (Blob b) \<and> length b \<le> st_budget s2)"
    using wt_files_served [OF serves_grows [OF assms(2) g2] assms(4) known2 s2(3)]
    by (auto simp: no_perms_def)
  obtain s3 where s3: "build_tree e ?m s2 = (Inr (sn_root ?s), s3)" "grows e U s2 s3" "serves e s3 (no_perms ?m) (sn_root ?s)"
    using build_root_serves [OF grows_ok [OF g2] no_perms_ok [OF ok] _ _ served] assms(6,7)
    by (auto simp: build_tree_no_perms wt_snapshot_def wt_objects_def)
  have "known U (Snapshot ?s)" using assms(7) by (simp add: wt_objects_def)
  from put_weightless [OF grows_ok [OF s3(2)] this] obtain s4 where
    s4: "put e (Snapshot ?s) s3 = (Inr (object_id e (Snapshot ?s)), s4)" "grows e U s3 s4"
    "view e s4 (object_id e (Snapshot ?s)) = Some (canon (Snapshot ?s))" by (auto simp: blob_size_def)
  have g4: "grows e U s2 s4" using grows_trans [OF s3(2) s4(2)] .
  have "(\<lambda>m :: (string, object_id \<times> file_mode) btree. \<lambda>(p, i, mode). bt_insert p (i, mode) m)
      = (\<lambda>m (p, v). bt_insert p v m)"
    by (auto simp: fun_eq_iff)
  then have "commit n e wt author message st = (Inr (object_id e (Snapshot ?s)), s4)"
    using s1(1) idx s2(1) s3(1) s4(1) by (simp add: commit_def walk_base_def bindS_def liftC_def wt_snapshot_def)
  with s4 grows_trans [OF g2 g4] serves_grows [OF s3(3) s4(2)] grows_view [OF g4] s2(3) show ?thesis by auto
qed

lemma wt_view_commit:
  assumes "serves e st files (wt_base_root wt)" "grows e U st st'" "bt_ok (wt_overlay wt)"
    and "\<forall>p b mode. (p, Written b mode) \<in> set (wt_overlay wt) \<longrightarrow> view e st' (object_id e (Blob b)) = Some (Blob b)"
  shows "wt_view e st' (no_perms (wt_files e files wt)) [] p = wt_view e st files (wt_overlay wt) p"
proof (cases "map_of (wt_overlay wt) p")
  case (Some o')
  with assms(4) map_of_SomeD [OF Some] show ?thesis
    by (cases o') (fastforce simp: wt_view_def no_perms_lookup wt_files_lookup [OF assms(3)])+
next
  case None
  show ?thesis
  proof (cases "map_of files p")
    case (Some v)
    obtain i mode perms where v: "v = (i, mode, perms)" by (cases v)
    obtain b where "view e st i = Some (Blob b)" using serves_blob [OF assms(1) Some [unfolded v]] by blast
    with None Some v grows_view [OF assms(2)] show ?thesis
      by (simp add: wt_view_def no_perms_lookup wt_files_lookup [OF assms(3)])
  qed (simp add: wt_view_def None no_perms_lookup wt_files_lookup [OF assms(3)])
qed

text \<open>
  C5: committing a worktree succeeds when the resulting paths do not collide and every written blob
  fits, and a fork of the new snapshot reads at every path exactly what the dirty worktree read
  before the commit, missing paths included; its secrets are those of the worktree.
\<close>

theorem commit_preserves_reads:
  assumes "store_ok e U st" "serves e st files (wt_base_root wt)" "max_len files [] < n"
    and "overlay_ok (wt_overlay wt)" "overlay_known U st (wt_overlay wt)"
    and "no_collisions (map fst (wt_files e files wt))"
    and "list_all (known U) (wt_objects e files wt author message)"
  shows "\<exists>i st1 wt' st2. commit n e wt author message st = (Inr i, st1) \<and> fork e i label st1 = (Inr wt', st2)
    \<and> wt_overlay wt' = [] \<and> wt_base_snapshot wt' = i \<and> wt_secrets wt' = wt_secrets wt
    \<and> (\<forall>p. fst (wt_read e wt' p st2) = fst (wt_read e wt p st))"
proof -
  let ?s = "wt_snapshot e files wt author message"
  obtain s1 where s1: "commit n e wt author message st = (Inr (object_id e (Snapshot ?s)), s1)" "grows e U st s1"
    "serves e s1 (no_perms (wt_files e files wt)) (sn_root ?s)"
    "view e s1 (object_id e (Snapshot ?s)) = Some (canon (Snapshot ?s))"
    "\<forall>p b mode. (p, Written b mode) \<in> set (wt_overlay wt) \<longrightarrow> view e s1 (object_id e (Blob b)) = Some (Blob b)"
    using commit_ok [OF assms] by blast
  obtain wt' s2 where s2: "fork e (object_id e (Snapshot ?s)) label s1 = (Inr wt', s2)" "grows e U s1 s2"
    "serves e s2 (no_perms (wt_files e files wt)) (wt_base_root wt')" "wt_overlay wt' = []"
    "wt_base_snapshot wt' = object_id e (Snapshot ?s)" "wt_secrets wt' = sn_secrets ?s"
    using fork_ok [OF grows_ok [OF s1(2)] s1(4,3), of label] by blast
  have g: "grows e U st s2" using grows_trans [OF s1(2) s2(2)] .
  have "wt_view e s2 (no_perms (wt_files e files wt)) [] p = wt_view e st files (wt_overlay wt) p" for p
    using assms(2,4) s1(5) grows_view [OF s2(2)] by (intro wt_view_commit [OF _ g]) (auto simp: overlay_ok_def)
  then have "fst (wt_read e wt' p s2) = fst (wt_read e wt p st)" for p
    using wt_read_ok [OF grows_ok [OF g] s2(3), of p] wt_read_ok [OF assms(1,2), of p] s2(4) by auto
  with s1(1) s2 show ?thesis by (auto simp: wt_snapshot_def)
qed


section \<open>Witnesses of the commit theorems\<close>

definition demo_files :: "(string \<times> bytes \<times> file_mode) list" where
  "demo_files = [(''./a//b'', [1, 2], FileMode 420)]"

definition demo_map :: "file_map" where
  "demo_map = [(''a/b'', object_id prefix_ext (Blob [1, 2]), FileMode 420, 0)]"

definition demo_entry :: tree_entry where
  "demo_entry = \<lparr>te_name = ''b'', te_kind = BlobKind, te_id = object_id prefix_ext (Blob [1, 2]),
     te_mode = FileMode 420, te_perms = 0\<rparr>"

lemma demo_index:
  "index_files prefix_ext demo_files [] = [(''a/b'', object_id prefix_ext (Blob [1, 2]), FileMode 420)]"
  "no_perms [(''a/b'', object_id prefix_ext (Blob [1, 2]), FileMode 420)] = demo_map"
  by (simp_all add: demo_files_def normalize_def demo_map_def no_perms_def)

lemmas dir_defs = file_entries_def carried_entries_def subdirs_def rests_def strip_prefix_dir_def split_once_def
  dirs_of_def map_filter_simps child_prefix_def tree_new_def

lemma demo_dirs:
  "file_entries demo_map ''a/'' = [demo_entry]" "subdirs demo_map [] ''a/'' = []"
  "file_entries demo_map [] = []" "subdirs demo_map [] [] = [''a'']" "carried_entries [] p = []"
  "child_prefix [] ''a'' = ''a/''"
  by (simp_all add: demo_map_def demo_entry_def dir_defs)

lemma demo_subtree: "pure_tree prefix_ext demo_map [] ''a/'' = [demo_entry]"
  by (subst pure_tree.simps) (simp add: demo_dirs tree_new_def)

lemma demo_tree: "pure_tree prefix_ext demo_map [] [] = [dir_entry ''a'' (object_id prefix_ext (Tree [demo_entry]))]"
  by (subst pure_tree.simps) (simp add: demo_dirs demo_subtree tree_new_def)

lemma demo_objects:
  "tree_objects prefix_ext demo_map [] [] = [Tree [dir_entry ''a'' (object_id prefix_ext (Tree [demo_entry]))], Tree [demo_entry]]"
proof -
  have "tree_objects prefix_ext demo_map [] ''a/'' = [Tree [demo_entry]]"
    by (subst tree_objects.simps) (simp add: demo_dirs demo_subtree)
  then show ?thesis by (subst tree_objects.simps) (simp add: demo_dirs demo_tree)
qed

definition demo_snapshot :: snapshot where
  "demo_snapshot = files_snapshot prefix_ext demo_files ''me'' ''m''"

text \<open>A worktree over an empty tree, with one file written.\<close>

definition demo_wt :: worktree where
  "demo_wt = \<lparr>wt_base_snapshot = object_id prefix_ext (Tree []), wt_base_root = object_id prefix_ext (Tree []),
     wt_overlay = [(''a/b'', Written [1, 2] (FileMode 420))], wt_secrets = [], wt_protection = protection_default,
     wt_label = ''w''\<rparr>"

definition demo_wt_snapshot :: snapshot where
  "demo_wt_snapshot = wt_snapshot prefix_ext [] demo_wt [] []"

text \<open>The objects of the commits: the ones both need, and the snapshot.\<close>

definition demo_objects_of :: "snapshot \<Rightarrow> object set" where
  "demo_objects_of s = {Blob [1, 2], Tree [dir_entry ''a'' (object_id prefix_ext (Tree [demo_entry]))],
     Tree [demo_entry], Tree [], Snapshot s}"

lemma id_ok_prefix: "id_ok (object_id prefix_ext ob)"
  by (simp add: id_ok_def object_id_def id_of_def prefix_digest)

lemma demo_str_ok: "str_ok ''me''" "str_ok ''m''" "str_ok ''a''" "str_ok ''b''"
  by (simp_all add: str_ok_def str_bytes_def in_range_def)

lemma demo_known: "list_all (known (encode ` demo_objects_of demo_snapshot)) (files_objects prefix_ext demo_files ''me'' ''m'')"
proof -
  have "files_objects prefix_ext demo_files ''me'' ''m'' = [Blob [1, 2],
      Tree [dir_entry ''a'' (object_id prefix_ext (Tree [demo_entry]))], Tree [demo_entry], Snapshot demo_snapshot]"
    by (simp add: files_objects_def demo_index demo_objects demo_snapshot_def) (simp add: demo_files_def)
  moreover have "snapshot_ok demo_snapshot"
    by (simp add: demo_snapshot_def files_snapshot_def snapshot_ok_def snapshot_fields_ok_def vec_ok_def id_ok_prefix protection_default_def demo_str_ok)
  ultimately show ?thesis
    by (simp add: known_def demo_objects_of_def object_ok_def vec_ok_def tree_entry_ok_def dir_entry_def demo_entry_def
        id_ok_prefix demo_str_ok)
qed

lemma demo_collision_free: "collision_free prefix_ext (encode ` demo_objects_of s)"
proof -
  have "4 = Suc (Suc (Suc (Suc 0)))" by simp
  then have be: "nat_be 4 (Suc 0) = [0, 0, 0, 1]" "nat_be 4 0 = [0, 0, 0, 0]" by (simp_all only: nat_be.simps) simp_all
  have "distinct (map (blake3 prefix_ext) [encode (Blob [1, 2]), encode (Tree [dir_entry ''a'' (object_id prefix_ext (Tree [demo_entry]))]),
     encode (Tree [demo_entry]), encode (Tree [])])"
    by (simp add: prefix_digest encode_def tag_defs w_u8_def w_vec_def w_tree_entry_def dir_entry_def demo_entry_def
        w_str_def w_bytes_def str_bytes_def w_u32_def w_kind_def be)
  moreover have "blake3 prefix_ext (encode (Snapshot s)) \<noteq> blake3 prefix_ext (encode (Blob b))"
      "blake3 prefix_ext (encode (Snapshot s)) \<noteq> blake3 prefix_ext (encode (Tree t))"
      "blake3 prefix_ext (encode (Blob b)) \<noteq> blake3 prefix_ext (encode (Snapshot s))"
      "blake3 prefix_ext (encode (Tree t)) \<noteq> blake3 prefix_ext (encode (Snapshot s))" for b t
    by (simp_all add: prefix_digest encode_def tag_defs w_u8_def)
  ultimately show ?thesis unfolding collision_free_def demo_objects_of_def by (auto simp: inj_on_def)
qed


definition demo_st :: store where
  "demo_st = store_new 10 (Ephemeral SpillTo) empty_disk"

lemma demo_st_ok: "store_ok prefix_ext (encode ` demo_objects_of s) demo_st"
  unfolding demo_st_def using prefix_ext_ok demo_collision_free
  by (auto simp: store_ok_def acct_inv_def total_def stamps_ok_def content_defs store_new_def empty_disk_def
      existing_loose_def)

lemma demo_paths: "normalize ''./a//b'' = ''a/b''" "normalize ''a/b'' = ''a/b''"
  by (simp_all add: normalize_def)

lemma demo_no_collisions: "no_collisions [''a/b'']"
  by (simp add: no_collisions_def)

theorem committed_files_readable_witness:
  "\<exists>i st1 wt st2. commit_files prefix_ext demo_files ''me'' ''m'' demo_st = (Inr i, st1)
     \<and> fork prefix_ext i ''w'' st1 = (Inr wt, st2) \<and> fst (wt_read prefix_ext wt ''a/./b'' st2) = Inr [1, 2]"
proof -
  have "\<forall>(p, b, mode) \<in> set demo_files. normalize p \<noteq> [] \<and> roomy b demo_st"
    by (simp add: demo_files_def demo_paths roomy_def demo_st_def store_new_def)
  moreover have "no_collisions (map fst (index_files prefix_ext demo_files []))"
    by (simp add: demo_index demo_no_collisions)
  moreover have "last_file demo_files (normalize ''a/./b'') = Some ([1, 2], FileMode 420)"
    by (simp add: last_file_def demo_files_def normalize_def)
  ultimately show ?thesis
    using committed_files_readable [OF demo_st_ok _ _ demo_known, of "''w''"] by fastforce
qed

lemma demo_wt_files: "no_perms (wt_files prefix_ext [] demo_wt) = demo_map"
  by (simp add: wt_files_def demo_wt_def listing_of_def overlaid_def demo_index)

lemma demo_wt_known: "list_all (known (encode ` demo_objects_of demo_wt_snapshot)) (wt_objects prefix_ext [] demo_wt [] [])"
proof -
  have "wt_objects prefix_ext [] demo_wt [] [] =
      [Tree [dir_entry ''a'' (object_id prefix_ext (Tree [demo_entry]))], Tree [demo_entry], Snapshot demo_wt_snapshot]"
    by (simp add: wt_objects_def demo_wt_files demo_objects demo_wt_snapshot_def)
  moreover have "snapshot_ok demo_wt_snapshot"
    by (simp add: demo_wt_snapshot_def wt_snapshot_def demo_wt_def snapshot_ok_def snapshot_fields_ok_def vec_ok_def
        id_ok_prefix protection_default_def str_ok_def str_bytes_def)
  ultimately show ?thesis
    by (simp add: known_def demo_objects_of_def object_ok_def vec_ok_def tree_entry_ok_def dir_entry_def demo_entry_def
        id_ok_prefix demo_str_ok)
qed

theorem commit_preserves_reads_witness:
  "\<exists>st. \<exists>i st1 wt' st2. commit 1 prefix_ext demo_wt [] [] st = (Inr i, st1) \<and> fork prefix_ext i ''v'' st1 = (Inr wt', st2)
     \<and> fst (wt_read prefix_ext wt' ''a//b'' st2) = Inr [1, 2]"
proof -
  let ?U = "encode ` demo_objects_of demo_wt_snapshot"
  have "known ?U (Tree [])" by (simp add: known_def demo_objects_of_def object_ok_def vec_ok_def)
  from put_weightless [OF demo_st_ok this] obtain st where
    st: "grows prefix_ext ?U demo_st st" "view prefix_ext st (object_id prefix_ext (Tree [])) = Some (canon (Tree []))"
    by (auto simp: blob_size_def)
  have empty: "pure_tree prefix_ext [] [] [] = []" "tree_objects prefix_ext [] [] [] = [Tree []]"
    by (subst pure_tree.simps tree_objects.simps, simp add: dir_defs)+
  have "serves prefix_ext st [] (wt_base_root demo_wt)"
    using st(2) by (simp add: serves_def empty demo_wt_def no_collisions_def)
  moreover have "max_len [] [] < 1" by (simp add: max_len_def)
  moreover have "overlay_ok (wt_overlay demo_wt)"
    by (simp add: overlay_ok_def demo_wt_def file_path_def demo_paths)
  moreover have "overlay_known ?U st (wt_overlay demo_wt)"
    using st(1) by (simp add: overlay_known_def demo_wt_def known_def object_ok_def demo_objects_of_def roomy_def grows_def
        demo_st_def store_new_def)
  moreover have "no_collisions (map fst (wt_files prefix_ext [] demo_wt))"
    using arg_cong [OF demo_wt_files, of "map fst"] by (simp add: demo_map_def demo_no_collisions)
  moreover have "fst (wt_read prefix_ext demo_wt ''a//b'' st) = Inr [1, 2]"
    by (simp add: wt_read_def demo_wt_def normalize_def)
  ultimately show ?thesis
    using commit_preserves_reads [OF grows_ok [OF st(1)] _ _ _ _ _ demo_wt_known, of 1 "''v''"] by metis
qed


section \<open>Trees and walks\<close>

text \<open>
  Writing a file set as a tree and walking it returns exactly the files that were indexed, each
  with its id and mode, and never a directory; a stack one deeper than the longest path is enough.
\<close>

lemma written_tree_walks:
  assumes "store_ok e U st" "bt_ok files" "no_collisions (map fst files)" "list_all (known U) (tree_objects e files [] [])"
    and "\<forall>(p, i, mode, perms) \<in> set files. file_path p \<and> (\<exists>b. view e st i = Some (Blob b) \<and> length b \<le> st_budget st)"
    and "max_len files [] < n"
  shows "\<exists>root st1 out st2. build_root e files [] st = (Inr root, st1) \<and> walk n e root [] st1 = (Inr out, st2)
    \<and> mset out = mset (map (\<lambda>(p, i, mode, perms). (p, i, mode)) files) \<and> view e st \<subseteq>\<^sub>m view e st2"
proof -
  obtain s1 where s1: "build_root e files [] st = (Inr (tree_id e files [] []), s1)" "grows e U st s1"
    "serves e s1 files (tree_id e files [] [])"
    using build_root_serves [OF assms(1-5)] by blast
  obtain out s2 where "walk n e (tree_id e files [] []) [] s1 = (Inr out, s2)" "grows e U s1 s2" "mset out = mset (listing_of files)"
    using serves_walk [OF grows_ok [OF s1(2)] s1(3) assms(6)] by blast
  with s1 grows_trans [OF s1(2)] show ?thesis by (fastforce simp: listing_of_def grows_def)
qed

text \<open>
  C6: a set of paths is accepted exactly when no path is given twice and none is an ancestor directory
  of another; the refusal names a path that is given and one that is equal to it or lies below it, and
  building such a set writes no object.
\<close>

theorem collisions_refused:
  "(check_file_dir_collisions ps = Inr () \<longleftrightarrow> distinct ps \<and> (\<nexists>f s. f \<in> set ps \<and> f @ slash # s \<in> set ps))
   \<and> (\<forall>f p. check_file_dir_collisions ps = Inl (FileDirCollision f p) \<longrightarrow>
        f \<in> set ps \<and> p \<in> set ps \<and> (p = f \<and> \<not> distinct ps \<or> prefix (f @ [slash]) p))
   \<and> (\<not> no_collisions (map fst files @ map fst carried) \<longrightarrow>
        (\<exists>f p. build_root e files carried st = (Inl (FileDirCollision f p), st)))"
proof (intro conjI allI impI)
  show "check_file_dir_collisions ps = Inr () \<longleftrightarrow> distinct ps \<and> (\<nexists>f s. f \<in> set ps \<and> f @ slash # s \<in> set ps)"
    unfolding check_ok no_collisions_def by blast
next
  fix f p assume c: "check_file_dir_collisions ps = Inl (FileDirCollision f p)"
  show "f \<in> set ps" "p \<in> set ps" "p = f \<and> \<not> distinct ps \<or> prefix (f @ [slash]) p"
    using check_error [OF c] by (auto simp: prefix_def)
next
  assume "\<not> no_collisions (map fst files @ map fst carried)"
  then have "check_file_dir_collisions (map fst files @ map fst carried) \<noteq> Inr ()" using check_ok by blast
  then show "\<exists>f p. build_root e files carried st = (Inl (FileDirCollision f p), st)"
    by (auto simp: build_root_def bindS_def check_file_dir_collisions_def split: option.splits)
qed

theorem collisions_refused_witness:
  "\<exists>f p. build_root prefix_ext demo_map [(''a'', demo_entry)] demo_st = (Inl (FileDirCollision f p), demo_st)"
proof -
  have "\<not> no_collisions (map fst demo_map @ map fst [(''a'', demo_entry)])"
    by (simp add: no_collisions_def demo_map_def)
  then show ?thesis
    using collisions_refused [of "[]" demo_map "[(''a'', demo_entry)]" prefix_ext demo_st] by blast
qed

text \<open>A commit without changes rewrites the \<^verbatim>\<open>perms\<close> byte of every base entry to zero.\<close>

lemma commit_clears_perms:
  assumes "store_ok e U st" "serves e st files (wt_base_root wt)" "max_len files [] < n" "wt_overlay wt = []"
    and "list_all (known U) (wt_objects e files wt author message)"
  shows "\<exists>i st1 wt' st2. commit n e wt author message st = (Inr i, st1) \<and> fork e i label st1 = (Inr wt', st2)
    \<and> serves e st2 (map (\<lambda>(p, i, mode, perms). (p, i, mode, 0)) files) (wt_base_root wt')"
proof -
  have f: "wt_files e files wt = listing_of files" by (simp add: wt_files_def assms(4))
  have n: "no_perms (listing_of files) = map (\<lambda>(p, i, mode, perms). (p, i, mode, 0)) files"
    by (auto simp: no_perms_def listing_of_def)
  have "map fst (wt_files e files wt) = map fst files" by (auto simp: f listing_of_def)
  then have "no_collisions (map fst (wt_files e files wt))" using assms(2) by (simp add: serves_def)
  then obtain st1 where c: "commit n e wt author message st = (Inr (object_id e (Snapshot (wt_snapshot e files wt author message))), st1)"
    "grows e U st st1" "serves e st1 (no_perms (wt_files e files wt)) (sn_root (wt_snapshot e files wt author message))"
    "view e st1 (object_id e (Snapshot (wt_snapshot e files wt author message)))
        = Some (canon (Snapshot (wt_snapshot e files wt author message)))"
    using commit_ok [OF assms(1-3) _ _ _ assms(5)] assms(4) by (auto simp: overlay_ok_def overlay_known_def)
  from fork_ok [OF grows_ok [OF c(2)] c(4,3), of label] c(1) show ?thesis unfolding f n by blast
qed

end
