(* ===== verification/Diff3.thy ===== *)
theory Diff3
  imports Prelude "HOL-Library.Product_Lexorder"
begin

text \<open>
  The line-level three-way merge (\<^verbatim>\<open>crates/repo/src/diff3.rs\<close>): the longest common subsequence table
  and the match walk, the hunks of each side, their clusters by a union-find forest with path
  compression, and the merge with conflict markers. The loops of the forest follow parent pointers
  and end only on a forest without cycles, so they are partial functions: \<open>None\<close> is a run that does
  not end.
\<close>

section \<open>Lines\<close>

type_synonym line = string

abbreviation newline :: char where "newline \<equiv> CHR 0x0A"

text \<open>\<open>&xs[i..j]\<close>, of indices in range.\<close>

definition slice :: "'a list \<Rightarrow> nat \<Rightarrow> nat \<Rightarrow> 'a list" where
  "slice xs i j = take (j - i) (drop i xs)"

definition split_lines :: "string \<Rightarrow> line list \<times> bool" where
  "split_lines s =
     (if s = [] then ([], False)
      else let trailing = (last s = newline);
               body = (if trailing then butlast s else s)
           in (split_on newline body, trailing))"

section \<open>The match map\<close>

text \<open>One row of \<^verbatim>\<open>dp\<close> from the row below it; the counters stay below the number of lines, so a \<^verbatim>\<open>u32\<close> never wraps.\<close>

fun dp_row :: "line \<Rightarrow> line list \<Rightarrow> nat list \<Rightarrow> nat list" where
  "dp_row x [] below = [0]"
| "dp_row x (y # ys) below =
     (let r = dp_row x ys (tl below)
      in (if x = y then below ! 1 + 1 else max (below ! 0) (r ! 0)) # r)"

definition dp_table :: "line list \<Rightarrow> line list \<Rightarrow> nat list list" where
  "dp_table base other = foldr (\<lambda>x rows. dp_row x other (hd rows) # rows) base [replicate (length other + 1) 0]"

function match_walk :: "line list \<Rightarrow> line list \<Rightarrow> nat list list \<Rightarrow> nat \<Rightarrow> nat \<Rightarrow> nat option list \<Rightarrow> nat option list" where
  "match_walk base other dp i j res =
     (if i < length base \<and> j < length other then
        if base ! i = other ! j then match_walk base other dp (i + 1) (j + 1) (res[i := Some j])
        else if dp ! (i + 1) ! j \<ge> dp ! i ! (j + 1) then match_walk base other dp (i + 1) j res
        else match_walk base other dp i (j + 1) res
      else res)"
  by pat_completeness auto
termination
  by (relation "measure (\<lambda>(base, other, dp, i, j, res). (length base - i) + (length other - j))") auto

declare match_walk.simps [simp del]

definition match_map :: "line list \<Rightarrow> line list \<Rightarrow> nat option list" where
  "match_map base other = match_walk base other (dp_table base other) 0 0 (replicate (length base) None)"

section \<open>Hunks\<close>

record hunk =
  base_start :: nat
  base_end :: nat
  replacement :: "line list"

definition anchors :: "line list \<Rightarrow> line list \<Rightarrow> nat option list \<Rightarrow> (int \<times> int) list" where
  "anchors base other mm =
     (-1, -1) # List.map_filter (\<lambda>(bi, om). map_option (\<lambda>oi. (int bi, int oi)) om) (enumerate 0 mm)
       @ [(int (length base), int (length other))]"

text \<open>The hunk between two neighbouring anchors, when the regions differ.\<close>

definition window_hunk :: "line list \<Rightarrow> line list \<Rightarrow> (int \<times> int) \<times> (int \<times> int) \<Rightarrow> hunk option" where
  "window_hunk base other w =
     (case w of ((pb, po), (cb, co)) \<Rightarrow>
        let base_r = slice base (nat (pb + 1)) (nat cb);
            other_r = slice other (nat (po + 1)) (nat co)
        in if base_r \<noteq> other_r
           then Some \<lparr>base_start = nat (pb + 1), base_end = nat cb, replacement = other_r\<rparr> else None)"

definition diff_hunks :: "line list \<Rightarrow> line list \<Rightarrow> hunk list" where
  "diff_hunks base other =
     (let as = anchors base other (match_map base other)
      in List.map_filter (window_hunk base other) (zip as (tl as)))"

section \<open>Clusters\<close>

datatype side = Ours | Theirs

definition interacts :: "hunk \<Rightarrow> hunk \<Rightarrow> bool" where
  "interacts a b =
     (case (base_start a = base_end a, base_start b = base_end b) of
        (True, True) \<Rightarrow> base_start a = base_start b
      | (True, False) \<Rightarrow> base_start b \<le> base_start a \<and> base_start a \<le> base_end b
      | (False, True) \<Rightarrow> base_start a \<le> base_start b \<and> base_start b \<le> base_end a
      | (False, False) \<Rightarrow> base_start a < base_end b \<and> base_start b < base_end a)"

text \<open>The two loops of \<^verbatim>\<open>find\<close>: to the root, then path compression.\<close>

partial_function (option) find_root :: "nat list \<Rightarrow> nat \<Rightarrow> nat option" where
  "find_root parent r = (if parent ! r \<noteq> r then find_root parent (parent ! r) else Some r)"

partial_function (option) compress :: "nat list \<Rightarrow> nat \<Rightarrow> nat \<Rightarrow> nat list option" where
  "compress parent c r = (if parent ! c \<noteq> r then compress (parent[c := r]) (parent ! c) r else Some parent)"

declare find_root.simps [code] compress.simps [code]

definition uf_find :: "nat list \<Rightarrow> nat \<Rightarrow> (nat \<times> nat list) option" where
  "uf_find parent x = Option.bind (find_root parent x) (\<lambda>r. Option.bind (compress parent x r) (\<lambda>p. Some (r, p)))"

fun unite :: "(side \<times> hunk) list \<Rightarrow> (nat \<times> nat) list \<Rightarrow> nat list \<Rightarrow> nat list option" where
  "unite all [] parent = Some parent"
| "unite all ((i, j) # ps) parent =
     (if fst (all ! i) \<noteq> fst (all ! j) \<and> interacts (snd (all ! i)) (snd (all ! j)) then
        Option.bind (uf_find parent i) (\<lambda>(ri, parent).
        Option.bind (uf_find parent j) (\<lambda>(rj, parent).
          unite all ps (if ri \<noteq> rj then parent[ri := rj] else parent)))
      else unite all ps parent)"

fun bucket :: "nat list \<Rightarrow> nat list \<Rightarrow> (nat, nat list) btree \<Rightarrow> (nat, nat list) btree option" where
  "bucket [] parent groups = Some groups"
| "bucket (i # is) parent groups =
     Option.bind (uf_find parent i) (\<lambda>(r, parent).
       bucket is parent (bt_insert r (case_option [] id (map_of groups r) @ [i]) groups))"

definition index_pairs :: "nat \<Rightarrow> (nat \<times> nat) list" where
  "index_pairs n = concat (map (\<lambda>i. map (Pair i) [i + 1..<n]) [0..<n])"

definition cluster_lo :: "(side \<times> hunk) list \<Rightarrow> nat list \<Rightarrow> nat" where
  "cluster_lo all c = Min (set (map (\<lambda>i. base_start (snd (all ! i))) c))"

definition cluster_hi :: "(side \<times> hunk) list \<Rightarrow> nat list \<Rightarrow> nat" where
  "cluster_hi all c = Max (set (map (\<lambda>i. base_end (snd (all ! i))) c))"

definition cluster_hunks :: "(side \<times> hunk) list \<Rightarrow> nat list list option" where
  "cluster_hunks all =
     (let n = length all in
      Option.bind (unite all (index_pairs n) [0..<n]) (\<lambda>parent.
      Option.bind (bucket [0..<n] parent []) (\<lambda>groups.
        Some (sort_key (cluster_lo all) (map snd groups)))))"

section \<open>The merge\<close>

text \<open>The loop of \<^verbatim>\<open>apply_side\<close> over the hunks, from \<open>cursor\<close> to the window end.\<close>

fun apply_hunks :: "line list \<Rightarrow> nat \<Rightarrow> hunk list \<Rightarrow> nat \<Rightarrow> line list" where
  "apply_hunks b hi [] cursor = slice b cursor hi"
| "apply_hunks b hi (h # hs) cursor =
     slice b cursor (base_start h) @ replacement h @ apply_hunks b hi hs (max (max cursor (base_start h)) (base_end h))"

definition side_hunks :: "(side \<times> hunk) list \<Rightarrow> nat list \<Rightarrow> side \<Rightarrow> hunk list" where
  "side_hunks all cluster sd = map (\<lambda>i. snd (all ! i)) (filter (\<lambda>i. fst (all ! i) = sd) cluster)"

definition apply_side :: "line list \<Rightarrow> nat \<Rightarrow> nat \<Rightarrow> (side \<times> hunk) list \<Rightarrow> nat list \<Rightarrow> side \<Rightarrow> line list" where
  "apply_side b lo hi all cluster sd =
     apply_hunks b hi (sort_key (\<lambda>h. (base_start h, base_end h)) (side_hunks all cluster sd)) lo"

definition resolve_cluster :: "line list \<Rightarrow> line list \<Rightarrow> line list \<Rightarrow> line list \<times> bool" where
  "resolve_cluster base_region ours_text theirs_text =
     (if ours_text = base_region then (theirs_text, False)
      else if theirs_text = base_region \<or> ours_text = theirs_text then (ours_text, False)
      else ([''<<<<<<< ours''] @ ours_text @ [''=======''] @ theirs_text @ [''>>>>>>> theirs''], True))"

fun merge_clusters :: "line list \<Rightarrow> (side \<times> hunk) list \<Rightarrow> nat list list \<Rightarrow> nat \<Rightarrow> line list \<times> bool" where
  "merge_clusters b all [] bi = (slice b bi (length b), False)"
| "merge_clusters b all (cluster # clusters) bi =
     (let lo = cluster_lo all cluster;
          hi = cluster_hi all cluster;
          (piece, confl) = resolve_cluster (slice b lo hi)
            (apply_side b lo hi all cluster Ours) (apply_side b lo hi all cluster Theirs);
          (rest, conflicted) = merge_clusters b all clusters hi
      in (slice b bi lo @ piece @ rest, confl \<or> conflicted))"

record merged =
  m_text :: string
  m_conflicted :: bool

definition all_hunks :: "line list \<Rightarrow> line list \<Rightarrow> line list \<Rightarrow> (side \<times> hunk) list" where
  "all_hunks b o' t = map (Pair Ours) (diff_hunks b o') @ map (Pair Theirs) (diff_hunks b t)"

definition merge_lines :: "string \<Rightarrow> string \<Rightarrow> string \<Rightarrow> merged option" where
  "merge_lines base ours theirs =
     (let (b, b_nl) = split_lines base;
          (o', o_nl) = split_lines ours;
          (t, t_nl) = split_lines theirs;
          all = all_hunks b o' t
      in Option.bind (cluster_hunks all) (\<lambda>clusters.
        let (out, confl) = merge_clusters b all clusters 0;
            txt' = join_with newline out;
            trailing = (if o' \<noteq> [] then o_nl else if t \<noteq> [] then t_nl else b_nl)
        in Some \<lparr>m_text = (if txt' \<noteq> [] \<and> trailing then txt' @ [newline] else txt'), m_conflicted = confl\<rparr>))"

end
