(* ===== verification/Diff3_Hunks.thy ===== *)
theory Diff3_Hunks
  imports Diff3
begin

text \<open>
  The diff half of the three-way merge: the table holds the lengths of longest common subsequences,
  the walk through it finds one, and the hunks between its anchors rebuild the other side from the
  base.
\<close>

section \<open>Longest common subsequences\<close>

fun lcs_len :: "'a list \<Rightarrow> 'a list \<Rightarrow> nat" where
  "lcs_len [] ys = 0"
| "lcs_len xs [] = 0"
| "lcs_len (x # xs) (y # ys) = (if x = y then Suc (lcs_len xs ys) else max (lcs_len xs (y # ys)) (lcs_len (x # xs) ys))"

lemma lcs_len_Nil2 [simp]: "lcs_len xs [] = 0"
  by (cases xs) auto

lemma subseq_lcs_len: "subseq zs xs \<Longrightarrow> subseq zs ys \<Longrightarrow> length zs \<le> lcs_len xs ys"
proof (induction xs ys arbitrary: zs rule: lcs_len.induct)
  case (3 x xs y ys)
  show ?case
  proof (cases "x = y")
    case True
    show ?thesis
    proof (cases zs)
      case (Cons z zs')
      have "subseq zs' xs" "subseq zs' ys" using 3(4,5) Cons by (auto simp: subseq_Cons' split: if_splits)
      with 3(1) [OF True, of zs'] True Cons show ?thesis by simp
    qed simp
  next
    case False
    show ?thesis
    proof (cases "subseq zs xs")
      case True
      with 3(2) [OF False True] 3(5) False show ?thesis by simp
    next
      case nx: False
      then obtain zs' where "zs = x # zs'" using 3(4) by (cases zs) (auto split: if_splits)
      with 3(5) False have "subseq zs ys" by auto
      with 3(3) [OF False 3(4)] False show ?thesis by simp
    qed
  qed
qed auto

lemma length_dp_row [simp]: "length (dp_row x ys below) = Suc (length ys)"
  by (induction x ys below rule: dp_row.induct) (auto simp: Let_def)

lemma dp_row_nth:
  "length below = Suc (length ys) \<Longrightarrow> \<forall>j \<le> length ys. below ! j = lcs_len xs (drop j ys) \<Longrightarrow> j \<le> length ys \<Longrightarrow>
     dp_row x ys below ! j = lcs_len (x # xs) (drop j ys)"
proof (induction ys arbitrary: below j)
  case (Cons y ys)
  obtain b0 b1 bs where b: "below = b0 # b1 # bs" using Cons.prems(1) by (auto simp: length_Suc_conv)
  have tl: "\<forall>j \<le> length ys. tl below ! j = lcs_len xs (drop j ys)"
    using Cons.prems(2) b by (metis Suc_le_mono drop_Suc_Cons length_Cons list.sel(3) nth_Cons_Suc)
  have IH: "dp_row x ys (tl below) ! k = lcs_len (x # xs) (drop k ys)" if "k \<le> length ys" for k
    using Cons.IH [OF _ tl that] b Cons.prems(1) by simp
  have "b0 = lcs_len xs (y # ys)" "b1 = lcs_len xs ys"
    using Cons.prems(2) b by (auto dest: spec [of _ 0] spec [of _ 1])
  with IH Cons.prems(3) b show ?case by (cases j) (auto simp: Let_def)
qed simp

lemma dp_table_Cons: "dp_table (x # xs) other = dp_row x other (hd (dp_table xs other)) # dp_table xs other"
  by (simp add: dp_table_def)

lemma dp_table_nth:
  "i \<le> length base \<Longrightarrow> j \<le> length other \<Longrightarrow>
     length (dp_table base other ! i) = Suc (length other) \<and> dp_table base other ! i ! j = lcs_len (drop i base) (drop j other)"
proof (induction base arbitrary: i j)
  case Nil
  then show ?case by (simp add: dp_table_def nth_Cons' del: replicate.simps)
next
  case (Cons x xs)
  have ne: "dp_table xs other \<noteq> []" by (cases xs) (simp_all add: dp_table_def)
  then have hd: "hd (dp_table xs other) = dp_table xs other ! 0" by (simp add: hd_conv_nth)
  show ?case
  proof (cases i)
    case 0
    have "dp_row x other (hd (dp_table xs other)) ! j = lcs_len (x # xs) (drop j other)"
      using Cons.IH [of 0] Cons.prems(2) hd by (intro dp_row_nth) auto
    with 0 show ?thesis by (simp add: dp_table_Cons)
  next
    case (Suc k)
    with Cons show ?thesis by (simp add: dp_table_Cons)
  qed
qed

text \<open>The pairs the walk matches.\<close>

fun matches :: "nat \<Rightarrow> nat \<Rightarrow> 'a list \<Rightarrow> 'a list \<Rightarrow> (nat \<times> nat) list" where
  "matches i j (x # xs) (y # ys) =
     (if x = y then (i, j) # matches (i + 1) (j + 1) xs ys
      else if lcs_len xs (y # ys) \<ge> lcs_len (x # xs) ys then matches (i + 1) j xs (y # ys)
      else matches i (j + 1) (x # xs) ys)"
| "matches i j xs ys = []"

lemma length_matches: "length (matches i j xs ys) = lcs_len xs ys"
  by (induction i j xs ys rule: matches.induct) (auto simp: max_def)

abbreviation pair_less :: "nat \<times> nat \<Rightarrow> nat \<times> nat \<Rightarrow> bool" where
  "pair_less p q \<equiv> fst p < fst q \<and> snd p < snd q"

lemma nth_Cons_diff: "Suc i \<le> a \<Longrightarrow> (x # xs) ! (a - i) = xs ! (a - Suc i)"
  by (simp add: nth_Cons' Suc_diff_le flip: diff_Suc_eq_diff_pred)

lemma matches_bounds:
  "(a, c) \<in> set (matches i j xs ys) \<Longrightarrow> i \<le> a \<and> a < i + length xs \<and> j \<le> c \<and> c < j + length ys \<and> xs ! (a - i) = ys ! (c - j)"
proof (induction i j xs ys rule: matches.induct)
  case (1 i j x xs y ys)
  consider "x = y" | "x \<noteq> y" "lcs_len xs (y # ys) \<ge> lcs_len (x # xs) ys" | "x \<noteq> y" "\<not> lcs_len xs (y # ys) \<ge> lcs_len (x # xs) ys"
    by blast
  then show ?case
  proof cases
    case 1
    with 1 "1.prems" "1.IH"(1) show ?thesis by (auto simp: nth_Cons_diff)
  next
    case 2
    with "1.prems" "1.IH"(2) show ?thesis by (auto simp: nth_Cons_diff)
  next
    case 3
    with "1.prems" "1.IH"(3) show ?thesis by (auto simp: nth_Cons_diff)
  qed
qed auto

lemma matches_sorted: "sorted_wrt pair_less (matches i j xs ys)"
proof (induction i j xs ys rule: matches.induct)
  case (1 i j x xs y ys)
  have "\<forall>q \<in> set (matches (i + 1) (j + 1) xs ys). pair_less (i, j) q"
    using matches_bounds [of _ _ "i + 1" "j + 1" xs ys] by fastforce
  with 1 show ?case by simp
qed auto

lemma match_walk_matches:
  assumes "i \<le> length base" "j \<le> length other"
  shows "match_walk base other (dp_table base other) i j res
    = foldl (\<lambda>r (a, c). r[a := Some c]) res (matches i j (drop i base) (drop j other))"
  using assms
proof (induction base other "dp_table base other" i j res rule: match_walk.induct)
  case (1 base other i j res)
  show ?case
  proof (cases "i < length base \<and> j < length other")
    case True
    then have d: "drop i base = base ! i # drop (Suc i) base" "drop j other = other ! j # drop (Suc j) other"
      by (simp_all add: Cons_nth_drop_Suc)
    have t: "dp_table base other ! (i + 1) ! j = lcs_len (drop (Suc i) base) (drop j other)"
      "dp_table base other ! i ! (j + 1) = lcs_len (drop i base) (drop (Suc j) other)"
      using True dp_table_nth [of "i + 1" base j other] dp_table_nth [of i base "j + 1" other] by auto
    show ?thesis
      using 1 True t by (subst match_walk.simps) (simp add: d)
  next
    case False
    with 1 show ?thesis by (subst match_walk.simps) auto
  qed
qed

lemma foldl_upd_lookup:
  "distinct (map fst ps) \<Longrightarrow> \<forall>p \<in> set ps. fst p < length r \<Longrightarrow> i < length r \<Longrightarrow>
     foldl (\<lambda>r (a, c). r[a := Some c]) r ps ! i = (case map_of ps i of Some c \<Rightarrow> Some c | None \<Rightarrow> r ! i)"
proof (induction ps arbitrary: r)
  case (Cons p ps)
  obtain a c where p: "p = (a, c)" by (cases p)
  with Cons.prems(1) have "map_of ps a = None" by (simp add: map_of_eq_None_iff)
  with p Cons.prems Cons.IH [of "r[a := Some c]"] show ?case by (auto simp: nth_list_update split: option.splits)
qed simp

lemma foldl_upd_length: "length (foldl (\<lambda>r (a, c). r[a := Some c]) r ps) = length r"
  by (induction ps arbitrary: r) auto

definition match_pairs :: "'a list \<Rightarrow> 'a list \<Rightarrow> (nat \<times> nat) list" where
  "match_pairs base other = matches 0 0 base other"

lemma match_pairs_fst: "sorted_wrt (<) (map fst (match_pairs base other))"
  using matches_sorted [of 0 0 base other]
  by (simp add: match_pairs_def sorted_wrt_map) (erule sorted_wrt_mono_rel [rotated], simp)

lemma match_map_lookup:
  assumes "i < length base"
  shows "match_map base other ! i = map_of (match_pairs base other) i"
proof -
  have "\<forall>p \<in> set (match_pairs base other). fst p < length base"
    using matches_bounds [of _ _ 0 0 base other] by (auto simp: match_pairs_def)
  moreover have "distinct (map fst (match_pairs base other))" using match_pairs_fst [of base other] by (simp add: strict_sorted_iff)
  ultimately show ?thesis
    using assms match_walk_matches [of 0 base 0 other] foldl_upd_lookup [of "match_pairs base other" "replicate (length base) None" i]
    by (simp add: match_map_def match_pairs_def split: option.splits)
qed

lemma length_match_map [simp]: "length (match_map base other) = length base"
  using match_walk_matches [of 0 base 0 other] by (simp add: match_map_def foldl_upd_length)

section \<open>Anchors and hunks\<close>

lemma map_filter_enumerate:
  assumes "sorted_wrt (<) (map fst ps)" "\<forall>p \<in> set ps. fst p < length xs" "\<forall>i < length xs. xs ! i = map_of ps i"
  shows "List.map_filter (\<lambda>(i, om). map_option (Pair i) om) (enumerate 0 xs) = ps"
proof (rule map_sorted_distinct_set_unique [where f = fst])
  let ?l = "List.map_filter (\<lambda>(i, om). map_option (Pair i) om) (enumerate 0 xs)"
  have mem: "(i, c) \<in> set ?l \<longleftrightarrow> i < length xs \<and> xs ! i = Some c" for i c
  proof -
    have "(i, c) \<in> set ?l \<longleftrightarrow> (i, Some c) \<in> set (enumerate 0 xs)"
      unfolding mem_map_filter by (auto intro: bexI [of _ "(i, Some c)"])
    then show ?thesis by (auto simp: in_set_enumerate_eq)
  qed
  have d: "distinct (map fst ps)" using assms(1) by (simp add: strict_sorted_iff)
  show eq: "set ?l = set ps"
  proof (rule set_eqI)
    fix p
    show "p \<in> set ?l \<longleftrightarrow> p \<in> set ps"
    proof (cases p)
      case (Pair i c)
      then show ?thesis
        using mem [of i c] assms(2,3) map_of_SomeD [of ps i c] map_of_is_SomeI [OF d, of i c] by fastforce
    qed
  qed
  have "sorted_wrt (<) (map fst (List.map_filter (\<lambda>(i, om). map_option (Pair i) om) (enumerate n ys)))" for n :: nat and ys :: "'a option list"
  proof (induction ys arbitrary: n)
    case (Cons y ys)
    have "n < fst q" if "q \<in> set (List.map_filter (\<lambda>(i, om). map_option (Pair i) om) (enumerate (Suc n) ys))" for q
      using that by (auto simp: List.map_filter_def in_set_enumerate_eq)
    with Cons [of "Suc n"] show ?case by (cases y) auto
  qed simp
  then show "sorted (map fst ?l)" "distinct (map fst ?l)" by (simp_all add: strict_sorted_iff)
  show "inj_on fst (set ?l \<union> set ps)" using d eq by (simp add: distinct_map)
qed (use assms(1) in \<open>simp_all add: strict_sorted_iff\<close>)

abbreviation int_pair :: "nat \<times> nat \<Rightarrow> int \<times> int" where
  "int_pair p \<equiv> (int (fst p), int (snd p))"

lemma map_filter_match_map:
  "List.map_filter (\<lambda>(i, om). map_option (Pair i) om) (enumerate 0 (match_map base other)) = match_pairs base other"
  using matches_bounds [of _ _ 0 0 base other] match_map_lookup match_pairs_fst
  by (intro map_filter_enumerate) (auto simp: match_pairs_def)

lemma anchors_matches:
  "anchors base other (match_map base other)
     = (-1, -1) # map int_pair (match_pairs base other @ [(length base, length other)])"
proof -
  have "List.map_filter (\<lambda>(bi, om). map_option (\<lambda>oi. (int bi, int oi)) om) xs
      = map int_pair (List.map_filter (\<lambda>(i, om). map_option (Pair i) om) xs)" for xs :: "(nat \<times> nat option) list"
    by (induction xs) (auto split: option.splits)
  then show ?thesis by (simp add: anchors_def map_filter_match_map)
qed

text \<open>The hunks between anchors, with the position after the previous anchor in natural numbers.\<close>

fun hunks_from :: "line list \<Rightarrow> line list \<Rightarrow> nat \<times> nat \<Rightarrow> (nat \<times> nat) list \<Rightarrow> hunk list" where
  "hunks_from b o' p [] = []"
| "hunks_from b o' (s, t) ((cb, co) # as) =
     (if slice b s cb \<noteq> slice o' t co
      then [\<lparr>base_start = s, base_end = cb, replacement = slice o' t co\<rparr>] else []) @ hunks_from b o' (Suc cb, Suc co) as"

lemma window_hunks:
  assumes "nat (pb + 1) = s" "nat (po + 1) = t"
  shows "List.map_filter (window_hunk b o') (zip ((pb, po) # map int_pair as) (map int_pair as)) = hunks_from b o' (s, t) as"
  using assms
proof (induction as arbitrary: pb po s t)
  case (Cons a as)
  have "nat (int (fst a) + 1) = Suc (fst a)" "nat (int (snd a) + 1) = Suc (snd a)" by simp_all
  from Cons.IH [OF this] Cons.prems show ?case
    by (cases a) (simp add: window_hunk_def Let_def)
qed simp

lemma diff_hunks_from:
  "diff_hunks b o' = hunks_from b o' (0, 0) (match_pairs b o' @ [(length b, length o')])"
  unfolding diff_hunks_def anchors_matches Let_def list.sel by (rule window_hunks) simp_all

section \<open>Applying hunks\<close>

definition hunks_ok :: "nat \<Rightarrow> hunk list \<Rightarrow> bool" where
  "hunks_ok n hs \<longleftrightarrow> sorted_wrt (\<lambda>a b. base_end a < base_start b) hs
     \<and> (\<forall>h \<in> set hs. base_start h \<le> base_end h \<and> base_end h \<le> n)"

lemma block_append: "i \<le> j \<Longrightarrow> j \<le> k \<Longrightarrow> slice xs i j @ slice xs j k = slice xs i k"
proof -
  assume "i \<le> j" "j \<le> k"
  then obtain p q where "j = i + p" "k = i + p + q" by (metis le_Suc_ex)
  then show ?thesis by (simp add: slice_def take_add add.commute)
qed

lemma slice_empty [simp]: "j \<le> i \<Longrightarrow> slice xs i j = []"
  by (simp add: slice_def)

lemma slice_all [simp]: "slice xs 0 (length xs) = xs" "slice xs i (length xs) = drop i xs"
  by (simp_all add: slice_def)

lemma slice_Suc: "i < length xs \<Longrightarrow> slice xs i (Suc i) = [xs ! i]"
  by (simp add: slice_def Suc_diff_le take_Suc_conv_app_nth hd_drop_conv_nth)

lemma apply_shift:
  "\<forall>h \<in> set hs. c \<le> base_start h \<Longrightarrow> s \<le> c \<Longrightarrow> c \<le> hi \<Longrightarrow> apply_hunks b hi hs s = slice b s c @ apply_hunks b hi hs c"
proof (cases hs)
  case (Cons h hs')
  assume "\<forall>h \<in> set hs. c \<le> base_start h" "s \<le> c"
  with Cons block_append [of s c "base_start h" b] show ?thesis by (simp add: max_def flip: append_assoc)
qed (simp add: block_append)

lemma apply_append:
  "\<forall>h \<in> set hs1. base_start h \<le> base_end h \<and> base_end h \<le> m \<Longrightarrow> \<forall>h \<in> set hs2. m \<le> base_start h \<Longrightarrow> c \<le> m \<Longrightarrow> m \<le> hi \<Longrightarrow>
     apply_hunks b hi (hs1 @ hs2) c = apply_hunks b m hs1 c @ apply_hunks b hi hs2 m"
proof (induction hs1 arbitrary: c)
  case Nil
  then show ?case using apply_shift [of hs2 m c hi b] by simp
next
  case (Cons h hs1)
  then have "max (max c (base_start h)) (base_end h) \<le> m" by auto
  with Cons show ?case by simp
qed

lemma hunks_from_start:
  "h \<in> set (hunks_from b o' (s, t) as) \<Longrightarrow> sorted_wrt pair_less as \<Longrightarrow> \<forall>a \<in> set as. s \<le> fst a \<Longrightarrow>
     s \<le> base_start h \<and> base_start h \<le> base_end h \<and> (\<exists>a \<in> set as. base_end h = fst a)"
proof (induction as arbitrary: s t)
  case (Cons a as)
  have "h \<in> set (hunks_from b o' (Suc (fst a), Suc (snd a)) as) \<Longrightarrow>
      Suc (fst a) \<le> base_start h \<and> base_start h \<le> base_end h \<and> (\<exists>a \<in> set as. base_end h = fst a)"
    using Cons.IH [of "Suc (fst a)" "Suc (snd a)"] Cons.prems(2) by (auto simp: Suc_le_eq)
  moreover have "h \<in> set (hunks_from b o' (Suc (fst a), Suc (snd a)) as) \<or> base_start h = s \<and> base_end h = fst a"
    using Cons.prems(1) by (cases a) (auto split: if_splits)
  moreover have "s \<le> fst a" using Cons.prems(3) by simp
  ultimately show ?case by auto
qed simp

lemma hunks_from_ok:
  "sorted_wrt pair_less as \<Longrightarrow> \<forall>a \<in> set as. s \<le> fst a \<and> fst a \<le> n \<Longrightarrow> hunks_ok n (hunks_from b o' (s, t) as)"
proof (induction as arbitrary: s t)
  case Nil
  then show ?case by (simp add: hunks_ok_def)
next
  case (Cons a as)
  obtain cb co where a: "a = (cb, co)" by (cases a)
  have ge: "\<forall>a \<in> set as. Suc cb \<le> fst a" using Cons.prems(1) a by (auto simp: Suc_le_eq)
  have "hunks_ok n (hunks_from b o' (Suc cb, Suc co) as)"
    using Cons ge a by simp
  moreover have "\<forall>h \<in> set (hunks_from b o' (Suc cb, Suc co) as). cb < base_start h"
    using hunks_from_start [of _ b o' "Suc cb" "Suc co" as] ge Cons.prems(1) by fastforce
  ultimately show ?case using a Cons.prems(2) by (auto simp: hunks_ok_def)
qed

lemma apply_hunks_from:
  assumes "sorted_wrt pair_less (as @ [(length b, length o')])"
    and "\<forall>(x, y) \<in> set as. x < length b \<and> y < length o' \<and> b ! x = o' ! y"
    and "\<forall>(x, y) \<in> set (as @ [(length b, length o')]). s \<le> x \<and> t \<le> y"
  shows "apply_hunks b (length b) (hunks_from b o' (s, t) (as @ [(length b, length o')])) s = drop t o'"
  using assms
proof (induction as arbitrary: s t)
  case Nil
  then show ?case by auto
next
  case (Cons a as)
  obtain cb co where a: "a = (cb, co)" by (cases a)
  let ?hs = "hunks_from b o' (Suc cb, Suc co) (as @ [(length b, length o')])"
  have c: "s \<le> cb" "cb < length b" "t \<le> co" "co < length o'" "b ! cb = o' ! co" using Cons.prems a by auto
  have srt: "sorted_wrt pair_less (as @ [(length b, length o')])"
    and gt: "\<forall>(x, y) \<in> set (as @ [(length b, length o')]). Suc cb \<le> x \<and> Suc co \<le> y"
    using Cons.prems(1) a c by (auto simp: Suc_le_eq)
  have IH: "apply_hunks b (length b) ?hs (Suc cb) = drop (Suc co) o'"
    using Cons.IH [OF srt _ gt] Cons.prems(2) by auto
  have st: "\<forall>h \<in> set ?hs. Suc cb \<le> base_start h"
    using hunks_from_start [of _ b o' "Suc cb" "Suc co" "as @ [(length b, length o')]"] srt gt by fastforce
  have rest: "apply_hunks b (length b) ?hs cb = drop co o'"
    using apply_shift [OF st, of cb "length b" b] IH c by (simp add: slice_Suc Cons_nth_drop_Suc)
  have st': "\<forall>h \<in> set ?hs. cb \<le> base_start h" using st by auto
  have o': "slice o' t co @ drop co o' = drop t o'" using block_append [of t co "length o'" o'] c by simp
  show ?case
  proof (cases "slice b s cb = slice o' t co")
    case True
    then show ?thesis using a apply_shift [OF st', of s "length b" b] rest o' c by simp
  next
    case False
    then show ?thesis using a rest o' c by (simp add: max_def)
  qed
qed

lemma match_pairs_anchors:
  "sorted_wrt pair_less (match_pairs b o' @ [(length b, length o')])"
  "\<forall>(x, y) \<in> set (match_pairs b o'). x < length b \<and> y < length o' \<and> b ! x = o' ! y"
  using matches_sorted [of 0 0 b o'] matches_bounds [of _ _ 0 0 b o']
  by (auto simp: match_pairs_def sorted_wrt_append)

lemma diff_hunks_ok: "hunks_ok (length b) (diff_hunks b o')"
  unfolding diff_hunks_from using match_pairs_anchors [of b o'] by (intro hunks_from_ok) auto

lemma apply_diff_hunks: "apply_hunks b (length b) (diff_hunks b o') 0 = o'"
  unfolding diff_hunks_from using apply_hunks_from [OF match_pairs_anchors(1,2), where s = 0 and t = 0] by simp

end
