(* ===== verification/Diff3_Clusters.thy ===== *)
theory Diff3_Clusters
  imports Diff3_Hunks "HOL-Library.Multiset"
begin

text \<open>
  The clustering half of the three-way merge. The parent array stays a forest, so both loops of
  \<^verbatim>\<open>find\<close> end; the clusters are the connected components of the interaction relation. The locale
  \<open>hunk_clustering\<close> is what the merge needs to know of them, whatever computes them.
\<close>

section \<open>The union-find forest\<close>

text \<open>\<open>steps p k x r\<close>: following parents from \<open>x\<close> reaches the root \<open>r\<close> after \<open>k\<close> steps.\<close>

primrec steps :: "nat list \<Rightarrow> nat \<Rightarrow> nat \<Rightarrow> nat \<Rightarrow> bool" where
  "steps p 0 x r \<longleftrightarrow> p ! x = x \<and> x = r"
| "steps p (Suc k) x r \<longleftrightarrow> p ! x \<noteq> x \<and> steps p k (p ! x) r"

definition leads :: "nat list \<Rightarrow> nat \<Rightarrow> nat \<Rightarrow> bool" where
  "leads p x r \<longleftrightarrow> (\<exists>k. steps p k x r)"

definition forest :: "nat list \<Rightarrow> bool" where
  "forest p \<longleftrightarrow> (\<forall>x < length p. p ! x < length p \<and> (\<exists>r. leads p x r))"

lemma steps_unique: "steps p k x r \<Longrightarrow> steps p l x s \<Longrightarrow> k = l \<and> r = s"
proof (induction k arbitrary: x l)
  case 0
  then show ?case by (cases l) auto
next
  case (Suc k)
  then show ?case by (cases l) auto
qed

lemma leads_unique: "leads p x r \<Longrightarrow> leads p x s \<Longrightarrow> r = s"
  by (auto simp: leads_def dest: steps_unique)

lemma leads_same: "leads p x a \<Longrightarrow> leads p y b \<Longrightarrow> (\<exists>r. leads p x r \<and> leads p y r) \<longleftrightarrow> a = b"
  using leads_unique by blast

lemma steps_root: "steps p k x r \<Longrightarrow> p ! r = r"
  by (induction k arbitrary: x) auto

lemma leads_self: "p ! r = r \<Longrightarrow> leads p r r"
  unfolding leads_def by (rule exI [of _ 0]) simp

lemma leads_root: "leads p x r \<Longrightarrow> p ! r = r"
  by (auto simp: leads_def steps_root)

lemma leads_bound: "forest p \<Longrightarrow> x < length p \<Longrightarrow> leads p x r \<Longrightarrow> r < length p"
proof -
  assume f: "forest p" and x: "x < length p" and l: "leads p x r"
  have "steps p k y r \<Longrightarrow> y < length p \<Longrightarrow> r < length p" for k y
    using f by (induction k arbitrary: y) (auto simp: forest_def)
  with l x show ?thesis by (auto simp: leads_def)
qed

lemma find_root_leads: "leads p x r \<Longrightarrow> find_root p x = Some r"
proof -
  have "steps p k x r \<Longrightarrow> find_root p x = Some r" for k
    by (induction k arbitrary: x) (auto simp: find_root.simps [of p])
  then show "leads p x r \<Longrightarrow> find_root p x = Some r" by (auto simp: leads_def)
qed

text \<open>Pointing a node at its root only shortens paths; pointing a root at another moves its tree.\<close>

lemma shorten:
  assumes "steps p m c r" "p ! c \<noteq> c" "c < length p"
  shows "steps p k y s \<Longrightarrow> \<exists>k' \<le> k. steps (p[c := r]) k' y s"
proof (induction k arbitrary: y)
  case 0
  then have "y \<noteq> c" using assms(2) by auto
  with 0 show ?case by auto
next
  case (Suc k)
  show ?case
  proof (cases "y = c")
    case True
    then have "s = r" using steps_unique [OF Suc.prems] assms(1) by blast
    moreover have "p ! r = r" "r \<noteq> c" using steps_root [OF assms(1)] assms(2) by auto
    ultimately have "steps (p[c := r]) 1 y s" using True assms(3) by simp
    then show ?thesis by (metis One_nat_def Suc_le_mono le0)
  next
    case False
    then obtain k' where "k' \<le> k" "steps (p[c := r]) k' (p ! y) s" using Suc by auto
    with False Suc.prems show ?thesis by (intro exI [of _ "Suc k'"]) simp
  qed
qed

lemma leads_union:
  assumes "p ! ri = ri" "p ! rj = rj" "ri \<noteq> rj" "ri < length p" "leads p y s"
  shows "leads (p[ri := rj]) y (if s = ri then rj else s)"
proof -
  have rj: "leads (p[ri := rj]) rj rj" using assms by (intro leads_self) simp
  then have ri: "leads (p[ri := rj]) ri rj"
    using assms by (auto simp: leads_def intro: exI [of _ "Suc _"])
  have "steps p k y s \<Longrightarrow> leads (p[ri := rj]) y (if s = ri then rj else s)" for k
  proof (induction k arbitrary: y)
    case 0
    then show ?case using ri leads_self [of "p[ri := rj]" y] by auto
  next
    case (Suc k)
    then have "y \<noteq> ri" using assms(1) by auto
    then obtain l where "steps (p[ri := rj]) l (p ! y) (if s = ri then rj else s)"
      using Suc by (auto simp: leads_def)
    with \<open>y \<noteq> ri\<close> Suc.prems show ?case unfolding leads_def by (intro exI [of _ "Suc l"]) simp
  qed
  with assms(5) show ?thesis by (auto simp: leads_def)
qed

definition same_leads :: "nat list \<Rightarrow> nat list \<Rightarrow> bool" where
  "same_leads p p' \<longleftrightarrow> length p' = length p \<and> forest p' \<and> (\<forall>y < length p. \<forall>s. leads p' y s \<longleftrightarrow> leads p y s)"

lemma same_leadsI:
  assumes "forest p" "length p' = length p" "\<forall>y < length p. p' ! y < length p"
    and "\<And>y s. y < length p \<Longrightarrow> leads p y s \<Longrightarrow> leads p' y s"
  shows "same_leads p p'"
  unfolding same_leads_def forest_def using assms leads_unique unfolding forest_def by metis

lemma compress_ok:
  "forest p \<Longrightarrow> c < length p \<Longrightarrow> steps p k c r \<Longrightarrow> \<exists>p'. compress p c r = Some p' \<and> same_leads p p'"
proof (induction k arbitrary: p c rule: less_induct)
  case (less k)
  show ?case
  proof (cases "p ! c = r")
    case True
    then show ?thesis using less.prems by (simp add: compress.simps [of p] same_leads_def)
  next
    case False
    then obtain k0 where k0: "k = Suc k0" "p ! c \<noteq> c" "steps p k0 (p ! c) r"
      using less.prems(3) by (cases k) auto
    let ?p = "p[c := r]"
    have r: "r < length p" using leads_bound [OF less.prems(1,2)] less.prems(3) by (auto simp: leads_def)
    have sl: "same_leads p ?p"
    proof (rule same_leadsI [OF less.prems(1)])
      show "\<forall>y < length p. ?p ! y < length p" using less.prems(1,2) r by (auto simp: forest_def nth_list_update)
      show "leads ?p y s" if "leads p y s" for y s
        using that shorten [OF less.prems(3) k0(2) less.prems(2)] by (fastforce simp: leads_def)
    qed simp
    obtain k' where "k' \<le> k0" "steps ?p k' (p ! c) r"
      using shorten [OF less.prems(3) k0(2) less.prems(2) k0(3)] by blast
    with less.IH [of k' ?p "p ! c"] k0(1) sl less.prems(1,2) obtain p' where
      "compress ?p (p ! c) r = Some p'" "same_leads ?p p'" by (auto simp: same_leads_def forest_def)
    with False sl show ?thesis by (auto simp: compress.simps [of p] same_leads_def)
  qed
qed

lemma uf_find_ok:
  assumes "forest p" "x < length p"
  shows "\<exists>r p'. uf_find p x = Some (r, p') \<and> leads p x r \<and> r < length p \<and> same_leads p p'"
proof -
  obtain r where r: "leads p x r" using assms by (auto simp: forest_def)
  then obtain p' where "compress p x r = Some p'" "same_leads p p'"
    using compress_ok [OF assms] by (auto simp: leads_def)
  with r find_root_leads [OF r] leads_bound [OF assms r] show ?thesis by (simp add: uf_find_def)
qed

section \<open>Connected components\<close>

definition conn :: "(nat \<times> nat) set \<Rightarrow> (nat \<times> nat) set" where
  "conn E = (E \<union> E\<inverse>)\<^sup>*"

lemma conn_refl [simp]: "(x, x) \<in> conn E"
  by (simp add: conn_def)

lemma conn_sym: "(x, y) \<in> conn E \<Longrightarrow> (y, x) \<in> conn E"
  unfolding conn_def by (metis converse_Un converse_converse converse_iff rtrancl_converse sup_commute)

lemma conn_trans: "(x, y) \<in> conn E \<Longrightarrow> (y, z) \<in> conn E \<Longrightarrow> (x, z) \<in> conn E"
  unfolding conn_def by (rule rtrancl_trans)

lemma conn_mono: "E \<subseteq> F \<Longrightarrow> (x, y) \<in> conn E \<Longrightarrow> (x, y) \<in> conn F"
  unfolding conn_def by (meson Un_mono converse_mono rtrancl_mono subsetD)

lemma conn_edge: "(x, y) \<in> E \<Longrightarrow> (x, y) \<in> conn E"
  unfolding conn_def by blast

lemma conn_insert:
  "(x, y) \<in> conn (insert (i, j) E) \<longleftrightarrow>
     (x, y) \<in> conn E \<or> (x, i) \<in> conn E \<and> (j, y) \<in> conn E \<or> (x, j) \<in> conn E \<and> (i, y) \<in> conn E"
proof
  assume "(x, y) \<in> conn (insert (i, j) E)"
  then show "(x, y) \<in> conn E \<or> (x, i) \<in> conn E \<and> (j, y) \<in> conn E \<or> (x, j) \<in> conn E \<and> (i, y) \<in> conn E"
    unfolding conn_def [of "insert (i, j) E"]
  proof (induction rule: rtrancl_induct)
    case (step y z)
    from step(2) consider "(y, z) = (i, j)" | "(y, z) = (j, i)" | "(y, z) \<in> conn E"
      using conn_edge [of _ _ E] conn_sym [of _ _ E] by (auto simp: converse_iff)
    then show ?case
    proof cases
      case 3
      with step(3) show ?thesis by (metis conn_trans)
    qed (use step(3) conn_refl in \<open>auto intro: conn_trans conn_sym\<close>)
  qed simp
next
  have m: "(a, b) \<in> conn E \<Longrightarrow> (a, b) \<in> conn (insert (i, j) E)" for a b by (rule conn_mono [of E]) blast
  have e: "(i, j) \<in> conn (insert (i, j) E)" by (rule conn_edge) simp
  assume "(x, y) \<in> conn E \<or> (x, i) \<in> conn E \<and> (j, y) \<in> conn E \<or> (x, j) \<in> conn E \<and> (i, y) \<in> conn E"
  then show "(x, y) \<in> conn (insert (i, j) E)" using m e conn_sym [OF e] by (metis conn_trans)
qed

text \<open>The forest has the components of the edges seen so far.\<close>

definition uf_inv :: "nat \<Rightarrow> nat list \<Rightarrow> (nat \<times> nat) set \<Rightarrow> bool" where
  "uf_inv n p E \<longleftrightarrow> forest p \<and> length p = n
     \<and> (\<forall>x < n. \<forall>y < n. (\<exists>r. leads p x r \<and> leads p y r) \<longleftrightarrow> (x, y) \<in> conn E)"

lemma uf_inv_init: "uf_inv n [0..<n] {}"
proof -
  have "leads [0..<n] x r \<longleftrightarrow> r = x" if "x < n" for x r
    using that leads_self [of "[0..<n]" x] leads_unique [of "[0..<n]" x] by fastforce
  then show ?thesis by (auto simp: uf_inv_def forest_def conn_def)
qed

lemma uf_inv_same: "uf_inv n p E \<Longrightarrow> same_leads p p' \<Longrightarrow> uf_inv n p' E"
  by (auto simp: uf_inv_def same_leads_def)

lemma uf_inv_union:
  assumes "uf_inv n p E" "i < n" "j < n" "leads p i ri" "leads p j rj"
  shows "uf_inv n (if ri \<noteq> rj then p[ri := rj] else p) (insert (i, j) E)"
proof -
  have f: "forest p" "length p = n" using assms(1) by (auto simp: uf_inv_def)
  have eqv: "(x, y) \<in> conn E \<longleftrightarrow> (\<exists>r. leads p x r \<and> leads p y r)" if "x < n" "y < n" for x y
    using assms(1) that by (simp add: uf_inv_def)
  show ?thesis
  proof (cases "ri = rj")
    case True
    then have "(i, j) \<in> conn E" using eqv assms by auto
    then have "(x, y) \<in> conn (insert (i, j) E) \<longleftrightarrow> (x, y) \<in> conn E" for x y
      unfolding conn_insert by (metis conn_sym conn_trans)
    with True assms(1) show ?thesis by (simp add: uf_inv_def)
  next
    case False
    let ?p = "p[ri := rj]" and ?f = "\<lambda>s. if s = ri then rj else s"
    have b: "ri < n" "rj < n" using leads_bound [OF f(1)] assms f(2) by auto
    have l: "leads ?p y (?f s)" if "leads p y s" for y s
      using leads_union [OF leads_root [OF assms(4)] leads_root [OF assms(5)] False _ that] b f(2) by simp
    have ex: "\<exists>r. leads p x r" if "x < n" for x using f that by (auto simp: forest_def)
    have "\<exists>r. leads ?p x r" if "x < n" for x using ex [OF that] l by blast
    then have f': "forest ?p" using f b by (simp add: forest_def nth_list_update)
    have "(\<exists>r. leads ?p x r \<and> leads ?p y r) \<longleftrightarrow> (x, y) \<in> conn (insert (i, j) E)" if xy: "x < n" "y < n" for x y
    proof -
      obtain rx ry where r: "leads p x rx" "leads p y ry" using ex xy by blast
      have "(\<exists>r. leads ?p x r \<and> leads ?p y r) \<longleftrightarrow> ?f rx = ?f ry"
        by (rule leads_same [OF l [OF r(1)] l [OF r(2)]])
      moreover have "(a, b) \<in> conn E \<longleftrightarrow> ra = rb" if "leads p a ra" "leads p b rb" "a < n" "b < n" for a b ra rb
        using eqv [OF that(3,4)] leads_same [OF that(1,2)] by simp
      note c = this [OF r(1,2)] this [OF r(1) assms(4)] this [OF assms(5) r(2)] this [OF r(1) assms(5)] this [OF assms(4) r(2)]
      ultimately show ?thesis unfolding conn_insert using c xy assms(2,3) False by auto
    qed
    with f f' False show ?thesis by (simp add: uf_inv_def)
  qed
qed

definition edge :: "(side \<times> hunk) list \<Rightarrow> nat \<Rightarrow> nat \<Rightarrow> bool" where
  "edge all i j \<longleftrightarrow> fst (all ! i) \<noteq> fst (all ! j) \<and> interacts (snd (all ! i)) (snd (all ! j))"

lemma unite_ok:
  "uf_inv n p E \<Longrightarrow> \<forall>(i, j) \<in> set ps. i < n \<and> j < n \<Longrightarrow>
     \<exists>p'. unite all ps p = Some p' \<and> uf_inv n p' (E \<union> {(i, j). (i, j) \<in> set ps \<and> edge all i j})"
proof (induction ps arbitrary: p E)
  case (Cons ij ps)
  obtain i j where ij: "ij = (i, j)" by (cases ij)
  with Cons.prems(2) have b: "i < n" "j < n" and ps: "\<forall>(i, j) \<in> set ps. i < n \<and> j < n" by auto
  have f: "forest p" "length p = n" using Cons.prems(1) by (auto simp: uf_inv_def)
  show ?case
  proof (cases "edge all i j")
    case False
    have "{(a, b). (a, b) \<in> set (ij # ps) \<and> edge all a b} = {(a, b). (a, b) \<in> set ps \<and> edge all a b}"
      using False ij by auto
    moreover have "unite all (ij # ps) p = unite all ps p" using False ij by (auto simp: edge_def)
    ultimately show ?thesis using Cons.IH [OF Cons.prems(1) ps] by simp
  next
    case True
    obtain ri p1 where 1: "uf_find p i = Some (ri, p1)" "leads p i ri" "same_leads p p1"
      using uf_find_ok [OF f(1), of i] b f(2) by auto
    have i1: "uf_inv n p1 E" using uf_inv_same [OF Cons.prems(1) 1(3)] .
    obtain rj p2 where 2: "uf_find p1 j = Some (rj, p2)" "leads p1 j rj" "same_leads p1 p2"
      using uf_find_ok [of p1 j] i1 b by (auto simp: uf_inv_def)
    have i2: "uf_inv n p2 E" using uf_inv_same [OF i1 2(3)] .
    have "leads p2 i ri" "leads p2 j rj" using 1 2 b f(2) by (auto simp: same_leads_def)
    from Cons.IH [OF uf_inv_union [OF i2 b this] ps] 1(1) 2(1) ij True
    have "\<exists>p'. unite all (ij # ps) p = Some p'
        \<and> uf_inv n p' (insert (i, j) E \<union> {(i, j). (i, j) \<in> set ps \<and> edge all i j})"
      by (simp add: edge_def)
    moreover have "insert (i, j) E \<union> {(i, j). (i, j) \<in> set ps \<and> edge all i j}
        = E \<union> {(a, b). (a, b) \<in> set (ij # ps) \<and> edge all a b}" using True ij by auto
    ultimately show ?thesis by simp
  qed
qed simp

section \<open>Buckets\<close>

lemma bt_insert_mset:
  "bt_ok g \<Longrightarrow> mset (concat (map snd (bt_insert r (case_option [] id (map_of g r) @ [i]) g)))
     = add_mset i (mset (concat (map snd g)))"
proof (induction g)
  case (Cons a g)
  obtain k v where a: "a = (k, v)" by (cases a)
  show ?case
  proof (cases "r < k")
    case True
    then have "map_of g r = None" using Cons.prems a by (force simp: map_of_eq_None_iff)
    with True a show ?thesis by simp
  next
    case False
    with Cons a show ?thesis by (cases "r = k") simp_all
  qed
qed simp

lemma bt_insert_mem: "bt_ok g \<Longrightarrow> (k, v) \<in> set (bt_insert r w g) \<Longrightarrow> k = r \<and> v = w \<or> (k, v) \<in> set g"
  by (induction r w g rule: bt_insert.induct) (auto split: if_splits)

definition groups_ok :: "nat list \<Rightarrow> (nat, nat list) btree \<Rightarrow> bool" where
  "groups_ok p g \<longleftrightarrow> bt_ok g \<and> (\<forall>(r, l) \<in> set g. l \<noteq> [] \<and> (\<forall>i \<in> set l. i < length p \<and> leads p i r))"

lemma groups_ok_insert:
  assumes "groups_ok p g" "i < length p" "leads p i r"
  shows "groups_ok p (bt_insert r (case_option [] id (map_of g r) @ [i]) g)"
proof -
  have ok: "bt_ok g" using assms(1) by (simp add: groups_ok_def)
  have old: "\<forall>j \<in> set (case_option [] id (map_of g r)). j < length p \<and> leads p j r"
  proof (cases "map_of g r")
    case (Some l)
    with assms(1) map_of_SomeD [OF Some] show ?thesis unfolding groups_ok_def by auto
  qed simp
  show ?thesis unfolding groups_ok_def
  proof (intro conjI)
    show "bt_ok (bt_insert r (case_option [] id (map_of g r) @ [i]) g)" using ok by simp
    show "\<forall>(k, l) \<in> set (bt_insert r (case_option [] id (map_of g r) @ [i]) g). l \<noteq> [] \<and> (\<forall>i \<in> set l. i < length p \<and> leads p i k)"
    proof clarify
      fix k l assume "(k, l) \<in> set (bt_insert r (case_option [] id (map_of g r) @ [i]) g)"
      from bt_insert_mem [OF ok this] show "l \<noteq> [] \<and> (\<forall>i \<in> set l. i < length p \<and> leads p i k)"
      proof
        assume "(k, l) \<in> set g"
        with assms(1) show ?thesis unfolding groups_ok_def by auto
      qed (use old assms in auto)
    qed
  qed
qed

lemma groups_ok_same: "same_leads p p' \<Longrightarrow> groups_ok p g \<longleftrightarrow> groups_ok p' g"
proof -
  assume s: "same_leads p p'"
  then have "(\<forall>i \<in> set l. i < length p \<and> leads p i r) \<longleftrightarrow> (\<forall>i \<in> set l. i < length p' \<and> leads p' i r)" for l r
    by (auto simp: same_leads_def)
  then show ?thesis by (simp add: groups_ok_def)
qed

lemma bucket_ok:
  "forest p \<Longrightarrow> groups_ok p g \<Longrightarrow> \<forall>i \<in> set is. i < length p \<Longrightarrow>
     \<exists>g'. bucket is p g = Some g' \<and> groups_ok p g' \<and> mset (concat (map snd g')) = mset (concat (map snd g)) + mset is"
proof (induction "is" arbitrary: p g)
  case (Cons i "is")
  obtain r p1 where 1: "uf_find p i = Some (r, p1)" "leads p i r" "same_leads p p1"
    using uf_find_ok [OF Cons.prems(1), of i] Cons.prems(3) by auto
  let ?g = "bt_insert r (case_option [] id (map_of g r) @ [i]) g"
  have "groups_ok p1 ?g" "forest p1" "\<forall>i \<in> set is. i < length p1"
    using groups_ok_insert [OF Cons.prems(2) _ 1(2)] groups_ok_same [OF 1(3)] 1(3) Cons.prems(3)
    by (auto simp: same_leads_def)
  with Cons.IH [of p1 ?g] obtain g' where "bucket is p1 ?g = Some g'" "groups_ok p1 g'"
    "mset (concat (map snd g')) = mset (concat (map snd ?g)) + mset is" by blast
  moreover have "mset (concat (map snd ?g)) = add_mset i (mset (concat (map snd g)))"
    using Cons.prems(2) by (intro bt_insert_mset) (simp add: groups_ok_def)
  ultimately show ?case using 1(1) groups_ok_same [OF 1(3)] by simp
qed simp

section \<open>The contract of clustering\<close>

definition edges :: "(side \<times> hunk) list \<Rightarrow> (nat \<times> nat) set" where
  "edges all = {(i, j). i < length all \<and> j < length all \<and> edge all i j}"

lemma interacts_sym: "interacts a b = interacts b a"
  by (auto simp: interacts_def split: bool.splits)

lemma edge_sym: "edge all i j = edge all j i"
  by (auto simp: edge_def interacts_sym)

text \<open>The hunks of each side are disjoint and not even adjacent.\<close>

definition sides_ok :: "nat \<Rightarrow> (side \<times> hunk) list \<Rightarrow> bool" where
  "sides_ok n all \<longleftrightarrow>
     (\<forall>i < length all. base_start (snd (all ! i)) \<le> base_end (snd (all ! i)) \<and> base_end (snd (all ! i)) \<le> n)
     \<and> (\<forall>i < length all. \<forall>j < length all. i \<noteq> j \<longrightarrow> fst (all ! i) = fst (all ! j) \<longrightarrow>
          base_end (snd (all ! i)) < base_start (snd (all ! j)) \<or> base_end (snd (all ! j)) < base_start (snd (all ! i)))"

lemma not_sorted_wrt: "\<not> sorted_wrt P xs \<Longrightarrow> \<exists>us x vs y ws. xs = us @ x # vs @ y # ws \<and> \<not> P x y"
proof (induction xs)
  case (Cons x xs)
  show ?case
  proof (cases "sorted_wrt P xs")
    case True
    then obtain y where "y \<in> set xs" "\<not> P x y" using Cons.prems by auto
    then show ?thesis by (metis append_Nil split_list)
  next
    case False
    with Cons.IH show ?thesis by (metis append_Cons)
  qed
qed simp

locale hunk_clustering =
  fixes clusters_of :: "(side \<times> hunk) list \<Rightarrow> nat list list option"
  assumes returns: "\<exists>cs. clusters_of all = Some cs"
    and partition: "clusters_of all = Some cs \<Longrightarrow> mset (concat cs) = mset [0..<length all]"
    and nonempty: "clusters_of all = Some cs \<Longrightarrow> c \<in> set cs \<Longrightarrow> c \<noteq> []"
    and connected: "clusters_of all = Some cs \<Longrightarrow> c \<in> set cs \<Longrightarrow> i \<in> set c \<Longrightarrow> j \<in> set c \<Longrightarrow> (i, j) \<in> (edges all)\<^sup>*"
    and closed: "clusters_of all = Some cs \<Longrightarrow> c \<in> set cs \<Longrightarrow> d \<in> set cs \<Longrightarrow> i \<in> set c \<Longrightarrow> j \<in> set d \<Longrightarrow>
      (i, j) \<in> edges all \<Longrightarrow> c = d"
    and ordered: "clusters_of all = Some cs \<Longrightarrow> sorted (map (cluster_lo all) cs)"
begin

lemma index_bound: "clusters_of all = Some cs \<Longrightarrow> c \<in> set cs \<Longrightarrow> i \<in> set c \<Longrightarrow> i < length all"
  using mset_eq_setD [OF partition, of all cs] by fastforce

lemma clusters_disjoint:
  assumes "clusters_of all = Some cs" "cs = xs @ c # ys @ d # zs" "i \<in> set c" "j \<in> set d"
  shows "i \<noteq> j"
proof -
  have "distinct (concat cs)"
    using partition [OF assms(1)] by (metis distinct_upt mset_eq_imp_distinct_iff)
  with assms show ?thesis by auto
qed

lemma window_bounds:
  assumes "clusters_of all = Some cs" "c \<in> set cs" "i \<in> set c"
  shows "cluster_lo all c \<le> base_start (snd (all ! i))" "base_end (snd (all ! i)) \<le> cluster_hi all c"
  using assms by (auto simp: cluster_lo_def cluster_hi_def)

lemma window_attained:
  assumes "clusters_of all = Some cs" "c \<in> set cs"
  obtains i j where "i \<in> set c" "j \<in> set c" "base_start (snd (all ! i)) = cluster_lo all c"
    "base_end (snd (all ! j)) = cluster_hi all c"
proof -
  let ?s = "(\<lambda>i. base_start (snd (all ! i))) ` set c" and ?e = "(\<lambda>i. base_end (snd (all ! i))) ` set c"
  have "?s \<noteq> {}" "?e \<noteq> {}" using nonempty [OF assms] by auto
  then have "Min ?s \<in> ?s" "Max ?e \<in> ?e" by simp_all
  then show ?thesis using that by (auto simp: cluster_lo_def cluster_hi_def)
qed

text \<open>A connected cluster that reaches across a position has a hunk that covers it.\<close>

lemma covering_hunk:
  assumes "clusters_of all = Some cs" "c \<in> set cs" "cluster_lo all c \<le> s" "s < cluster_hi all c"
  obtains k where "k \<in> set c" "base_start (snd (all ! k)) \<le> s" "s < base_end (snd (all ! k))"
proof -
  obtain i j where ij: "i \<in> set c" "j \<in> set c" "base_start (snd (all ! i)) \<le> s" "s < base_end (snd (all ! j))"
    using window_attained [OF assms(1,2)] assms(3,4) by metis
  have "(i, j) \<in> (edges all)\<^sup>*" using connected [OF assms(1,2) ij(1,2)] .
  then have "j \<in> set c \<and> ((\<exists>k \<in> set c. base_start (snd (all ! k)) \<le> s \<and> s < base_end (snd (all ! k)))
      \<or> base_start (snd (all ! j)) \<le> s)"
  proof (induction rule: rtrancl_induct)
    case base
    with ij show ?case by simp
  next
    case (step y z)
    have z: "z \<in> set c"
    proof -
      have "z \<in> set (concat cs)"
        using step(2) mset_eq_setD [OF partition [OF assms(1)]] by (simp add: edges_def)
      then obtain d where "d \<in> set cs" "z \<in> set d" by auto
      with closed [OF assms(1,2) this(1)] step(2,3) show ?thesis by blast
    qed
    have "base_start (snd (all ! z)) \<le> base_end (snd (all ! y))"
      using step(2) by (auto simp: edges_def edge_def interacts_def split: bool.splits)
    with step(3) z show ?case by (metis linorder_not_le order_trans)
  qed
  with ij that show ?thesis by blast
qed

lemma windows_ordered:
  assumes "clusters_of all = Some cs" "sides_ok n all"
  shows "sorted_wrt (\<lambda>c d. cluster_hi all c \<le> cluster_lo all d) cs"
proof (rule ccontr)
  assume "\<not> ?thesis"
  then obtain xs c ys d zs where cs: "cs = xs @ c # ys @ d # zs" and lt: "cluster_lo all d < cluster_hi all c"
    using not_sorted_wrt not_le by metis
  then have mem: "c \<in> set cs" "d \<in> set cs" by auto
  obtain j where j: "j \<in> set d" "base_start (snd (all ! j)) = cluster_lo all d"
    using window_attained [OF assms(1) mem(2)] by metis
  have "cluster_lo all c \<le> cluster_lo all d" using ordered [OF assms(1)] by (auto simp: cs sorted_append)
  then obtain k where k: "k \<in> set c" "base_start (snd (all ! k)) \<le> cluster_lo all d" "cluster_lo all d < base_end (snd (all ! k))"
    using covering_hunk [OF assms(1) mem(1) _ lt] by blast
  have ne: "k \<noteq> j" using clusters_disjoint [OF assms(1) cs k(1) j(1)] .
  have b: "k < length all" "j < length all" using index_bound [OF assms(1)] mem j k by auto
  have le: "base_start (snd (all ! j)) \<le> base_end (snd (all ! j))" using assms(2) b by (simp add: sides_ok_def)
  show False
  proof (cases "fst (all ! k) = fst (all ! j)")
    case True
    then have "base_end (snd (all ! k)) < base_start (snd (all ! j)) \<or> base_end (snd (all ! j)) < base_start (snd (all ! k))"
      using assms(2) b ne unfolding sides_ok_def by blast
    with j k le show False by linarith
  next
    case False
    then have "(k, j) \<in> edges all" using b j k le by (auto simp: edges_def edge_def interacts_def split: bool.splits)
    with closed [OF assms(1) mem k(1) j(1)] have "c = d" by blast
    with clusters_disjoint [OF assms(1) cs k(1)] k(1) show False by blast
  qed
qed

end

section \<open>The model's clusters meet the contract\<close>

lemma index_pairs_mem: "(i, j) \<in> set (index_pairs n) \<longleftrightarrow> i < j \<and> j < n"
  by (auto simp: index_pairs_def intro!: bexI [of _ i])

lemma conn_edges: "conn {(i, j). (i, j) \<in> set (index_pairs (length all)) \<and> edge all i j} = (edges all)\<^sup>*"
proof -
  have "i = j \<Longrightarrow> \<not> edge all i j" for i j by (simp add: edge_def)
  then have "{(i, j). (i, j) \<in> set (index_pairs (length all)) \<and> edge all i j}
      \<union> {(i, j). (i, j) \<in> set (index_pairs (length all)) \<and> edge all i j}\<inverse> = edges all"
    unfolding index_pairs_mem edges_def by (auto simp: edge_sym) (metis linorder_neqE_nat)
  then show ?thesis by (simp add: conn_def)
qed

lemma mset_concat_perm: "mset xss = mset yss \<Longrightarrow> mset (concat xss) = mset (concat yss)"
  by (metis mset_concat mset_map sum_mset_sum_list)

lemma cluster_hunks_groups:
  "\<exists>p g. uf_inv (length all) p {(i, j). (i, j) \<in> set (index_pairs (length all)) \<and> edge all i j} \<and> groups_ok p g
     \<and> mset (concat (map snd g)) = mset [0..<length all]
     \<and> cluster_hunks all = Some (sort_key (cluster_lo all) (map snd g))"
proof -
  let ?n = "length all"
  obtain p where p: "unite all (index_pairs ?n) [0..<?n] = Some p"
    "uf_inv ?n p {(i, j). (i, j) \<in> set (index_pairs ?n) \<and> edge all i j}"
  proof -
    have "\<forall>(i, j) \<in> set (index_pairs ?n). i < ?n \<and> j < ?n" by (auto simp: index_pairs_mem)
    from unite_ok [OF uf_inv_init this, of all] that show ?thesis by auto
  qed
  then obtain g where "bucket [0..<?n] p [] = Some g" "groups_ok p g" "mset (concat (map snd g)) = mset [0..<?n]"
    using bucket_ok [of p "[]" "[0..<?n]"] by (auto simp: uf_inv_def groups_ok_def)
  with p show ?thesis by (auto simp: cluster_hunks_def Let_def)
qed

interpretation dc: hunk_clustering cluster_hunks
proof
  fix all cs c d i j
  obtain p g where inv: "uf_inv (length all) p {(i, j). (i, j) \<in> set (index_pairs (length all)) \<and> edge all i j}"
    and g: "groups_ok p g" "mset (concat (map snd g)) = mset [0..<length all]"
    and c: "cluster_hunks all = Some (sort_key (cluster_lo all) (map snd g))"
    using cluster_hunks_groups by blast
  then show "\<exists>cs. cluster_hunks all = Some cs" by blast
  assume "cluster_hunks all = Some cs"
  with c have cs: "cs = sort_key (cluster_lo all) (map snd g)" by simp
  show "mset (concat cs) = mset [0..<length all]"
    using mset_concat_perm [of cs "map snd g"] cs g(2) by simp
  show "sorted (map (cluster_lo all) cs)" by (simp add: cs)
  have mem: "\<exists>r. (r, c) \<in> set g" if "c \<in> set cs" for c using that by (auto simp: cs)
  show "c \<noteq> []" if "c \<in> set cs" using mem [OF that] g(1) by (auto simp: groups_ok_def)
  have lead: "(r, c) \<in> set g \<Longrightarrow> i \<in> set c \<Longrightarrow> i < length all \<and> leads p i r" for r c i
    using g(1) inv by (auto simp: groups_ok_def uf_inv_def)
  have eqv: "(\<exists>r. leads p i r \<and> leads p j r) \<longleftrightarrow> (i, j) \<in> (edges all)\<^sup>*" if "i < length all" "j < length all" for i j
    using inv that by (simp add: uf_inv_def conn_edges)
  show "(i, j) \<in> (edges all)\<^sup>*" if "c \<in> set cs" "i \<in> set c" "j \<in> set c"
    using mem [OF that(1)] lead that(2,3) eqv by metis
  show "c = d" if m: "c \<in> set cs" "d \<in> set cs" "i \<in> set c" "j \<in> set d" "(i, j) \<in> edges all"
  proof -
    obtain r s where rs: "(r, c) \<in> set g" "(s, d) \<in> set g" using mem m(1,2) by blast
    then have l: "leads p i r" "leads p j s" "i < length all" "j < length all" using lead m(3,4) by blast+
    then have "r = s" using eqv [OF l(3,4)] m(5) leads_same [OF l(1,2)] by auto
    with rs g(1) show ?thesis by (auto simp: groups_ok_def dest: bt_ok_distinct intro: eq_key_imp_eq_value)
  qed
qed

end
