(* ===== verification/Diff3_Merge.thy ===== *)
theory Diff3_Merge
  imports Diff3_Clusters
begin

text \<open>
  From clusters to merged text: the windows of the clusters cut the base and both sides into the same
  chunks, and the merge resolves each chunk on its own.
\<close>

section \<open>Windows\<close>

fun windows_ok :: "(side \<times> hunk) list \<Rightarrow> nat \<Rightarrow> nat list list \<Rightarrow> nat \<Rightarrow> bool" where
  "windows_ok all n [] bi \<longleftrightarrow> bi \<le> n"
| "windows_ok all n (c # cs) bi \<longleftrightarrow> bi \<le> cluster_lo all c \<and> cluster_lo all c \<le> cluster_hi all c
     \<and> (\<forall>i \<in> set c. cluster_lo all c \<le> base_start (snd (all ! i)) \<and> base_start (snd (all ! i)) \<le> base_end (snd (all ! i))
          \<and> base_end (snd (all ! i)) \<le> cluster_hi all c)
     \<and> windows_ok all n cs (cluster_hi all c)"

lemma windows_ok_le: "windows_ok all n cs bi \<Longrightarrow> bi \<le> n"
  by (induction cs arbitrary: bi) force+

lemma windows_ok_start:
  "windows_ok all n cs bi \<Longrightarrow> c \<in> set cs \<Longrightarrow> i \<in> set c \<Longrightarrow> bi \<le> base_start (snd (all ! i))"
  by (induction cs arbitrary: bi) force+

definition side_all :: "(side \<times> hunk) list \<Rightarrow> side \<Rightarrow> hunk list" where
  "side_all all sd = map snd (filter (\<lambda>p. fst p = sd) all)"

definition side_sorted :: "(side \<times> hunk) list \<Rightarrow> side \<Rightarrow> nat list \<Rightarrow> hunk list" where
  "side_sorted all sd c = sort_key (\<lambda>h. (base_start h, base_end h)) (side_hunks all c sd)"

lemma side_sorted_mem: "h \<in> set (side_sorted all sd c) \<longleftrightarrow> (\<exists>i \<in> set c. fst (all ! i) = sd \<and> h = snd (all ! i))"
  by (auto simp: side_sorted_def side_hunks_def)

lemma side_sorted_sorted: "sorted (map base_start (side_sorted all sd c))"
proof -
  have "sorted (map (\<lambda>h. (base_start h, base_end h)) (side_sorted all sd c))" by (simp add: side_sorted_def)
  then show ?thesis unfolding sorted_map by (rule sorted_wrt_mono_rel [rotated]) auto
qed

lemma windows_sorted:
  "windows_ok all n cs bi \<Longrightarrow> sorted (map base_start (concat (map (side_sorted all sd) cs)))"
proof (induction cs arbitrary: bi)
  case (Cons c cs)
  have "base_start h \<le> base_start k"
    if hk: "h \<in> set (side_sorted all sd c)" "k \<in> set (concat (map (side_sorted all sd) cs))" for h k
  proof -
    obtain i where i: "i \<in> set c" "h = snd (all ! i)" using hk(1) by (auto simp: side_sorted_mem)
    obtain d j where j: "d \<in> set cs" "j \<in> set d" "k = snd (all ! j)" using hk(2) by (auto simp: side_sorted_mem)
    have "base_start h \<le> cluster_hi all c" using Cons.prems i by force
    also have "\<dots> \<le> base_start k" using windows_ok_start [of all n cs "cluster_hi all c" d j] Cons.prems j by simp
    finally show ?thesis .
  qed
  with Cons side_sorted_sorted [of all sd c] show ?case by (fastforce simp: sorted_append)
qed simp

lemma hunks_ok_starts:
  assumes "hunks_ok n hs"
  shows "sorted (map base_start hs)" "distinct (map base_start hs)"
proof -
  have "sorted_wrt (\<lambda>a b. base_start a < base_start b) hs"
    using assms unfolding hunks_ok_def by (auto intro: sorted_wrt_mono_rel [rotated] order_le_less_trans)
  then show "sorted (map base_start hs)" "distinct (map base_start hs)"
    using strict_sorted_iff [of "map base_start hs"] by (simp_all add: sorted_wrt_map)
qed

context hunk_clustering
begin

lemma clusters_windows:
  assumes "clusters_of all = Some cs" "sides_ok n all"
  shows "windows_ok all n cs 0"
proof -
  have one: "cluster_lo all c \<le> cluster_hi all c \<and> cluster_hi all c \<le> n
      \<and> (\<forall>i \<in> set c. cluster_lo all c \<le> base_start (snd (all ! i)) \<and> base_start (snd (all ! i)) \<le> base_end (snd (all ! i))
          \<and> base_end (snd (all ! i)) \<le> cluster_hi all c)" if c: "c \<in> set cs" for c
  proof -
    obtain i j where ij: "i \<in> set c" "j \<in> set c" "base_end (snd (all ! j)) = cluster_hi all c"
      using window_attained [OF assms(1) c] by metis
    have "base_start (snd (all ! k)) \<le> base_end (snd (all ! k)) \<and> base_end (snd (all ! k)) \<le> n" if "k \<in> set c" for k
      using assms(2) index_bound [OF assms(1) c that] by (simp add: sides_ok_def)
    with window_bounds [OF assms(1) c] ij show ?thesis by (metis order_trans)
  qed
  have "(\<forall>c \<in> set ds. c \<in> set cs) \<Longrightarrow> sorted_wrt (\<lambda>c d. cluster_hi all c \<le> cluster_lo all d) ds \<Longrightarrow>
      \<forall>c \<in> set ds. bi \<le> cluster_lo all c \<Longrightarrow> bi \<le> n \<Longrightarrow> windows_ok all n ds bi" for ds bi
  proof (induction ds arbitrary: bi)
    case (Cons c ds)
    then show ?case using one [of c] by simp
  qed simp
  then show ?thesis using windows_ordered [OF assms] by simp
qed

text \<open>The hunks of one side, cluster by cluster, are the hunks of that side in order.\<close>

lemma side_parts:
  assumes "clusters_of all = Some cs" "sides_ok n all" "hunks_ok m (side_all all sd)"
  shows "concat (map (side_sorted all sd) cs) = side_all all sd"
proof -
  let ?h = "\<lambda>is. map (\<lambda>i. snd (all ! i)) (filter (\<lambda>i. fst (all ! i) = sd) is)"
  have "mset (concat (map (side_sorted all sd) cs)) = mset (?h (concat cs))"
    by (induction cs) (simp_all add: side_sorted_def side_hunks_def)
  also have "\<dots> = mset (?h [0..<length all])"
    using partition [OF assms(1)] by (metis mset_filter mset_map)
  also have "?h [0..<length all] = side_all all sd"
  proof -
    have "side_all all sd = map snd (filter (\<lambda>p. fst p = sd) (map ((!) all) [0..<length all]))"
      by (simp add: side_all_def map_nth)
    then show ?thesis by (simp add: filter_map comp_def del: map_nth)
  qed
  finally have m: "mset (concat (map (side_sorted all sd) cs)) = mset (side_all all sd)" .
  show ?thesis
  proof (rule map_sorted_distinct_set_unique [where f = base_start])
    show "sorted (map base_start (concat (map (side_sorted all sd) cs)))"
      using windows_sorted [OF clusters_windows [OF assms(1,2)]] .
    show "set (concat (map (side_sorted all sd) cs)) = set (side_all all sd)" using mset_eq_setD [OF m] .
    show "distinct (map base_start (concat (map (side_sorted all sd) cs)))"
      using hunks_ok_starts(2) [OF assms(3)] m by (metis mset_eq_imp_distinct_iff mset_map)
    show "inj_on base_start (set (concat (map (side_sorted all sd) cs)) \<union> set (side_all all sd))"
      using hunks_ok_starts(2) [OF assms(3)] mset_eq_setD [OF m] by (simp add: distinct_map)
  qed (use hunks_ok_starts [OF assms(3)] in simp_all)
qed

end

section \<open>Chunks\<close>

text \<open>A chunk: the stable lines before it, and its text in the base and on both sides.\<close>

record chunk =
  gap :: "line list"
  c_base :: "line list"
  c_ours :: "line list"
  c_theirs :: "line list"

fun chunks :: "line list \<Rightarrow> (side \<times> hunk) list \<Rightarrow> nat list list \<Rightarrow> nat \<Rightarrow> chunk list" where
  "chunks b all [] bi = []"
| "chunks b all (c # cs) bi =
     (let lo = cluster_lo all c; hi = cluster_hi all c in
      \<lparr>gap = slice b bi lo, c_base = slice b lo hi, c_ours = apply_side b lo hi all c Ours,
       c_theirs = apply_side b lo hi all c Theirs\<rparr> # chunks b all cs hi)"

fun tail_start :: "(side \<times> hunk) list \<Rightarrow> nat list list \<Rightarrow> nat \<Rightarrow> nat" where
  "tail_start all [] bi = bi"
| "tail_start all (c # cs) bi = tail_start all cs (cluster_hi all c)"

definition weave :: "(chunk \<Rightarrow> line list) \<Rightarrow> chunk list \<Rightarrow> line list \<Rightarrow> line list" where
  "weave f ks rest = concat (map (\<lambda>k. gap k @ f k) ks) @ rest"

definition resolved :: "chunk \<Rightarrow> line list" where
  "resolved k = fst (resolve_cluster (c_base k) (c_ours k) (c_theirs k))"

definition chunk_conflict :: "chunk \<Rightarrow> bool" where
  "chunk_conflict k \<longleftrightarrow> c_ours k \<noteq> c_base k \<and> c_theirs k \<noteq> c_base k \<and> c_ours k \<noteq> c_theirs k"

lemma merge_clusters_weave:
  "merge_clusters b all cs bi =
     (weave resolved (chunks b all cs bi) (slice b (tail_start all cs bi) (length b)),
      \<exists>k \<in> set (chunks b all cs bi). chunk_conflict k)"
proof (induction cs arbitrary: bi)
  case (Cons c cs)
  have "snd (resolve_cluster x y z) \<longleftrightarrow> y \<noteq> x \<and> z \<noteq> x \<and> y \<noteq> z" for x y z
    by (auto simp: resolve_cluster_def)
  with Cons show ?case by (simp add: Let_def weave_def resolved_def chunk_conflict_def case_prod_beta)
qed (simp add: weave_def)

lemma weave_base:
  "windows_ok all (length b) cs bi \<Longrightarrow> weave c_base (chunks b all cs bi) (slice b (tail_start all cs bi) (length b)) = drop bi b"
proof (induction cs arbitrary: bi)
  case (Cons c cs)
  have "slice b (cluster_lo all c) (cluster_hi all c) @ drop (cluster_hi all c) b = drop (cluster_lo all c) b"
    "slice b bi (cluster_lo all c) @ drop (cluster_lo all c) b = drop bi b"
    using Cons.prems windows_ok_le [of all "length b" cs "cluster_hi all c"]
      block_append [of "cluster_lo all c" "cluster_hi all c" "length b" b] block_append [of bi "cluster_lo all c" "length b" b]
    by simp_all
  with Cons show ?case by (simp add: weave_def Let_def)
qed (simp add: weave_def)

definition side_text :: "side \<Rightarrow> chunk \<Rightarrow> line list" where
  "side_text sd k = (case sd of Ours \<Rightarrow> c_ours k | Theirs \<Rightarrow> c_theirs k)"

lemma weave_side:
  "windows_ok all (length b) cs bi \<Longrightarrow>
     weave (side_text sd) (chunks b all cs bi) (slice b (tail_start all cs bi) (length b))
       = apply_hunks b (length b) (concat (map (side_sorted all sd) cs)) bi"
proof (induction cs arbitrary: bi)
  case (Cons c cs)
  let ?lo = "cluster_lo all c" and ?hi = "cluster_hi all c" and ?rest = "concat (map (side_sorted all sd) cs)"
  have w: "windows_ok all (length b) cs ?hi" "bi \<le> ?lo" "?lo \<le> ?hi" and le: "?hi \<le> length b"
    using Cons.prems windows_ok_le by auto
  have in_c: "\<forall>h \<in> set (side_sorted all sd c). ?lo \<le> base_start h \<and> base_start h \<le> base_end h \<and> base_end h \<le> ?hi"
    using Cons.prems by (auto simp: side_sorted_mem)
  have rest: "\<forall>h \<in> set ?rest. ?hi \<le> base_start h"
    using windows_ok_start [OF w(1)] by (auto simp: side_sorted_mem)
  have "apply_hunks b (length b) (side_sorted all sd c @ ?rest) bi
      = apply_hunks b ?hi (side_sorted all sd c) bi @ apply_hunks b (length b) ?rest ?hi"
    using in_c rest w le by (intro apply_append) auto
  also have "apply_hunks b ?hi (side_sorted all sd c) bi = slice b bi ?lo @ apply_hunks b ?hi (side_sorted all sd c) ?lo"
    using in_c w by (intro apply_shift) auto
  finally show ?case
    using Cons.IH [OF w(1)] by (cases sd) (simp_all add: weave_def side_text_def Let_def apply_side_def side_sorted_def)
qed (simp add: weave_def)

section \<open>The hunks of a merge\<close>

lemma all_hunks_side: "side_all (all_hunks b o' t) sd = (case sd of Ours \<Rightarrow> diff_hunks b o' | Theirs \<Rightarrow> diff_hunks b t)"
  by (cases sd) (simp_all add: side_all_def all_hunks_def filter_map comp_def)

lemma side_all_ok: "hunks_ok (length b) (side_all (all_hunks b o' t) sd)"
  by (cases sd) (simp_all add: all_hunks_side diff_hunks_ok)

lemma hunks_ok_separated:
  "hunks_ok n hs \<Longrightarrow> i < length hs \<Longrightarrow> j < length hs \<Longrightarrow> i \<noteq> j \<Longrightarrow>
     base_end (hs ! i) < base_start (hs ! j) \<or> base_end (hs ! j) < base_start (hs ! i)"
  unfolding hunks_ok_def sorted_wrt_iff_nth_less by (metis linorder_neqE_nat)

lemma all_hunks_sides_ok: "sides_ok (length b) (all_hunks b o' t)"
proof -
  let ?p = "length (diff_hunks b o')"
  have nth: "i < length (all_hunks b o' t) \<Longrightarrow> all_hunks b o' t ! i =
      (if i < ?p then (Ours, diff_hunks b o' ! i) else (Theirs, diff_hunks b t ! (i - ?p)))" for i
    by (auto simp: all_hunks_def nth_append)
  have len: "length (all_hunks b o' t) = ?p + length (diff_hunks b t)" by (simp add: all_hunks_def)
  have bnd: "\<forall>h \<in> set (diff_hunks b x). base_start h \<le> base_end h \<and> base_end h \<le> length b" for x
    using diff_hunks_ok [of b x] by (simp add: hunks_ok_def)
  show ?thesis unfolding sides_ok_def
  proof (intro conjI allI impI)
    fix i assume "i < length (all_hunks b o' t)"
    then have "snd (all_hunks b o' t ! i) \<in> set (diff_hunks b o') \<union> set (diff_hunks b t)" using nth len by auto
    with bnd show "base_start (snd (all_hunks b o' t ! i)) \<le> base_end (snd (all_hunks b o' t ! i))"
      "base_end (snd (all_hunks b o' t ! i)) \<le> length b" by blast+
  next
    fix i j assume ij: "i < length (all_hunks b o' t)" "j < length (all_hunks b o' t)" "i \<noteq> j"
      "fst (all_hunks b o' t ! i) = fst (all_hunks b o' t ! j)"
    show "base_end (snd (all_hunks b o' t ! i)) < base_start (snd (all_hunks b o' t ! j))
        \<or> base_end (snd (all_hunks b o' t ! j)) < base_start (snd (all_hunks b o' t ! i))"
    proof (cases "i < ?p")
      case True
      with ij nth have "j < ?p" by (auto split: if_splits)
      with True ij nth hunks_ok_separated [OF diff_hunks_ok [of b o'], of i j] show ?thesis by simp
    next
      case False
      with ij nth have "\<not> j < ?p" by (auto split: if_splits)
      with False ij nth len hunks_ok_separated [OF diff_hunks_ok [of b t], of "i - ?p" "j - ?p"] show ?thesis by auto
    qed
  qed
qed

lemma merge_chunks:
  assumes "cluster_hunks (all_hunks b o' t) = Some cs"
  defines "ks \<equiv> chunks b (all_hunks b o' t) cs 0" and "rest \<equiv> slice b (tail_start (all_hunks b o' t) cs 0) (length b)"
  shows "weave c_base ks rest = b" "weave c_ours ks rest = o'" "weave c_theirs ks rest = t"
proof -
  have w: "windows_ok (all_hunks b o' t) (length b) cs 0"
    using dc.clusters_windows [OF assms(1) all_hunks_sides_ok] .
  show "weave c_base ks rest = b" using weave_base [OF w] by (simp add: ks_def rest_def)
  have side: "weave (side_text sd) ks rest = (case sd of Ours \<Rightarrow> o' | Theirs \<Rightarrow> t)" for sd
    using weave_side [OF w, of sd] dc.side_parts [OF assms(1) all_hunks_sides_ok side_all_ok, of sd] apply_diff_hunks
    by (cases sd) (simp_all add: ks_def rest_def all_hunks_side)
  from side [of Ours] side [of Theirs] show "weave c_ours ks rest = o'" "weave c_theirs ks rest = t"
    by (simp_all add: weave_def side_text_def)
qed

section \<open>Chunks that only one side changes\<close>

lemma chunk_mem:
  "k \<in> set (chunks b all cs bi) \<Longrightarrow> \<exists>c \<in> set cs. c_base k = slice b (cluster_lo all c) (cluster_hi all c)
     \<and> c_ours k = apply_hunks b (cluster_hi all c) (side_sorted all Ours c) (cluster_lo all c)
     \<and> c_theirs k = apply_hunks b (cluster_hi all c) (side_sorted all Theirs c) (cluster_lo all c)"
  by (induction cs arbitrary: bi) (auto simp: Let_def apply_side_def side_sorted_def)

lemma side_sorted_Nil: "side_sorted all sd c = [] \<longleftrightarrow> (\<forall>i \<in> set c. fst (all ! i) \<noteq> sd)"
  using side_sorted_mem [of _ all sd c] by (metis list.set_intros(1) neq_Nil_conv list.set_cases)

lemma all_hunks_nth:
  assumes "i < length (all_hunks b o' t)"
  shows "fst (all_hunks b o' t ! i) = Ours \<Longrightarrow> snd (all_hunks b o' t ! i) \<in> set (diff_hunks b o')"
    "fst (all_hunks b o' t ! i) = Theirs \<Longrightarrow> snd (all_hunks b o' t ! i) \<in> set (diff_hunks b t)"
  using nth_mem [OF assms] by (auto simp: all_hunks_def)

lemma conflict_interacts:
  assumes "cluster_hunks (all_hunks b o' t) = Some cs" "k \<in> set (chunks b (all_hunks b o' t) cs bi)" "chunk_conflict k"
  shows "\<exists>h \<in> set (diff_hunks b o'). \<exists>g \<in> set (diff_hunks b t). interacts h g"
proof -
  let ?all = "all_hunks b o' t"
  obtain c where c: "c \<in> set cs" "c_base k = slice b (cluster_lo ?all c) (cluster_hi ?all c)"
    "c_ours k = apply_hunks b (cluster_hi ?all c) (side_sorted ?all Ours c) (cluster_lo ?all c)"
    "c_theirs k = apply_hunks b (cluster_hi ?all c) (side_sorted ?all Theirs c) (cluster_lo ?all c)"
    using chunk_mem [OF assms(2)] by blast
  then have "side_sorted ?all Ours c \<noteq> []" "side_sorted ?all Theirs c \<noteq> []"
    using assms(3) by (auto simp: chunk_conflict_def)
  then obtain i j where ij: "i \<in> set c" "fst (?all ! i) = Ours" "j \<in> set c" "fst (?all ! j) = Theirs"
    by (auto simp: side_sorted_Nil)
  then have "(i, j) \<in> (edges ?all)\<^sup>*" "i \<noteq> j" using dc.connected [OF assms(1) c(1)] by auto
  then obtain y where "(i, y) \<in> edges ?all" by (meson converse_rtranclE)
  then have y: "i < length ?all" "y < length ?all" "fst (?all ! y) \<noteq> Ours" "interacts (snd (?all ! i)) (snd (?all ! y))"
    using ij(2) by (auto simp: edges_def edge_def)
  then have "fst (?all ! y) = Theirs" by (cases "fst (?all ! y)") auto
  with y ij(2) show ?thesis using all_hunks_nth [of i b o' t] all_hunks_nth [of y b o' t] by blast
qed

lemma matches_refl: "p \<in> set (matches i i xs xs) \<Longrightarrow> fst p = snd p"
proof (induction xs arbitrary: i)
  case (Cons x xs)
  then show ?case by auto
qed simp

lemma hunks_from_same: "\<forall>a \<in> set as. fst a = snd a \<Longrightarrow> hunks_from b b (s, s) as = []"
  by (induction as arbitrary: s) auto

lemma diff_hunks_same: "diff_hunks b b = []"
  unfolding diff_hunks_from using matches_refl [of _ 0 b] by (intro hunks_from_same) (auto simp: match_pairs_def)

lemma no_hunks_side:
  assumes "cluster_hunks (all_hunks b o' t) = Some cs" "c \<in> set cs" "side_all (all_hunks b o' t) sd = []"
  shows "side_sorted (all_hunks b o' t) sd c = []"
  using dc.side_parts [OF assms(1) all_hunks_sides_ok side_all_ok, of sd] assms(2,3) by simp

lemma same_hunks_cluster:
  assumes "cluster_hunks (all_hunks b x x) = Some cs" "c \<in> set cs"
  shows "side_sorted (all_hunks b x x) Ours c = side_sorted (all_hunks b x x) Theirs c"
proof -
  let ?all = "all_hunks b x x" and ?p = "length (diff_hunks b x)"
  have len: "length ?all = ?p + ?p" by (simp add: all_hunks_def)
  have o': "?all ! i = (Ours, diff_hunks b x ! i)" and t: "?all ! (?p + i) = (Theirs, diff_hunks b x ! i)" if "i < ?p" for i
    using that by (simp_all add: all_hunks_def nth_append)
  have twin: "i \<in> set c \<longleftrightarrow> ?p + i \<in> set c" if i: "i < ?p" for i
  proof -
    have "base_start (diff_hunks b x ! i) \<le> base_end (diff_hunks b x ! i)"
      using diff_hunks_ok [of b x] i by (simp add: hunks_ok_def)
    then have e: "(i, ?p + i) \<in> edges ?all" using i len
      by (auto simp: edges_def edge_def o' [OF i] t [OF i] interacts_def split: bool.splits)
    have "i \<in> set (concat cs)" "?p + i \<in> set (concat cs)"
      using mset_eq_setD [OF dc.partition [OF assms(1)]] i len by auto
    then obtain d d' where "d \<in> set cs" "i \<in> set d" "d' \<in> set cs" "?p + i \<in> set d'" by auto
    with dc.closed [OF assms(1)] e assms(2) show ?thesis by metis
  qed
  have idx: "j \<in> set c \<Longrightarrow> j < ?p + ?p" for j using dc.index_bound [OF assms] len by simp
  have "set (side_sorted ?all Ours c) = set (side_sorted ?all Theirs c)" (is "?l = ?r")
  proof
    show "?l \<subseteq> ?r"
    proof
      fix h assume "h \<in> ?l"
      then obtain i where i: "i \<in> set c" "fst (?all ! i) = Ours" "h = snd (?all ! i)" by (auto simp: side_sorted_mem)
      then have "i < ?p" using idx [OF i(1)] t [of "i - ?p"] by (cases "i < ?p") auto
      with i twin o' t show "h \<in> ?r" unfolding side_sorted_mem by (metis fst_conv snd_conv)
    qed
    show "?r \<subseteq> ?l"
    proof
      fix h assume "h \<in> ?r"
      then obtain i where i: "i \<in> set c" "fst (?all ! i) = Theirs" "h = snd (?all ! i)" by (auto simp: side_sorted_mem)
      then obtain j where j: "i = ?p + j" "j < ?p"
        using idx [OF i(1)] o' [of i] by (metis add_less_cancel_left fst_conv le_Suc_ex not_le side.distinct(1))
      with i twin o' t show "h \<in> ?l" unfolding side_sorted_mem by (metis fst_conv snd_conv)
    qed
  qed
  moreover have "sorted (map base_start (side_sorted ?all sd c)) \<and> distinct (map base_start (side_sorted ?all sd c))" for sd
  proof -
    have "distinct (map base_start (concat (map (side_sorted ?all sd) cs)))"
      using dc.side_parts [OF assms(1) all_hunks_sides_ok side_all_ok, of sd] hunks_ok_starts(2) [OF side_all_ok, of b x x sd] by simp
    then have "distinct (concat (map (\<lambda>c. map base_start (side_sorted ?all sd c)) cs))" by (simp add: map_concat comp_def)
    then have "distinct (map base_start (side_sorted ?all sd c))" using assms(2) by (simp add: distinct_concat_iff)
    with side_sorted_sorted show ?thesis by blast
  qed
  ultimately show ?thesis
    by (intro map_sorted_distinct_set_unique [where f = base_start]) (simp_all add: distinct_map)
qed

text \<open>The merged lines when one side is unchanged, or both agree.\<close>

lemma merge_clusters_trivial:
  assumes "cluster_hunks (all_hunks b o' t) = Some cs" "t = b \<or> o' = b \<or> o' = t"
  shows "merge_clusters b (all_hunks b o' t) cs 0 = (if o' = b then t else o', False)"
proof -
  let ?all = "all_hunks b o' t"
  have "resolved k = (if o' = b then c_theirs k else c_ours k) \<and> \<not> chunk_conflict k" if k: "k \<in> set (chunks b ?all cs 0)" for k
  proof -
    obtain c where c: "c \<in> set cs" "c_base k = slice b (cluster_lo ?all c) (cluster_hi ?all c)"
      "c_ours k = apply_hunks b (cluster_hi ?all c) (side_sorted ?all Ours c) (cluster_lo ?all c)"
      "c_theirs k = apply_hunks b (cluster_hi ?all c) (side_sorted ?all Theirs c) (cluster_lo ?all c)"
      using chunk_mem [OF k] by blast
    have "t = b \<Longrightarrow> c_theirs k = c_base k" "o' = b \<Longrightarrow> c_ours k = c_base k"
      using c no_hunks_side [OF assms(1) c(1)] by (simp_all add: all_hunks_side diff_hunks_same)
    moreover have "o' = t \<Longrightarrow> c_ours k = c_theirs k"
      using c same_hunks_cluster [of b t cs c] assms(1) by simp
    ultimately show ?thesis using assms(2) by (auto simp: resolved_def resolve_cluster_def chunk_conflict_def)
  qed
  then have "weave resolved (chunks b ?all cs 0) rest = weave (if o' = b then c_theirs else c_ours) (chunks b ?all cs 0) rest"
      "\<not> (\<exists>k \<in> set (chunks b ?all cs 0). chunk_conflict k)" for rest
    by (auto simp: weave_def cong: map_cong)
  with merge_chunks [OF assms(1)] show ?thesis by (auto simp: merge_clusters_weave)
qed

lemma split_lines_join:
  assumes "split_lines s = (ls, nl)"
  shows "(if join_with newline ls \<noteq> [] \<and> nl then join_with newline ls @ [newline] else join_with newline ls)
    = (if s = [newline] then [] else s)"
proof (cases "s = []")
  case False
  have "last s = newline \<Longrightarrow> butlast s @ [newline] = s" using False by (metis append_butlast_last_id)
  with assms False show ?thesis
    by (auto simp: split_lines_def join_split Let_def split: if_splits)
qed (use assms in \<open>simp add: split_lines_def\<close>)

lemma split_lines_Nil: "fst (split_lines s) = [] \<longleftrightarrow> s = []"
  by (simp add: split_lines_def Let_def)

end
