(* ===== verification/Diff3_Theorems.thy ===== *)
theory Diff3_Theorems
  imports Diff3_Merge
begin

text \<open>
  The properties of the three-way merge: the diff finds a longest common subsequence and its hunks
  rebuild the other side, clustering ends and finds the connected components, and the merge cuts the
  three texts into the same chunks, takes every one-sided or agreeing change and marks the rest.
\<close>

section \<open>The merge\<close>

text \<open>How the merge turns lines back into text.\<close>

definition finish :: "bool \<Rightarrow> line list \<Rightarrow> string" where
  "finish trailing ls =
     (let txt' = join_with newline ls in if txt' \<noteq> [] \<and> trailing then txt' @ [newline] else txt')"

definition trailing_of :: "string \<Rightarrow> string \<Rightarrow> string \<Rightarrow> bool" where
  "trailing_of base ours theirs =
     snd (split_lines (if ours \<noteq> [] then ours else if theirs \<noteq> [] then theirs else base))"

lemma merge_lines_eq:
  assumes "cluster_hunks (all_hunks (fst (split_lines base)) (fst (split_lines ours)) (fst (split_lines theirs))) = Some cs"
    and "merge_clusters (fst (split_lines base)) (all_hunks (fst (split_lines base)) (fst (split_lines ours)) (fst (split_lines theirs))) cs 0
      = (out, confl)"
  shows "merge_lines base ours theirs = Some \<lparr>m_text = finish (trailing_of base ours theirs) out, m_conflicted = confl\<rparr>"
  using assms split_lines_Nil [of ours] split_lines_Nil [of theirs]
  by (cases "ours = []"; cases "theirs = []") (auto simp: merge_lines_def finish_def trailing_of_def case_prod_beta Let_def)


text \<open>
  Merging a change with an unchanged side, or with the same change on the other side, gives that
  change without conflicts. The text is returned byte for byte, except that a text of one empty line
  loses its newline, and that a change of theirs keeps the newline at the end as ours has it.
\<close>

lemma merge_lines_trivial:
  "merge_lines base ours base = Some \<lparr>m_text = (if ours = [newline] then [] else ours), m_conflicted = False\<rparr>
   \<and> merge_lines base both both = Some \<lparr>m_text = (if both = [newline] then [] else both), m_conflicted = False\<rparr>
   \<and> merge_lines base base theirs = Some \<lparr>m_text = finish (trailing_of theirs base theirs) (fst (split_lines theirs)), m_conflicted = False\<rparr>"
proof (intro conjI)
  have run: "merge_lines base x y = Some \<lparr>m_text = finish (trailing_of base x y) (fst (split_lines (if x = base then y else x))), m_conflicted = False\<rparr>"
    if "y = base \<or> x = base \<or> x = y" for x y
  proof -
    let ?b = "fst (split_lines base)" and ?x = "fst (split_lines x)" and ?y = "fst (split_lines y)"
    obtain cs where cs: "cluster_hunks (all_hunks ?b ?x ?y) = Some cs" using dc.returns by blast
    from that have "?y = ?b \<or> ?x = ?b \<or> ?x = ?y" by auto
    then have "merge_clusters ?b (all_hunks ?b ?x ?y) cs 0 = (if ?x = ?b then ?y else ?x, False)"
      by (rule merge_clusters_trivial [OF cs])
    then have "merge_lines base x y = Some \<lparr>m_text = finish (trailing_of base x y) (if ?x = ?b then ?y else ?x), m_conflicted = False\<rparr>"
      by (rule merge_lines_eq [OF cs])
    moreover have "(if ?x = ?b then ?y else ?x) = fst (split_lines (if x = base then y else x))"
      using that by auto
    ultimately show ?thesis by simp
  qed
  have keep: "finish (snd (split_lines s)) (fst (split_lines s)) = (if s = [newline] then [] else s)" for s
    using split_lines_join [of s "fst (split_lines s)" "snd (split_lines s)"] by (simp add: finish_def Let_def)
  have empty: "finish tr (fst (split_lines [])) = []" for tr
    by (simp add: finish_def split_lines_def)
  show "merge_lines base ours base = Some \<lparr>m_text = (if ours = [newline] then [] else ours), m_conflicted = False\<rparr>"
    using run [of base ours] keep [of ours] empty by (cases "ours = []") (auto simp: trailing_of_def)
  show "merge_lines base both both = Some \<lparr>m_text = (if both = [newline] then [] else both), m_conflicted = False\<rparr>"
    using run [of both both] keep [of both] empty by (cases "both = []") (auto simp: trailing_of_def)
  show "merge_lines base base theirs = Some \<lparr>m_text = finish (trailing_of theirs base theirs) (fst (split_lines theirs)), m_conflicted = False\<rparr>"
    using run [of theirs base] empty by (cases "theirs = []") (auto simp: trailing_of_def)
qed

text \<open>
  C12: edits that do not interact never conflict: when no hunk of ours overlaps or touches a hunk of
  theirs, the merge has no conflict.
\<close>

theorem disjoint_edits_merge:
  assumes "\<forall>h \<in> set (diff_hunks (fst (split_lines base)) (fst (split_lines ours))).
    \<forall>g \<in> set (diff_hunks (fst (split_lines base)) (fst (split_lines theirs))). \<not> interacts h g"
  shows "\<exists>m. merge_lines base ours theirs = Some m \<and> \<not> m_conflicted m"
proof -
  let ?b = "fst (split_lines base)" and ?o = "fst (split_lines ours)" and ?t = "fst (split_lines theirs)"
  obtain cs where cs: "cluster_hunks (all_hunks ?b ?o ?t) = Some cs" using dc.returns by blast
  have "\<not> (\<exists>k \<in> set (chunks ?b (all_hunks ?b ?o ?t) cs 0). chunk_conflict k)"
    using conflict_interacts [OF cs] assms by blast
  then show ?thesis using merge_lines_eq [OF cs merge_clusters_weave] by simp
qed

text \<open>Ours changes the first line, theirs the last.\<close>

definition demo_base :: string where "demo_base = [CHR ''a'', newline, CHR ''b'', newline, CHR ''c'', newline]"
definition demo_ours :: string where "demo_ours = [CHR ''x'', newline, CHR ''b'', newline, CHR ''c'', newline]"
definition demo_theirs :: string where "demo_theirs = [CHR ''a'', newline, CHR ''b'', newline, CHR ''y'', newline]"

lemma demo_hunks:
  "diff_hunks (fst (split_lines demo_base)) (fst (split_lines demo_ours)) = [\<lparr>base_start = 0, base_end = 1, replacement = [''x'']\<rparr>]"
  "diff_hunks (fst (split_lines demo_base)) (fst (split_lines demo_theirs)) = [\<lparr>base_start = 2, base_end = 3, replacement = [''y'']\<rparr>]"
  by code_simp+

theorem disjoint_edits_merge_witness:
  "\<exists>m. merge_lines demo_base demo_ours demo_theirs = Some m \<and> \<not> m_conflicted m"
  by (rule disjoint_edits_merge) (simp add: demo_hunks interacts_def)

section \<open>The diff\<close>

text \<open>
  C17: \<open>match_map\<close> matches equal lines in order, and as many as any common subsequence has.
\<close>

lemma match_map_longest:
  "(\<forall>i < length base. \<forall>j. match_map base other ! i = Some j \<longrightarrow> j < length other \<and> base ! i = other ! j)
   \<and> (\<forall>i k j l. i < k \<longrightarrow> k < length base \<longrightarrow> match_map base other ! i = Some j \<longrightarrow> match_map base other ! k = Some l \<longrightarrow> j < l)
   \<and> (\<forall>zs. subseq zs base \<longrightarrow> subseq zs other \<longrightarrow> length zs \<le> length (filter (\<lambda>x. x \<noteq> None) (match_map base other)))"
proof (intro conjI allI impI)
  fix i j assume i: "i < length base" and m: "match_map base other ! i = Some j"
  then have "(i, j) \<in> set (match_pairs base other)" using match_map_lookup by (metis map_of_SomeD)
  with match_pairs_anchors(2) [of base other] show "j < length other" "base ! i = other ! j" by auto
next
  fix i k j l assume ik: "i < k" "k < length base" and m: "match_map base other ! i = Some j" "match_map base other ! k = Some l"
  then have "(i, j) \<in> set (match_pairs base other)" "(k, l) \<in> set (match_pairs base other)"
    using match_map_lookup [of _ base other] by (metis map_of_SomeD order_less_trans)+
  then obtain a c where ac: "a < length (match_pairs base other)" "match_pairs base other ! a = (i, j)"
      "c < length (match_pairs base other)" "match_pairs base other ! c = (k, l)" by (metis in_set_conv_nth)
  have s: "sorted_wrt pair_less (match_pairs base other)" using matches_sorted by (simp add: match_pairs_def)
  from ac ik(1) sorted_wrt_nth_less [OF s, of a c] sorted_wrt_nth_less [OF s, of c a] show "j < l"
    by (cases a c rule: linorder_cases) auto
next
  fix zs assume "subseq zs base" "subseq zs other"
  then have "length zs \<le> length (match_pairs base other)"
    using subseq_lcs_len by (simp add: match_pairs_def length_matches)
  also have "length (match_pairs base other) = length (filter (\<lambda>x. x \<noteq> None) (match_map base other))"
  proof -
    have "length (List.map_filter (\<lambda>(i, om). map_option (Pair i) om) (enumerate n xs)) = length (filter (\<lambda>x. x \<noteq> None) xs)"
      for n :: nat and xs :: "nat option list"
      by (induction xs arbitrary: n) (auto split: option.splits)
    then show ?thesis using map_filter_match_map by metis
  qed
  finally show "length zs \<le> length (filter (\<lambda>x. x \<noteq> None) (match_map base other))" .
qed

text \<open>
  C13: applying the hunks of a diff to the base gives the other side; they are in order, in range, and
  no two of them touch.
\<close>

theorem diff_hunks_apply:
  "apply_hunks b (length b) (diff_hunks b other) 0 = other
   \<and> sorted_wrt (\<lambda>g h. base_end g < base_start h) (diff_hunks b other)
   \<and> list_all (\<lambda>h. base_start h \<le> base_end h \<and> base_end h \<le> length b) (diff_hunks b other)"
  using apply_diff_hunks [of b other] diff_hunks_ok [of b other] by (auto simp: hunks_ok_def list_all_iff)

section \<open>Clusters\<close>

text \<open>
  Clustering always ends. The clusters partition the hunks, two hunks are in one cluster exactly
  when a chain of interacting hunks of alternating sides joins them, and for hunks that are disjoint on
  each side the base windows of the clusters follow each other without overlap.
\<close>

lemma clusters_components:
  "\<exists>cs. cluster_hunks all = Some cs \<and> mset (concat cs) = mset [0..<length all]
    \<and> (\<forall>i < length all. \<forall>j < length all. (\<exists>c \<in> set cs. i \<in> set c \<and> j \<in> set c) \<longleftrightarrow> (i, j) \<in> (edges all)\<^sup>*)
    \<and> (sides_ok n all \<longrightarrow> sorted_wrt (\<lambda>c d. cluster_hi all c \<le> cluster_lo all d) cs)"
proof -
  obtain cs where cs: "cluster_hunks all = Some cs" using dc.returns by blast
  have ex: "\<exists>c \<in> set cs. i \<in> set c" if "i < length all" for i
    using mset_eq_setD [OF dc.partition [OF cs]] that by auto
  have "\<exists>c \<in> set cs. i \<in> set c \<and> j \<in> set c" if "(i, j) \<in> (edges all)\<^sup>*" "i < length all" for i j
    using that
  proof (induction rule: rtrancl_induct)
    case base
    with ex show ?case by blast
  next
    case (step y z)
    then obtain c where c: "c \<in> set cs" "i \<in> set c" "y \<in> set c" by blast
    obtain d where d: "d \<in> set cs" "z \<in> set d" using ex [of z] step(2) by (auto simp: edges_def)
    then have "c = d" using dc.closed [OF cs c(1) d(1) c(3) d(2) step(2)] by blast
    with c d show ?case by blast
  qed
  then have "(\<exists>c \<in> set cs. i \<in> set c \<and> j \<in> set c) \<longleftrightarrow> (i, j) \<in> (edges all)\<^sup>*" if "i < length all" for i j
    using that dc.connected [OF cs] by blast
  with cs dc.partition [OF cs] dc.windows_ordered [OF cs] show ?thesis by blast
qed

end
