(* ===== verification/Envelope.thy ===== *)
theory Envelope
  imports Object_Model "HOL-Library.Stream"
begin

text \<open>
  Envelope encryption (\<^verbatim>\<open>crates/crypto/src/envelope.rs\<close> and the fingerprints of \<^verbatim>\<open>key.rs\<close>): a secret is
  encrypted under a fresh data key, which is wrapped for every recipient. X25519, HKDF-SHA256 and
  XChaCha20-Poly1305 are parameters, with their documented correctness as the hypothesis \<open>prims_ok\<close>;
  the random generator is the stream of bytes it will give.
\<close>

section \<open>Primitives\<close>

record prims =
  x25519_public :: "bytes \<Rightarrow> bytes"
  x25519_dh :: "bytes \<Rightarrow> bytes \<Rightarrow> bytes"
  hkdf_sha256 :: "bytes option \<Rightarrow> bytes \<Rightarrow> bytes \<Rightarrow> nat \<Rightarrow> bytes"
  aead_encrypt :: "bytes \<Rightarrow> bytes \<Rightarrow> bytes \<Rightarrow> bytes \<Rightarrow> bytes"
  aead_decrypt :: "bytes \<Rightarrow> bytes \<Rightarrow> bytes \<Rightarrow> bytes \<Rightarrow> bytes option"

text \<open>A Diffie-Hellman exchange agrees, public keys have 32 bytes, and decryption inverts encryption.\<close>

definition prims_ok :: "prims \<Rightarrow> bool" where
  "prims_ok P \<longleftrightarrow> (\<forall>a b. x25519_dh P a (x25519_public P b) = x25519_dh P b (x25519_public P a))
     \<and> (\<forall>a. length (x25519_public P a) = 32)
     \<and> (\<forall>k n a m. aead_decrypt P k n a (aead_encrypt P k n a m) = Some m)"

type_synonym rng = "u8 stream"

definition fill_bytes :: "nat \<Rightarrow> rng \<Rightarrow> bytes \<times> rng" where
  "fill_bytes n rng = (stake n rng, sdrop n rng)"

datatype crypto_error = NotARecipient | Decrypt | BadKey | KeyIo string

definition DEK_LEN :: nat where "DEK_LEN = 32"
definition NONCE_LEN :: nat where "NONCE_LEN = 24"
definition EPK_LEN :: nat where "EPK_LEN = 32"
definition ID_LEN :: nat where "ID_LEN = 16"
definition HKDF_INFO :: bytes where "HKDF_INFO = str_bytes ''scl-dek-wrap-v1''"
definition PATH_AAD :: bytes where "PATH_AAD = str_bytes ''scl-path-v1''"

text \<open>Keys are their bytes; the fingerprint of a public key is the hex of 16 bytes of its digest.\<close>

type_synonym public_key = bytes
type_synonym secret_key = bytes

definition recipient_id :: "ext \<Rightarrow> public_key \<Rightarrow> string" where
  "recipient_id e pk = hex_encode e (take ID_LEN (blake3 e pk))"

definition sk_public :: "prims \<Rightarrow> secret_key \<Rightarrow> public_key" where
  "sk_public P sk = x25519_public P sk"

section \<open>Wrapping data keys\<close>

definition derive_wrap_key :: "prims \<Rightarrow> bytes \<Rightarrow> bytes \<Rightarrow> bytes \<Rightarrow> bytes" where
  "derive_wrap_key P shared ephemeral_pub recipient_pub =
     hkdf_sha256 P (Some (ephemeral_pub @ recipient_pub)) shared HKDF_INFO 32"

definition wrap_dek :: "prims \<Rightarrow> ext \<Rightarrow> bytes \<Rightarrow> public_key \<Rightarrow> rng \<Rightarrow> wrapped_key \<times> rng" where
  "wrap_dek P e dek recipient rng =
     (let (ephemeral, rng) = fill_bytes 32 rng;
          ephemeral_pub = x25519_public P ephemeral;
          shared = x25519_dh P ephemeral recipient;
          wrap_key = derive_wrap_key P shared ephemeral_pub recipient;
          (wrap_nonce, rng) = fill_bytes NONCE_LEN rng;
          wrapped = aead_encrypt P wrap_key wrap_nonce [] dek
      in (\<lparr>wk_recipient_id = recipient_id e recipient, wk_wrapped_dek = ephemeral_pub @ wrap_nonce @ wrapped\<rparr>, rng))"

definition unwrap_dek :: "prims \<Rightarrow> bytes \<Rightarrow> secret_key \<Rightarrow> crypto_error + bytes" where
  "unwrap_dek P blob identity =
     (if length blob < EPK_LEN + NONCE_LEN then Inl Decrypt
      else let ephemeral_pub = take EPK_LEN blob;
               wrap_nonce = take NONCE_LEN (drop EPK_LEN blob);
               wrapped = drop (EPK_LEN + NONCE_LEN) blob;
               shared = x25519_dh P identity ephemeral_pub;
               wrap_key = derive_wrap_key P shared ephemeral_pub (sk_public P identity)
           in case aead_decrypt P wrap_key wrap_nonce [] wrapped of
                None \<Rightarrow> Inl Decrypt
              | Some dek \<Rightarrow> if length dek = DEK_LEN then Inr dek else Inl Decrypt)"

definition unwrap_dek_with :: "prims \<Rightarrow> wrapped_key \<Rightarrow> secret_key \<Rightarrow> crypto_error + bytes" where
  "unwrap_dek_with P wrapped identity = unwrap_dek P (wk_wrapped_dek wrapped) identity"

fun wrap_all :: "prims \<Rightarrow> ext \<Rightarrow> bytes \<Rightarrow> public_key list \<Rightarrow> rng \<Rightarrow> wrapped_key list \<times> rng" where
  "wrap_all P e dek [] rng = ([], rng)"
| "wrap_all P e dek (r # rs) rng =
     (let (w, rng) = wrap_dek P e dek r rng; (ws, rng) = wrap_all P e dek rs rng in (w # ws, rng))"

section \<open>Secrets\<close>

definition seal_with_rng :: "prims \<Rightarrow> ext \<Rightarrow> string \<Rightarrow> bytes \<Rightarrow> public_key list \<Rightarrow> rng \<Rightarrow> secret \<times> rng" where
  "seal_with_rng P e name plaintext recipients rng =
     (let (dek, rng) = fill_bytes DEK_LEN rng;
          (nonce, rng) = fill_bytes NONCE_LEN rng;
          ciphertext = aead_encrypt P dek nonce (str_bytes name) plaintext;
          (wrapped_keys, rng) = wrap_all P e dek recipients rng
      in (\<lparr>se_name = name, se_nonce = nonce, se_ciphertext = ciphertext, se_wrapped_keys = wrapped_keys\<rparr>, rng))"

definition find_wrap :: "prims \<Rightarrow> ext \<Rightarrow> secret \<Rightarrow> secret_key \<Rightarrow> wrapped_key option" where
  "find_wrap P e s identity = find (\<lambda>w. wk_recipient_id w = recipient_id e (sk_public P identity)) (se_wrapped_keys s)"

definition open_secret :: "prims \<Rightarrow> ext \<Rightarrow> secret \<Rightarrow> secret_key \<Rightarrow> crypto_error + bytes" where
  "open_secret P e s identity =
     bindE (ok_or NotARecipient (find_wrap P e s identity)) (\<lambda>wk.
       if length (se_nonce s) \<noteq> NONCE_LEN then Inl Decrypt
       else bindE (unwrap_dek P (wk_wrapped_dek wk) identity) (\<lambda>dek.
         ok_or Decrypt (aead_decrypt P dek (se_nonce s) (str_bytes (se_name s)) (se_ciphertext s))))"

definition rewrap_for_with_rng :: "prims \<Rightarrow> ext \<Rightarrow> secret \<Rightarrow> secret_key \<Rightarrow> public_key \<Rightarrow> rng \<Rightarrow> (crypto_error + secret) \<times> rng" where
  "rewrap_for_with_rng P e s authorized new rng =
     (case bindE (ok_or NotARecipient (find_wrap P e s authorized)) (\<lambda>wk. unwrap_dek P (wk_wrapped_dek wk) authorized) of
        Inl err \<Rightarrow> (Inl err, rng)
      | Inr dek \<Rightarrow>
          let (new_wk, rng) = wrap_dek P e dek new rng
          in (Inr (s\<lparr>se_wrapped_keys := filter (\<lambda>w. wk_recipient_id w \<noteq> wk_recipient_id new_wk) (se_wrapped_keys s) @ [new_wk]\<rparr>), rng))"

definition revoke :: "secret \<Rightarrow> string \<Rightarrow> secret" where
  "revoke s recipient = s\<lparr>se_wrapped_keys := filter (\<lambda>w. wk_recipient_id w \<noteq> recipient) (se_wrapped_keys s)\<rparr>"

section \<open>Files\<close>

definition seal_path :: "prims \<Rightarrow> bytes \<Rightarrow> bytes \<Rightarrow> bytes \<Rightarrow> bytes" where
  "seal_path P dek nonce plaintext = nonce @ aead_encrypt P dek nonce PATH_AAD plaintext"

definition encrypt_path :: "prims \<Rightarrow> ext \<Rightarrow> bytes \<Rightarrow> bytes \<times> bytes" where
  "encrypt_path P e plaintext =
     (let ikm = blake3 e plaintext;
          dek = hkdf_sha256 P None ikm (str_bytes ''scl-path-dek-v1'') DEK_LEN;
          nonce = hkdf_sha256 P None ikm (str_bytes ''scl-path-nonce-v1'') NONCE_LEN
      in (seal_path P dek nonce plaintext, dek))"

definition encrypt_path_randomized_with_rng :: "prims \<Rightarrow> bytes \<Rightarrow> rng \<Rightarrow> (bytes \<times> bytes) \<times> rng" where
  "encrypt_path_randomized_with_rng P plaintext rng =
     (let (dek, rng) = fill_bytes DEK_LEN rng; (nonce, rng) = fill_bytes NONCE_LEN rng
      in ((seal_path P dek nonce plaintext, dek), rng))"

definition decrypt_path :: "prims \<Rightarrow> bytes \<Rightarrow> bytes \<Rightarrow> crypto_error + bytes" where
  "decrypt_path P blob dek =
     (if length blob < NONCE_LEN then Inl Decrypt
      else ok_or Decrypt (aead_decrypt P dek (take NONCE_LEN blob) PATH_AAD (drop NONCE_LEN blob)))"

section \<open>Correctness\<close>

lemmas len_defs = DEK_LEN_def NONCE_LEN_def EPK_LEN_def

lemma fill_bytes_len [simp]: "length (fst (fill_bytes n rng)) = n"
  by (simp add: fill_bytes_def)

lemma unwrap_wrap:
  assumes "prims_ok P" "length dek = 32"
  shows "unwrap_dek P (wk_wrapped_dek (fst (wrap_dek P e dek (sk_public P sk) rng))) sk = Inr dek"
    "wk_recipient_id (fst (wrap_dek P e dek pk rng)) = recipient_id e pk"
  using assms by (auto simp: prims_ok_def wrap_dek_def unwrap_dek_def fill_bytes_def len_defs sk_public_def Let_def)

lemma wrap_all_ids: "map wk_recipient_id (fst (wrap_all P e dek rs rng)) = map (recipient_id e) rs"
  by (induction P e dek rs rng rule: wrap_all.induct) (simp_all add: case_prod_beta Let_def wrap_dek_def)

lemma wrap_all_nth:
  "i < length rs \<Longrightarrow> \<exists>rng'. fst (wrap_all P e dek rs rng) ! i = fst (wrap_dek P e dek (rs ! i) rng')"
proof (induction rs arbitrary: i rng)
  case (Cons r rs)
  then show ?case by (cases i) (auto simp: case_prod_beta Let_def)
qed simp

lemma find_by_id:
  "map f xs = map g ys \<Longrightarrow> k \<in> set (map g ys) \<Longrightarrow> \<exists>i < length xs. find (\<lambda>x. f x = k) xs = Some (xs ! i) \<and> g (ys ! i) = k"
proof (induction xs arbitrary: ys)
  case (Cons x xs)
  then obtain y ys' where ys: "ys = y # ys'" by (cases ys) auto
  show ?case
  proof (cases "f x = k")
    case True
    with Cons.prems ys show ?thesis by (intro exI [of _ 0]) simp
  next
    case False
    with Cons.prems ys Cons.IH [of ys'] obtain i where "i < length xs" "find (\<lambda>x. f x = k) xs = Some (xs ! i)" "g (ys' ! i) = k"
      by auto
    with False ys show ?thesis by (intro exI [of _ "Suc i"]) simp
  qed
qed simp

text \<open>A recipient list whose fingerprints do not collide with another key's.\<close>

definition fingerprint_unique :: "ext \<Rightarrow> public_key \<Rightarrow> public_key list \<Rightarrow> bool" where
  "fingerprint_unique e pk recipients \<longleftrightarrow> (\<forall>r \<in> set recipients. recipient_id e r = recipient_id e pk \<longrightarrow> r = pk)"

lemma find_append: "find Q (xs @ ys) = (case find Q xs of None \<Rightarrow> find Q ys | Some x \<Rightarrow> Some x)"
  by (induction xs) auto

lemma find_filter_other: "(\<And>x. Q x \<Longrightarrow> R x) \<Longrightarrow> find Q (filter R xs) = find Q xs"
  by (induction xs) auto

lemma find_filter_none: "(\<And>x. R x \<Longrightarrow> \<not> Q x) \<Longrightarrow> find Q (filter R xs) = None"
  by (induction xs) auto

end
