(* ===== verification/Envelope_Theorems.thy ===== *)
theory Envelope_Theorems
  imports Envelope Instances
begin

text \<open>The properties of envelope encryption, and concrete primitives at which they are applied.\<close>

lemma seal_find:
  assumes "sk_public P sk \<in> set recipients" "fingerprint_unique e (sk_public P sk) recipients"
  shows "\<exists>rng'. find_wrap P e (fst (seal_with_rng P e name plaintext recipients rng)) sk
    = Some (fst (wrap_dek P e (fst (fill_bytes DEK_LEN rng)) (sk_public P sk) rng'))"
proof -
  let ?dek = "fst (fill_bytes DEK_LEN rng)" and ?rng = "snd (fill_bytes NONCE_LEN (snd (fill_bytes DEK_LEN rng)))"
  let ?ws = "fst (wrap_all P e ?dek recipients ?rng)"
  have len: "length ?ws = length recipients" using wrap_all_ids [of P e ?dek recipients ?rng] by (metis length_map)
  obtain i where i: "i < length ?ws" "find (\<lambda>w. wk_recipient_id w = recipient_id e (sk_public P sk)) ?ws = Some (?ws ! i)"
    "recipient_id e (recipients ! i) = recipient_id e (sk_public P sk)"
    using find_by_id [OF wrap_all_ids [of P e ?dek recipients ?rng], of "recipient_id e (sk_public P sk)"] assms(1) by auto
  then have "recipients ! i = sk_public P sk" using assms(2) len by (simp add: fingerprint_unique_def)
  with i(2) wrap_all_nth [of i recipients P e ?dek ?rng] i(1) len show ?thesis
    by (auto simp: find_wrap_def seal_with_rng_def case_prod_beta Let_def)
qed

text \<open>
  C15: every recipient of a sealed secret opens it to the plaintext, whatever the random generator
  gives, unless another recipient has the same 128-bit fingerprint; an identity with another
  fingerprint is refused as not a recipient.
\<close>

theorem seal_open:
  assumes "prims_ok P"
  shows "(sk_public P sk \<in> set recipients \<longrightarrow> fingerprint_unique e (sk_public P sk) recipients \<longrightarrow>
      open_secret P e (fst (seal_with_rng P e name plaintext recipients rng)) sk = Inr plaintext)
    \<and> (recipient_id e (sk_public P sk) \<notin> recipient_id e ` set recipients \<longrightarrow>
      open_secret P e (fst (seal_with_rng P e name plaintext recipients rng)) sk = Inl NotARecipient)"
proof (intro conjI impI)
  let ?s = "fst (seal_with_rng P e name plaintext recipients rng)"
  let ?dek = "fst (fill_bytes DEK_LEN rng)"
  assume "sk_public P sk \<in> set recipients" "fingerprint_unique e (sk_public P sk) recipients"
  then obtain rng' where f: "find_wrap P e ?s sk = Some (fst (wrap_dek P e ?dek (sk_public P sk) rng'))"
    using seal_find [of P sk recipients e name plaintext rng] by blast
  have "length (se_nonce ?s) = NONCE_LEN" "se_name ?s = name"
    "se_ciphertext ?s = aead_encrypt P ?dek (se_nonce ?s) (str_bytes name) plaintext"
    by (simp_all add: seal_with_rng_def case_prod_beta Let_def)
  with f unwrap_wrap(1) [OF assms, of ?dek e sk rng'] assms show "open_secret P e ?s sk = Inr plaintext"
    by (simp add: open_secret_def prims_ok_def DEK_LEN_def)
next
  let ?s = "fst (seal_with_rng P e name plaintext recipients rng)"
  assume "recipient_id e (sk_public P sk) \<notin> recipient_id e ` set recipients"
  moreover have "wk_recipient_id ` set (se_wrapped_keys ?s) = recipient_id e ` set recipients"
    using arg_cong [OF wrap_all_ids, of set] by (simp add: seal_with_rng_def case_prod_beta Let_def)
  ultimately have "find_wrap P e ?s sk = None" unfolding find_wrap_def find_None_iff by (metis imageI)
  then show "open_secret P e ?s sk = Inl NotARecipient" by (simp add: open_secret_def)
qed

definition demo_pad :: "bytes \<Rightarrow> bytes" where
  "demo_pad b = take 32 (b @ replicate 32 0)"

definition demo_prims :: prims where
  "demo_prims = \<lparr>x25519_public = demo_pad, x25519_dh = (\<lambda>a p. map2 (+) (demo_pad a) p),
     hkdf_sha256 = (\<lambda>salt ikm info n. take n (ikm @ replicate n 0)),
     aead_encrypt = (\<lambda>k n a m. k @ n @ a @ m),
     aead_decrypt = (\<lambda>k n a c. if prefix (k @ n @ a) c then Some (drop (length (k @ n @ a)) c) else None)\<rparr>"

lemma demo_prims_ok: "prims_ok demo_prims"
proof -
  have "map2 (+) xs ys = map2 (+) ys xs" for xs ys :: bytes
    by (induction xs ys rule: list_induct2') (simp_all add: add.commute)
  then show ?thesis by (simp add: prims_ok_def demo_prims_def demo_pad_def prefix_def min_def)
qed

theorem seal_open_witness:
  "open_secret demo_prims prefix_ext (fst (seal_with_rng demo_prims prefix_ext ''k'' [1, 2] [demo_pad [7], demo_pad [9]] (sconst 3))) [9]
     = Inr [1, 2]"
proof -
  have pk: "sk_public demo_prims [9] = demo_pad [9]" by (simp add: sk_public_def demo_prims_def)
  have "recipient_id prefix_ext (demo_pad [7]) \<noteq> recipient_id prefix_ext (demo_pad [9])"
  proof
    assume "recipient_id prefix_ext (demo_pad [7]) = recipient_id prefix_ext (demo_pad [9])"
    then have "demo_unhex (demo_hex (take 16 (blake3 prefix_ext (demo_pad [7])))) = demo_unhex (demo_hex (take 16 (blake3 prefix_ext (demo_pad [9]))))"
      by (simp add: recipient_id_def prefix_ext_def demo_ext_def ID_LEN_def)
    then show False unfolding demo_unhex_hex prefix_digest by (simp add: demo_pad_def)
  qed
  then have "fingerprint_unique prefix_ext (sk_public demo_prims [9]) [demo_pad [7], demo_pad [9]]"
    by (simp add: fingerprint_unique_def pk)
  then show ?thesis using seal_open [OF demo_prims_ok, of "[9]" "[demo_pad [7], demo_pad [9]]" prefix_ext "''k''" "[1, 2]" "sconst 3"]
    by (simp add: pk)
qed

lemma open_keys:
  "find_wrap P e (s\<lparr>se_wrapped_keys := ks\<rparr>) sk = find_wrap P e s sk \<Longrightarrow>
     open_secret P e (s\<lparr>se_wrapped_keys := ks\<rparr>) sk = open_secret P e s sk"
  by (cases "find_wrap P e s sk") (simp_all add: open_secret_def bindE_def split: sum.splits)

text \<open>
  C16: granting access to a recipient succeeds for every identity that can open the secret, lets the new
  recipient open it to the same plaintext and takes nothing from anyone else; revoking a fingerprint
  locks out exactly the identities that have it.
\<close>

theorem grant_revoke:
  assumes "prims_ok P" "open_secret P e s authorized = Inr plaintext"
  shows "(\<exists>s' rng'. rewrap_for_with_rng P e s authorized (sk_public P new) rng = (Inr s', rng')
      \<and> open_secret P e s' new = Inr plaintext
      \<and> (\<forall>sk. recipient_id e (sk_public P sk) \<noteq> recipient_id e (sk_public P new) \<longrightarrow>
            open_secret P e s' sk = open_secret P e s sk))
    \<and> open_secret P e (revoke s (recipient_id e (sk_public P sk))) sk = Inl NotARecipient
    \<and> (recipient_id e (sk_public P other) \<noteq> recipient_id e (sk_public P sk) \<longrightarrow>
        open_secret P e (revoke s (recipient_id e (sk_public P sk))) other = open_secret P e s other)"
proof (intro conjI impI)
  obtain wk dek where wk: "find_wrap P e s authorized = Some wk" "length (se_nonce s) = NONCE_LEN"
    "unwrap_dek P (wk_wrapped_dek wk) authorized = Inr dek"
    "aead_decrypt P dek (se_nonce s) (str_bytes (se_name s)) (se_ciphertext s) = Some plaintext"
    using assms(2) by (auto simp: open_secret_def bindE_eq_Inr ok_or_def split: option.splits if_splits)
  have dek: "length dek = 32"
    using wk(3) by (auto simp: unwrap_dek_def Let_def DEK_LEN_def split: if_splits option.splits)
  let ?w = "fst (wrap_dek P e dek (sk_public P new) rng)"
  let ?s = "s\<lparr>se_wrapped_keys := filter (\<lambda>w. wk_recipient_id w \<noteq> wk_recipient_id ?w) (se_wrapped_keys s) @ [?w]\<rparr>"
  have id: "wk_recipient_id ?w = recipient_id e (sk_public P new)" by (rule unwrap_wrap(2) [OF assms(1) dek])
  have run: "rewrap_for_with_rng P e s authorized (sk_public P new) rng = (Inr ?s, snd (wrap_dek P e dek (sk_public P new) rng))"
    using wk by (simp add: rewrap_for_with_rng_def case_prod_beta Let_def)
  have "find_wrap P e ?s new = Some ?w"
    by (simp add: find_wrap_def find_append find_filter_none id)
  then have new: "open_secret P e ?s new = Inr plaintext"
    using wk unwrap_wrap(1) [OF assms(1) dek] by (simp add: open_secret_def)
  have "find_wrap P e ?s sk = find_wrap P e s sk" if "recipient_id e (sk_public P sk) \<noteq> recipient_id e (sk_public P new)" for sk
    using that by (simp add: find_wrap_def find_append id, subst find_filter_other) (auto simp: id split: option.splits)
  then have "open_secret P e ?s sk = open_secret P e s sk"
    if "recipient_id e (sk_public P sk) \<noteq> recipient_id e (sk_public P new)" for sk
    using that by (intro open_keys) blast
  with run new show "\<exists>s' rng'. rewrap_for_with_rng P e s authorized (sk_public P new) rng = (Inr s', rng')
      \<and> open_secret P e s' new = Inr plaintext
      \<and> (\<forall>sk. recipient_id e (sk_public P sk) \<noteq> recipient_id e (sk_public P new) \<longrightarrow>
            open_secret P e s' sk = open_secret P e s sk)" by blast
  show "open_secret P e (revoke s (recipient_id e (sk_public P sk))) sk = Inl NotARecipient"
    by (simp add: open_secret_def find_wrap_def revoke_def find_filter_none)
  assume "recipient_id e (sk_public P other) \<noteq> recipient_id e (sk_public P sk)"
  then have "find_wrap P e (revoke s (recipient_id e (sk_public P sk))) other = find_wrap P e s other"
    by (simp add: find_wrap_def revoke_def, subst find_filter_other) auto
  then show "open_secret P e (revoke s (recipient_id e (sk_public P sk))) other = open_secret P e s other"
    unfolding revoke_def by (rule open_keys)
qed

definition demo_secret :: secret where
  "demo_secret = fst (seal_with_rng demo_prims demo_ext ''k'' [1, 2] [demo_pad [9]] (sconst 3))"

theorem grant_revoke_witness:
  "\<exists>s' rng'. rewrap_for_with_rng demo_prims demo_ext demo_secret [9] (demo_pad [7]) (sconst 5) = (Inr s', rng')
     \<and> open_secret demo_prims demo_ext s' [7] = Inr [1, 2]"
proof -
  have pk: "sk_public demo_prims [x] = demo_pad [x]" for x by (simp add: sk_public_def demo_prims_def)
  obtain rng' where f: "find_wrap demo_prims demo_ext demo_secret [9]
      = Some (fst (wrap_dek demo_prims demo_ext (fst (fill_bytes DEK_LEN (sconst 3))) (demo_pad [9]) rng'))"
    using seal_find [of demo_prims "[9]" "[demo_pad [9]]" demo_ext "''k''" "[1, 2]" "sconst 3"]
    by (auto simp: pk fingerprint_unique_def demo_secret_def)
  have "open_secret demo_prims demo_ext demo_secret [9] = Inr [1, 2]"
    using f unwrap_wrap(1) [OF demo_prims_ok, of "fst (fill_bytes DEK_LEN (sconst 3))" demo_ext "[9]" rng'] demo_prims_ok
    by (simp add: open_secret_def pk demo_secret_def seal_with_rng_def case_prod_beta Let_def prims_ok_def DEK_LEN_def)
  from grant_revoke [OF demo_prims_ok this, of "[7]" "sconst 5" "[7]" "[8]"] show ?thesis by (auto simp: pk)
qed

text \<open>
  A file sealed convergently or with a random key decrypts to its plaintext with the returned key.
\<close>

lemma path_roundtrip:
  assumes "prims_ok P" "\<And>ikm info n. length (hkdf_sha256 P None ikm info n) = n"
  shows "decrypt_path P (fst (encrypt_path P e plaintext)) (snd (encrypt_path P e plaintext)) = Inr plaintext
    \<and> decrypt_path P (fst (fst (encrypt_path_randomized_with_rng P plaintext rng)))
        (snd (fst (encrypt_path_randomized_with_rng P plaintext rng))) = Inr plaintext"
  using assms
  by (simp add: decrypt_path_def encrypt_path_def encrypt_path_randomized_with_rng_def seal_path_def prims_ok_def
      case_prod_beta Let_def)

end
