(* ===== verification/Repo_Error.thy ===== *)
theory Repo_Error
  imports Store Envelope
begin

text \<open>
  The errors of the repo crate (\<^verbatim>\<open>crates/repo/src/error.rs\<close>) that the modelled operations return, and
  computations over a store with such errors. \<open>OutOfFuel\<close> is not an error of the program: it is the answer
  of a loop over the object graph that was given too little fuel.
\<close>

section \<open>Errors\<close>

text \<open>The errors of the repo crate that the modelled operations return; a formatted message is the constructor of its values.\<close>

datatype rebase_fault =
    MissingField string
  | MalformedLine string string
  | UnexpectedField string string
  | BadIdFor string string
  | BadValue string string

datatype bad_ref =
    ExpectedSnapshot object_id
  | ExpectedTree object_id
  | ExpectedBlob object_id
  | ExpectedSnapshotOrManifest object_id string
  | HeadNotSymbolic string
  | RefHasBadId string string
  | RemoteRefHasBadId string string
  | HeadHasBadId string
  | InvalidBranchName string
  | InvalidRemoteRef string
  | FileHasBadId string string
  | HeadUnborn string
  | StateFileMissing string
  | BadRebaseState rebase_fault

datatype protocol_error =
    ObjectExceedsCap nat nat
  | AskedAgain object_id string

datatype repo_error =
    RCore core_error
  | RCrypto crypto_error
  | BadRef bad_ref
  | NotAuthorized string
  | InvalidArgument string
  | ProtectedMergeNeedsIdentity string
  | PathCollision string
  | SecretMergeConflict string
  | CorruptObject object_id
  | Protocol protocol_error
  | RIo io_kind
  | NoSuchBranch string
  | NothingToUndo
  | PrivateUnsupported string
  | IndexBusy string
  | OutOfFuel

type_synonym 'a repo_op = "store \<Rightarrow> (repo_error + 'a) \<times> store"

definition liftR :: "(store \<Rightarrow> 'a core_result \<times> store) \<Rightarrow> 'a repo_op" where
  "liftR m st = (case m st of (Inl err, st') \<Rightarrow> (Inl (RCore err), st') | (Inr a, st') \<Rightarrow> (Inr a, st'))"

abbreviation returnS :: "'a \<Rightarrow> 's \<Rightarrow> ('e + 'a) \<times> 's" where
  "returnS a \<equiv> (\<lambda>s. (Inr a, s))"

abbreviation failS :: "'e \<Rightarrow> 's \<Rightarrow> ('e + 'a) \<times> 's" where
  "failS err \<equiv> (\<lambda>s. (Inl err, s))"

end
