(* ===== verification/Graph_Walk.thy ===== *)
theory Graph_Walk
  imports Prelude
begin

text \<open>
  Worklists over a graph: the queue and the visited set of a breadth-first walk, and the contract such a
  walk satisfies for any successor function. The walks over snapshots and over objects interpret it.
\<close>

section \<open>Enqueueing\<close>

text \<open>\<open>for p in parents { if set.insert(p) { q.push_back(p) } }\<close>\<close>

fun push_new :: "'n list \<Rightarrow> 'n set \<Rightarrow> 'n list \<Rightarrow> 'n set \<times> 'n list" where
  "push_new [] seen q = (seen, q)"
| "push_new (p # ps) seen q = (if p \<in> seen then push_new ps seen q else push_new ps (insert p seen) (q @ [p]))"

section \<open>The contract of a walk\<close>

lemma push_new_seen: "push_new ps seen q = (seen', q') \<Longrightarrow> seen' = seen \<union> set ps \<and> set q' \<subseteq> set q \<union> set ps \<and> set q \<subseteq> set q' \<and> seen' - set q' \<subseteq> seen - set q"
proof (induction ps seen q rule: push_new.induct)
  case (2 p ps seen q)
  then show ?case by (cases "p \<in> seen") auto
qed simp

lemma push_new_queue:
  "push_new ps seen q = (seen', q') \<Longrightarrow> \<exists>new. q' = q @ new \<and> set new = set ps - seen \<and> seen' = seen \<union> set ps"
proof (induction ps seen q rule: push_new.induct)
  case (2 p ps seen q)
  show ?case
  proof (cases "p \<in> seen")
    case False
    with 2(2,3) obtain new where "q' = (q @ [p]) @ new \<and> set new = set ps - insert p seen \<and> seen' = insert p seen \<union> set ps" by auto
    then show ?thesis using False by (intro exI [of _ "p # new"]) auto
  qed (use 2 in auto)
qed simp

lemma push_new_measure:
  "push_new ps seen q = (seen', q') \<Longrightarrow> finite U \<Longrightarrow> set ps \<subseteq> U \<Longrightarrow>
     card (U - seen') + length q' = card (U - seen) + length q"
proof (induction ps seen q rule: push_new.induct)
  case (2 p ps seen q)
  show ?case
  proof (cases "p \<in> seen")
    case False
    then have "card (U - seen) = Suc (card (U - insert p seen))"
      using 2(4,5) by (metis Diff_insert card_Suc_Diff1 DiffI finite_Diff insert_subset list.simps(15))
    with False 2 show ?thesis by simp
  qed (use 2 in simp)
qed simp

locale walk_graph =
  fixes succs :: "'n \<Rightarrow> 'n list"
begin

definition edge_rel :: "('n \<times> 'n) set" where
  "edge_rel = {(x, y). y \<in> set (succs x)}"

definition reach :: "'n set \<Rightarrow> 'n set" where
  "reach roots = edge_rel\<^sup>* `` roots"

definition inv :: "'n set \<Rightarrow> 'n set \<Rightarrow> 'n list \<Rightarrow> bool" where
  "inv roots seen q \<longleftrightarrow> set q \<subseteq> seen \<and> roots \<subseteq> seen \<and> seen \<subseteq> reach roots
     \<and> (\<forall>x \<in> seen - set q. set (succs x) \<subseteq> seen)"

lemma reach_root: "x \<in> roots \<Longrightarrow> x \<in> reach roots"
  by (auto simp: reach_def)

lemma reach_step: "x \<in> reach roots \<Longrightarrow> y \<in> set (succs x) \<Longrightarrow> y \<in> reach roots"
  unfolding reach_def edge_rel_def by (blast intro: rtrancl_into_rtrancl)

lemma reach_subset: "roots \<subseteq> S \<Longrightarrow> (\<And>x. x \<in> S \<Longrightarrow> set (succs x) \<subseteq> S) \<Longrightarrow> reach roots \<subseteq> S"
proof -
  assume S: "roots \<subseteq> S" "\<And>x. x \<in> S \<Longrightarrow> set (succs x) \<subseteq> S"
  have "y \<in> S" if "(x, y) \<in> edge_rel\<^sup>*" "x \<in> roots" for x y
    using that by (induction rule: rtrancl_induct) (use S in \<open>auto simp: edge_rel_def\<close>)
  then show ?thesis by (auto simp: reach_def)
qed

lemma inv_init: "inv {x} {x} [x]"
  by (simp add: inv_def reach_root)

lemma inv_step:
  assumes "inv roots seen (x # q)" "push_new (succs x) seen q = (seen', q')"
  shows "inv roots seen' q'"
proof -
  have p: "seen' = seen \<union> set (succs x)" "set q' \<subseteq> set q \<union> set (succs x)" "set q \<subseteq> set q'" "seen' - set q' \<subseteq> seen - set q"
    using push_new_seen [OF assms(2)] by auto
  have "x \<in> reach roots" using assms(1) by (auto simp: inv_def)
  then have "set (succs x) \<subseteq> reach roots" using reach_step by blast
  with p assms(1) show ?thesis unfolding inv_def by auto
qed

lemma inv_done: "inv roots seen [] \<Longrightarrow> seen = reach roots"
proof -
  assume i: "inv roots seen []"
  have "y \<in> seen" if "(x, y) \<in> edge_rel\<^sup>*" "x \<in> roots" for x y
    using that by (induction rule: rtrancl_induct) (use i in \<open>auto simp: inv_def edge_rel_def\<close>)
  with i show ?thesis by (auto simp: inv_def reach_def)
qed

lemma inv_queue: "inv roots seen q \<Longrightarrow> x \<in> set q \<Longrightarrow> x \<in> reach roots"
  by (auto simp: inv_def)

text \<open>Each step uses one of the nodes that are still to be dequeued.\<close>

lemma measure_step:
  assumes "inv roots seen (x # q)" "push_new (succs x) seen q = (seen', q')" "finite (reach roots)"
  shows "card (reach roots - seen') + length q' < card (reach roots - seen) + length (x # q)"
proof -
  have "set (succs x) \<subseteq> reach roots" using inv_queue [OF assms(1), of x] reach_step by auto
  then show ?thesis using push_new_measure [OF assms(2,3)] by simp
qed

lemma measure_init: "finite (reach {x}) \<Longrightarrow> card (reach {x} - {x}) + length [x] = card (reach {x})"
  using reach_root [of x "{x}"] by (metis One_nat_def Suc_eq_plus1 card_Suc_Diff1 insertI1 list.size(3,4))

text \<open>Levels of a breadth-first walk: the nodes that are \<open>k\<close> edges away from the root.\<close>

definition level :: "'n \<Rightarrow> nat \<Rightarrow> 'n set" where
  "level root k = (edge_rel ^^ k) `` {root}"

definition bfs_inv :: "'n \<Rightarrow> 'n set \<Rightarrow> 'n set \<Rightarrow> nat \<Rightarrow> 'n list \<Rightarrow> 'n list \<Rightarrow> bool" where
  "bfs_inv root A seen d xs ys \<longleftrightarrow> inv {root} seen (xs @ ys) \<and> (seen - set (xs @ ys)) \<inter> A = {}
     \<and> set xs \<subseteq> level root d \<and> set ys \<subseteq> level root (Suc d) \<and> set ys \<inter> level root d = {}
     \<and> level root d \<subseteq> seen \<and> (\<forall>j<d. level root j \<subseteq> seen - set (xs @ ys))"

lemma level_0 [simp]: "level root 0 = {root}"
  by (simp add: level_def)

lemma level_Suc: "y \<in> level root (Suc k) \<longleftrightarrow> (\<exists>x \<in> level root k. y \<in> set (succs x))"
  by (auto simp: level_def edge_rel_def relcomp_unfold)

lemma reach_level: "x \<in> reach {root} \<longleftrightarrow> (\<exists>k. x \<in> level root k)"
  by (auto simp: reach_def level_def rtrancl_power)

lemma bfs_init: "bfs_inv root A {root} 0 [root] []"
  using inv_init [of root] by (simp add: bfs_inv_def)

lemma bfs_shift:
  assumes "bfs_inv root A seen d [] ys"
  shows "bfs_inv root A seen (Suc d) ys []"
proof -
  have "level root (Suc d) \<subseteq> seen"
  proof
    fix z assume "z \<in> level root (Suc d)"
    then obtain x where "x \<in> level root d" "z \<in> set (succs x)" by (auto simp: level_Suc)
    then have "x \<in> seen - set ys" using assms by (auto simp: bfs_inv_def)
    with assms \<open>z \<in> set (succs x)\<close> show "z \<in> seen" by (auto simp: bfs_inv_def inv_def)
  qed
  then show ?thesis using assms by (auto simp: bfs_inv_def less_Suc_eq)
qed

lemma bfs_step:
  assumes "bfs_inv root A seen d (x # xs) ys" "x \<notin> A" "push_new (succs x) seen (xs @ ys) = (seen', q')"
  shows "\<exists>ys'. q' = xs @ ys' \<and> bfs_inv root A seen' d xs ys'"
proof -
  obtain new where new: "q' = (xs @ ys) @ new" "set new = set (succs x) - seen" "seen' = seen \<union> set (succs x)"
    using push_new_queue [OF assms(3)] by blast
  have "inv {root} seen' q'" using inv_step [of "{root}" seen x "xs @ ys" seen' q'] assms by (simp add: bfs_inv_def)
  moreover have "set (succs x) \<subseteq> level root (Suc d)" using assms(1) by (auto simp: bfs_inv_def level_Suc)
  ultimately show ?thesis
    using assms(1,2) new by (intro exI [of _ "ys @ new"]) (auto simp: bfs_inv_def)
qed

lemma bfs_hit:
  assumes "bfs_inv root A seen d (x # xs) ys" "x \<in> A"
  shows "x \<in> level root d \<and> (\<forall>k. \<forall>y \<in> A \<inter> level root k. d \<le> k)"
proof -
  have "d \<le> k" if "y \<in> A" "y \<in> level root k" for y k
    using assms(1) that by (rule_tac ccontr) (auto simp: bfs_inv_def not_le disjoint_iff subset_iff)
  then show ?thesis using assms(1) by (auto simp: bfs_inv_def)
qed

end

end
