(* ===== verification/Merge.thy ===== *)
theory Merge
  imports Vfs Diff3 Repo_Error Graph_Walk
begin

text \<open>
  The merge driver (\<^verbatim>\<open>crates/repo/src/merge.rs\<close>): the common ancestor over the parent graph, and the
  three-way merge of file trees, modes, protected files and secret registries, with the wraps of
  \<^verbatim>\<open>protect.rs\<close> and the flattening walk of \<^verbatim>\<open>worktree.rs\<close> it calls. A \<^verbatim>\<open>BTreeSet\<close> that is only asked for
  membership is a set. Loops over the object graph take fuel, one unit for each object they read; \<open>OutOfFuel\<close>
  is not an error of the program.
\<close>

section \<open>Ancestors\<close>

definition node_parents :: "object_id \<Rightarrow> object \<Rightarrow> repo_error + object_id list" where
  "node_parents cur ob =
     (case ob of
        Snapshot s \<Rightarrow> Inr (sn_parents s)
      | Manifest m \<Rightarrow> Inr ((case bm_prev m of None \<Rightarrow> [] | Some p \<Rightarrow> [p]) @ [bm_base m])
      | other \<Rightarrow> Inl (BadRef (ExpectedSnapshotOrManifest cur (kind_name other))))"

fun ancestors_loop :: "nat \<Rightarrow> ext \<Rightarrow> object_id list \<Rightarrow> object_id set \<Rightarrow> object_id set repo_op" where
  "ancestors_loop n e [] seen st = (Inr seen, st)"
| "ancestors_loop 0 e (cur # q) seen st = (Inl OutOfFuel, st)"
| "ancestors_loop (Suc n) e (cur # q) seen st =
     bindS (liftR (get e cur)) (\<lambda>ob.
     bindS (liftE (node_parents cur ob)) (\<lambda>parents.
       let (seen', q') = push_new parents seen q in ancestors_loop n e q' seen')) st"

definition snapshot_ancestors :: "nat \<Rightarrow> ext \<Rightarrow> object_id \<Rightarrow> object_id set repo_op" where
  "snapshot_ancestors n e i = ancestors_loop n e [i] {i}"

definition is_ancestor :: "nat \<Rightarrow> ext \<Rightarrow> object_id \<Rightarrow> object_id \<Rightarrow> bool repo_op" where
  "is_ancestor n e anc desc = bindS (snapshot_ancestors n e desc) (\<lambda>s. returnS (anc \<in> s))"

fun base_loop :: "nat \<Rightarrow> ext \<Rightarrow> object_id set \<Rightarrow> object_id list \<Rightarrow> object_id set \<Rightarrow> object_id option repo_op" where
  "base_loop n e a_anc [] seen st = (Inr None, st)"
| "base_loop 0 e a_anc (i # q) seen st = (Inl OutOfFuel, st)"
| "base_loop (Suc n) e a_anc (i # q) seen st =
     (if i \<in> a_anc then (Inr (Some i), st)
      else bindS (liftR (get_snapshot e i)) (\<lambda>s.
        let (seen', q') = push_new (sn_parents s) seen q in base_loop n e a_anc q' seen') st)"

definition merge_base :: "nat \<Rightarrow> ext \<Rightarrow> object_id \<Rightarrow> object_id \<Rightarrow> object_id option repo_op" where
  "merge_base n e a b = bindS (snapshot_ancestors n e a) (\<lambda>a_anc. base_loop n e a_anc [b] {b})"

section \<open>Flattening trees\<close>

type_synonym file_entry = "object_id \<times> file_mode \<times> u8"

fun walk_entries_with_perms :: "nat \<Rightarrow> ext \<Rightarrow> object_id \<Rightarrow> string \<Rightarrow> (string \<times> file_entry) list repo_op" where
  "walk_entries_with_perms 0 e tree_id pre st = (Inl OutOfFuel, st)"
| "walk_entries_with_perms (Suc n) e tree_id pre st =
     bindS (liftR (get_tree e tree_id)) (\<lambda>t.
     bindS (mapS (\<lambda>en. let path = (if pre = [] then te_name en else pre @ slash # te_name en) in
                 case te_kind en of
                   BlobKind \<Rightarrow> (\<lambda>st. (Inr [(path, te_id en, te_mode en, te_perms en)], st))
                 | TreeKind \<Rightarrow> walk_entries_with_perms n e (te_id en) path) t) (\<lambda>outs st. (Inr (concat outs), st))) st"

definition tree_file_entries_with_perms :: "nat \<Rightarrow> ext \<Rightarrow> object_id \<Rightarrow> (string, file_entry) btree repo_op" where
  "tree_file_entries_with_perms n e root =
     bindS (walk_entries_with_perms n e root []) (\<lambda>out. returnS (foldl (\<lambda>m (p, v). bt_insert p v m) [] out))"

section \<open>Protected files\<close>

definition PROTECTED :: u8 where "PROTECTED = 1"

definition is_protected :: "u8 \<Rightarrow> bool" where
  "is_protected perms \<longleftrightarrow> perms AND PROTECTED \<noteq> 0"

fun dedup_wraps :: "wrapped_key list \<Rightarrow> wrapped_key list \<Rightarrow> wrapped_key list" where
  "dedup_wraps out [] = out"
| "dedup_wraps out (w # ws) =
     (if \<exists>x \<in> set out. wk_recipient_id x = wk_recipient_id w then dedup_wraps out ws else dedup_wraps (out @ [w]) ws)"

definition union_wraps :: "wrapped_key list \<Rightarrow> wrapped_key list \<Rightarrow> wrapped_key list" where
  "union_wraps a b = sort_key wk_recipient_id (dedup_wraps [] (a @ b))"

definition known_wraps :: "protection list \<Rightarrow> object_id \<Rightarrow> wrapped_key list" where
  "known_wraps prots i =
     foldl (\<lambda>wraps p. case map_of (pr_wrapped p) i of Some w \<Rightarrow> union_wraps wraps w | None \<Rightarrow> wraps) [] prots"

fun first_unwrap :: "prims \<Rightarrow> secret_key \<Rightarrow> wrapped_key list \<Rightarrow> bytes option" where
  "first_unwrap P sk [] = None"
| "first_unwrap P sk (w # ws) = (case unwrap_dek_with P w sk of Inl _ \<Rightarrow> first_unwrap P sk ws | Inr dek \<Rightarrow> Some dek)"

definition decrypt_with :: "prims \<Rightarrow> bytes \<Rightarrow> object_id \<Rightarrow> protection list \<Rightarrow> secret_key \<Rightarrow> string \<Rightarrow> repo_error + bytes" where
  "decrypt_with P ciphertext blob_id prots identity path =
     (case first_unwrap P identity (concat (map (\<lambda>p. case_option [] id (map_of (pr_wrapped p) blob_id)) prots)) of
        Some dek \<Rightarrow> (case decrypt_path P ciphertext dek of Inl err \<Rightarrow> Inl (RCrypto err) | Inr pt \<Rightarrow> Inr pt)
      | None \<Rightarrow> Inl (NotAuthorized path))"

definition blob_bytes :: "ext \<Rightarrow> object_id \<Rightarrow> bytes repo_op" where
  "blob_bytes e i = bindS (liftR (get e i)) (\<lambda>ob.
     case ob of Blob b \<Rightarrow> returnS b | _ \<Rightarrow> failS (BadRef (ExpectedBlob i)))"

definition plain_input :: "prims \<Rightarrow> ext \<Rightarrow> file_entry \<Rightarrow> protection list \<Rightarrow> secret_key option \<Rightarrow> string \<Rightarrow> bytes repo_op" where
  "plain_input P e entry prots identity path =
     (case entry of (i, mode, perms) \<Rightarrow>
        if \<not> is_protected perms then blob_bytes e i
        else case identity of
               None \<Rightarrow> failS (ProtectedMergeNeedsIdentity path)
             | Some sk \<Rightarrow> bindS (blob_bytes e i) (\<lambda>b. liftE (decrypt_with P b i prots sk path)))"

section \<open>Merging one path\<close>

record merged_file =
  mf_path :: string
  mf_mode :: file_mode
  mf_bytes :: bytes
  mf_perms :: u8
  mf_needs_encrypt :: bool

record merge_acc =
  ma_files :: "merged_file list"
  ma_sidecars :: "(string \<times> bytes) list"
  ma_conflicts :: "string list"
  ma_wrapped_carry :: "(object_id, wrapped_key list) btree"

definition acc_default :: merge_acc where
  "acc_default = \<lparr>ma_files = [], ma_sidecars = [], ma_conflicts = [], ma_wrapped_carry = []\<rparr>"

definition push_file :: "merged_file \<Rightarrow> merge_acc \<Rightarrow> merge_acc" where
  "push_file f acc = acc\<lparr>ma_files := ma_files acc @ [f]\<rparr>"

definition push_conflict :: "string \<Rightarrow> merge_acc \<Rightarrow> merge_acc" where
  "push_conflict p acc = acc\<lparr>ma_conflicts := ma_conflicts acc @ [p]\<rparr>"

definition push_sidecar :: "string \<Rightarrow> bytes \<Rightarrow> merge_acc \<Rightarrow> merge_acc" where
  "push_sidecar p b acc = acc\<lparr>ma_sidecars := ma_sidecars acc @ [(p, b)]\<rparr>"

definition plain_file :: "string \<Rightarrow> file_mode \<Rightarrow> bytes \<Rightarrow> merged_file" where
  "plain_file path mode b = \<lparr>mf_path = path, mf_mode = mode, mf_bytes = b, mf_perms = 0, mf_needs_encrypt = False\<rparr>"

definition merge_mode :: "file_mode option \<Rightarrow> file_mode option \<Rightarrow> file_mode option \<Rightarrow> file_mode" where
  "merge_mode b o' t =
     (case (o', t) of
        (Some om, Some tm) \<Rightarrow>
          if om = tm then om
          else if Some om = b then tm
          else if Some tm = b then om
          else if om = MODE_EXEC \<or> tm = MODE_EXEC then MODE_EXEC
          else MODE_FILE
      | (Some m, None) \<Rightarrow> m
      | (None, Some m) \<Rightarrow> m
      | (None, None) \<Rightarrow> MODE_FILE)"

text \<open>The content of both sides against the base: text by lines, anything else a conflict that keeps ours.\<close>

definition merge_contents :: "string \<Rightarrow> file_mode \<Rightarrow> u8 \<Rightarrow> bool \<Rightarrow> bytes \<Rightarrow> bytes \<Rightarrow> bytes \<Rightarrow> merge_acc \<Rightarrow> repo_error + merge_acc" where
  "merge_contents path mode perms needs_encrypt bb ob tb acc =
     (case (from_utf8 ob, from_utf8 tb) of
        (Some os, Some ts) \<Rightarrow>
          (case merge_lines (case_option [] id (from_utf8 bb)) os ts of
             None \<Rightarrow> Inl OutOfFuel
           | Some m \<Rightarrow>
               Inr (push_file \<lparr>mf_path = path, mf_mode = mode, mf_bytes = str_bytes (m_text m), mf_perms = perms,
                      mf_needs_encrypt = needs_encrypt\<rparr>
                 (if m_conflicted m then push_conflict path acc else acc)))
      | _ \<Rightarrow>
          Inr (push_file \<lparr>mf_path = path, mf_mode = mode, mf_bytes = ob, mf_perms = perms, mf_needs_encrypt = needs_encrypt\<rparr>
            (push_sidecar (path @ ''.theirs'') tb (push_conflict path acc))))"

definition take_plain :: "ext \<Rightarrow> string \<Rightarrow> file_mode \<Rightarrow> file_entry option \<Rightarrow> merge_acc \<Rightarrow> merge_acc repo_op" where
  "take_plain e path mode entry acc =
     (case entry of
        None \<Rightarrow> returnS acc
      | Some (i, _, _) \<Rightarrow> bindS (blob_bytes e i) (\<lambda>b. returnS (push_file (plain_file path mode b) acc)))"

definition merge_plain :: "ext \<Rightarrow> string \<Rightarrow> file_entry option \<Rightarrow> file_entry option \<Rightarrow> file_entry option \<Rightarrow> merge_acc \<Rightarrow> merge_acc repo_op" where
  "merge_plain e path b o' t acc =
     (let mode = merge_mode (map_option (fst \<circ> snd) b) (map_option (fst \<circ> snd) o') (map_option (fst \<circ> snd) t);
          bo = map_option fst b; oo = map_option fst o'; to = map_option fst t
      in if oo = to then take_plain e path mode o' acc
         else if oo = bo then take_plain e path mode t acc
         else if to = bo then take_plain e path mode o' acc
         else case (o', t) of
           (Some (oid, _, _), Some (tid, _, _)) \<Rightarrow>
             bindS (blob_bytes e oid) (\<lambda>ob.
             bindS (blob_bytes e tid) (\<lambda>tb.
             bindS (case b of Some (bid, _, _) \<Rightarrow> blob_bytes e bid | None \<Rightarrow> returnS []) (\<lambda>bb.
               liftE (merge_contents path mode 0 False bb ob tb acc))))
         | (Some (oid, omode, _), None) \<Rightarrow>
             bindS (blob_bytes e oid) (\<lambda>ob. returnS (push_file (plain_file path omode ob) (push_conflict path acc)))
         | (None, Some (tid, tmode, _)) \<Rightarrow>
             bindS (blob_bytes e tid) (\<lambda>tb. returnS (push_file (plain_file path tmode tb) (push_conflict path acc)))
         | (None, None) \<Rightarrow> failS (RCore Panicked))"

definition carry_wraps :: "protection list \<Rightarrow> object_id \<Rightarrow> u8 \<Rightarrow> merge_acc \<Rightarrow> merge_acc" where
  "carry_wraps prots i perms acc =
     (let wraps = known_wraps prots i
      in if is_protected perms \<and> wraps \<noteq> [] then acc\<lparr>ma_wrapped_carry := bt_insert i wraps (ma_wrapped_carry acc)\<rparr> else acc)"

definition take_raw :: "ext \<Rightarrow> string \<Rightarrow> file_mode \<Rightarrow> protection list \<Rightarrow> file_entry option \<Rightarrow> merge_acc \<Rightarrow> merge_acc repo_op" where
  "take_raw e path mode prots entry acc =
     (case entry of
        None \<Rightarrow> returnS acc
      | Some (i, _, perms) \<Rightarrow>
          bindS (blob_bytes e i) (\<lambda>b. returnS (push_file
            \<lparr>mf_path = path, mf_mode = mode, mf_bytes = b, mf_perms = perms, mf_needs_encrypt = False\<rparr>
            (carry_wraps prots i perms acc))))"

definition protect_key :: "file_entry option \<Rightarrow> (object_id \<times> u8) option" where
  "protect_key = map_option (\<lambda>(i, mode, perms). (i, perms AND PROTECTED))"

definition merge_survivor :: "prims \<Rightarrow> ext \<Rightarrow> string \<Rightarrow> protection list \<Rightarrow> secret_key option \<Rightarrow> file_entry \<Rightarrow> merge_acc \<Rightarrow> merge_acc repo_op" where
  "merge_survivor P e path prots identity entry acc =
     bindS (plain_input P e entry prots identity path) (\<lambda>b.
       let perms = snd (snd entry) AND PROTECTED
       in returnS (push_file \<lparr>mf_path = path, mf_mode = fst (snd entry), mf_bytes = b, mf_perms = perms,
            mf_needs_encrypt = (perms \<noteq> 0)\<rparr> (push_conflict path acc)))"

definition merge_protected :: "prims \<Rightarrow> ext \<Rightarrow> string \<Rightarrow> file_entry option \<Rightarrow> file_entry option \<Rightarrow> file_entry option \<Rightarrow>
    protection list \<Rightarrow> secret_key option \<Rightarrow> merge_acc \<Rightarrow> merge_acc repo_op" where
  "merge_protected P e path b o' t prots identity acc =
     (let mode = merge_mode (map_option (fst \<circ> snd) b) (map_option (fst \<circ> snd) o') (map_option (fst \<circ> snd) t);
          bk = protect_key b; ok = protect_key o'; tk = protect_key t
      in if ok = tk then take_raw e path mode prots o' acc
         else if ok = bk then take_raw e path mode prots t acc
         else if tk = bk then take_raw e path mode prots o' acc
         else case (o', t) of
           (Some oe, Some te) \<Rightarrow>
             let perms = (snd (snd oe) OR snd (snd te)) AND PROTECTED
             in bindS (plain_input P e oe prots identity path) (\<lambda>ob.
                bindS (plain_input P e te prots identity path) (\<lambda>tb.
                bindS (case b of Some be \<Rightarrow> plain_input P e be prots identity path | None \<Rightarrow> returnS []) (\<lambda>bb.
                  liftE (merge_contents path mode perms (perms \<noteq> 0) bb ob tb acc))))
         | (Some oe, None) \<Rightarrow> merge_survivor P e path prots identity oe acc
         | (None, Some te) \<Rightarrow> merge_survivor P e path prots identity te acc
         | (None, None) \<Rightarrow> failS (RCore Panicked))"

definition merge_path :: "prims \<Rightarrow> ext \<Rightarrow> string \<Rightarrow> file_entry option \<Rightarrow> file_entry option \<Rightarrow> file_entry option \<Rightarrow>
    protection list \<Rightarrow> secret_key option \<Rightarrow> merge_acc \<Rightarrow> merge_acc repo_op" where
  "merge_path P e path b o' t prots identity acc =
     (if \<not> (\<exists>en \<in> set_option b \<union> set_option o' \<union> set_option t. is_protected (snd (snd en)))
      then merge_plain e path b o' t acc
      else merge_protected P e path b o' t prots identity acc)"

section \<open>Merging trees and registries\<close>

text \<open>The slashes of a path from the left, as \<^verbatim>\<open>find\<close> steps through them, are those of \<open>ancestors\<close>.\<close>

definition check_path_collisions :: "string list \<Rightarrow> repo_error + unit" where
  "check_path_collisions paths =
     (case find (\<lambda>f. f \<in> set paths) (concat (map ancestors (sort (remdups paths)))) of
        Some f \<Rightarrow> Inl (PathCollision f)
      | None \<Rightarrow> Inr ())"

record file_merge =
  fm_files :: "merged_file list"
  fm_sidecars :: "(string \<times> bytes) list"
  fm_conflicts :: "string list"
  fm_wrapped_carry :: "(object_id, wrapped_key list) btree"

definition acc_into :: "merge_acc \<Rightarrow> file_merge" where
  "acc_into a = \<lparr>fm_files = ma_files a, fm_sidecars = ma_sidecars a, fm_conflicts = ma_conflicts a,
     fm_wrapped_carry = ma_wrapped_carry a\<rparr>"

fun merge_paths :: "prims \<Rightarrow> ext \<Rightarrow> string list \<Rightarrow> (string, file_entry) btree \<Rightarrow> (string, file_entry) btree \<Rightarrow>
    (string, file_entry) btree \<Rightarrow> protection list \<Rightarrow> secret_key option \<Rightarrow> merge_acc \<Rightarrow> merge_acc repo_op" where
  "merge_paths P e [] bf ofs tf prots identity acc st = (Inr acc, st)"
| "merge_paths P e (path # paths) bf ofs tf prots identity acc st =
     bindS (merge_path P e path (map_of bf path) (map_of ofs path) (map_of tf path) prots identity acc)
       (merge_paths P e paths bf ofs tf prots identity) st"

definition union_keys :: "(string, 'v) btree list \<Rightarrow> string list" where
  "union_keys ms = sort (remdups (concat (map (map fst) ms)))"

definition three_way_files :: "nat \<Rightarrow> prims \<Rightarrow> ext \<Rightarrow> (object_id \<times> protection) option \<Rightarrow> object_id \<times> protection \<Rightarrow>
    object_id \<times> protection \<Rightarrow> secret_key option \<Rightarrow> file_merge repo_op" where
  "three_way_files n P e base ours theirs identity =
     bindS (case base of Some (r, _) \<Rightarrow> tree_file_entries_with_perms n e r | None \<Rightarrow> returnS []) (\<lambda>base_f.
     bindS (tree_file_entries_with_perms n e (fst ours)) (\<lambda>ours_f.
     bindS (tree_file_entries_with_perms n e (fst theirs)) (\<lambda>theirs_f.
       let base_prot = (case base of Some (_, p) \<Rightarrow> p | None \<Rightarrow> protection_default);
           prots = [snd ours, snd theirs, base_prot]
       in bindS (merge_paths P e (union_keys [base_f, ours_f, theirs_f]) base_f ours_f theirs_f prots identity acc_default) (\<lambda>acc.
          bindS (liftE (check_path_collisions (map mf_path (ma_files acc)))) (\<lambda>_. returnS (acc_into acc))))))"

text \<open>The loop of \<^verbatim>\<open>merge_secrets\<close> over the names.\<close>

fun merge_names :: "string list \<Rightarrow> (string, object_id) btree \<Rightarrow> (string, object_id) btree \<Rightarrow> (string, object_id) btree \<Rightarrow>
    (string, object_id) btree \<Rightarrow> repo_error + (string, object_id) btree" where
  "merge_names [] base ours theirs out = Inr out"
| "merge_names (name # names) base ours theirs out =
     (let b = map_of base name; o' = map_of ours name; t = map_of theirs name in
      bindE (if o' = t then Inr o' else if o' = b then Inr t else if t = b then Inr o' else Inl (SecretMergeConflict name))
        (\<lambda>resolved. merge_names names base ours theirs
           (case resolved of Some i \<Rightarrow> bt_insert name i out | None \<Rightarrow> out)))"

definition merge_secrets :: "(string, object_id) btree \<Rightarrow> (string, object_id) btree \<Rightarrow> (string, object_id) btree \<Rightarrow>
    repo_error + (string, object_id) btree" where
  "merge_secrets base ours theirs = merge_names (union_keys [base, ours, theirs]) base ours theirs []"

record merge_result =
  mg_files :: "merged_file list"
  mg_sidecars :: "(string \<times> bytes) list"
  mg_conflicts :: "string list"
  mg_secrets :: "(string, object_id) btree"
  mg_wrapped_carry :: "(object_id, wrapped_key list) btree"

definition three_way :: "nat \<Rightarrow> prims \<Rightarrow> ext \<Rightarrow> object_id \<Rightarrow> object_id \<Rightarrow> object_id \<Rightarrow> secret_key option \<Rightarrow> merge_result repo_op" where
  "three_way n P e base ours theirs identity =
     bindS (liftR (get_snapshot e base)) (\<lambda>b.
     bindS (liftR (get_snapshot e ours)) (\<lambda>o'.
     bindS (liftR (get_snapshot e theirs)) (\<lambda>t.
     bindS (liftE (merge_secrets (sn_secrets b) (sn_secrets o') (sn_secrets t))) (\<lambda>secrets.
     bindS (three_way_files n P e (Some (sn_root b, sn_protection b)) (sn_root o', sn_protection o')
              (sn_root t, sn_protection t) identity) (\<lambda>fm.
       returnS \<lparr>mg_files = fm_files fm, mg_sidecars = fm_sidecars fm, mg_conflicts = fm_conflicts fm,
         mg_secrets = secrets, mg_wrapped_carry = fm_wrapped_carry fm\<rparr>)))))"

end
