(* ===== verification/Worklist.thy ===== *)
theory Worklist
  imports Merge Vfs_Correct
begin

text \<open>
  The walks over snapshot histories: the contract of a graph walk at the parents that a store serves.
\<close>

section \<open>Histories\<close>

text \<open>The parents of a node as the store serves it.\<close>

definition view_parents :: "ext \<Rightarrow> store \<Rightarrow> object_id \<Rightarrow> object_id list" where
  "view_parents e st i =
     (case view e st i of None \<Rightarrow> [] | Some ob \<Rightarrow> (case node_parents i ob of Inl _ \<Rightarrow> [] | Inr ps \<Rightarrow> ps))"

interpretation wg: walk_graph "view_parents e st" for e st .

abbreviation history_of :: "ext \<Rightarrow> store \<Rightarrow> object_id \<Rightarrow> object_id set" where
  "history_of e st i \<equiv> wg.reach e st {i}"

definition history_ok :: "ext \<Rightarrow> store \<Rightarrow> object_id \<Rightarrow> bool" where
  "history_ok e st i \<longleftrightarrow> (\<forall>j \<in> history_of e st i. \<exists>ob ps. view e st j = Some ob \<and> node_parents j ob = Inr ps)"

lemma node_parents_canon: "node_parents i (canon ob) = node_parents i ob"
  by (cases ob) (simp_all add: canon_def node_parents_def sort_snapshot_def sort_manifest_def kind_name_def)

lemma map_of_present: "map_of xs k \<noteq> None \<Longrightarrow> k \<in> fst ` set xs"
  by (simp add: map_of_eq_None_iff)

lemma contains_key:
  assumes "contains e i st"
  shows "i \<in> fst ` set (st_resident st) \<or> i \<in> fst ` set (st_spilled st) \<or> shard_path e i \<in> fst ` set (dk_sharded (st_disk st))
    \<or> id_to_hex e i \<in> fst ` set (dk_flat (st_disk st)) \<or> i \<in> fst ` set (st_pack_index st)"
proof -
  have "existing_loose e i st \<noteq> None \<Longrightarrow> shard_path e i \<in> fst ` set (dk_sharded (st_disk st)) \<or> id_to_hex e i \<in> fst ` set (dk_flat (st_disk st))"
    using map_of_present [of "dk_sharded (st_disk st)" "shard_path e i"] map_of_present [of "dk_flat (st_disk st)" "id_to_hex e i"]
    unfolding existing_loose_def by (cases "map_of (dk_sharded (st_disk st)) (shard_path e i)") (simp_all split: if_splits)
  then show ?thesis using assms map_of_present unfolding contains_def by metis
qed

lemma finite_view:
  assumes "store_ok e U st"
  shows "finite (dom (view e st))"
proof -
  have h: "hex_ok e" using assms by (simp add: store_ok_def)
  let ?K = "fst ` set (st_resident st) \<union> fst ` set (st_spilled st) \<union> shard_path e -` (fst ` set (dk_sharded (st_disk st)))
      \<union> id_to_hex e -` (fst ` set (dk_flat (st_disk st))) \<union> fst ` set (st_pack_index st)"
  have "i \<in> ?K" if "i \<in> dom (view e st)" for i
  proof -
    from that have "contains e i st" using view_contains [of e U st i] assms by (auto simp: store_ok_def)
    from contains_key [OF this] show ?thesis by blast
  qed
  then have "dom (view e st) \<subseteq> ?K" by blast
  moreover have "finite ?K"
    using shard_path_inj [OF h] id_to_hex_inj [OF h] by (simp add: finite_vimageI inj_def)
  ultimately show ?thesis by (rule finite_subset)
qed

lemma history_finite:
  assumes "store_ok e U st" "history_ok e st i"
  shows "finite (history_of e st i)" "card (history_of e st i) \<le> card (dom (view e st))"
proof -
  have "history_of e st i \<subseteq> dom (view e st)" using assms(2) by (auto simp: history_ok_def)
  then show "finite (history_of e st i)" "card (history_of e st i) \<le> card (dom (view e st))"
    using finite_view [OF assms(1)] by (auto intro: finite_subset card_mono)
qed

text \<open>Reading a node of a history.\<close>

lemma get_node:
  assumes "store_ok e U st" "view e st i = Some ob" "node_parents i ob = Inr ps"
  shows "\<exists>ob' st'. get e i st = (Inr ob', st') \<and> node_parents i ob' = Inr ps \<and> canon ob' = ob \<and> grows e U st st'"
proof -
  have c: "canon ob = ob" using assms(2) by (auto simp: view_def split: sum.splits)
  have "blob_size ob = 0" using assms(3) by (cases ob) (simp_all add: node_parents_def blob_size_def)
  with get_held [of e U st i ob] assms(1,2) c obtain ob' st' where g: "get e i st = (Inr ob', st')" "canon ob' = ob" by auto
  with os.get_inv [OF assms(1) g(1)] os.get_view [OF assms(1) g(1)] get_okD(2) [OF assms(1) g(1)] get_budget [of e i st]
    node_parents_canon [of i ob'] assms(3)
  show ?thesis by (simp add: grows_def)
qed

lemma ancestors_loop_ok:
  assumes "store_ok e U st0" "\<forall>j \<in> wg.reach e st0 roots. \<exists>ob ps. view e st0 j = Some ob \<and> node_parents j ob = Inr ps"
    and "finite (wg.reach e st0 roots)"
  shows "grows e U st0 st \<Longrightarrow> wg.inv e st0 roots seen q \<Longrightarrow> card (wg.reach e st0 roots - seen) + length q \<le> n \<Longrightarrow>
    \<exists>st'. ancestors_loop n e q seen st = (Inr (wg.reach e st0 roots), st') \<and> grows e U st0 st'"
proof (induction n arbitrary: q seen st)
  case 0
  then have "q = []" by simp
  with 0 wg.inv_done [of e st0 roots seen] show ?case by auto
next
  case (Suc n)
  show ?case
  proof (cases q)
    case Nil
    with Suc.prems wg.inv_done [of e st0 roots seen] show ?thesis by auto
  next
    case (Cons x q0)
    have x: "x \<in> wg.reach e st0 roots" using wg.inv_queue [OF Suc.prems(2)] Cons by simp
    then obtain ob ps where ob: "view e st0 x = Some ob" "node_parents x ob = Inr ps" using assms(2) by blast
    obtain seen' q' where p: "push_new ps seen q0 = (seen', q')" by fastforce
    have s: "view_parents e st0 x = ps" using ob by (simp add: view_parents_def)
    obtain ob' st1 where g: "get e x st = (Inr ob', st1)" "node_parents x ob' = Inr ps" "grows e U st st1"
      using get_node [OF grows_ok [OF Suc.prems(1)] grows_view [OF Suc.prems(1) ob(1)] ob(2)] by blast
    have "wg.inv e st0 roots seen' q'"
      using wg.inv_step [of e st0 roots seen x q0 seen' q'] Suc.prems(2) Cons p s by simp
    moreover have "card (wg.reach e st0 roots - seen') + length q' \<le> n"
      using wg.measure_step [of e st0 roots seen x q0 seen' q'] Suc.prems(2,3) Cons p s assms(3) by simp
    ultimately obtain st' where "ancestors_loop n e q' seen' st1 = (Inr (wg.reach e st0 roots), st')" "grows e U st0 st'"
      using Suc.IH [OF grows_trans [OF Suc.prems(1) g(3)]] by blast
    with Cons g p show ?thesis by (simp add: bindS_def liftR_def)
  qed
qed

lemma snapshot_ancestors_ok:
  assumes "store_ok e U st" "history_ok e st i" "card (dom (view e st)) \<le> n"
  shows "\<exists>st'. snapshot_ancestors n e i st = (Inr (history_of e st i), st') \<and> grows e U st st'"
proof -
  have "card (history_of e st i - {i}) + length [i] \<le> n"
    using wg.measure_init [of e st i] history_finite [OF assms(1,2)] assms(3) by simp
  with ancestors_loop_ok [OF assms(1) _ history_finite(1) [OF assms(1,2)] grows_refl [OF assms(1)] wg.inv_init] assms(2)
  show ?thesis by (simp add: snapshot_ancestors_def history_ok_def)
qed

end
