(* ===== verification/Merge_Correct.thy ===== *)
theory Merge_Correct
  imports Merge Vfs_Correct
begin

text \<open>
  What the merge driver computes on the trees and blobs that a store serves: flattened trees, the
  resolution of a path by its ids, the shape of everything a path adds to the result, and the registry.
\<close>

section \<open>Reading\<close>

interpretation pw: tree_walk walk_entries_with_perms "\<lambda>x. x" liftR
  by unfold_locales (simp add: liftR_def, unfold walk_entries_with_perms.simps prod.case, rule refl)

lemma flatten_serves:
  assumes "store_ok e U st" "serves e st files root" "max_len files [] < n"
  shows "\<exists>st'. tree_file_entries_with_perms n e root st = (Inr files, st') \<and> grows e U st st'"
proof -
  have "\<forall>p \<in> fst ` set files. \<forall>s. p \<noteq> slash # s"
    using assms(2) file_path_no_slash unfolding serves_def by (fastforce split: prod.splits)
  moreover have "under [] files = files" by (simp add: under_def)
  ultimately obtain out st' where w: "walk_entries_with_perms n e root [] st = (Inr out, st')" "grows e U st st'" "mset out = mset files"
    using pw.walk_built [OF assms(1), of files "[]" n "[]"] assms(2,3) by (auto simp: serves_def prefix_of_def)
  have "foldl (\<lambda>m (p, v). bt_insert p v m) [] out = files"
    using index_listing [OF _ w(3)] assms(2) by (simp add: serves_def)
  with w(1,2) show ?thesis by (simp add: tree_file_entries_with_perms_def bindS_def)
qed

lemma blob_bytes_ok:
  assumes "store_ok e U st" "view e st i = Some (Blob b)" "length b \<le> st_budget st"
  shows "\<exists>st'. blob_bytes e i st = (Inr b, st') \<and> grows e U st st'"
  using get_blob_ok [OF assms] by (auto simp: blob_bytes_def bindS_def liftR_def)

text \<open>Whatever a read returns is what the store served, and the store serves it still.\<close>

lemma blob_bytes_view:
  assumes "store_ok e U st" "blob_bytes e i st = (Inr b, st')"
  shows "view e st i = Some (Blob b)" "grows e U st st'"
proof -
  have g: "get e i st = (Inr (Blob b), st')"
    using assms(2) by (auto simp: blob_bytes_def bindS_def liftR_def split: prod.splits sum.splits object.splits)
  show "view e st i = Some (Blob b)" using get_okD(4) [OF assms(1) g] by (auto simp: view_def canon_def split: sum.splits)
  show "grows e U st st'"
    using os.get_inv [OF assms(1) g] os.get_view [OF assms(1) g] get_okD(2) [OF assms(1) g] get_budget [of e i st] g
    by (simp add: grows_def)
qed

section \<open>Resolution by id\<close>

text \<open>The side that a path takes when one side left it alone or both agree.\<close>

definition resolvable :: "file_entry option \<Rightarrow> file_entry option \<Rightarrow> file_entry option \<Rightarrow> bool" where
  "resolvable b o' t \<longleftrightarrow> protect_key o' = protect_key t \<or> protect_key o' = protect_key b \<or> protect_key t = protect_key b"

definition winner :: "file_entry option \<Rightarrow> file_entry option \<Rightarrow> file_entry option \<Rightarrow> file_entry option" where
  "winner b o' t = (if protect_key o' = protect_key t then o' else if protect_key o' = protect_key b then t else o')"

abbreviation all_plain :: "file_entry option \<Rightarrow> file_entry option \<Rightarrow> file_entry option \<Rightarrow> bool" where
  "all_plain b o' t \<equiv> \<forall>en \<in> set_option b \<union> set_option o' \<union> set_option t. \<not> is_protected (snd (snd en))"

abbreviation entry_mode :: "file_entry option \<Rightarrow> file_mode option" where
  "entry_mode \<equiv> map_option (fst \<circ> snd)"

lemma protect_key_plain:
  assumes "\<forall>en \<in> set_option x \<union> set_option y. \<not> is_protected (snd (snd en))"
  shows "protect_key x = protect_key y \<longleftrightarrow> map_option fst x = map_option fst y"
  using assms by (cases x; cases y) (auto simp: protect_key_def is_protected_def)

lemma winner_cases: "winner b o' t = o' \<or> winner b o' t = t"
  by (simp add: winner_def)

text \<open>What a resolved path adds to the result.\<close>

definition blob_of :: "ext \<Rightarrow> store \<Rightarrow> object_id \<Rightarrow> bytes" where
  "blob_of e st i = (case view e st i of Some (Blob b) \<Rightarrow> b | _ \<Rightarrow> [])"

definition resolved_file :: "ext \<Rightarrow> store \<Rightarrow> string \<Rightarrow> file_entry option \<Rightarrow> file_entry option \<Rightarrow> file_entry option \<Rightarrow> merged_file option" where
  "resolved_file e st path b o' t =
     map_option (\<lambda>(i, _, perms). \<lparr>mf_path = path, mf_mode = merge_mode (entry_mode b) (entry_mode o') (entry_mode t),
       mf_bytes = blob_of e st i, mf_perms = (if all_plain b o' t then 0 else perms), mf_needs_encrypt = False\<rparr>) (winner b o' t)"

definition held :: "ext \<Rightarrow> store \<Rightarrow> file_entry option \<Rightarrow> bool" where
  "held e st x \<longleftrightarrow> (\<forall>en \<in> set_option x. \<exists>b. view e st (fst en) = Some (Blob b) \<and> length b \<le> st_budget st)"

lemma held_grows: "held e st x \<Longrightarrow> grows e U st st' \<Longrightarrow> held e st' x"
  unfolding held_def using grows_view by (fastforce simp: grows_def)

lemma blob_of_grows: "held e st (Some (i, m, q)) \<Longrightarrow> grows e U st st' \<Longrightarrow> blob_of e st' i = blob_of e st i"
  unfolding held_def blob_of_def using grows_view by fastforce

lemma take_plain_ok:
  assumes "store_ok e U st" "held e st x"
  shows "\<exists>st'. grows e U st st' \<and> take_plain e path mode x acc st =
     (Inr (case x of None \<Rightarrow> acc | Some (i, m, q) \<Rightarrow> push_file (plain_file path mode (blob_of e st i)) acc), st')"
proof (cases x)
  case (Some v)
  obtain i m q where v: "v = (i, m, q)" by (cases v)
  with assms(2) Some obtain b where b: "view e st i = Some (Blob b)" "length b \<le> st_budget st" by (auto simp: held_def)
  from blob_bytes_ok [OF assms(1) b] b(1) Some v show ?thesis by (auto simp: take_plain_def bindS_def blob_of_def)
qed (use grows_refl [OF assms(1)] in \<open>auto simp: take_plain_def\<close>)

lemma take_raw_ok:
  assumes "store_ok e U st" "held e st x"
  shows "\<exists>st'. grows e U st st' \<and> take_raw e path mode prots x acc st =
     (Inr (case x of None \<Rightarrow> acc | Some (i, m, q) \<Rightarrow> push_file \<lparr>mf_path = path, mf_mode = mode, mf_bytes = blob_of e st i, mf_perms = q,
        mf_needs_encrypt = False\<rparr> (carry_wraps prots i q acc)), st')"
proof (cases x)
  case (Some v)
  obtain i m q where v: "v = (i, m, q)" by (cases v)
  with assms(2) Some obtain b where b: "view e st i = Some (Blob b)" "length b \<le> st_budget st" by (auto simp: held_def)
  from blob_bytes_ok [OF assms(1) b] b(1) Some v show ?thesis by (auto simp: take_raw_def bindS_def blob_of_def)
qed (use grows_refl [OF assms(1)] in \<open>auto simp: take_raw_def\<close>)

lemma carry_wraps_fields [simp]:
  "ma_files (carry_wraps prots i q acc) = ma_files acc" "ma_conflicts (carry_wraps prots i q acc) = ma_conflicts acc"
  "ma_sidecars (carry_wraps prots i q acc) = ma_sidecars acc"
  by (simp_all add: carry_wraps_def Let_def)

lemma push_fields [simp]:
  "ma_files (push_file f acc) = ma_files acc @ [f]" "ma_conflicts (push_file f acc) = ma_conflicts acc"
  "ma_sidecars (push_file f acc) = ma_sidecars acc" "ma_wrapped_carry (push_file f acc) = ma_wrapped_carry acc"
  "ma_files (push_conflict p acc) = ma_files acc" "ma_conflicts (push_conflict p acc) = ma_conflicts acc @ [p]"
  "ma_sidecars (push_conflict p acc) = ma_sidecars acc" "ma_wrapped_carry (push_conflict p acc) = ma_wrapped_carry acc"
  "ma_files (push_sidecar p d acc) = ma_files acc" "ma_conflicts (push_sidecar p d acc) = ma_conflicts acc"
  "ma_sidecars (push_sidecar p d acc) = ma_sidecars acc @ [(p, d)]" "ma_wrapped_carry (push_sidecar p d acc) = ma_wrapped_carry acc"
  by (simp_all add: push_file_def push_conflict_def push_sidecar_def)

lemma merge_path_fast:
  assumes "resolvable b o' t"
  shows "merge_path P e path b o' t prots identity acc =
    (if all_plain b o' t then take_plain e path (merge_mode (entry_mode b) (entry_mode o') (entry_mode t)) (winner b o' t) acc
     else take_raw e path (merge_mode (entry_mode b) (entry_mode o') (entry_mode t)) prots (winner b o' t) acc)"
proof (cases "all_plain b o' t")
  case True
  then have k: "protect_key o' = protect_key t \<longleftrightarrow> map_option fst o' = map_option fst t"
    "protect_key o' = protect_key b \<longleftrightarrow> map_option fst o' = map_option fst b"
    "protect_key t = protect_key b \<longleftrightarrow> map_option fst t = map_option fst b"
    by (intro protect_key_plain; blast)+
  then have "merge_plain e path b o' t acc = take_plain e path (merge_mode (entry_mode b) (entry_mode o') (entry_mode t)) (winner b o' t) acc"
    using assms unfolding resolvable_def merge_plain_def winner_def k by (elim disjE) (simp_all add: Let_def)
  moreover have "merge_path P e path b o' t prots identity acc = merge_plain e path b o' t acc"
    unfolding merge_path_def using True by (subst if_P) auto
  ultimately show ?thesis using True by (metis (no_types, lifting))
next
  case False
  then have "merge_path P e path b o' t prots identity acc = merge_protected P e path b o' t prots identity acc"
    unfolding merge_path_def by (subst if_not_P) auto
  moreover have "merge_protected P e path b o' t prots identity acc =
      take_raw e path (merge_mode (entry_mode b) (entry_mode o') (entry_mode t)) prots (winner b o' t) acc"
    using assms unfolding merge_protected_def winner_def resolvable_def by (elim disjE) (simp_all add: Let_def)
  ultimately show ?thesis using False by (metis (no_types, lifting))
qed

lemma merge_path_resolved:
  assumes "store_ok e U st" "resolvable b o' t" "held e st o'" "held e st t"
  shows "\<exists>acc' st'. merge_path P e path b o' t prots identity acc st = (Inr acc', st') \<and> grows e U st st'
    \<and> ma_files acc' = ma_files acc @ (case resolved_file e st path b o' t of None \<Rightarrow> [] | Some f \<Rightarrow> [f])
    \<and> ma_conflicts acc' = ma_conflicts acc \<and> ma_sidecars acc' = ma_sidecars acc"
proof -
  let ?m = "merge_mode (entry_mode b) (entry_mode o') (entry_mode t)"
  have h: "held e st (winner b o' t)" using assms(3,4) winner_cases [of b o' t] by auto
  obtain s1 where s1: "grows e U st s1" "take_plain e path ?m (winner b o' t) acc st =
       (Inr (case winner b o' t of None \<Rightarrow> acc | Some (i, m, q) \<Rightarrow> push_file (plain_file path ?m (blob_of e st i)) acc), s1)"
    using take_plain_ok [OF assms(1) h] by blast
  obtain s2 where s2: "grows e U st s2" "take_raw e path ?m prots (winner b o' t) acc st =
       (Inr (case winner b o' t of None \<Rightarrow> acc | Some (i, m, q) \<Rightarrow> push_file \<lparr>mf_path = path, mf_mode = ?m, mf_bytes = blob_of e st i,
          mf_perms = q, mf_needs_encrypt = False\<rparr> (carry_wraps prots i q acc)), s2)"
    using take_raw_ok [OF assms(1) h] by blast
  show ?thesis
  proof (cases "all_plain b o' t")
    case True
    then have "merge_path P e path b o' t prots identity acc st = take_plain e path ?m (winner b o' t) acc st"
      unfolding merge_path_fast [OF assms(2)] by (subst if_P) auto
    with s1 True show ?thesis
      by (cases "winner b o' t") (simp_all add: resolved_file_def plain_file_def split: prod.splits)
  next
    case False
    then have "merge_path P e path b o' t prots identity acc st = take_raw e path ?m prots (winner b o' t) acc st"
      unfolding merge_path_fast [OF assms(2)] by (subst if_not_P) auto
    with s2 show ?thesis unfolding resolved_file_def if_not_P [OF False]
      by (cases "winner b o' t") (simp_all split: prod.splits)
  qed
qed

lemma resolved_file_grows:
  assumes "held e st o'" "held e st t" "grows e U st st'"
  shows "resolved_file e st' path b o' t = resolved_file e st path b o' t"
proof (cases "winner b o' t")
  case (Some v)
  obtain i m q where v: "v = (i, m, q)" by (cases v)
  have "held e st (winner b o' t)" using assms(1,2) winner_cases [of b o' t] by auto
  with blob_of_grows [OF _ assms(3)] Some v have "blob_of e st' i = blob_of e st i" by simp
  then show ?thesis using Some v by (simp add: resolved_file_def)
qed (simp add: resolved_file_def)

lemma merge_paths_resolved:
  assumes "store_ok e U st" "\<forall>p \<in> set paths. resolvable (map_of bf p) (map_of ofs p) (map_of tf p)
    \<and> held e st (map_of ofs p) \<and> held e st (map_of tf p)"
  shows "\<exists>acc' st'. merge_paths P e paths bf ofs tf prots identity acc st = (Inr acc', st') \<and> grows e U st st'
    \<and> ma_files acc' = ma_files acc @ List.map_filter (\<lambda>p. resolved_file e st p (map_of bf p) (map_of ofs p) (map_of tf p)) paths
    \<and> ma_conflicts acc' = ma_conflicts acc \<and> ma_sidecars acc' = ma_sidecars acc"
  using assms
proof (induction paths arbitrary: acc st)
  case Nil
  then show ?case using grows_refl by (auto simp: List.map_filter_def)
next
  case (Cons p paths)
  obtain acc1 s1 where s1: "merge_path P e p (map_of bf p) (map_of ofs p) (map_of tf p) prots identity acc st = (Inr acc1, s1)"
    "grows e U st s1"
    "ma_files acc1 = ma_files acc @ (case resolved_file e st p (map_of bf p) (map_of ofs p) (map_of tf p) of None \<Rightarrow> [] | Some f \<Rightarrow> [f])"
    "ma_conflicts acc1 = ma_conflicts acc" "ma_sidecars acc1 = ma_sidecars acc"
    using merge_path_resolved [OF Cons.prems(1), of "map_of bf p" "map_of ofs p" "map_of tf p" P p prots identity acc] Cons.prems(2) by auto
  have h: "\<forall>q \<in> set paths. resolvable (map_of bf q) (map_of ofs q) (map_of tf q) \<and> held e s1 (map_of ofs q) \<and> held e s1 (map_of tf q)"
    using Cons.prems(2) held_grows [OF _ s1(2)] by auto
  have eq: "List.map_filter (\<lambda>q. resolved_file e s1 q (map_of bf q) (map_of ofs q) (map_of tf q)) paths
      = List.map_filter (\<lambda>q. resolved_file e st q (map_of bf q) (map_of ofs q) (map_of tf q)) paths"
    using Cons.prems(2) resolved_file_grows [OF _ _ s1(2)] by (auto simp: List.map_filter_def intro!: map_cong filter_cong)
  obtain acc2 s2 where "merge_paths P e paths bf ofs tf prots identity acc1 s1 = (Inr acc2, s2)" "grows e U s1 s2"
    "ma_files acc2 = ma_files acc1 @ List.map_filter (\<lambda>q. resolved_file e s1 q (map_of bf q) (map_of ofs q) (map_of tf q)) paths"
    "ma_conflicts acc2 = ma_conflicts acc1" "ma_sidecars acc2 = ma_sidecars acc1"
    using Cons.IH [OF grows_ok [OF s1(2)] h, of acc1] by blast
  with s1 eq show ?case
    using grows_trans [OF s1(2)] by (auto simp: bindS_def map_filter_simps split: option.splits)
qed

section \<open>Paths\<close>

lemma find_found: "find P xs = Some x \<Longrightarrow> P x \<and> x \<in> set xs"
  by (auto simp: find_Some_iff)

lemma union_keys_set: "set (union_keys ms) = (\<Union>m \<in> set ms. fst ` set m)"
  by (auto simp: union_keys_def)

lemma union_keys_sorted: "sorted_wrt (<) (union_keys ms)"
  unfolding union_keys_def using strict_sorted_iff by (metis distinct_remdups distinct_sort sorted_sort)

lemma check_path_collisions_ok:
  "check_path_collisions ps = Inr () \<longleftrightarrow> (\<forall>f \<in> set ps. \<forall>s. f @ slash # s \<notin> set ps)"
proof -
  have "check_path_collisions ps = Inr () \<longleftrightarrow> (\<forall>p \<in> set ps. \<forall>f \<in> set (ancestors p). f \<notin> set ps)"
  proof (cases "find (\<lambda>f. f \<in> set ps) (concat (map ancestors (sort (remdups ps))))")
    case None
    then have "\<forall>p \<in> set ps. \<forall>f \<in> set (ancestors p). f \<notin> set ps" by (auto simp: find_None_iff)
    with None show ?thesis by (simp add: check_path_collisions_def)
  next
    case (Some f)
    with find_found [OF Some] show ?thesis by (auto simp: check_path_collisions_def)
  qed
  also have "\<dots> \<longleftrightarrow> (\<forall>f \<in> set ps. \<forall>s. f @ slash # s \<notin> set ps)"
    unfolding Ball_def ancestors_mem by blast
  finally show ?thesis .
qed

lemma check_path_collisions_err:
  assumes "check_path_collisions ps = Inl err"
  shows "\<exists>f s. err = PathCollision f \<and> f \<in> set ps \<and> f @ slash # s \<in> set ps"
proof -
  obtain f where f: "find (\<lambda>f. f \<in> set ps) (concat (map ancestors (sort (remdups ps)))) = Some f" "err = PathCollision f"
    using assms by (auto simp: check_path_collisions_def split: option.splits)
  from find_found [OF f(1)] obtain p where "f \<in> set ps" "p \<in> set ps" "f \<in> set (ancestors p)" by auto
  then show ?thesis unfolding ancestors_mem using f(2) by blast
qed

text \<open>The paths of what a merge writes are paths of the inputs, each once and in order.\<close>

definition one_per_path :: "string list \<Rightarrow> merged_file list \<Rightarrow> bool" where
  "one_per_path paths fs \<longleftrightarrow> subseq (map mf_path fs) paths"

lemma one_per_path_sorted:
  assumes "one_per_path paths fs" "sorted_wrt (<) paths"
  shows "sorted_wrt (<) (map mf_path fs)" "mf_path ` set fs \<subseteq> set paths"
proof -
  from assms(1) obtain N where "map mf_path fs = nths paths N" unfolding one_per_path_def subseq_conv_nths by blast
  then show "sorted_wrt (<) (map mf_path fs)" "mf_path ` set fs \<subseteq> set paths"
    using sorted_nths [of paths N] distinct_nthsI [of paths N] assms(2) set_nths_subset [of paths N]
    by (simp add: strict_sorted_iff, metis set_map)
qed

section \<open>What a path adds\<close>

lemma protected_bits [simp]:
  "is_protected (q AND PROTECTED) = is_protected q"
  "is_protected (p OR q) \<longleftrightarrow> is_protected p \<or> is_protected q"
  "is_protected 0 = False"
proof -
  have one: "q AND 1 = (if odd q then 1 else 0)" for q :: u8 by (simp add: and_one_eq odd_iff_mod_2_eq_one)
  show "is_protected (q AND PROTECTED) = is_protected q" "is_protected (p OR q) \<longleftrightarrow> is_protected p \<or> is_protected q"
    "is_protected 0 = False"
    by (auto simp: is_protected_def PROTECTED_def one even_or_iff)
qed

text \<open>
  A file of the result comes from its path. It is left for encryption only if it is protected and an identity
  was there to decrypt it; protected and not left for encryption, its bytes are a stored blob of a protected
  side; unprotected, they are a stored blob of an unprotected side, or no side is protected.
\<close>

definition file_from :: "ext \<Rightarrow> store \<Rightarrow> string \<Rightarrow> file_entry option \<Rightarrow> file_entry option \<Rightarrow> bool \<Rightarrow> merged_file \<Rightarrow> bool" where
  "file_from e st path o' t keyed f \<longleftrightarrow> mf_path f = path
     \<and> (mf_needs_encrypt f \<longrightarrow> is_protected (mf_perms f) \<and> keyed)
     \<and> (\<not> mf_needs_encrypt f \<longrightarrow>
          (\<exists>i m q. (o' = Some (i, m, q) \<or> t = Some (i, m, q)) \<and> is_protected q = is_protected (mf_perms f)
             \<and> view e st i = Some (Blob (mf_bytes f)))
          \<or> \<not> is_protected (mf_perms f) \<and> (\<forall>en \<in> set_option o' \<union> set_option t. \<not> is_protected (snd (snd en))))"

definition adds_one :: "(merged_file \<Rightarrow> bool) \<Rightarrow> merge_acc \<Rightarrow> merge_acc \<Rightarrow> bool" where
  "adds_one Q acc acc' \<longleftrightarrow> ma_files acc' = ma_files acc \<or> (\<exists>f. ma_files acc' = ma_files acc @ [f] \<and> Q f)"

lemma take_plain_adds:
  assumes "store_ok e U st" "take_plain e path mode x acc st = (Inr acc', st')" "x = o' \<or> x = t"
    "\<forall>en \<in> set_option o' \<union> set_option t. \<not> is_protected (snd (snd en))"
  shows "grows e U st st' \<and> adds_one (file_from e st path o' t keyed) acc acc'"
proof (cases x)
  case (Some v)
  obtain i m q where v: "v = (i, m, q)" by (cases v)
  obtain b where b: "blob_bytes e i st = (Inr b, st')" "acc' = push_file (plain_file path mode b) acc"
    using assms(2) Some v by (auto simp: take_plain_def bindS_eq_Inr)
  with blob_bytes_view [OF assms(1) b(1)] assms(4) show ?thesis
    by (simp add: adds_one_def file_from_def plain_file_def)
qed (use assms grows_refl [OF assms(1)] in \<open>auto simp: take_plain_def adds_one_def\<close>)

lemma take_raw_adds:
  assumes "store_ok e U st" "take_raw e path mode prots x acc st = (Inr acc', st')" "x = o' \<or> x = t"
  shows "grows e U st st' \<and> adds_one (file_from e st path o' t keyed) acc acc'"
proof (cases x)
  case (Some v)
  obtain i m q where v: "v = (i, m, q)" by (cases v)
  obtain b where b: "blob_bytes e i st = (Inr b, st')"
    "acc' = push_file \<lparr>mf_path = path, mf_mode = mode, mf_bytes = b, mf_perms = q, mf_needs_encrypt = False\<rparr> (carry_wraps prots i q acc)"
    using assms(2) Some v by (auto simp: take_raw_def bindS_eq_Inr)
  with blob_bytes_view [OF assms(1) b(1)] assms(3) Some v show ?thesis
    by (auto simp: adds_one_def file_from_def)
qed (use assms grows_refl [OF assms(1)] in \<open>auto simp: take_raw_def adds_one_def\<close>)

lemma plain_input_ok:
  assumes "store_ok e U st" "plain_input P e (i, m, q) prots identity path st = (Inr b, st')"
  shows "grows e U st st'" "is_protected q \<Longrightarrow> identity \<noteq> None" "\<not> is_protected q \<Longrightarrow> view e st i = Some (Blob b)"
proof -
  have "\<exists>c. blob_bytes e i st = (Inr c, st') \<and> (\<not> is_protected q \<longrightarrow> c = b) \<and> (is_protected q \<longrightarrow> identity \<noteq> None)"
    using assms(2) by (auto simp: plain_input_def bindS_eq_Inr split: if_splits option.splits)
  then obtain c where c: "blob_bytes e i st = (Inr c, st')" "\<not> is_protected q \<longrightarrow> c = b" "is_protected q \<longrightarrow> identity \<noteq> None" by blast
  with blob_bytes_view [OF assms(1) c(1)] show "grows e U st st'" "is_protected q \<Longrightarrow> identity \<noteq> None"
    "\<not> is_protected q \<Longrightarrow> view e st i = Some (Blob b)" by auto
qed

lemma merge_contents_adds:
  "merge_contents path mode perms enc bb ob tb acc = Inr acc' \<Longrightarrow>
     \<exists>f. ma_files acc' = ma_files acc @ [f] \<and> mf_path f = path \<and> mf_perms f = perms \<and> mf_needs_encrypt f = enc"
  by (auto simp: merge_contents_def Let_def split: option.splits if_splits)

lemma blob_bytes_grows: "store_ok e U st \<Longrightarrow> blob_bytes e i st = (Inr b, st') \<Longrightarrow> grows e U st st'"
  by (rule blob_bytes_view)

lemma plain_input_grows:
  "store_ok e U st \<Longrightarrow> plain_input P e en prots identity path st = (Inr b, st') \<Longrightarrow> grows e U st st'"
  by (cases en) (auto dest: plain_input_ok(1))

lemma merge_plain_adds:
  assumes ok: "store_ok e U st" and run: "merge_plain e path b o' t acc st = (Inr acc', st')"
    and plain: "\<forall>en \<in> set_option o' \<union> set_option t. \<not> is_protected (snd (snd en))"
  shows "grows e U st st' \<and> adds_one (file_from e st path o' t keyed) acc acc'"
proof -
  let ?mode = "merge_mode (entry_mode b) (entry_mode o') (entry_mode t)"
  consider (fast) x where "x = o' \<or> x = t" "take_plain e path ?mode x acc st = (Inr acc', st')"
    | (both) oid om oq tid tm tq ob s1 tb s2 bb where "o' = Some (oid, om, oq)" "t = Some (tid, tm, tq)"
        "blob_bytes e oid st = (Inr ob, s1)" "blob_bytes e tid s1 = (Inr tb, s2)"
        "(case b of None \<Rightarrow> returnS [] | Some (bid, _, _) \<Rightarrow> blob_bytes e bid) s2 = (Inr bb, st')"
        "merge_contents path ?mode 0 False bb ob tb acc = Inr acc'"
    | (one) i m q c where "o' = Some (i, m, q) \<or> t = Some (i, m, q)" "blob_bytes e i st = (Inr c, st')"
        "acc' = push_file (plain_file path m c) (push_conflict path acc)"
    using run unfolding merge_plain_def Let_def
    by (auto simp: bindS_eq_Inr split: if_splits option.splits prod.splits)
  then show ?thesis
  proof cases
    case fast
    then show ?thesis using take_plain_adds [OF ok _ _ plain] by blast
  next
    case both
    note g1 = blob_bytes_grows [OF ok both(3)]
    note g2 = grows_trans [OF g1 blob_bytes_grows [OF grows_ok [OF g1] both(4)]]
    have "grows e U s2 st'" using both(5) blob_bytes_grows [OF grows_ok [OF g2]] grows_refl [OF grows_ok [OF g2]] by (auto split: option.splits)
    then have "grows e U st st'" using grows_trans [OF g2] by blast
    moreover have "adds_one (file_from e st path o' t keyed) acc acc'"
      using merge_contents_adds [OF both(6)] plain by (auto simp: adds_one_def file_from_def)
    ultimately show ?thesis by blast
  next
    case one
    then show ?thesis using blob_bytes_view [OF ok one(2)] plain by (auto simp: adds_one_def file_from_def plain_file_def)
  qed
qed

lemma merge_survivor_adds:
  assumes ok: "store_ok e U st" and run: "merge_survivor P e path prots identity (i, m, q) acc st = (Inr acc', st')"
    and "o' = Some (i, m, q) \<or> t = Some (i, m, q)"
  shows "grows e U st st' \<and> adds_one (file_from e st path o' t (identity \<noteq> None)) acc acc'"
proof -
  obtain c where c: "plain_input P e (i, m, q) prots identity path st = (Inr c, st')"
    "acc' = push_file \<lparr>mf_path = path, mf_mode = m, mf_bytes = c, mf_perms = q AND PROTECTED,
            mf_needs_encrypt = (q AND PROTECTED \<noteq> 0)\<rparr> (push_conflict path acc)"
    using run by (auto simp: merge_survivor_def bindS_eq_Inr Let_def)
  have "q AND PROTECTED \<noteq> 0 \<longleftrightarrow> is_protected q" by (simp add: is_protected_def)
  with c plain_input_ok [OF ok c(1)] assms(3) show ?thesis by (auto simp: adds_one_def file_from_def)
qed

lemma merge_protected_adds:
  assumes ok: "store_ok e U st" and run: "merge_protected P e path b o' t prots identity acc st = (Inr acc', st')"
  shows "grows e U st st' \<and> adds_one (file_from e st path o' t (identity \<noteq> None)) acc acc'"
proof -
  let ?mode = "merge_mode (entry_mode b) (entry_mode o') (entry_mode t)"
  consider (fast) x where "x = o' \<or> x = t" "take_raw e path ?mode prots x acc st = (Inr acc', st')"
    | (both) oe te ob s1 tb s2 bb where "o' = Some oe" "t = Some te"
        "plain_input P e oe prots identity path st = (Inr ob, s1)" "plain_input P e te prots identity path s1 = (Inr tb, s2)"
        "(case b of None \<Rightarrow> returnS [] | Some be \<Rightarrow> plain_input P e be prots identity path) s2 = (Inr bb, st')"
        "merge_contents path ?mode ((snd (snd oe) OR snd (snd te)) AND PROTECTED)
           ((snd (snd oe) OR snd (snd te)) AND PROTECTED \<noteq> 0) bb ob tb acc = Inr acc'"
    | (one) en where "o' = Some en \<or> t = Some en" "merge_survivor P e path prots identity en acc st = (Inr acc', st')"
    using run unfolding merge_protected_def Let_def
    by (auto simp: bindS_eq_Inr split: if_splits option.splits)
  then show ?thesis
  proof cases
    case fast
    then show ?thesis using take_raw_adds [OF ok] by blast
  next
    case both
    obtain i m q i' m' q' where en: "oe = (i, m, q)" "te = (i', m', q')" by (cases oe; cases te)
    note g1 = plain_input_grows [OF ok both(3)]
    note g2 = grows_trans [OF g1 plain_input_grows [OF grows_ok [OF g1] both(4)]]
    have "grows e U s2 st'" using both(5) plain_input_grows [OF grows_ok [OF g2]] grows_refl [OF grows_ok [OF g2]] by (auto split: option.splits)
    then have "grows e U st st'" using grows_trans [OF g2] by blast
    moreover have "is_protected q \<or> is_protected q' \<Longrightarrow> identity \<noteq> None"
      using plain_input_ok(2) [OF ok both(3) [unfolded en]] plain_input_ok(2) [OF grows_ok [OF g1] both(4) [unfolded en]] by blast
    moreover have "((q OR q') AND PROTECTED \<noteq> 0) \<longleftrightarrow> is_protected q \<or> is_protected q'"
      using protected_bits(2) [of q q'] by (simp add: is_protected_def)
    ultimately show ?thesis
      using merge_contents_adds [OF both(6)] both(1,2) en by (auto simp: adds_one_def file_from_def)
  next
    case one
    then show ?thesis using merge_survivor_adds [OF ok] by (cases en) blast
  qed
qed

lemma merge_path_adds:
  assumes "store_ok e U st" "merge_path P e path b o' t prots identity acc st = (Inr acc', st')"
  shows "grows e U st st' \<and> adds_one (file_from e st path o' t (identity \<noteq> None)) acc acc'"
  using assms merge_plain_adds [OF assms(1)] merge_protected_adds [OF assms(1)]
  by (auto simp: merge_path_def split: if_splits)

lemma merge_paths_adds:
  assumes "store_ok e U st" "merge_paths P e paths bf ofs tf prots identity acc st = (Inr acc', st')"
  shows "grows e U st st' \<and> (\<exists>fs. ma_files acc' = ma_files acc @ fs \<and> one_per_path paths fs
    \<and> (\<forall>f \<in> set fs. file_from e st' (mf_path f) (map_of ofs (mf_path f)) (map_of tf (mf_path f)) (identity \<noteq> None) f))"
  using assms
proof (induction paths arbitrary: acc st)
  case Nil
  then show ?case using grows_refl by (auto simp: one_per_path_def)
next
  case (Cons p paths)
  obtain acc1 s1 where s1: "merge_path P e p (map_of bf p) (map_of ofs p) (map_of tf p) prots identity acc st = (Inr acc1, s1)"
    "merge_paths P e paths bf ofs tf prots identity acc1 s1 = (Inr acc', st')"
    using Cons.prems(2) by (auto simp: bindS_eq_Inr)
  note a = merge_path_adds [OF Cons.prems(1) s1(1)]
  then have g: "grows e U st s1" by blast
  obtain fs where fs: "grows e U s1 st'" "ma_files acc' = ma_files acc1 @ fs" "one_per_path paths fs"
    "\<forall>f \<in> set fs. file_from e st' (mf_path f) (map_of ofs (mf_path f)) (map_of tf (mf_path f)) (identity \<noteq> None) f"
    using Cons.IH [OF grows_ok [OF g] s1(2)] by blast
  have g': "grows e U st st'" using grows_trans [OF g fs(1)] .
  have later: "file_from e st' p (map_of ofs p) (map_of tf p) keyed f" if "file_from e st p (map_of ofs p) (map_of tf p) keyed f" for keyed f
    using that grows_view [OF g'] unfolding file_from_def by blast
  from a consider "ma_files acc1 = ma_files acc" | f where "ma_files acc1 = ma_files acc @ [f]"
      "file_from e st p (map_of ofs p) (map_of tf p) (identity \<noteq> None) f"
    unfolding adds_one_def by blast
  then show ?case
  proof cases
    case 1
    with fs g' show ?thesis by (auto simp: one_per_path_def)
  next
    case 2
    then have "mf_path f = p" by (simp add: file_from_def)
    with 2 fs g' later [OF 2(2)] show ?thesis
      by (intro conjI exI [of _ "f # fs"]) (auto simp: one_per_path_def)
  qed
qed

lemma resolved_file_props:
  assumes "resolved_file e st' p b o' t = Some f" "grows e U st st'" "held e st o'" "held e st t"
  shows "mf_path f = p \<and> (\<exists>i m q. winner b o' t = Some (i, m, q) \<and> view e st i = Some (Blob (mf_bytes f)) \<and> \<not> mf_needs_encrypt f
    \<and> is_protected (mf_perms f) = is_protected q \<and> mf_mode f = merge_mode (entry_mode b) (entry_mode o') (entry_mode t))"
proof -
  obtain i m q where w: "winner b o' t = Some (i, m, q)"
    using assms(1) by (cases "winner b o' t") (auto simp: resolved_file_def)
  have "held e st (Some (i, m, q))" using assms(3,4) winner_cases [of b o' t] w by auto
  then obtain c where c: "view e st i = Some (Blob c)" by (auto simp: held_def)
  then have "blob_of e st' i = c" using grows_view [OF assms(2)] by (simp add: blob_of_def)
  moreover have "all_plain b o' t \<Longrightarrow> \<not> is_protected q" using winner_cases [of b o' t] w by fastforce
  ultimately show ?thesis using assms(1) w c by (auto simp: resolved_file_def split: if_splits)
qed

section \<open>Registries\<close>

text \<open>A value that both sides agree on, or that the side which changed it gives.\<close>

definition settled :: "'v option \<Rightarrow> 'v option \<Rightarrow> 'v option \<Rightarrow> 'v option \<Rightarrow> bool" where
  "settled b o' t r \<longleftrightarrow> (o' = t \<and> r = o') \<or> (o' = b \<and> r = t) \<or> (t = b \<and> r = o')"

definition clash :: "'v option \<Rightarrow> 'v option \<Rightarrow> 'v option \<Rightarrow> bool" where
  "clash b o' t \<longleftrightarrow> o' \<noteq> t \<and> o' \<noteq> b \<and> t \<noteq> b"

lemma merge_names_Cons:
  obtains (conflict) "clash (map_of base n) (map_of ours n) (map_of theirs n)"
      "merge_names (n # names) base ours theirs out = Inl (SecretMergeConflict n)"
  | (settle) r where "settled (map_of base n) (map_of ours n) (map_of theirs n) r"
      "\<not> clash (map_of base n) (map_of ours n) (map_of theirs n)"
      "merge_names (n # names) base ours theirs out =
         merge_names names base ours theirs (case r of Some i \<Rightarrow> bt_insert n i out | None \<Rightarrow> out)"
proof -
  consider "clash (map_of base n) (map_of ours n) (map_of theirs n)" | "map_of ours n = map_of theirs n"
    | "map_of ours n \<noteq> map_of theirs n" "map_of ours n = map_of base n"
    | "map_of ours n \<noteq> map_of theirs n" "map_of ours n \<noteq> map_of base n" "map_of theirs n = map_of base n"
    unfolding clash_def by blast
  then show thesis
  proof cases
    case 1
    then show thesis using conflict by (simp add: clash_def Let_def)
  next
    case 2
    then show thesis using settle [of "map_of ours n"] by (simp add: settled_def clash_def Let_def)
  next
    case 3
    then show thesis using settle [of "map_of theirs n"] by (simp add: settled_def clash_def Let_def)
  next
    case 4
    then show thesis using settle [of "map_of ours n"] by (simp add: settled_def clash_def Let_def)
  qed
qed

lemma merge_names_Inr:
  "merge_names names base ours theirs out = Inr out' \<Longrightarrow> distinct names \<Longrightarrow> bt_ok out \<Longrightarrow>
     bt_ok out' \<and> (\<forall>n. n \<notin> set names \<longrightarrow> map_of out' n = map_of out n)
     \<and> (\<forall>n \<in> set names. map_of out n = None \<longrightarrow> settled (map_of base n) (map_of ours n) (map_of theirs n) (map_of out' n))"
proof (induction names arbitrary: out)
  case (Cons n names)
  show ?case
  proof (cases rule: merge_names_Cons [of base n ours theirs names out])
    case conflict
    then show ?thesis using Cons.prems(1) by simp
  next
    case (settle r)
    let ?out = "case r of Some i \<Rightarrow> bt_insert n i out | None \<Rightarrow> out"
    have bt: "bt_ok ?out" using Cons.prems(3) by (simp split: option.splits)
    have at: "map_of out n = None \<Longrightarrow> map_of ?out n = r" and other: "\<And>m. m \<noteq> n \<Longrightarrow> map_of ?out m = map_of out m"
      by (simp_all split: option.splits)
    have ih: "bt_ok out' \<and> (\<forall>m. m \<notin> set names \<longrightarrow> map_of out' m = map_of ?out m)
     \<and> (\<forall>m \<in> set names. map_of ?out m = None \<longrightarrow> settled (map_of base m) (map_of ours m) (map_of theirs m) (map_of out' m))"
      using Cons.IH [OF _ _ bt] Cons.prems(1,2) settle(3) by simp
    then have "map_of out' n = map_of ?out n" using Cons.prems(2) by simp
    then have head: "map_of out n = None \<longrightarrow> settled (map_of base n) (map_of ours n) (map_of theirs n) (map_of out' n)"
      using at settle(1) by simp
    have tail: "map_of out m = None \<longrightarrow> settled (map_of base m) (map_of ours m) (map_of theirs m) (map_of out' m)" if "m \<in> set names" for m
    proof -
      have "m \<noteq> n" using that Cons.prems(2) by auto
      then show ?thesis using ih other that by metis
    qed
    have rest: "map_of out' m = map_of out m" if "m \<notin> set (n # names)" for m
      using ih other that by (metis list.set_intros)
    show ?thesis using ih head tail rest by simp
  qed
qed simp

lemma merge_names_Inl:
  "merge_names names base ours theirs out = Inl err \<Longrightarrow> sorted_wrt (<) names \<Longrightarrow>
     \<exists>n \<in> set names. err = SecretMergeConflict n \<and> clash (map_of base n) (map_of ours n) (map_of theirs n)
       \<and> (\<forall>m \<in> set names. m < n \<longrightarrow> \<not> clash (map_of base m) (map_of ours m) (map_of theirs m))"
proof (induction names arbitrary: out)
  case (Cons n names)
  show ?case
  proof (cases rule: merge_names_Cons [of base n ours theirs names out])
    case conflict
    then show ?thesis using Cons.prems by auto
  next
    case (settle r)
    then show ?thesis using Cons.IH Cons.prems by auto
  qed
qed simp

end
