(* ===== verification/Merge_Theorems.thy ===== *)
theory Merge_Theorems
  imports Worklist Merge_Correct Vfs_Theorems Envelope_Theorems
begin

text \<open>
  The properties of the merge driver: the common ancestor that a merge starts from, the reconciliation
  of registries, paths and modes, and what a merge does with protected files.
\<close>

section \<open>The merge base\<close>

abbreviation generation :: "ext \<Rightarrow> store \<Rightarrow> object_id \<Rightarrow> nat \<Rightarrow> object_id set" where
  "generation e st i k \<equiv> wg.level e st i k"

lemma get_snapshot_node:
  assumes "store_ok e U st" "view e st i = Some (Snapshot s)"
  shows "\<exists>s' st'. get_snapshot e i st = (Inr s', st') \<and> sn_parents s' = sn_parents s \<and> grows e U st st'"
proof -
  have "node_parents i (Snapshot s) = Inr (sn_parents s)" by (simp add: node_parents_def)
  from get_node [OF assms this] obtain ob' st' where
    g: "get e i st = (Inr ob', st')" "node_parents i ob' = Inr (sn_parents s)" "canon ob' = Snapshot s" "grows e U st st'" by blast
  obtain s' where "ob' = Snapshot s'" using g(3) by (cases ob') (auto simp: canon_def)
  with g show ?thesis by (auto simp: get_snapshot_def bindS_def node_parents_def)
qed

lemma base_loop_ok:
  assumes "store_ok e U st0" "\<forall>j \<in> history_of e st0 b - A. \<exists>s. view e st0 j = Some (Snapshot s)"
    "finite (history_of e st0 b)"
  shows "grows e U st0 st \<Longrightarrow> wg.bfs_inv e st0 b A seen d xs ys \<Longrightarrow>
    card (history_of e st0 b - seen) + length (xs @ ys) \<le> n \<Longrightarrow>
    \<exists>r st'. base_loop n e A (xs @ ys) seen st = (Inr r, st') \<and> grows e U st0 st'
      \<and> (case r of None \<Rightarrow> A \<inter> history_of e st0 b = {}
         | Some c \<Rightarrow> c \<in> A \<and> (\<exists>d. c \<in> generation e st0 b d \<and> (\<forall>k. \<forall>c' \<in> A \<inter> generation e st0 b k. d \<le> k)))"
proof (induction n arbitrary: d xs ys seen st)
  case 0
  then have "xs @ ys = []" by simp
  moreover have "A \<inter> history_of e st0 b = {}"
    using 0(2) calculation wg.inv_done [of e st0 "{b}" seen] by (auto simp: wg.bfs_inv_def)
  ultimately show ?case using 0(1) by auto
next
  case (Suc n)
  note prems = Suc.prems
  show ?case
  proof (cases "xs @ ys")
    case Nil
    moreover have "A \<inter> history_of e st0 b = {}"
      using prems(2) Nil wg.inv_done [of e st0 "{b}" seen] by (auto simp: wg.bfs_inv_def)
    ultimately show ?thesis using prems(1) by auto
  next
    case (Cons x q)
    obtain d' xs' ys' where n: "wg.bfs_inv e st0 b A seen d' (x # xs') ys'" "q = xs' @ ys'"
    proof (cases xs)
      case Nil
      with prems(2) Cons wg.bfs_shift [of e st0 b A seen d ys] show ?thesis by (intro that [of "Suc d" q "[]"]) auto
    next
      case (Cons x' xs'')
      with prems(2) \<open>xs @ ys = x # q\<close> show ?thesis by (intro that [of d xs'' ys]) auto
    qed
    show ?thesis
    proof (cases "x \<in> A")
      case True
      with wg.bfs_hit [OF n(1) True] Cons prems(1) show ?thesis by auto
    next
      case False
      have inv: "wg.inv e st0 {b} seen (x # q)" using n by (simp add: wg.bfs_inv_def)
      then have "x \<in> history_of e st0 b" using wg.inv_queue [of e st0 "{b}" seen "x # q" x] by simp
      then obtain s where s: "view e st0 x = Some (Snapshot s)" using assms(2) False by blast
      obtain s' st1 where g: "get_snapshot e x st = (Inr s', st1)" "sn_parents s' = sn_parents s" "grows e U st st1"
        using get_snapshot_node [OF grows_ok [OF prems(1)] grows_view [OF prems(1) s]] by blast
      obtain seen' q' where p: "push_new (sn_parents s) seen q = (seen', q')" by fastforce
      have vp: "view_parents e st0 x = sn_parents s" using s by (simp add: view_parents_def node_parents_def)
      obtain ys'' where st: "q' = xs' @ ys''" "wg.bfs_inv e st0 b A seen' d' xs' ys''"
        using wg.bfs_step [OF n(1) False, of seen' q'] p vp n(2) by auto
      have "card (history_of e st0 b - seen') + length q' \<le> n"
        using wg.measure_step [OF inv, of seen' q'] p vp assms(3) prems(3) Cons by simp
      then have "card (history_of e st0 b - seen') + length (xs' @ ys'') \<le> n" using st(1) by simp
      from Suc.IH [OF grows_trans [OF prems(1) g(3)] st(2) this]
      show ?thesis using Cons False g p st(1) by (simp add: bindS_def liftR_def)
    qed
  qed
qed

lemma merge_base_ok:
  assumes "store_ok e U st" "history_ok e st a"
    "\<forall>j \<in> history_of e st b - history_of e st a. \<exists>s. view e st j = Some (Snapshot s)" "card (dom (view e st)) \<le> n"
  shows "\<exists>r st'. merge_base n e a b st = (Inr r, st') \<and> grows e U st st'
      \<and> (case r of None \<Rightarrow> history_of e st a \<inter> history_of e st b = {}
         | Some c \<Rightarrow> c \<in> history_of e st a \<and>
             (\<exists>d. c \<in> generation e st b d \<and> (\<forall>k. \<forall>c' \<in> history_of e st a \<inter> generation e st b k. d \<le> k)))"
proof -
  have dom: "history_of e st b \<subseteq> dom (view e st)"
  proof
    fix j assume "j \<in> history_of e st b"
    then show "j \<in> dom (view e st)" using assms(2,3) by (cases "j \<in> history_of e st a") (auto simp: history_ok_def)
  qed
  have fin: "finite (history_of e st b)" using dom finite_view [OF assms(1)] by (rule finite_subset)
  have "card (history_of e st b) \<le> n" using card_mono [OF finite_view [OF assms(1)] dom] assms(4) by simp
  with fin have m: "card (history_of e st b - {b}) + length ([b] @ []) \<le> n" using wg.measure_init [of e st b] by simp
  obtain st1 where s1: "snapshot_ancestors n e a st = (Inr (history_of e st a), st1)" "grows e U st st1"
    using snapshot_ancestors_ok [OF assms(1,2,4)] by blast
  from base_loop_ok [OF assms(1,3) fin s1(2) wg.bfs_init m] s1(1) show ?thesis
    by (simp add: merge_base_def bindS_def)
qed

text \<open>
  C9: with the whole history of one side and the snapshots of the other that it does not share, and as
  much fuel as the store has objects, \<^verbatim>\<open>merge_base\<close> returns. It answers \<open>None\<close> exactly when the histories
  are disjoint, and otherwise a common ancestor that no other is nearer to the second argument than, counted
  in parent steps. The store serves at least what it served.
\<close>

theorem merge_base_nearest:
  assumes "store_ok e U st" "history_ok e st a"
    "\<forall>j \<in> history_of e st b - history_of e st a. \<exists>s. view e st j = Some (Snapshot s)" "card (dom (view e st)) \<le> n"
  shows "\<exists>r st'. merge_base n e a b st = (Inr r, st') \<and> grows e U st st'
      \<and> (case r of None \<Rightarrow> history_of e st a \<inter> history_of e st b = {}
         | Some c \<Rightarrow> c \<in> history_of e st a \<and>
             (\<exists>d. c \<in> generation e st b d \<and> (\<forall>k. \<forall>c' \<in> history_of e st a \<inter> generation e st b k. d \<le> k)))"
  using assms by (rule merge_base_ok)

text \<open>A history in which the nearest common ancestor of 3 and 7 is 1, an ancestor of the common ancestor 2.\<close>

definition demo_snap :: "u8 \<Rightarrow> u8 list \<Rightarrow> object" where
  "demo_snap k ps = Snapshot \<lparr>sn_root = ObjectId (replicate 32 k), sn_parents = map (\<lambda>p. ObjectId (TAG_SNAPSHOT # replicate 31 p)) ps,
     sn_author = [], sn_timestamp = 0, sn_message = [], sn_secrets = [], sn_protection = protection_default\<rparr>"

abbreviation snap_id :: "u8 \<Rightarrow> object_id" where
  "snap_id k \<equiv> ObjectId (TAG_SNAPSHOT # replicate 31 k)"

definition demo_history :: "(u8 \<times> u8 list) list" where
  "demo_history = [(1, []), (2, [1]), (3, [2]), (4, [2]), (5, [4]), (6, [1]), (7, [6, 5])]"

lemma demo_snap_id: "object_id prefix_ext (demo_snap k ps) = snap_id k"
  by (simp add: object_id_def id_of_def prefix_digest demo_snap_def encode_def w_u8_def w_snapshot_def w_id_def sort_snapshot_def)

lemma put_all_weightless:
  "store_ok e U st \<Longrightarrow> \<forall>ob \<in> set obs. known U ob \<and> blob_size ob = 0 \<Longrightarrow>
     \<exists>st'. grows e U st st' \<and> (\<forall>ob \<in> set obs. view e st' (object_id e ob) = Some (canon ob))"
proof (induction obs arbitrary: st)
  case Nil
  then show ?case using grows_refl by auto
next
  case (Cons ob obs)
  then obtain s1 where s1: "grows e U st s1" "view e s1 (object_id e ob) = Some (canon ob)"
    using put_weightless [of e U st ob] by auto
  with Cons obtain s2 where "grows e U s1 s2" "\<forall>ob \<in> set obs. view e s2 (object_id e ob) = Some (canon ob)"
    using grows_ok by (metis list.set_intros(2))
  with s1 show ?case using grows_trans grows_view by (metis set_ConsD)
qed

lemma demo_history_store:
  "\<exists>U st. store_ok prefix_ext U st \<and> (\<forall>(k, ps) \<in> set demo_history. view prefix_ext st (snap_id k) = Some (demo_snap k ps))"
proof -
  let ?obs = "map (\<lambda>(k, ps). demo_snap k ps) demo_history"
  let ?U = "encode ` set ?obs"
  have "collision_free prefix_ext ?U"
    unfolding collision_free_def inj_on_def
    by (auto simp: demo_history_def) (auto simp: prefix_digest demo_snap_def encode_def w_u8_def w_snapshot_def w_id_def sort_snapshot_def)
  then have "store_ok prefix_ext ?U demo_st"
    unfolding demo_st_def using prefix_ext_ok
    by (auto simp: store_ok_def acct_inv_def total_def stamps_ok_def content_defs store_new_def empty_disk_def existing_loose_def)
  moreover have "known ?U ob \<and> blob_size ob = 0" if o: "ob \<in> set ?obs" for ob
  proof -
    obtain k ps where k: "(k, ps) \<in> set demo_history" "ob = demo_snap k ps" using o by auto
    then have "length ps \<le> 2" by (auto simp: demo_history_def)
    then have "object_ok ob"
      by (simp add: k(2) demo_snap_def object_ok_def snapshot_ok_def snapshot_fields_ok_def vec_ok_def id_ok_def list_all_iff
        protection_default_def str_ok_def str_bytes_def)
    then show ?thesis using o by (auto simp: known_def k(2) demo_snap_def blob_size_def)
  qed
  ultimately obtain st where st: "grows prefix_ext ?U demo_st st"
    "\<forall>ob \<in> set ?obs. view prefix_ext st (object_id prefix_ext ob) = Some (canon ob)"
    using put_all_weightless [of prefix_ext ?U demo_st ?obs] by blast
  have "canon (demo_snap k ps) = demo_snap k ps" for k ps
    by (simp add: demo_snap_def canon_def sort_snapshot_def protection_default_def)
  with st(2) have "\<forall>(k, ps) \<in> set demo_history. view prefix_ext st (snap_id k) = Some (demo_snap k ps)"
    by (auto simp: demo_snap_id)
  with grows_ok [OF st(1)] show ?thesis by blast
qed

lemma demo_reach:
  assumes "\<forall>(k, ps) \<in> set demo_history. view prefix_ext st (snap_id k) = Some (demo_snap k ps)"
  shows "\<forall>(k, ps) \<in> set demo_history. view_parents prefix_ext st (snap_id k) = map snap_id ps"
    and "history_of prefix_ext st (snap_id 3) = snap_id ` {1, 2, 3}"
    and "history_of prefix_ext st (snap_id 7) = snap_id ` {1, 2, 4, 5, 6, 7}"
    and "snap_id 1 \<in> history_of prefix_ext st (snap_id 2)" "snap_id 2 \<notin> history_of prefix_ext st (snap_id 1)"
proof -
  show p: "\<forall>(k, ps) \<in> set demo_history. view_parents prefix_ext st (snap_id k) = map snap_id ps"
    using assms by (auto simp: view_parents_def node_parents_def demo_snap_def)
  then have s: "view_parents prefix_ext st (snap_id 1) = []" "view_parents prefix_ext st (snap_id 2) = [snap_id 1]"
    "view_parents prefix_ext st (snap_id 3) = [snap_id 2]" "view_parents prefix_ext st (snap_id 4) = [snap_id 2]"
    "view_parents prefix_ext st (snap_id 5) = [snap_id 4]" "view_parents prefix_ext st (snap_id 6) = [snap_id 1]"
    "view_parents prefix_ext st (snap_id 7) = [snap_id 6, snap_id 5]"
    by (simp_all add: demo_history_def)
  have step: "snap_id j \<in> wg.reach prefix_ext st {r}" if "snap_id i \<in> wg.reach prefix_ext st {r}" "snap_id j \<in> set (view_parents prefix_ext st (snap_id i))" for i j r
    using wg.reach_step [OF that] .
  have root: "r \<in> wg.reach prefix_ext st {r}" for r by (rule wg.reach_root) simp
  show "history_of prefix_ext st (snap_id 3) = snap_id ` {1, 2, 3}"
  proof
    show "history_of prefix_ext st (snap_id 3) \<subseteq> snap_id ` {1, 2, 3}" by (rule wg.reach_subset) (auto simp: s)
    show "snap_id ` {1, 2, 3} \<subseteq> history_of prefix_ext st (snap_id 3)"
      using root [of "snap_id 3"] step [of 3 "snap_id 3" 2] step [of 2 "snap_id 3" 1] by (simp add: s)
  qed
  show "history_of prefix_ext st (snap_id 7) = snap_id ` {1, 2, 4, 5, 6, 7}"
  proof
    show "history_of prefix_ext st (snap_id 7) \<subseteq> snap_id ` {1, 2, 4, 5, 6, 7}" by (rule wg.reach_subset) (auto simp: s)
    show "snap_id ` {1, 2, 4, 5, 6, 7} \<subseteq> history_of prefix_ext st (snap_id 7)"
      using root [of "snap_id 7"] step [of 7 "snap_id 7" 6] step [of 7 "snap_id 7" 5] step [of 5 "snap_id 7" 4]
        step [of 4 "snap_id 7" 2] step [of 2 "snap_id 7" 1] by (simp add: s)
  qed
  show "snap_id 1 \<in> history_of prefix_ext st (snap_id 2)" using root [of "snap_id 2"] step [of 2 "snap_id 2" 1] by (simp add: s)
  have "history_of prefix_ext st (snap_id 1) \<subseteq> {snap_id 1}" by (rule wg.reach_subset) (auto simp: s)
  then show "snap_id 2 \<notin> history_of prefix_ext st (snap_id 1)" by auto
qed

lemma demo_history_ok:
  assumes "\<forall>(k, ps) \<in> set demo_history. view prefix_ext st (snap_id k) = Some (demo_snap k ps)"
  shows "history_ok prefix_ext st (snap_id 3)"
    "\<forall>j \<in> history_of prefix_ext st (snap_id 7) - history_of prefix_ext st (snap_id 3). \<exists>s. view prefix_ext st j = Some (Snapshot s)"
    "history_ok prefix_ext st (snap_id 7)"
  using assms unfolding history_ok_def demo_reach [OF assms]
  by (simp_all add: demo_history_def demo_snap_def node_parents_def)

lemma demo_merge_base:
  assumes "store_ok prefix_ext U st" "\<forall>(k, ps) \<in> set demo_history. view prefix_ext st (snap_id k) = Some (demo_snap k ps)"
    and nearest: "c \<in> history_of prefix_ext st (snap_id 3)" "c \<in> generation prefix_ext st (snap_id 7) d"
      "\<forall>k. \<forall>c' \<in> history_of prefix_ext st (snap_id 3) \<inter> generation prefix_ext st (snap_id 7) k. d \<le> k"
  shows "c = snap_id 1"
proof -
  note p = demo_reach(1) [OF assms(2), unfolded demo_history_def, simplified]
  have l1: "generation prefix_ext st (snap_id 7) (Suc 0) = {snap_id 6, snap_id 5}"
    by (auto simp: wg.level_Suc p)
  have l2: "generation prefix_ext st (snap_id 7) (Suc (Suc 0)) = {snap_id 1, snap_id 4}"
    unfolding set_eq_iff wg.level_Suc [of _ _ _ _ "Suc 0"] l1 by (auto simp: p)
  have "snap_id 1 \<in> history_of prefix_ext st (snap_id 3) \<inter> generation prefix_ext st (snap_id 7) (Suc (Suc 0))"
    by (simp add: demo_reach(2) [OF assms(2)] l2)
  with nearest(3) have "d \<le> Suc (Suc 0)" by blast
  then consider "d = 0" | "d = Suc 0" | "d = Suc (Suc 0)" by linarith
  then show ?thesis
    by cases (use nearest(1,2) in \<open>auto simp: demo_reach(2) [OF assms(2)] l1 l2\<close>)
qed

theorem merge_base_nearest_witness:
  "\<exists>U st st'. store_ok prefix_ext U st \<and> merge_base (card (dom (view prefix_ext st))) prefix_ext (snap_id 3) (snap_id 7) st = (Inr (Some (snap_id 1)), st')"
proof -
  obtain U st where st: "store_ok prefix_ext U st" "\<forall>(k, ps) \<in> set demo_history. view prefix_ext st (snap_id k) = Some (demo_snap k ps)"
    using demo_history_store by blast
  obtain r st' where r: "merge_base (card (dom (view prefix_ext st))) prefix_ext (snap_id 3) (snap_id 7) st = (Inr r, st')"
    "case r of None \<Rightarrow> history_of prefix_ext st (snap_id 3) \<inter> history_of prefix_ext st (snap_id 7) = {}
         | Some c \<Rightarrow> c \<in> history_of prefix_ext st (snap_id 3) \<and>
             (\<exists>d. c \<in> generation prefix_ext st (snap_id 7) d \<and> (\<forall>k. \<forall>c' \<in> history_of prefix_ext st (snap_id 3) \<inter> generation prefix_ext st (snap_id 7) k. d \<le> k))"
    using merge_base_nearest [OF st(1) demo_history_ok(1,2) [OF st(2)] order_refl] by blast
  have "history_of prefix_ext st (snap_id 3) \<inter> history_of prefix_ext st (snap_id 7) \<noteq> {}"
    unfolding demo_reach [OF st(2)] by simp
  with r(2) have "r = Some (snap_id 1)" using demo_merge_base [OF st] by (cases r) auto
  with r(1) st(1) show ?thesis by blast
qed

text \<open>
  The common ancestor that \<^verbatim>\<open>merge_base\<close> returns need not be a lowest one: in some history it is a proper
  ancestor of another common ancestor, although the whole history is in the store and there is fuel for all of it.
\<close>

lemma merge_base_not_lowest:
  "\<exists>e U st a b c c' st'. store_ok e U st \<and> history_ok e st a \<and> history_ok e st b
     \<and> merge_base (card (dom (view e st))) e a b st = (Inr (Some c), st')
     \<and> c' \<in> history_of e st a \<inter> history_of e st b \<and> c \<in> history_of e st c' \<and> c' \<notin> history_of e st c"
proof -
  obtain U st where st: "store_ok prefix_ext U st" "\<forall>(k, ps) \<in> set demo_history. view prefix_ext st (snap_id k) = Some (demo_snap k ps)"
    using demo_history_store by blast
  obtain r st' where r: "merge_base (card (dom (view prefix_ext st))) prefix_ext (snap_id 3) (snap_id 7) st = (Inr r, st')"
    "case r of None \<Rightarrow> history_of prefix_ext st (snap_id 3) \<inter> history_of prefix_ext st (snap_id 7) = {}
         | Some c \<Rightarrow> c \<in> history_of prefix_ext st (snap_id 3) \<and>
             (\<exists>d. c \<in> generation prefix_ext st (snap_id 7) d \<and> (\<forall>k. \<forall>c' \<in> history_of prefix_ext st (snap_id 3) \<inter> generation prefix_ext st (snap_id 7) k. d \<le> k))"
    using merge_base_ok [OF st(1) demo_history_ok(1,2) [OF st(2)] order_refl] by blast
  have "history_of prefix_ext st (snap_id 3) \<inter> history_of prefix_ext st (snap_id 7) \<noteq> {}"
    unfolding demo_reach [OF st(2)] by simp
  with r(2) have "r = Some (snap_id 1)" using demo_merge_base [OF st] by (cases r) auto
  moreover have "snap_id 2 \<notin> history_of prefix_ext st (snap_id 1)" "snap_id 1 \<in> history_of prefix_ext st (snap_id 2)"
    "snap_id 2 \<in> history_of prefix_ext st (snap_id 3) \<inter> history_of prefix_ext st (snap_id 7)"
    using demo_reach(2-) [OF st(2)] by simp_all
  ultimately show ?thesis using r(1) st(1) demo_history_ok [OF st(2)] by blast
qed

section \<open>Registries\<close>

lemma settled_facts:
  "settled b o' t r \<Longrightarrow> \<not> clash b o' t" "settled b o' t r \<Longrightarrow> settled b o' t r' \<Longrightarrow> r = r'"
  "settled b o' t r \<longleftrightarrow> settled b t o' r" "clash b o' t \<longleftrightarrow> clash b t o'"
  by (auto simp: settled_def clash_def)

lemma merge_secrets_Inr:
  assumes "merge_secrets base ours theirs = Inr out"
  shows "bt_ok out" "settled (map_of base n) (map_of ours n) (map_of theirs n) (map_of out n)"
proof -
  let ?ks = "union_keys [base, ours, theirs]"
  have d: "distinct ?ks" by (simp add: union_keys_def)
  note r = merge_names_Inr [OF assms [unfolded merge_secrets_def] d, simplified]
  show "bt_ok out" using r by blast
  show "settled (map_of base n) (map_of ours n) (map_of theirs n) (map_of out n)"
  proof (cases "n \<in> set ?ks")
    case False
    then have "map_of base n = None" "map_of ours n = None" "map_of theirs n = None"
      by (simp_all add: union_keys_set map_of_eq_None_iff)
    with r False show ?thesis by (simp add: settled_def)
  qed (use r in blast)
qed

lemma merge_secrets_Inl:
  assumes "merge_secrets base ours theirs = Inl err"
  shows "\<exists>n. err = SecretMergeConflict n \<and> clash (map_of base n) (map_of ours n) (map_of theirs n)
       \<and> (\<forall>m<n. \<not> clash (map_of base m) (map_of ours m) (map_of theirs m))"
proof -
  let ?ks = "union_keys [base, ours, theirs]"
  obtain n where n: "n \<in> set ?ks" "err = SecretMergeConflict n" "clash (map_of base n) (map_of ours n) (map_of theirs n)"
    "\<forall>m \<in> set ?ks. m < n \<longrightarrow> \<not> clash (map_of base m) (map_of ours m) (map_of theirs m)"
    using merge_names_Inl [OF assms [unfolded merge_secrets_def] union_keys_sorted] by blast
  have "\<not> clash (map_of base m) (map_of ours m) (map_of theirs m)" if "m < n" for m
  proof (cases "m \<in> set ?ks")
    case False
    then have "map_of base m = None" "map_of ours m = None" by (simp_all add: union_keys_set map_of_eq_None_iff)
    then show ?thesis by (simp add: clash_def)
  qed (use n that in blast)
  with n show ?thesis by blast
qed

lemma merge_secrets_commute: "merge_secrets base theirs ours = merge_secrets base ours theirs"
proof (cases "merge_secrets base ours theirs")
  case (Inr a)
  note a = merge_secrets_Inr [OF Inr]
  show ?thesis
  proof (cases "merge_secrets base theirs ours")
    case (Inl err)
    with merge_secrets_Inl [OF Inl] a(2) settled_facts show ?thesis by metis
  next
    case I: (Inr b)
    have "map_of a n = map_of b n" for n
      using settled_facts(2) [OF a(2)] merge_secrets_Inr(2) [OF I] settled_facts(3) by metis
    with a(1) merge_secrets_Inr(1) [OF I] have "a = b" by (intro bt_unique) auto
    with Inr I show ?thesis by simp
  qed
next
  case (Inl err)
  then obtain n where n: "err = SecretMergeConflict n" "clash (map_of base n) (map_of ours n) (map_of theirs n)"
    "\<forall>m<n. \<not> clash (map_of base m) (map_of ours m) (map_of theirs m)" using merge_secrets_Inl by blast
  show ?thesis
  proof (cases "merge_secrets base theirs ours")
    case I: (Inl err')
    then obtain n' where n': "err' = SecretMergeConflict n'" "clash (map_of base n') (map_of theirs n') (map_of ours n')"
      "\<forall>m<n'. \<not> clash (map_of base m) (map_of theirs m) (map_of ours m)" using merge_secrets_Inl by blast
    have "n = n'" using n n' settled_facts(4) by (metis linorder_neqE)
    with Inl I n n' show ?thesis by simp
  next
    case (Inr b)
    with n(2) merge_secrets_Inr(2) [OF Inr] settled_facts show ?thesis by metis
  qed
qed

text \<open>
  C10: merging two secret registries gives every name the value of the side that changed it since the base,
  or the one both sides agree on. It fails exactly when some name was changed differently on the two sides, and
  names the first such name. The sides may be swapped.
\<close>

theorem secrets_three_way:
  "(case merge_secrets base ours theirs of
      Inr out \<Rightarrow> bt_ok out \<and> (\<forall>n. settled (map_of base n) (map_of ours n) (map_of theirs n) (map_of out n))
    | Inl err \<Rightarrow> \<exists>n. err = SecretMergeConflict n \<and> clash (map_of base n) (map_of ours n) (map_of theirs n)
        \<and> (\<nexists>m. m < n \<and> clash (map_of base m) (map_of ours m) (map_of theirs m)))
   \<and> (isl (merge_secrets base ours theirs) \<longleftrightarrow> (\<exists>n. clash (map_of base n) (map_of ours n) (map_of theirs n)))
   \<and> merge_secrets base theirs ours = merge_secrets base ours theirs"
proof (intro conjI)
  show "case merge_secrets base ours theirs of
      Inr out \<Rightarrow> bt_ok out \<and> (\<forall>n. settled (map_of base n) (map_of ours n) (map_of theirs n) (map_of out n))
    | Inl err \<Rightarrow> \<exists>n. err = SecretMergeConflict n \<and> clash (map_of base n) (map_of ours n) (map_of theirs n)
        \<and> (\<nexists>m. m < n \<and> clash (map_of base m) (map_of ours m) (map_of theirs m))"
    using merge_secrets_Inr [of base ours theirs] merge_secrets_Inl [of base ours theirs]
    by (cases "merge_secrets base ours theirs") fastforce+
  show "isl (merge_secrets base ours theirs) \<longleftrightarrow> (\<exists>n. clash (map_of base n) (map_of ours n) (map_of theirs n))"
  proof (cases "merge_secrets base ours theirs")
    case (Inl err)
    from merge_secrets_Inl [OF Inl] Inl show ?thesis by auto
  next
    case (Inr out)
    with settled_facts(1) [OF merge_secrets_Inr(2) [OF Inr]] show ?thesis by simp
  qed
qed (rule merge_secrets_commute)

section \<open>Trees\<close>

lemma flatten_three:
  assumes "store_ok e U st" "serves e st bf br" "serves e st ofs our" "serves e st tf tr"
    "max_len bf [] < n" "max_len ofs [] < n" "max_len tf [] < n"
  obtains s1 s2 s3 where "tree_file_entries_with_perms n e br st = (Inr bf, s1)" "tree_file_entries_with_perms n e our s1 = (Inr ofs, s2)"
    "tree_file_entries_with_perms n e tr s2 = (Inr tf, s3)" "grows e U st s3"
proof -
  obtain s1 where s1: "tree_file_entries_with_perms n e br st = (Inr bf, s1)" "grows e U st s1"
    using flatten_serves [OF assms(1,2,5)] by blast
  obtain s2 where s2: "tree_file_entries_with_perms n e our s1 = (Inr ofs, s2)" "grows e U s1 s2"
    using flatten_serves [OF grows_ok [OF s1(2)] serves_grows [OF assms(3) s1(2)] assms(6)] by blast
  note g2 = grows_trans [OF s1(2) s2(2)]
  obtain s3 where "tree_file_entries_with_perms n e tr s2 = (Inr tf, s3)" "grows e U s2 s3"
    using flatten_serves [OF grows_ok [OF g2] serves_grows [OF assms(4) g2] assms(7)] by blast
  with that s1 s2 grows_trans [OF g2] show thesis by blast
qed

lemma serves_held: "serves e st files root \<Longrightarrow> held e st (map_of files p)"
proof (cases "map_of files p")
  case (Some v)
  assume "serves e st files root"
  from serves_blob [OF this, of p "fst v" "snd v"] Some show ?thesis by (fastforce simp: held_def)
qed (simp add: held_def)

lemma map_filter_paths:
  assumes "\<And>p f. g p = Some f \<Longrightarrow> mf_path f = p"
  shows "map mf_path (List.map_filter g ps) = filter (\<lambda>p. g p \<noteq> None) ps"
  using assms by (induction ps) (auto simp: List.map_filter_def)

text \<open>The paths that remain after taking the winner of every path.\<close>

definition winning_paths :: "file_map \<Rightarrow> file_map \<Rightarrow> file_map \<Rightarrow> string list" where
  "winning_paths bf ofs tf = filter (\<lambda>p. winner (map_of bf p) (map_of ofs p) (map_of tf p) \<noteq> None) (union_keys [bf, ofs, tf])"

lemma resolved_merge:
  assumes "store_ok e U st" "serves e st bf br" "serves e st ofs our" "serves e st tf tr"
    "max_len bf [] < n" "max_len ofs [] < n" "max_len tf [] < n"
    and "\<And>p. resolvable (map_of bf p) (map_of ofs p) (map_of tf p)"
  obtains acc s3 s4 where "grows e U st s3" "grows e U st s4"
    "ma_files acc = List.map_filter (\<lambda>p. resolved_file e s3 p (map_of bf p) (map_of ofs p) (map_of tf p)) (union_keys [bf, ofs, tf])"
    "map mf_path (ma_files acc) = winning_paths bf ofs tf" "ma_conflicts acc = []" "ma_sidecars acc = []"
    "three_way_files n P e (Some (br, bp)) (our, op) (tr, tp) identity st =
      (case check_path_collisions (winning_paths bf ofs tf) of Inl err \<Rightarrow> (Inl err, s4) | Inr _ \<Rightarrow> (Inr (acc_into acc), s4))"
proof -
  let ?ks = "union_keys [bf, ofs, tf]" and ?prots = "[op, tp, bp]"
  obtain s1 s2 s3 where f3: "tree_file_entries_with_perms n e br st = (Inr bf, s1)" "tree_file_entries_with_perms n e our s1 = (Inr ofs, s2)"
    "tree_file_entries_with_perms n e tr s2 = (Inr tf, s3)" "grows e U st s3"
    using flatten_three [OF assms(1-7)] by blast
  have held3: "held e s3 (map_of ofs p)" "held e s3 (map_of tf p)" for p
    using serves_held serves_grows [OF assms(3) f3(4)] serves_grows [OF assms(4) f3(4)] by blast+
  let ?g = "\<lambda>p. resolved_file e s3 p (map_of bf p) (map_of ofs p) (map_of tf p)"
  obtain acc s4 where m: "merge_paths P e ?ks bf ofs tf ?prots identity acc_default s3 = (Inr acc, s4)" "grows e U s3 s4"
    "ma_files acc = List.map_filter ?g ?ks" "ma_conflicts acc = []" "ma_sidecars acc = []"
    using merge_paths_resolved [OF grows_ok [OF f3(4)], of ?ks bf ofs tf P ?prots identity acc_default] assms(8) held3
    by (auto simp: acc_default_def)
  have g: "grows e U st s4" using grows_trans [OF f3(4) m(2)] .
  have paths: "map mf_path (ma_files acc) = winning_paths bf ofs tf"
    unfolding m(3) winning_paths_def by (subst map_filter_paths) (auto simp: resolved_file_def)
  have run: "three_way_files n P e (Some (br, bp)) (our, op) (tr, tp) identity st =
      (case check_path_collisions (winning_paths bf ofs tf) of Inl err \<Rightarrow> (Inl err, s4) | Inr _ \<Rightarrow> (Inr (acc_into acc), s4))"
    unfolding three_way_files_def using f3(1-3) m(1) paths by (simp add: bindS_def split: sum.splits)
  with that f3(4) g m(3-5) paths run show thesis by blast
qed


text \<open>
  C7: when no path was changed differently on the two sides, a merge of trees in the store needs no identity
  and has no conflict. Its result has, once and in order, every path that the side which changed it keeps, with
  the stored bytes of that side, its protection and the merged mode, unless a file and a directory would
  get the same name, which is refused as a collision.
\<close>

theorem clean_merge:
  assumes "store_ok e U st" "serves e st bf br" "serves e st ofs our" "serves e st tf tr"
    "max_len bf [] < n" "max_len ofs [] < n" "max_len tf [] < n"
    and "\<And>p. resolvable (map_of bf p) (map_of ofs p) (map_of tf p)"
  shows "(if no_collisions (winning_paths bf ofs tf) then
     \<exists>fm st'. three_way_files n P e (Some (br, bp)) (our, op) (tr, tp) identity st = (Inr fm, st') \<and> grows e U st st'
       \<and> fm_conflicts fm = [] \<and> fm_sidecars fm = [] \<and> map mf_path (fm_files fm) = winning_paths bf ofs tf
       \<and> (\<forall>f \<in> set (fm_files fm). \<exists>i m q. winner (map_of bf (mf_path f)) (map_of ofs (mf_path f)) (map_of tf (mf_path f)) = Some (i, m, q)
            \<and> view e st i = Some (Blob (mf_bytes f)) \<and> \<not> mf_needs_encrypt f \<and> is_protected (mf_perms f) = is_protected q
            \<and> mf_mode f = merge_mode (entry_mode (map_of bf (mf_path f))) (entry_mode (map_of ofs (mf_path f))) (entry_mode (map_of tf (mf_path f))))
     else \<exists>f st'. three_way_files n P e (Some (br, bp)) (our, op) (tr, tp) identity st = (Inl (PathCollision f), st') \<and> grows e U st st')"
proof -
  obtain acc s3 s4 where f3: "grows e U st s3" and g: "grows e U st s4"
    and m: "ma_files acc = List.map_filter (\<lambda>p. resolved_file e s3 p (map_of bf p) (map_of ofs p) (map_of tf p)) (union_keys [bf, ofs, tf])"
    and paths: "map mf_path (ma_files acc) = winning_paths bf ofs tf" and none: "ma_conflicts acc = []" "ma_sidecars acc = []"
    and run: "three_way_files n P e (Some (br, bp)) (our, op) (tr, tp) identity st =
      (case check_path_collisions (winning_paths bf ofs tf) of Inl err \<Rightarrow> (Inl err, s4) | Inr _ \<Rightarrow> (Inr (acc_into acc), s4))"
    using resolved_merge [OF assms, of P bp op tp identity] by blast
  have dist: "distinct (winning_paths bf ofs tf)" by (simp add: winning_paths_def union_keys_def)
  show ?thesis
  proof (cases "no_collisions (winning_paths bf ofs tf)")
    case True
    then have "check_path_collisions (winning_paths bf ofs tf) = Inr ()"
      unfolding check_path_collisions_ok no_collisions_def by blast
    then have r: "three_way_files n P e (Some (br, bp)) (our, op) (tr, tp) identity st = (Inr (acc_into acc), s4)" using run by simp
    have "\<exists>i m q. winner (map_of bf (mf_path f)) (map_of ofs (mf_path f)) (map_of tf (mf_path f)) = Some (i, m, q)
            \<and> view e st i = Some (Blob (mf_bytes f)) \<and> \<not> mf_needs_encrypt f \<and> is_protected (mf_perms f) = is_protected q
            \<and> mf_mode f = merge_mode (entry_mode (map_of bf (mf_path f))) (entry_mode (map_of ofs (mf_path f))) (entry_mode (map_of tf (mf_path f)))"
      if f: "f \<in> set (ma_files acc)" for f
    proof -
      obtain p where "resolved_file e s3 p (map_of bf p) (map_of ofs p) (map_of tf p) = Some f"
        using f by (auto simp: m mem_map_filter)
      from resolved_file_props [OF this f3 serves_held [OF assms(3)] serves_held [OF assms(4)]] show ?thesis by auto
    qed
    with r g none paths True show ?thesis by (simp add: acc_into_def)
  next
    case False
    then have "check_path_collisions (winning_paths bf ofs tf) \<noteq> Inr ()"
      unfolding check_path_collisions_ok no_collisions_def using dist by blast
    then obtain err where err: "check_path_collisions (winning_paths bf ofs tf) = Inl err"
      by (cases "check_path_collisions (winning_paths bf ofs tf)") auto
    with check_path_collisions_err [OF err] run g False show ?thesis by auto
  qed
qed

lemma demo_merge_store:
  "\<exists>U st r0 r1. store_ok prefix_ext U st \<and> serves prefix_ext st [] r0 \<and> serves prefix_ext st demo_map r1
     \<and> view prefix_ext st (object_id prefix_ext (Blob [1, 2])) = Some (Blob [1, 2])"
proof -
  let ?U = "encode ` demo_objects_of demo_snapshot"
  have k: "known ?U (Blob [1, 2])" "known ?U (Tree [])" by (simp_all add: known_def demo_objects_of_def object_ok_def vec_ok_def)
  have "roomy [1, 2] demo_st" by (simp add: roomy_def demo_st_def store_new_def)
  then obtain s1 where s1: "grows prefix_ext ?U demo_st s1"
    "view prefix_ext s1 (object_id prefix_ext (Blob [1, 2])) = Some (Blob [1, 2])"
    using put_blob_ok [OF demo_st_ok k(1)] by blast
  obtain s2 where s2: "grows prefix_ext ?U s1 s2" "view prefix_ext s2 (object_id prefix_ext (Tree [])) = Some (canon (Tree []))"
    using put_weightless [OF grows_ok [OF s1(1)] k(2)] by (auto simp: blob_size_def)
  note b2 = grows_view [OF s2(1) s1(2)]
  have budget: "st_budget s2 = 10" using s1(1) s2(1) by (simp add: grows_def demo_st_def store_new_def)
  have tree: "list_all (known ?U) (tree_objects prefix_ext demo_map [] [])"
    using demo_known by (simp add: files_objects_def demo_index)
  obtain s3 where s3: "grows prefix_ext ?U s2 s3" "serves prefix_ext s3 demo_map (tree_id prefix_ext demo_map [] [])"
    using build_root_serves [OF grows_ok [OF s2(1)] _ _ tree] b2 budget
    by (auto simp: demo_map_def demo_no_collisions file_path_def demo_paths)
  have empty: "pure_tree prefix_ext [] [] [] = []" "tree_objects prefix_ext [] [] [] = [Tree []]"
    by (subst pure_tree.simps tree_objects.simps, simp add: dir_defs)+
  have "serves prefix_ext s3 [] (object_id prefix_ext (Tree []))"
    using grows_view [OF s3(1) s2(2)] by (simp add: serves_def empty no_collisions_def)
  with s3 grows_ok [OF s3(1)] grows_view [OF s3(1) b2] show ?thesis by blast
qed

lemma demo_winner:
  "resolvable (map_of [] p) (map_of demo_map p) (map_of [] p)" "max_len demo_map [] < 4" "max_len [] [] < 4"
  "winning_paths [] demo_map [] = [''a/b'']" "no_collisions (winning_paths [] demo_map [])"
proof -
  show r: "resolvable (map_of [] p) (map_of demo_map p) (map_of [] p)" by (simp add: resolvable_def)
  show w: "winning_paths [] demo_map [] = [''a/b'']"
    by (simp add: winning_paths_def union_keys_def demo_map_def winner_def protect_key_def)
  show "no_collisions (winning_paths [] demo_map [])" by (simp add: w demo_no_collisions)
  show "max_len demo_map [] < 4" "max_len [] [] < 4" by (simp_all add: demo_map_def max_len_def)
qed

theorem clean_merge_witness:
  "\<exists>st r0 r1 fm st'. three_way_files 4 demo_prims prefix_ext (Some (r0, protection_default)) (r1, protection_default) (r0, protection_default)
       None st = (Inr fm, st') \<and> map mf_path (fm_files fm) = [''a/b''] \<and> fm_conflicts fm = []"
proof -
  obtain U st r0 r1 where st: "store_ok prefix_ext U st" "serves prefix_ext st [] r0" "serves prefix_ext st demo_map r1"
    using demo_merge_store by blast
  from clean_merge [OF st(1,2,3,2) demo_winner(3,2,3) demo_winner(1), of demo_prims protection_default protection_default protection_default None]
  obtain fm st' where "three_way_files 4 demo_prims prefix_ext (Some (r0, protection_default)) (r1, protection_default) (r0, protection_default)
       None st = (Inr fm, st')" "fm_conflicts fm = []" "map mf_path (fm_files fm) = winning_paths [] demo_map []"
    unfolding if_P [OF demo_winner(5)] by blast
  then show ?thesis by (intro exI [of _ st] exI [of _ r0] exI [of _ r1] exI [of _ fm] exI [of _ st']) (simp add: demo_winner(4))
qed



end
