(* ===== verification/Text.thy ===== *)
theory Text
  imports Prelude
begin

text \<open>
  The text operations of the standard library that the files below \<^verbatim>\<open>.sc\<close> are read and written with.
  A string is the list of its UTF-8 bytes; a character of more than one byte is looked for by its
  encoding, which in valid UTF-8 occurs only where the character does.
\<close>

section \<open>White space and control characters\<close>

definition utf8_of :: "nat list \<Rightarrow> string" where
  "utf8_of bs = map char_of bs"

text \<open>The characters with the property \<^verbatim>\<open>White_Space\<close>, and those of category \<^verbatim>\<open>Cc\<close>.\<close>

definition white_space :: "string list" where
  "white_space = map utf8_of ([[9], [10], [11], [12], [13], [32], [194, 133], [194, 160], [225, 154, 128]]
     @ map (\<lambda>b. [226, 128, b]) [128, 129, 130, 131, 132, 133, 134, 135, 136, 137, 138, 168, 169, 175] @ [[226, 129, 159], [227, 128, 128]])"

definition control_chars :: "string list" where
  "control_chars = map (\<lambda>b. utf8_of [b]) [0..<32] @ [utf8_of [127]] @ map (\<lambda>b. utf8_of [194, b]) [128..<160]"

lemma white_space_nonempty: "w \<in> set white_space \<Longrightarrow> w \<noteq> []"
  by (auto simp: white_space_def utf8_of_def)

fun occurs_any :: "string list \<Rightarrow> string \<Rightarrow> bool" where
  "occurs_any ws [] \<longleftrightarrow> list_ex (\<lambda>w. w = []) ws"
| "occurs_any ws (c # s) \<longleftrightarrow> list_ex (\<lambda>w. prefix w (c # s)) ws \<or> occurs_any ws s"

text \<open>Remove one of the given encodings from the front for as long as there is one.\<close>

function strip_front :: "string list \<Rightarrow> string \<Rightarrow> string" where
  "strip_front ws s =
     (case List.find (\<lambda>w. w \<noteq> [] \<and> prefix w s) ws of None \<Rightarrow> s | Some w \<Rightarrow> strip_front ws (drop (length w) s))"
  by pat_completeness auto
termination
  by (relation "measure (\<lambda>(ws, s). length s)") (auto simp: find_Some_iff prefix_def)

declare strip_front.simps [simp del]

definition trim_start :: "string \<Rightarrow> string" where
  "trim_start s = strip_front white_space s"

definition trim_end :: "string \<Rightarrow> string" where
  "trim_end s = rev (strip_front (map rev white_space) (rev s))"

definition trim :: "string \<Rightarrow> string" where
  "trim s = trim_end (trim_start s)"

text \<open>Plain ASCII text has no such characters but the visible ones.\<close>

definition graphic :: "char \<Rightarrow> bool" where
  "graphic c \<longleftrightarrow> 33 \<le> (of_char c :: nat) \<and> (of_char c :: nat) < 127"

lemma white_space_heads: "w \<in> set white_space \<Longrightarrow> \<not> graphic (hd w) \<and> \<not> graphic (last w)"
  by (auto simp: white_space_def utf8_of_def graphic_def)

lemma control_heads: "w \<in> set control_chars \<Longrightarrow> w \<noteq> [] \<and> \<not> graphic (hd w)"
  by (auto simp: control_chars_def utf8_of_def graphic_def)

lemma strip_front_stop: "(\<And>w. w \<in> set ws \<Longrightarrow> w \<noteq> [] \<Longrightarrow> \<not> prefix w s) \<Longrightarrow> strip_front ws s = s"
proof -
  assume "\<And>w. w \<in> set ws \<Longrightarrow> w \<noteq> [] \<Longrightarrow> \<not> prefix w s"
  then have "List.find (\<lambda>w. w \<noteq> [] \<and> prefix w s) ws = None" by (auto simp: find_None_iff)
  then show ?thesis by (simp add: strip_front.simps)
qed

lemma prefix_hd: "prefix w s \<Longrightarrow> w \<noteq> [] \<Longrightarrow> s \<noteq> [] \<and> hd w = hd s"
  by (auto simp: prefix_def)

lemma trim_start_graphic: "s = [] \<or> graphic (hd s) \<Longrightarrow> trim_start s = s"
  unfolding trim_start_def using white_space_heads
  by (intro strip_front_stop) (metis prefix_hd)

lemma trim_end_graphic: "s = [] \<or> graphic (last s) \<Longrightarrow> trim_end s = s"
proof -
  assume s: "s = [] \<or> graphic (last s)"
  have "\<not> prefix (rev w) (rev s)" if "w \<in> set white_space" "w \<noteq> []" for w
    using prefix_hd [of "rev w" "rev s"] white_space_heads [OF that(1)] that(2) s by (auto simp: hd_rev)
  then have "strip_front (map rev white_space) (rev s) = rev s" by (intro strip_front_stop) auto
  then show ?thesis by (simp add: trim_end_def)
qed

lemma trim_end_newline: "trim_end (s @ [CHR 0x0A]) = trim_end s"
proof -
  have "List.find (\<lambda>w. w \<noteq> [] \<and> prefix w (CHR 0x0A # rev s)) (map rev white_space) = Some [CHR 0x0A]"
    by (simp add: white_space_def utf8_of_def char_of_eq_iff take_bit_eq_mod)
  then show ?thesis by (simp add: trim_end_def strip_front.simps [of _ "_ # _"])
qed

text \<open>A line of visible characters comes back from its file.\<close>

lemma trim_line: "list_all graphic s \<Longrightarrow> trim (s @ [CHR 0x0A]) = s"
proof (cases "s = []")
  case True
  have "List.find (\<lambda>w. w \<noteq> [] \<and> prefix w [CHR 0x0A]) white_space = Some [CHR 0x0A]"
    by (simp add: white_space_def utf8_of_def char_of_eq_iff take_bit_eq_mod)
  with True show ?thesis
    using trim_start_graphic [of "[]"] trim_end_graphic [of "[]"]
    by (simp add: trim_def trim_start_def strip_front.simps [of _ "[_]"])
next
  case False
  assume g: "list_all graphic s"
  with False have "trim_start (s @ [CHR 0x0A]) = s @ [CHR 0x0A]"
    by (intro trim_start_graphic) (auto simp: list_all_iff hd_append)
  with False g show ?thesis using trim_end_graphic [of s] by (simp add: trim_def trim_end_newline list_all_iff)
qed

lemma occurs_any_graphic:
  assumes "list_all graphic s" "\<And>w. w \<in> set ws \<Longrightarrow> w \<noteq> [] \<and> \<not> graphic (hd w)"
  shows "\<not> occurs_any ws s"
  using assms(1)
proof (induction s)
  case Nil
  then show ?case using assms(2) by (auto simp: list_ex_iff)
next
  case (Cons c s)
  then show ?case using assms(2) prefix_hd by (fastforce simp: list_ex_iff)
qed

lemma occurs_any_single: "[c] \<in> set ws \<Longrightarrow> c \<in> set s \<Longrightarrow> occurs_any ws s"
  by (induction s) (auto simp: list_ex_iff intro!: bexI [of _ "[c]"])

section \<open>Lines\<close>

definition nl :: char where "nl = CHR 0x0A"
definition cr :: char where "cr = CHR 0x0D"

text \<open>\<^verbatim>\<open>split_inclusive\<close> at newlines: every line with its terminator, none for an empty rest.\<close>

fun split_inclusive :: "string \<Rightarrow> string list" where
  "split_inclusive [] = []"
| "split_inclusive (c # s) =
     (if c = nl then [c] # split_inclusive s
      else case split_inclusive s of [] \<Rightarrow> [[c]] | l # ls \<Rightarrow> (c # l) # ls)"

lemma split_inclusive_append: "s = [] \<or> last s = nl \<Longrightarrow> split_inclusive (s @ t) = split_inclusive s @ split_inclusive t"
proof (induction s)
  case (Cons c s)
  then have IH: "s \<noteq> [] \<or> c \<noteq> nl \<Longrightarrow> split_inclusive (s @ t) = split_inclusive s @ split_inclusive t" by (cases s) auto
  show ?case
  proof (cases "c = nl")
    case True
    with Cons show ?thesis by (cases "s = []") simp_all
  next
    case False
    with Cons.prems have "s \<noteq> []" by auto
    then have "split_inclusive s \<noteq> []" by (cases s) (auto split: list.splits)
    with False IH show ?thesis by (auto split: list.splits)
  qed
qed simp

definition strip_suffix :: "char \<Rightarrow> string \<Rightarrow> string" where
  "strip_suffix c s = (if s \<noteq> [] \<and> last s = c then butlast s else s)"

text \<open>\<^verbatim>\<open>str::lines\<close> removes a carriage return only before a newline.\<close>

definition line_of :: "string \<Rightarrow> string" where
  "line_of l = (if l \<noteq> [] \<and> last l = nl then strip_suffix cr (butlast l) else l)"

definition str_lines :: "string \<Rightarrow> string list" where
  "str_lines s = map line_of (split_inclusive s)"

definition plain_line :: "string \<Rightarrow> bool" where
  "plain_line l \<longleftrightarrow> nl \<notin> set l \<and> (l = [] \<or> last l \<noteq> cr)"

definition unlines :: "string list \<Rightarrow> string" where
  "unlines ls = concat (map (\<lambda>l. l @ [nl]) ls)"

lemma unlines_simps [simp]: "unlines [] = []" "unlines (l # ls) = l @ nl # unlines ls" "unlines (ls @ ls') = unlines ls @ unlines ls'"
  by (simp_all add: unlines_def)

lemma split_inclusive_line: "nl \<notin> set l \<Longrightarrow> split_inclusive (l @ nl # s) = (l @ [nl]) # split_inclusive s"
  by (induction l) auto

lemma split_inclusive_unlines:
  "list_all (\<lambda>l. nl \<notin> set l) ls \<Longrightarrow> split_inclusive (unlines ls @ s) = map (\<lambda>l. l @ [nl]) ls @ split_inclusive s"
  by (induction ls) (auto simp: split_inclusive_line)

lemma line_of_plain: "plain_line l \<Longrightarrow> line_of (l @ [nl]) = l"
  by (auto simp: line_of_def plain_line_def strip_suffix_def)

lemma lines_unlines: "list_all plain_line ls \<Longrightarrow> str_lines (unlines ls) = ls"
  using split_inclusive_unlines [of ls "[]"]
  by (auto simp: str_lines_def plain_line_def list_all_iff line_of_plain map_idI)

lemma concat_split_inclusive [simp]: "concat (split_inclusive s) = s"
  by (induction s) (auto split: list.splits)

section \<open>Valid text\<close>

lemma utf8_append: "utf8_valid xs \<Longrightarrow> utf8_valid (xs @ ys) = utf8_valid ys"
proof (induction xs rule: utf8_valid.induct)
  case (2 a bs)
  note valid = utf8_valid.simps(2) [of a]
  consider "bs = []" | b where "bs = [b]" | b c where "bs = [b, c]" | b c d es where "bs = b # c # d # es"
    by (metis list.exhaust)
  then show ?case
  proof cases
    case 1
    then show ?thesis using 2 by (simp add: valid split: if_split_asm del: utf8_valid.simps(2))
  next
    case (2 b)
    then show ?thesis using "2.prems" "2.IH" by (simp add: valid split: if_split_asm del: utf8_valid.simps(2))
  next
    case (3 b c)
    then show ?thesis using "2.prems" "2.IH" by (simp add: valid split: if_split_asm del: utf8_valid.simps(2)) blast
  next
    case (4 b c d es)
    then show ?thesis using "2.prems" "2.IH" by (simp add: valid split: if_splits del: utf8_valid.simps(2)) blast
  qed
qed simp

text \<open>Valid text may be cut at an ASCII character: no encoding continues with one.\<close>

lemma utf8_cut: "utf8_valid (xs @ x # ys) \<Longrightarrow> unat x < 128 \<Longrightarrow> utf8_valid xs \<and> utf8_valid (x # ys)"
proof (induction xs rule: utf8_valid.induct)
  case (2 a bs)
  have no: "in_range 128 191 x = False" "in_range 160 191 x = False" "in_range 128 159 x = False" "in_range 144 191 x = False"
    "in_range 128 143 x = False"
    using "2.prems"(2) by (auto simp: in_range_def)
  note valid = utf8_valid.simps(2) [of a]
  consider "bs = []" | b where "bs = [b]" | b c where "bs = [b, c]" | b c d es where "bs = b # c # d # es"
    by (metis list.exhaust)
  then show ?case
  proof cases
    case 1
    then show ?thesis using 2 no by (cases ys) (simp_all add: valid split: if_split_asm list.split_asm del: utf8_valid.simps(2))
  next
    case (2 b)
    then show ?thesis using "2.prems" "2.IH" no by (simp add: valid split: if_split_asm list.split_asm del: utf8_valid.simps(2))
  next
    case (3 b c)
    then show ?thesis using "2.prems" "2.IH" no by (simp add: valid split: if_split_asm list.split_asm del: utf8_valid.simps(2))
  next
    case (4 b c d es)
    then show ?thesis using "2.prems" "2.IH" no by (simp add: valid split: if_splits del: utf8_valid.simps(2)) blast
  qed
qed simp

lemma str_bytes_append [simp]: "str_bytes (s @ t) = str_bytes s @ str_bytes t"
  by (simp add: str_bytes_def)

lemma str_ok_append: "str_ok s \<Longrightarrow> str_ok (s @ t) = str_ok t"
  by (simp add: str_ok_def utf8_append)

lemma str_ok_Nil [simp]: "str_ok []"
  by (simp add: str_ok_def str_bytes_def)

lemma str_ok_ascii: "list_all (\<lambda>c. (of_char c :: nat) < 128) s \<Longrightarrow> str_ok s"
  by (induction s) (auto simp: str_ok_def str_bytes_def in_range_def unat_of_nat)

lemma str_ok_graphic: "list_all graphic s \<Longrightarrow> str_ok s"
  by (rule str_ok_ascii) (auto simp: list_all_iff graphic_def)

definition ascii :: "char \<Rightarrow> bool" where
  "ascii c \<longleftrightarrow> (of_char c :: nat) < 128"

lemma ascii_simps [simp]: "ascii nl" "ascii cr" "ascii (CHR '' '')"
  by (simp_all add: ascii_def nl_def cr_def)

lemma str_ok_Cons: "ascii c \<Longrightarrow> str_ok (c # s) = str_ok s"
  by (simp add: str_ok_def str_bytes_def in_range_def ascii_def unat_of_nat)

lemma str_ok_nl: "str_ok (nl # s) = str_ok s"
  by (simp add: str_ok_Cons)

lemma str_ok_cut: "str_ok (s @ c # t) \<Longrightarrow> ascii c \<Longrightarrow> str_ok s \<and> str_ok t"
proof -
  assume a: "str_ok (s @ c # t)" "ascii c"
  have "utf8_valid (str_bytes s) \<and> utf8_valid (str_bytes (c # t))"
    using a utf8_cut [of "str_bytes s" "word_of_nat (of_char c)" "str_bytes t"]
    by (simp add: str_ok_def str_bytes_def ascii_def unat_of_nat)
  with a(2) show ?thesis using str_ok_Cons [of c t] by (simp add: str_ok_def)
qed

text \<open>Replacing ASCII characters by ASCII characters keeps a text valid.\<close>

lemma str_ok_map: "\<forall>c. (ascii c \<and> ascii (f c)) \<or> f c = c \<Longrightarrow> str_ok s \<Longrightarrow> str_ok (map f s)"
proof (induction s rule: length_induct)
  case (1 s)
  show ?case
  proof (cases "\<exists>c \<in> set s. f c \<noteq> c")
    case False
    then have "map f s = s" by (simp add: map_idI)
    with 1 show ?thesis by simp
  next
    case True
    then obtain a c b where s: "s = a @ c # b" "f c \<noteq> c" "\<forall>x \<in> set a. f x = x"
      using split_list_first_prop [of s "\<lambda>c. f c \<noteq> c"] by blast
    with 1 have c: "ascii c" "ascii (f c)" by metis+
    then have "str_ok a" "str_ok b" using str_ok_cut [of a c b] 1 s by auto
    moreover have "str_ok (map f b)" using 1 s \<open>str_ok b\<close> by auto
    ultimately show ?thesis using s(1,3) c by (simp add: str_ok_append str_ok_Cons map_idI)
  qed
qed

lemma str_ok_unlines: "list_all str_ok ls \<Longrightarrow> str_ok (unlines ls)"
  by (induction ls) (simp_all add: str_ok_append str_ok_nl)

section \<open>Fields\<close>

fun strip_prefix :: "string \<Rightarrow> string \<Rightarrow> string option" where
  "strip_prefix [] s = Some s"
| "strip_prefix (p # ps) [] = None"
| "strip_prefix (p # ps) (c # s) = (if p = c then strip_prefix ps s else None)"

lemma strip_prefix_append [simp]: "strip_prefix p (p @ s) = Some s"
  by (induction p) auto

lemma strip_prefix_SomeD: "strip_prefix p s = Some r \<Longrightarrow> s = p @ r"
  by (induction p s rule: strip_prefix.induct) (auto split: if_splits)

fun cut_once :: "char \<Rightarrow> string \<Rightarrow> (string \<times> string) option" where
  "cut_once c [] = None"
| "cut_once c (d # s) = (if d = c then Some ([], s) else map_option (\<lambda>(a, b). (d # a, b)) (cut_once c s))"

lemma cut_once_append: "c \<notin> set a \<Longrightarrow> cut_once c (a @ c # b) = Some (a, b)"
  by (induction a) auto

lemma cut_once_None: "c \<notin> set a \<Longrightarrow> cut_once c a = None"
  by (induction a) auto

text \<open>\<^verbatim>\<open>splitn\<close>: at most \<open>n\<close> parts, the last one unsplit.\<close>

fun splitn :: "nat \<Rightarrow> char \<Rightarrow> string \<Rightarrow> string list" where
  "splitn 0 c s = []"
| "splitn (Suc 0) c s = [s]"
| "splitn (Suc (Suc n)) c s = (case cut_once c s of None \<Rightarrow> [s] | Some (a, b) \<Rightarrow> a # splitn (Suc n) c b)"

section \<open>Decimal numbers\<close>

definition digit_char :: "nat \<Rightarrow> char" where
  "digit_char d = char_of (48 + d)"

fun show_nat :: "nat \<Rightarrow> string" where
  "show_nat n = (if n < 10 then [digit_char n] else show_nat (n div 10) @ [digit_char (n mod 10)])"

declare show_nat.simps [simp del]

definition show_int :: "int \<Rightarrow> string" where
  "show_int i = (if i < 0 then CHR ''-'' # show_nat (nat (- i)) else show_nat (nat i))"

definition decimal_val :: "char \<Rightarrow> nat option" where
  "decimal_val c = (let n = of_char c :: nat in if 48 \<le> n \<and> n \<le> 57 then Some (n - 48) else None)"

fun parse_digits :: "nat \<Rightarrow> string \<Rightarrow> nat option" where
  "parse_digits acc [] = Some acc"
| "parse_digits acc (c # s) = (case decimal_val c of None \<Rightarrow> None | Some d \<Rightarrow> parse_digits (acc * 10 + d) s)"

definition parse_nat :: "string \<Rightarrow> nat option" where
  "parse_nat s = (if s = [] then None else parse_digits 0 s)"

text \<open>\<^verbatim>\<open>str::parse\<close> for \<^verbatim>\<open>u64\<close> (and \<^verbatim>\<open>usize\<close>) and \<^verbatim>\<open>i64\<close>: an optional sign, at least one digit, no overflow.\<close>

definition parse_u64 :: "string \<Rightarrow> nat option" where
  "parse_u64 s = (case parse_nat (if s \<noteq> [] \<and> hd s = CHR ''+'' then tl s else s) of
     Some n \<Rightarrow> if n < 2 ^ 64 then Some n else None | None \<Rightarrow> None)"

definition parse_u32 :: "string \<Rightarrow> nat option" where
  "parse_u32 s = (case parse_u64 s of Some n \<Rightarrow> if n < 2 ^ 32 then Some n else None | None \<Rightarrow> None)"

definition parse_i64 :: "string \<Rightarrow> int option" where
  "parse_i64 s =
     (if s \<noteq> [] \<and> hd s = CHR ''-'' then
        (case parse_nat (tl s) of Some n \<Rightarrow> if n \<le> 2 ^ 63 then Some (- int n) else None | None \<Rightarrow> None)
      else case parse_nat (if s \<noteq> [] \<and> hd s = CHR ''+'' then tl s else s) of
        Some n \<Rightarrow> if n < 2 ^ 63 then Some (int n) else None | None \<Rightarrow> None)"

lemma decimal_val_char [simp]: "d < 10 \<Longrightarrow> decimal_val (digit_char d) = Some d"
  by (simp add: decimal_val_def digit_char_def)

lemma parse_digits_append: "parse_digits acc (s @ [c]) = (case parse_digits acc s of None \<Rightarrow> None
    | Some n \<Rightarrow> map_option (\<lambda>d. n * 10 + d) (decimal_val c))"
  by (induction s arbitrary: acc) (auto split: option.splits)

lemma show_nat_nonempty [simp]: "show_nat n \<noteq> []"
  by (subst show_nat.simps) simp

lemma parse_digits_show: "parse_digits 0 (show_nat n) = Some n"
proof (induction n rule: show_nat.induct)
  case (1 n)
  then show ?case by (subst show_nat.simps) (auto simp: parse_digits_append)
qed

lemma parse_nat_show [simp]: "parse_nat (show_nat n) = Some n"
  by (simp add: parse_nat_def parse_digits_show)

lemma digit_char_graphic: "d < 10 \<Longrightarrow> graphic (digit_char d) \<and> digit_char d \<noteq> CHR ''+'' \<and> digit_char d \<noteq> CHR ''-''"
proof -
  assume "d < 10"
  then have "(of_char (digit_char d) :: nat) = 48 + d" by (simp add: digit_char_def)
  with \<open>d < 10\<close> show ?thesis by (auto simp: graphic_def)
qed

lemma show_nat_chars: "list_all (\<lambda>c. graphic c \<and> c \<noteq> CHR ''+'' \<and> c \<noteq> CHR ''-'') (show_nat n)"
proof (induction n rule: show_nat.induct)
  case (1 n)
  then show ?case by (subst show_nat.simps) (auto simp: digit_char_graphic list_all_append)
qed

lemma show_nat_hd: "hd (show_nat n) \<noteq> CHR ''+'' \<and> hd (show_nat n) \<noteq> CHR ''-''"
  using show_nat_chars [of n] by (auto simp: list_all_iff)

lemma parse_u64_show: "n < 2 ^ 64 \<Longrightarrow> parse_u64 (show_nat n) = Some n"
  using show_nat_hd [of n] by (simp add: parse_u64_def)

lemma parse_i64_show: "- (2 ^ 63) \<le> i \<Longrightarrow> i < 2 ^ 63 \<Longrightarrow> parse_i64 (show_int i) = Some i"
  using show_nat_hd [of "nat i"] by (auto simp: parse_i64_def show_int_def)

lemma show_int_graphic: "list_all graphic (show_int i)"
  using show_nat_chars [of "nat i"] show_nat_chars [of "nat (- i)"]
  by (auto simp: show_int_def list_all_iff graphic_def)

lemma show_nat_graphic: "list_all graphic (show_nat n)"
  using show_nat_chars [of n] by (auto simp: list_all_iff)

end
