(* ===== verification/Refs.thy ===== *)
theory Refs
  imports Repo_Error Text
begin

text \<open>
  The files below \<^verbatim>\<open>.sc\<close> (\<^verbatim>\<open>crates/repo/src/layout.rs\<close>) and the branch files among them
  (\<^verbatim>\<open>refs.rs\<close>, with \<^verbatim>\<open>validate_branch_name\<close> of \<^verbatim>\<open>repo.rs\<close>). A directory is the association list
  of its files by path and the list of its directories, whose order stands for the unspecified order of
  \<^verbatim>\<open>read_dir\<close>. A file system call fails only where a file or a directory does not exist, and reading a
  text fails on bytes that are not UTF-8.
\<close>

section \<open>Files\<close>

record sc_dir =
  fs_files :: "(string \<times> bytes) list"
  fs_dirs :: "string list"

type_synonym 'a dir_op = "sc_dir \<Rightarrow> (repo_error + 'a) \<times> sc_dir"

text \<open>\<^verbatim>\<open>read_to_string\<close> with the case of a missing file set apart.\<close>

definition read_text :: "string \<Rightarrow> sc_dir \<Rightarrow> repo_error + string option" where
  "read_text p d = (case map_of (fs_files d) p of
     None \<Rightarrow> Inr None
   | Some b \<Rightarrow> (case from_utf8 b of None \<Rightarrow> Inl (RIo OtherIo) | Some s \<Rightarrow> Inr (Some s)))"

definition file_exists :: "string \<Rightarrow> sc_dir \<Rightarrow> bool" where
  "file_exists p d \<longleftrightarrow> map_of (fs_files d) p \<noteq> None"

definition parent_dir :: "string \<Rightarrow> string" where
  "parent_dir p = join_with (CHR ''/'') (butlast (split_on (CHR ''/'') p))"

definition write_file :: "string \<Rightarrow> string \<Rightarrow> unit dir_op" where
  "write_file p text d =
     (if parent_dir p = [] \<or> parent_dir p \<in> set (fs_dirs d)
      then (Inr (), d\<lparr>fs_files := AList.update p (str_bytes text) (fs_files d)\<rparr>)
      else (Inl (RIo NotFoundIo), d))"

text \<open>Replacing and removing a file directly in \<^verbatim>\<open>.sc\<close>, which cannot fail here.\<close>

definition set_file :: "string \<Rightarrow> string \<Rightarrow> sc_dir \<Rightarrow> sc_dir" where
  "set_file p text d = d\<lparr>fs_files := AList.update p (str_bytes text) (fs_files d)\<rparr>"

definition delete_file :: "string \<Rightarrow> sc_dir \<Rightarrow> sc_dir" where
  "delete_file p d = d\<lparr>fs_files := AList.delete p (fs_files d)\<rparr>"

definition remove_if_exists :: "string \<Rightarrow> unit dir_op" where
  "remove_if_exists p d = (Inr (), d\<lparr>fs_files := AList.delete p (fs_files d)\<rparr>)"

definition ancestors_of :: "string \<Rightarrow> string list" where
  "ancestors_of p = (let cs = split_on (CHR ''/'') p in map (\<lambda>n. join_with (CHR ''/'') (take (Suc n) cs)) [0..<length cs])"

definition create_dir_all :: "string \<Rightarrow> unit dir_op" where
  "create_dir_all p d = (Inr (), d\<lparr>fs_dirs := List.union (ancestors_of p) (fs_dirs d)\<rparr>)"

section \<open>Names\<close>

definition HEADS_DIR :: string where "HEADS_DIR = ''refs/heads''"
definition REMOTES_DIR :: string where "REMOTES_DIR = ''refs/remotes''"
definition HEAD_PREFIX :: string where "HEAD_PREFIX = ''ref: refs/heads/''"

abbreviation path_join :: "string \<Rightarrow> string \<Rightarrow> string" where
  "path_join a b \<equiv> a @ CHR ''/'' # b"

definition ref_path :: "string \<Rightarrow> string" where
  "ref_path branch = path_join HEADS_DIR branch"

definition remote_ref_path :: "string \<Rightarrow> string \<Rightarrow> string" where
  "remote_ref_path remote branch = path_join (path_join REMOTES_DIR remote) branch"

definition spaced :: "string \<Rightarrow> bool" where
  "spaced s \<longleftrightarrow> occurs_any white_space s \<or> occurs_any control_chars s"

definition branch_name_ok :: "string \<Rightarrow> bool" where
  "branch_name_ok name \<longleftrightarrow>
     \<not> (name = [] \<or> name = ''.'' \<or> name = ''..'' \<or> hd name = CHR ''.'' \<or> CHR ''/'' \<in> set name \<or> CHR 0x5C \<in> set name \<or> spaced name)"

definition validate_branch_name :: "string \<Rightarrow> repo_error + unit" where
  "validate_branch_name name = (if branch_name_ok name then Inr () else Inl (BadRef (InvalidBranchName name)))"

definition is_unsafe_ref_component :: "string \<Rightarrow> bool" where
  "is_unsafe_ref_component s \<longleftrightarrow>
     s = [] \<or> hd s = CHR ''.'' \<or> CHR 0x5C \<in> set s
     \<or> list_ex (\<lambda>c. c = [] \<or> c = ''..'') (split_on (CHR ''/'') s) \<or> spaced s"

section \<open>Reading and writing refs\<close>

definition write_head :: "string \<Rightarrow> unit dir_op" where
  "write_head branch = bindS (liftE (validate_branch_name branch)) (\<lambda>_. write_file ''HEAD'' (HEAD_PREFIX @ branch @ [nl]))"

definition current_branch :: "sc_dir \<Rightarrow> repo_error + string" where
  "current_branch d = bindE (read_text ''HEAD'' d) (\<lambda>t. case t of
     None \<Rightarrow> Inl (RIo NotFoundIo)
   | Some text \<Rightarrow> let line = trim text in
       (case strip_prefix HEAD_PREFIX line of Some b \<Rightarrow> Inr b | None \<Rightarrow> Inl (BadRef (HeadNotSymbolic line))))"

text \<open>The id a one-line file holds; \<open>err\<close> is the error for a text that is no id.\<close>

definition parse_ref :: "ext \<Rightarrow> (string \<Rightarrow> repo_error) \<Rightarrow> string \<Rightarrow> repo_error + object_id" where
  "parse_ref e err text = (case id_from_str e (trim text) of Inr i \<Rightarrow> Inr i | Inl _ \<Rightarrow> Inl (err (trim text)))"

definition read_id_file :: "ext \<Rightarrow> (string \<Rightarrow> repo_error) \<Rightarrow> string \<Rightarrow> sc_dir \<Rightarrow> repo_error + object_id option" where
  "read_id_file e err p d = bindE (read_text p d) (\<lambda>t. case t of
     None \<Rightarrow> Inr None | Some text \<Rightarrow> bindE (parse_ref e err text) (\<lambda>i. Inr (Some i)))"

definition read_branch_tip :: "ext \<Rightarrow> string \<Rightarrow> sc_dir \<Rightarrow> repo_error + object_id option" where
  "read_branch_tip e branch d = bindE (validate_branch_name branch) (\<lambda>_.
     read_id_file e (\<lambda>t. BadRef (RefHasBadId branch t)) (ref_path branch) d)"

definition write_branch_tip :: "ext \<Rightarrow> string \<Rightarrow> object_id \<Rightarrow> unit dir_op" where
  "write_branch_tip e branch i = bindS (liftE (validate_branch_name branch)) (\<lambda>_.
     bindS (create_dir_all HEADS_DIR) (\<lambda>_. write_file (ref_path branch) (id_to_hex e i @ [nl])))"

definition read_remote_tip :: "ext \<Rightarrow> string \<Rightarrow> string \<Rightarrow> sc_dir \<Rightarrow> repo_error + object_id option" where
  "read_remote_tip e remote branch d = read_id_file e (\<lambda>_. BadRef (RemoteRefHasBadId remote branch)) (remote_ref_path remote branch) d"

definition write_remote_tip :: "ext \<Rightarrow> string \<Rightarrow> string \<Rightarrow> object_id \<Rightarrow> unit dir_op" where
  "write_remote_tip e remote branch i =
     (if is_unsafe_ref_component remote \<or> is_unsafe_ref_component branch
      then failS (BadRef (InvalidRemoteRef (path_join remote branch)))
      else bindS (create_dir_all (path_join REMOTES_DIR remote)) (\<lambda>_. write_file (remote_ref_path remote branch) (id_to_hex e i @ [nl])))"

definition resolve_tip :: "ext \<Rightarrow> string \<Rightarrow> sc_dir \<Rightarrow> repo_error + object_id option" where
  "resolve_tip e name d =
     (case cut_once (CHR ''/'') name of
        Some (remote, branch) \<Rightarrow>
          if is_unsafe_ref_component remote \<or> is_unsafe_ref_component branch then Inl (BadRef (InvalidRemoteRef name))
          else read_remote_tip e remote branch d
      | None \<Rightarrow> read_branch_tip e name d)"

definition head_tip :: "ext \<Rightarrow> sc_dir \<Rightarrow> repo_error + object_id option" where
  "head_tip e d = bindE (current_branch d) (\<lambda>b. read_branch_tip e b d)"

definition delete_branch :: "string \<Rightarrow> unit dir_op" where
  "delete_branch name d =
     bindS (liftE (validate_branch_name name)) (\<lambda>_.
     bindS (liftE (current_branch d)) (\<lambda>cur d.
       if cur = name then (Inl (InvalidArgument (''refusing to delete the current branch: '' @ name)), d)
       else if map_of (fs_files d) (ref_path name) = None then (Inl (NoSuchBranch name), d)
       else remove_if_exists (ref_path name) d)) d"

section \<open>Listing refs\<close>

text \<open>The files directly in a directory, and the directories directly in it.\<close>

definition files_in :: "string \<Rightarrow> sc_dir \<Rightarrow> (string \<times> bytes) list" where
  "files_in dir d = List.map_filter (\<lambda>(p, b). case strip_prefix (dir @ ''/'') p of
     Some name \<Rightarrow> if CHR ''/'' \<in> set name then None else Some (name, b) | None \<Rightarrow> None) (fs_files d)"

definition dirs_in :: "string \<Rightarrow> sc_dir \<Rightarrow> string list" where
  "dirs_in dir d = List.map_filter (\<lambda>p. case strip_prefix (dir @ ''/'') p of
     Some name \<Rightarrow> if name = [] \<or> CHR ''/'' \<in> set name then None else Some name | None \<Rightarrow> None) (fs_dirs d)"

definition is_tmp_name :: "string \<Rightarrow> bool" where
  "is_tmp_name name \<longleftrightarrow> occurs_any [''.tmp''] name"

fun list_ids :: "ext \<Rightarrow> (string \<Rightarrow> repo_error) \<Rightarrow> (string \<times> bytes) list \<Rightarrow> repo_error + (string \<times> object_id) list" where
  "list_ids e err [] = Inr []"
| "list_ids e err ((name, b) # fs) =
     (if is_tmp_name name then list_ids e err fs
      else case from_utf8 b of
        None \<Rightarrow> Inl (RIo OtherIo)
      | Some text \<Rightarrow> bindE (parse_ref e (\<lambda>_. err name) text) (\<lambda>i. bindE (list_ids e err fs) (\<lambda>rest. Inr ((name, i) # rest))))"

definition list_heads :: "ext \<Rightarrow> sc_dir \<Rightarrow> repo_error + (string \<times> object_id) list" where
  "list_heads e d = list_ids e (\<lambda>name. BadRef (HeadHasBadId name)) (files_in HEADS_DIR d)"

fun list_remotes :: "ext \<Rightarrow> sc_dir \<Rightarrow> string list \<Rightarrow> repo_error + (string \<times> string \<times> object_id) list" where
  "list_remotes e d [] = Inr []"
| "list_remotes e d (remote # rs) =
     bindE (list_ids e (\<lambda>branch. BadRef (RemoteRefHasBadId remote branch)) (files_in (path_join REMOTES_DIR remote) d)) (\<lambda>bs.
     bindE (list_remotes e d rs) (\<lambda>rest. Inr (map (\<lambda>(b, i). (remote, b, i)) bs @ rest)))"

definition list_remote_tips :: "ext \<Rightarrow> sc_dir \<Rightarrow> repo_error + (string \<times> string \<times> object_id) list" where
  "list_remote_tips e d = list_remotes e d (dirs_in REMOTES_DIR d)"

end
