(* ===== verification/Oplog.thy ===== *)
theory Oplog
  imports Refs
begin

text \<open>
  The operation log (\<^verbatim>\<open>crates/repo/src/oplog.rs\<close>): the text of a record, the parser that stops at the
  first malformed block, appending after a torn tail, trimming, and the ids that garbage collection keeps.
\<close>

section \<open>Records\<close>

type_synonym ref_change = "string \<times> object_id option \<times> object_id option"

record op_record =
  op_seq :: nat
  op_ts :: int
  op_desc :: string
  op_head_before :: string
  op_head_after :: string
  op_refs :: "ref_change list"

definition OPLOG :: string where "OPLOG = ''oplog''"

definition token :: "ext \<Rightarrow> object_id option \<Rightarrow> string" where
  "token e t = (case t of Some i \<Rightarrow> id_to_hex e i | None \<Rightarrow> ''-'')"

text \<open>\<open>None\<close> for a token that is no id, \<open>Some None\<close> for an absent one.\<close>

definition parse_token :: "ext \<Rightarrow> string \<Rightarrow> object_id option option" where
  "parse_token e s = (if s = ''-'' then Some None else case id_from_str e s of Inr i \<Rightarrow> Some (Some i) | Inl _ \<Rightarrow> None)"

definition one_line :: "string \<Rightarrow> string" where
  "one_line desc = map (\<lambda>c. if c = nl \<or> c = cr then CHR '' '' else c) desc"

definition ref_line :: "ext \<Rightarrow> ref_change \<Rightarrow> string" where
  "ref_line e r = (case r of (name, before, after) \<Rightarrow> ''ref '' @ name @ '' '' @ token e before @ '' '' @ token e after)"

definition record_lines :: "ext \<Rightarrow> op_record \<Rightarrow> string list" where
  "record_lines e r =
     [''op '' @ show_nat (op_seq r), ''ts '' @ show_int (op_ts r), ''desc '' @ one_line (op_desc r),
      ''head '' @ op_head_before r @ '' '' @ op_head_after r] @ map (ref_line e) (op_refs r) @ [''end'']"

definition serialize :: "ext \<Rightarrow> op_record \<Rightarrow> string" where
  "serialize e r = unlines (record_lines e r)"

section \<open>Parsing\<close>

text \<open>The \<^verbatim>\<open>ref\<close> lines of a block and the lines after them; \<open>None\<close>: a \<^verbatim>\<open>ref\<close> line is malformed.\<close>

fun parse_refs :: "ext \<Rightarrow> string list \<Rightarrow> (ref_change list \<times> string list) option" where
  "parse_refs e [] = Some ([], [])"
| "parse_refs e (l # ls) =
     (case strip_prefix ''ref '' l of
        None \<Rightarrow> Some ([], l # ls)
      | Some rest \<Rightarrow>
          (case splitn 3 (CHR '' '') rest of
             [name, b, a] \<Rightarrow>
               (case (parse_token e b, parse_token e a) of
                  (Some before, Some after) \<Rightarrow> map_option (\<lambda>(rs, ls). ((name, before, after) # rs, ls)) (parse_refs e ls)
                | _ \<Rightarrow> None)
           | _ \<Rightarrow> None))"

definition parse_field :: "string \<Rightarrow> string list \<Rightarrow> (string \<times> string list) option" where
  "parse_field key ls = (case ls of [] \<Rightarrow> None | l # rest \<Rightarrow> map_option (\<lambda>v. (v, rest)) (strip_prefix key l))"

definition expect_end :: "string list \<Rightarrow> string list option" where
  "expect_end ls = (case ls of [] \<Rightarrow> None | l # rest \<Rightarrow> if l = ''end'' then Some rest else None)"

definition parse_block :: "ext \<Rightarrow> string list \<Rightarrow> (op_record \<times> string list) option" where
  "parse_block e ls =
     Option.bind (parse_field ''op '' ls) (\<lambda>(s, ls).
     Option.bind (parse_u64 (trim s)) (\<lambda>seq.
     Option.bind (parse_field ''ts '' ls) (\<lambda>(t, ls).
     Option.bind (parse_i64 (trim t)) (\<lambda>ts.
     Option.bind (parse_field ''desc '' ls) (\<lambda>(desc, ls).
     Option.bind (parse_field ''head '' ls) (\<lambda>(h, ls).
     Option.bind (cut_once (CHR '' '') h) (\<lambda>(before, after).
     Option.bind (parse_refs e ls) (\<lambda>(rs, ls).
     Option.bind (expect_end ls) (\<lambda>ls.
       Some (\<lparr>op_seq = seq, op_ts = ts, op_desc = desc, op_head_before = before, op_head_after = after, op_refs = rs\<rparr>, ls))))))))))"

text \<open>The lines of the log: here a carriage return is removed also where no newline follows.\<close>

definition log_line :: "string \<Rightarrow> string" where
  "log_line raw = strip_suffix cr (strip_suffix nl raw)"

lemma parse_refs_shorter: "parse_refs e ls = Some (rs, rest) \<Longrightarrow> length rest \<le> length ls"
proof (induction e ls arbitrary: rs rest rule: parse_refs.induct)
  case (2 e l ls)
  then show ?case by (fastforce split: option.splits list.splits)
qed simp

lemma parse_field_shorter: "parse_field key ls = Some (v, rest) \<Longrightarrow> length rest < length ls"
  by (auto simp: parse_field_def split: list.splits)

lemma expect_end_Some: "expect_end ls = Some rest \<longleftrightarrow> ls = ''end'' # rest"
  by (auto simp: expect_end_def split: list.splits)

lemma parse_block_SomeD:
  assumes "parse_block e ls = Some (r, rest)"
  obtains s t d h rs l1 l2 l3 l4 where "parse_field ''op '' ls = Some (s, l1)" "parse_field ''ts '' l1 = Some (t, l2)"
    "parse_field ''desc '' l2 = Some (d, l3)" "parse_field ''head '' l3 = Some (h, l4)" "parse_refs e l4 = Some (rs, ''end'' # rest)"
    "parse_u64 (trim s) = Some (op_seq r)" "parse_i64 (trim t) = Some (op_ts r)" "op_desc r = d"
    "cut_once (CHR '' '') h = Some (op_head_before r, op_head_after r)" "op_refs r = rs"
  using assms by (auto simp: parse_block_def bind_eq_Some_conv expect_end_Some)

lemma parse_block_shorter: "parse_block e ls = Some (r, rest) \<Longrightarrow> length rest < length ls"
proof (erule parse_block_SomeD)
  fix s t d h rs l1 l2 l3 l4
  assume f: "parse_field ''op '' ls = Some (s, l1)" "parse_field ''ts '' l1 = Some (t, l2)" "parse_field ''desc '' l2 = Some (d, l3)"
    "parse_field ''head '' l3 = Some (h, l4)" "parse_refs e l4 = Some (rs, ''end'' # rest)"
  then show "length rest < length ls"
    using parse_field_shorter [OF f(1)] parse_field_shorter [OF f(2)] parse_field_shorter [OF f(3)] parse_field_shorter [OF f(4)]
      parse_refs_shorter [OF f(5)] by simp
qed

function parse_blocks :: "ext \<Rightarrow> string list \<Rightarrow> op_record list \<times> string list" where
  "parse_blocks e ls =
     (case parse_block e ls of
        None \<Rightarrow> ([], ls)
      | Some (r, rest) \<Rightarrow> (case parse_blocks e rest of (rs, tail) \<Rightarrow> (r # rs, tail)))"
  by pat_completeness auto
termination
  by (relation "measure (\<lambda>(e, ls). length ls)") (auto dest: parse_block_shorter)

declare parse_blocks.simps [simp del]

text \<open>The records and the number of bytes they take: the raw lines in front of those left over.\<close>

definition parse_contents :: "ext \<Rightarrow> string \<Rightarrow> op_record list \<times> nat" where
  "parse_contents e contents =
     (let raw = split_inclusive contents; (rs, tail) = parse_blocks e (map log_line raw)
      in (rs, length (concat (take (length raw - length tail) raw))))"

section \<open>The log file\<close>

definition read_all :: "ext \<Rightarrow> sc_dir \<Rightarrow> repo_error + op_record list" where
  "read_all e d = bindE (read_text OPLOG d) (\<lambda>t. case t of
     None \<Rightarrow> Inr [] | Some contents \<Rightarrow> Inr (fst (parse_contents e contents)))"

definition last_record :: "ext \<Rightarrow> sc_dir \<Rightarrow> repo_error + op_record option" where
  "last_record e d = bindE (read_all e d) (\<lambda>rs. Inr (if rs = [] then None else Some (last rs)))"

definition next_seq :: "op_record list \<Rightarrow> nat" where
  "next_seq existing = (if existing = [] then 1 else (op_seq (last existing) + 1) mod 2 ^ 64)"

text \<open>\<open>now\<close> is the clock. The file is cut back to its last record before the block is appended; the \<^verbatim>\<open>u64\<close> counter wraps.\<close>

definition record_op :: "ext \<Rightarrow> int \<Rightarrow> string \<Rightarrow> string \<Rightarrow> string \<Rightarrow> ref_change list \<Rightarrow> unit dir_op" where
  "record_op e now desc head_before head_after refs d =
     (case List.find (\<lambda>(name, _). spaced name) refs of
        Some (name, _) \<Rightarrow> (Inl (InvalidArgument (''ref name contains whitespace/control characters: '' @ name)), d)
      | None \<Rightarrow>
          (case read_text OPLOG d of
             Inl err \<Rightarrow> (Inl err, d)
           | Inr t \<Rightarrow>
               let contents = (case t of None \<Rightarrow> [] | Some s \<Rightarrow> s);
                   (existing, consumed) = parse_contents e contents;
                   kept = (if consumed < length contents then take consumed contents else contents)
               in (Inr (), set_file OPLOG (kept @ serialize e \<lparr>op_seq = next_seq existing, op_ts = now, op_desc = desc,
                    op_head_before = head_before, op_head_after = head_after, op_refs = refs\<rparr>) d)))"

definition trim_older_than :: "ext \<Rightarrow> int \<Rightarrow> nat dir_op" where
  "trim_older_than e cutoff d =
     (case read_all e d of
        Inl err \<Rightarrow> (Inl err, d)
      | Inr all' \<Rightarrow>
          if all' = [] then (Inr 0, d)
          else let newest_seq = op_seq (last all');
                   kept = filter (\<lambda>r. op_ts r \<ge> cutoff \<or> op_seq r = newest_seq) all';
                   dropped = length all' - length kept
               in (Inr dropped, if dropped > 0 then set_file OPLOG (concat (map (serialize e) kept)) d else d))"

definition referenced_ids :: "ext \<Rightarrow> sc_dir \<Rightarrow> repo_error + object_id list" where
  "referenced_ids e d = bindE (read_all e d) (\<lambda>rs.
     Inr (List.map_filter (\<lambda>t. t) (concat (map (\<lambda>r. concat (map (\<lambda>(_, before, after). [before, after]) (op_refs r))) rs))))"

end
