(* ===== verification/Refs_Correct.thy ===== *)
theory Refs_Correct
  imports Refs Store_Correct
begin

text \<open>
  Refs read back: what a written ref file holds, what a write leaves alone, and what the listings find.
\<close>

section \<open>Text files\<close>

text \<open>What \<^verbatim>\<open>hex::encode\<close> writes is visible ASCII.\<close>

definition hex_plain :: "ext \<Rightarrow> bool" where
  "hex_plain e \<longleftrightarrow> (\<forall>b. list_all graphic (hex_encode e b))"

definition file_of :: "sc_dir \<Rightarrow> string \<rightharpoonup> bytes" where
  "file_of d = map_of (fs_files d)"

lemma file_of_write: "write_file p text d = (Inr (), d') \<Longrightarrow> file_of d' = (file_of d)(p \<mapsto> str_bytes text) \<and> fs_dirs d' = fs_dirs d"
  by (auto simp: write_file_def file_of_def update_conv_fun split: if_splits)

lemma read_text_file: "read_text p d = (case file_of d p of None \<Rightarrow> Inr None
    | Some b \<Rightarrow> (case from_utf8 b of None \<Rightarrow> Inl (RIo OtherIo) | Some s \<Rightarrow> Inr (Some s)))"
  by (simp add: read_text_def file_of_def)

lemma file_of_simps [simp]:
  "file_of (snd (create_dir_all p d)) = file_of d"
  "file_of (snd (remove_if_exists p d)) = (file_of d)(p := None)"
  "fst (create_dir_all p d) = Inr ()" "fst (remove_if_exists p d) = Inr ()"
  by (simp_all add: create_dir_all_def remove_if_exists_def file_of_def delete_conv_fun)

text \<open>A line with an id, as every writer of an id makes it.\<close>

definition id_line :: "ext \<Rightarrow> object_id \<Rightarrow> string" where
  "id_line e i = id_to_hex e i @ [nl]"

lemma id_hex_graphic: "hex_plain e \<Longrightarrow> list_all graphic (id_to_hex e i)"
  by (simp add: hex_plain_def id_to_hex_def)

lemma parse_ref_id_line: "hex_ok e \<Longrightarrow> hex_plain e \<Longrightarrow> id_ok i \<Longrightarrow> parse_ref e err (id_line e i) = Inr i"
  using trim_line [OF id_hex_graphic [of e i]] by (simp add: parse_ref_def id_line_def nl_def id_from_str_to_hex)

lemma id_line_valid: "hex_plain e \<Longrightarrow> from_utf8 (str_bytes (id_line e i)) = Some (id_line e i)"
  using str_ok_graphic [OF id_hex_graphic [of e i]] by (intro from_utf8_str_bytes) (simp add: id_line_def str_ok_append str_ok_nl)

lemma read_id_line:
  "hex_ok e \<Longrightarrow> hex_plain e \<Longrightarrow> id_ok i \<Longrightarrow> file_of d p = Some (str_bytes (id_line e i)) \<Longrightarrow> read_id_file e err p d = Inr (Some i)"
  by (simp add: read_id_file_def read_text_file id_line_valid parse_ref_id_line)

lemma read_id_cong: "file_of d' p = file_of d p \<Longrightarrow> read_id_file e err p d' = read_id_file e err p d"
  by (simp add: read_id_file_def read_text_file)

section \<open>Paths\<close>

lemma split_HEADS: "split_on (CHR ''/'') HEADS_DIR = [''refs'', ''heads'']"
  by (simp add: HEADS_DIR_def)

lemma HEADS_in_ancestors: "HEADS_DIR \<in> set (ancestors_of HEADS_DIR)"
  unfolding ancestors_of_def Let_def split_HEADS by (simp add: HEADS_DIR_def)

lemma split_on_snoc: "c \<notin> set w \<Longrightarrow> split_on c (s @ c # w) = split_on c s @ [w]"
proof (induction s)
  case Nil
  then show ?case using split_on_append [of c "[]" w] by (simp add: split_on_word)
next
  case (Cons d s)
  then show ?case by (cases "split_on c s") (auto split: list.splits)
qed

lemma parent_of_join: "CHR ''/'' \<notin> set name \<Longrightarrow> parent_dir (path_join dir name) = dir"
  by (simp add: parent_dir_def split_on_snoc join_split)

lemma ref_path_inj: "ref_path a = ref_path b \<longleftrightarrow> a = b"
  by (simp add: ref_path_def)

lemma branch_name_slash: "branch_name_ok b \<Longrightarrow> CHR ''/'' \<notin> set b"
  by (simp add: branch_name_ok_def)

section \<open>Branch tips\<close>

lemma write_branch_ok:
  assumes "branch_name_ok b"
  obtains d' where "write_branch_tip e b i d = (Inr (), d')" "file_of d' = (file_of d)(ref_path b \<mapsto> str_bytes (id_line e i))"
    "fs_files d' = AList.update (ref_path b) (str_bytes (id_line e i)) (fs_files d)"
proof -
  define d1 where "d1 = d\<lparr>fs_dirs := List.union (ancestors_of HEADS_DIR) (fs_dirs d)\<rparr>"
  have c: "create_dir_all HEADS_DIR d = (Inr (), d1)" "fs_files d1 = fs_files d" "HEADS_DIR \<in> set (fs_dirs d1)"
    using HEADS_in_ancestors by (simp_all add: create_dir_all_def d1_def)
  have "parent_dir (ref_path b) = HEADS_DIR" using parent_of_join [OF branch_name_slash [OF assms]] by (simp add: ref_path_def)
  with c obtain d' where d': "write_file (ref_path b) (id_line e i) d1 = (Inr (), d')"
    "fs_files d' = AList.update (ref_path b) (str_bytes (id_line e i)) (fs_files d)"
    by (simp add: write_file_def)
  have "write_branch_tip e b i d = (Inr (), d')"
    using d'(1) c(1) assms by (simp add: write_branch_tip_def validate_branch_name_def bindS_def id_line_def)
  with d' that file_of_write [OF d'(1)] c(2) show thesis by (simp add: file_of_def)
qed

lemma write_branch_refused: "\<not> branch_name_ok b \<Longrightarrow> write_branch_tip e b i d = (Inl (BadRef (InvalidBranchName b)), d)"
  by (simp add: write_branch_tip_def validate_branch_name_def bindS_def)

lemma read_branch_cong:
  assumes "file_of d' (ref_path b) = file_of d (ref_path b)"
  shows "read_branch_tip e b d' = read_branch_tip e b d"
  unfolding read_branch_tip_def read_id_cong [OF assms] ..

section \<open>Listings\<close>

text \<open>The id in a file; a listing succeeds if every file it does not skip has one.\<close>

definition file_id :: "ext \<Rightarrow> bytes \<Rightarrow> object_id option" where
  "file_id e b = (case from_utf8 b of None \<Rightarrow> None
     | Some text \<Rightarrow> (case id_from_str e (trim text) of Inl _ \<Rightarrow> None | Inr i \<Rightarrow> Some i))"

definition listed :: "ext \<Rightarrow> (string \<times> bytes) list \<Rightarrow> (string \<times> object_id) list" where
  "listed e fs = List.map_filter (\<lambda>(n, b). if is_tmp_name n then None else map_option (Pair n) (file_id e b)) fs"

definition listable :: "ext \<Rightarrow> (string \<times> bytes) list \<Rightarrow> bool" where
  "listable e fs \<longleftrightarrow> list_all (\<lambda>(n, b). is_tmp_name n \<or> file_id e b \<noteq> None) fs"

lemma list_ids_cases: "(listable e fs \<and> list_ids e err fs = Inr (listed e fs)) \<or> (\<not> listable e fs \<and> isErr (list_ids e err fs))"
proof (induction fs)
  case Nil
  then show ?case by (simp add: listable_def listed_def)
next
  case (Cons x fs)
  obtain n b where x: "x = (n, b)" by (cases x)
  consider "is_tmp_name n" | "\<not> is_tmp_name n" "file_id e b = None" | i where "\<not> is_tmp_name n" "file_id e b = Some i" by blast
  then show ?case
  proof cases
    case 1
    with Cons x show ?thesis by (simp add: listable_def listed_def)
  next
    case 2
    with x show ?thesis by (auto simp: listable_def file_id_def parse_ref_def isErr_bindE split: option.splits sum.splits)
  next
    case (3 i)
    then have s: "list_ids e err (x # fs) = bindE (list_ids e err fs) (\<lambda>rest. Inr ((n, i) # rest))"
      using x by (auto simp: file_id_def parse_ref_def split: option.splits sum.splits)
    show ?thesis using Cons 3 x unfolding s by (auto simp: listable_def listed_def isErr_bindE)
  qed
qed

lemma list_ids_Inr: "list_ids e err fs = Inr rs \<longleftrightarrow> listable e fs \<and> rs = listed e fs"
  using list_ids_cases [of e fs err] by auto

lemma listed_mem: "(n, i) \<in> set (listed e fs) \<longleftrightarrow> (\<exists>b. (n, b) \<in> set fs \<and> \<not> is_tmp_name n \<and> file_id e b = Some i)"
  by (force simp: listed_def mem_map_filter split: if_splits)

lemma files_in_mem: "(n, b) \<in> set (files_in dir d) \<longleftrightarrow> (path_join dir n, b) \<in> set (fs_files d) \<and> CHR ''/'' \<notin> set n"
proof
  assume "(n, b) \<in> set (files_in dir d)"
  then obtain p where "(p, b) \<in> set (fs_files d)" "strip_prefix (dir @ ''/'') p = Some n" "CHR ''/'' \<notin> set n"
    by (auto simp: files_in_def mem_map_filter split: option.split_asm if_split_asm)
  then show "(path_join dir n, b) \<in> set (fs_files d) \<and> CHR ''/'' \<notin> set n" by (auto dest!: strip_prefix_SomeD)
next
  assume a: "(path_join dir n, b) \<in> set (fs_files d) \<and> CHR ''/'' \<notin> set n"
  with strip_prefix_append [of "dir @ ''/''" n] show "(n, b) \<in> set (files_in dir d)"
    by (auto simp: files_in_def mem_map_filter intro!: bexI [of _ "(path_join dir n, b)"])
qed

lemma set_update: "distinct (map fst al) \<Longrightarrow> set (AList.update k v al) = insert (k, v) {(p, b) \<in> set al. p \<noteq> k}"
proof (induction al)
  case (Cons x al)
  obtain p b where x: "x = (p, b)" by (cases x)
  with Cons show ?case by (cases "p = k") (auto simp: rev_image_eqI)
qed simp

lemma heads_after_write:
  assumes "hex_ok e" "hex_plain e" "id_ok i" "branch_name_ok b" "distinct (map fst (fs_files d))"
    and "list_heads e d = Inr hs" "write_branch_tip e b i d = (Inr (), d')"
  shows "\<exists>hs'. list_heads e d' = Inr hs' \<and> set hs' = (if is_tmp_name b then set hs else insert (b, i) {(c, j) \<in> set hs. c \<noteq> b})"
proof -
  have files: "fs_files d' = AList.update (ref_path b) (str_bytes (id_line e i)) (fs_files d)"
    using write_branch_ok [OF assms(4), of e i d] assms(7) by auto
  have mem: "(n, x) \<in> set (files_in HEADS_DIR d') \<longleftrightarrow> (n, x) = (b, str_bytes (id_line e i)) \<or> (n, x) \<in> set (files_in HEADS_DIR d) \<and> n \<noteq> b" for n x
    using branch_name_slash [OF assms(4)] unfolding files_in_mem files set_update [OF assms(5)] by (auto simp: ref_path_def)
  have fid: "file_id e (str_bytes (id_line e i)) = Some i"
    using parse_ref_id_line [OF assms(1-3), of undefined] id_line_valid [OF assms(2), of i]
    by (auto simp: file_id_def parse_ref_def split: sum.splits)
  have old: "listable e (files_in HEADS_DIR d)" "hs = listed e (files_in HEADS_DIR d)"
    using assms(6) by (simp_all add: list_heads_def list_ids_Inr)
  have "listable e (files_in HEADS_DIR d')"
    using old(1) fid mem by (fastforce simp: listable_def list_all_iff)
  moreover have "set (listed e (files_in HEADS_DIR d')) = (if is_tmp_name b then set hs else insert (b, i) {(c, j) \<in> set hs. c \<noteq> b})"
    using fid mem by (auto simp: old(2) listed_mem)
  ultimately show ?thesis by (simp add: list_heads_def list_ids_Inr)
qed

end
