(* ===== verification/Oplog_Correct.thy ===== *)
theory Oplog_Correct
  imports Oplog Refs_Correct
begin

text \<open>
  The text of the operation log: a record comes back from its block, a log from its blocks, whatever
  bytes follow them; appending keeps what was there if the file ends in a newline.
\<close>

section \<open>Plain fields\<close>

lemma graphic_plain: "list_all graphic s \<Longrightarrow> CHR '' '' \<notin> set s \<and> nl \<notin> set s \<and> cr \<notin> set s"
  by (auto simp: list_all_iff graphic_def nl_def cr_def)

lemma plain_lineI: "nl \<notin> set l \<Longrightarrow> cr \<notin> set l \<Longrightarrow> plain_line l"
  unfolding plain_line_def using last_in_set by metis

lemma graphic_line: "list_all graphic s \<Longrightarrow> plain_line s"
  using graphic_plain [of s] by (intro plain_lineI) simp_all

lemma spaced_chars: "\<not> spaced s \<Longrightarrow> CHR '' '' \<notin> set s \<and> nl \<notin> set s \<and> cr \<notin> set s"
proof -
  have "[CHR '' ''] \<in> set white_space" "[nl] \<in> set white_space" "[cr] \<in> set white_space"
    by (simp_all add: white_space_def utf8_of_def nl_def cr_def char_of_eq_iff take_bit_eq_mod eq_commute [of "CHR 0x0A"]
        eq_commute [of "CHR 0x0D"] eq_commute [of "CHR 0x20"])
  then show "\<not> spaced s \<Longrightarrow> CHR '' '' \<notin> set s \<and> nl \<notin> set s \<and> cr \<notin> set s"
    using occurs_any_single [of _ white_space s] by (auto simp: spaced_def)
qed

lemma plain_line_append: "nl \<notin> set a \<Longrightarrow> cr \<notin> set a \<Longrightarrow> plain_line b \<Longrightarrow> plain_line (a @ b)"
  unfolding plain_line_def by (metis Un_iff append_Nil2 last_appendR last_in_set set_append)

section \<open>Tokens\<close>

definition token_ok :: "object_id option \<Rightarrow> bool" where
  "token_ok t \<longleftrightarrow> (\<forall>i. t = Some i \<longrightarrow> id_ok i)"

lemma token_graphic: "hex_plain e \<Longrightarrow> list_all graphic (token e t)"
  by (auto simp: token_def hex_plain_def id_to_hex_def graphic_def split: option.splits)

lemma parse_token_token: "hex_ok e \<Longrightarrow> token_ok t \<Longrightarrow> parse_token e (token e t) = Some t"
proof (cases t)
  case (Some i)
  assume a: "hex_ok e" "token_ok t"
  with Some have "length (id_to_hex e i) = 64" by (simp add: id_to_hex_def hex_ok_def token_ok_def id_ok_def)
  then have "id_to_hex e i \<noteq> ''-''" by auto
  with a Some show ?thesis by (simp add: token_def parse_token_def token_ok_def id_from_str_to_hex)
qed (simp add: token_def parse_token_def)

section \<open>Blocks\<close>

definition change_ok :: "ref_change \<Rightarrow> bool" where
  "change_ok r \<longleftrightarrow> (case r of (name, before, after) \<Rightarrow> \<not> spaced name \<and> str_ok name \<and> token_ok before \<and> token_ok after)"

definition record_ok :: "op_record \<Rightarrow> bool" where
  "record_ok r \<longleftrightarrow> op_seq r < 2 ^ 64 \<and> - (2 ^ 63) \<le> op_ts r \<and> op_ts r < 2 ^ 63 \<and> str_ok (op_desc r)
     \<and> \<not> spaced (op_head_before r) \<and> \<not> spaced (op_head_after r) \<and> str_ok (op_head_before r) \<and> str_ok (op_head_after r)
     \<and> list_all change_ok (op_refs r)"

text \<open>What the log keeps of a record: its description on one line.\<close>

definition logged :: "op_record \<Rightarrow> op_record" where
  "logged r = r\<lparr>op_desc := one_line (op_desc r)\<rparr>"

lemma one_line_plain: "plain_line (one_line s)"
  by (rule plain_lineI) (auto simp: one_line_def nl_def cr_def)

lemma one_line_idem [simp]: "one_line (one_line s) = one_line s"
  by (simp add: one_line_def nl_def cr_def)

lemma logged_idem [simp]: "logged (logged r) = logged r" "serialize e (logged r) = serialize e r"
  by (simp_all add: logged_def serialize_def record_lines_def)

lemma parse_refs_lines:
  assumes "hex_ok e" "hex_plain e" "strip_prefix ''ref '' l = None"
  shows "list_all change_ok rs \<Longrightarrow> parse_refs e (map (ref_line e) rs @ l # ls) = Some (rs, l # ls)"
proof (induction rs)
  case Nil
  then show ?case using assms(3) by simp
next
  case (Cons r rs)
  obtain name b a where r: "r = (name, b, a)" by (cases r)
  have c: "CHR '' '' \<notin> set name" "token_ok b" "token_ok a" using Cons.prems r spaced_chars by (auto simp: change_ok_def)
  have g: "CHR '' '' \<notin> set (token e b)" using graphic_plain [OF token_graphic [OF assms(2), of b]] by simp
  have "splitn 3 (CHR '' '') (name @ CHR '' '' # token e b @ CHR '' '' # token e a) = [name, token e b, token e a]"
    by (simp add: numeral_3_eq_3 cut_once_append [OF c(1)] cut_once_append [OF g])
  with c Cons r show ?case by (simp add: ref_line_def parse_token_token [OF assms(1)] split: option.splits)
qed

lemma parse_block_lines:
  assumes "hex_ok e" "hex_plain e" "record_ok r"
  shows "parse_block e (record_lines e r @ rest) = Some (logged r, rest)"
proof -
  have t: "trim (show_nat n) = show_nat n" "trim (show_int i) = show_int i" for n i
    using show_nat_graphic [of n] show_int_graphic [of i] show_nat_nonempty [of n]
    by (simp_all add: trim_def trim_start_graphic trim_end_graphic show_int_def list_all_iff)
  have h: "cut_once (CHR '' '') (op_head_before r @ CHR '' '' # op_head_after r) = Some (op_head_before r, op_head_after r)"
    using assms(3) spaced_chars by (intro cut_once_append) (auto simp: record_ok_def)
  have "parse_refs e (map (ref_line e) (op_refs r) @ ''end'' # rest) = Some (op_refs r, ''end'' # rest)"
    using assms by (intro parse_refs_lines) (auto simp: record_ok_def)
  with h assms(3) show ?thesis
    by (simp add: parse_block_def record_lines_def parse_field_def t parse_u64_show parse_i64_show expect_end_def logged_def record_ok_def)
qed

lemma record_lines_plain: "hex_plain e \<Longrightarrow> record_ok r \<Longrightarrow> list_all plain_line (record_lines e r)"
proof -
  assume a: "hex_plain e" "record_ok r"
  have "plain_line (''op '' @ show_nat (op_seq r))" "plain_line (''ts '' @ show_int (op_ts r))"
    by (rule plain_line_append; use graphic_line [OF show_nat_graphic] graphic_line [OF show_int_graphic] in \<open>simp add: nl_def cr_def\<close>)+
  moreover have "plain_line (''desc '' @ one_line (op_desc r))"
    by (rule plain_line_append) (simp_all add: one_line_plain, simp_all add: nl_def cr_def)
  moreover have "plain_line (''head '' @ op_head_before r @ '' '' @ op_head_after r)"
    using a(2) spaced_chars [of "op_head_before r"] spaced_chars [of "op_head_after r"]
    by (intro plain_lineI) (auto simp: record_ok_def nl_def cr_def)
  moreover have "plain_line (ref_line e c)" if "c \<in> set (op_refs r)" for c
  proof -
    obtain name b a' where c: "c = (name, b, a')" by (cases c)
    with that a(2) spaced_chars [of name] have "nl \<notin> set name" "cr \<notin> set name"
      by (auto simp: record_ok_def list_all_iff change_ok_def)
    with graphic_plain [OF token_graphic [OF a(1), of b]] graphic_plain [OF token_graphic [OF a(1), of a']] c
    show ?thesis by (intro plain_lineI) (auto simp: ref_line_def nl_def cr_def)
  qed
  moreover have "plain_line ''end''" by (simp add: plain_line_def nl_def cr_def)
  ultimately show ?thesis by (simp add: record_lines_def list_all_iff)
qed

section \<open>Logs\<close>

lemma log_line_plain: "plain_line l \<Longrightarrow> log_line (l @ [nl]) = l"
  by (auto simp: log_line_def strip_suffix_def plain_line_def)

lemma serialize_lines:
  assumes "hex_plain e" "record_ok r"
  shows "split_inclusive (serialize e r @ s) = map (\<lambda>l. l @ [nl]) (record_lines e r) @ split_inclusive s"
    and "map log_line (split_inclusive (serialize e r @ s)) = record_lines e r @ map log_line (split_inclusive s)"
proof -
  have p: "list_all plain_line (record_lines e r)" by (rule record_lines_plain [OF assms])
  then show sp: "split_inclusive (serialize e r @ s) = map (\<lambda>l. l @ [nl]) (record_lines e r) @ split_inclusive s"
    unfolding serialize_def by (intro split_inclusive_unlines) (auto simp: list_all_iff plain_line_def)
  show "map log_line (split_inclusive (serialize e r @ s)) = record_lines e r @ map log_line (split_inclusive s)"
    unfolding sp using p by (auto simp: list_all_iff log_line_plain map_idI)
qed

text \<open>Blocks in front of other text are read, and the text behind them is read on its own.\<close>

lemma parse_blocks_serialize:
  assumes "hex_ok e" "hex_plain e"
  shows "list_all record_ok rs \<Longrightarrow> parse_blocks e (map log_line (split_inclusive (concat (map (serialize e) rs) @ s)))
    = (case parse_blocks e (map log_line (split_inclusive s)) of (rs', tail) \<Rightarrow> (map logged rs @ rs', tail))"
proof (induction rs)
  case (Cons r rs)
  have "map log_line (split_inclusive (concat (map (serialize e) (r # rs)) @ s))
      = record_lines e r @ map log_line (split_inclusive (concat (map (serialize e) rs) @ s))"
    using serialize_lines(2) [OF assms(2), of r] Cons.prems by simp
  with parse_block_lines [OF assms, of r] Cons show ?case
    by (subst parse_blocks.simps) (auto split: prod.splits)
qed (simp split: prod.splits)

lemma parse_blocks_Nil [simp]: "parse_blocks e [] = ([], [])"
  by (simp add: parse_blocks.simps parse_block_def parse_field_def)

lemma parse_contents_serialize:
  assumes "hex_ok e" "hex_plain e" "list_all record_ok rs"
  shows "parse_contents e (concat (map (serialize e) rs)) = (map logged rs, length (concat (map (serialize e) rs)))"
  using parse_blocks_serialize [OF assms, of "[]"] by (simp add: parse_contents_def Let_def)

section \<open>Appending\<close>

text \<open>A parser reads no further than it has to: what follows the lines it took is arbitrary.\<close>

lemma parse_refs_front:
  "parse_refs e ls = Some (rs, ''end'' # rest) \<Longrightarrow>
   \<exists>front. ls = front @ ''end'' # rest \<and> (\<forall>more. parse_refs e (front @ ''end'' # more) = Some (rs, ''end'' # more))"
proof (induction ls arbitrary: rs)
  case (Cons l ls)
  show ?case
  proof (cases "strip_prefix ''ref '' l")
    case None
    with Cons.prems show ?thesis by (intro exI [of _ "[]"]) auto
  next
    case (Some f)
    with Cons.prems obtain name b a before after rs' where f: "splitn 3 (CHR '' '') f = [name, b, a]"
      "parse_token e b = Some before" "parse_token e a = Some after" "parse_refs e ls = Some (rs', ''end'' # rest)"
      "rs = (name, before, after) # rs'"
      by (auto split: list.split_asm option.split_asm)
    from Cons.IH [OF f(4)] obtain front where "ls = front @ ''end'' # rest"
      "\<And>more. parse_refs e (front @ ''end'' # more) = Some (rs', ''end'' # more)" by blast
    with Some f show ?thesis by (intro exI [of _ "l # front"]) simp
  qed
qed simp

lemma parse_field_front: "parse_field key ls = Some (v, rest) \<Longrightarrow> ls = (key @ v) # rest"
  by (auto simp: parse_field_def dest: strip_prefix_SomeD split: list.split_asm)

lemma parse_block_front:
  assumes "parse_block e ls = Some (r, rest)"
  shows "\<exists>front. ls = front @ rest \<and> (\<forall>more. parse_block e (front @ more) = Some (r, more))"
  using assms
proof (rule parse_block_SomeD)
  fix s t d h rs l1 l2 l3 l4
  assume f: "parse_field ''op '' ls = Some (s, l1)" "parse_field ''ts '' l1 = Some (t, l2)" "parse_field ''desc '' l2 = Some (d, l3)"
    "parse_field ''head '' l3 = Some (h, l4)" and refs: "parse_refs e l4 = Some (rs, ''end'' # rest)"
    and v: "parse_u64 (trim s) = Some (op_seq r)" "parse_i64 (trim t) = Some (op_ts r)" "op_desc r = d"
    "cut_once (CHR '' '') h = Some (op_head_before r, op_head_after r)" "op_refs r = rs"
  obtain front where r: "l4 = front @ ''end'' # rest" "\<And>more. parse_refs e (front @ ''end'' # more) = Some (rs, ''end'' # more)"
    using parse_refs_front [OF refs] by blast
  let ?front = "[''op '' @ s, ''ts '' @ t, ''desc '' @ d, ''head '' @ h] @ front @ [''end'']"
  have "ls = ?front @ rest" using f [THEN parse_field_front] r(1) by simp
  moreover have "parse_block e (?front @ more) = Some (r, more)" for more
    using r(2) [of more] v by (cases r) (simp add: parse_block_def parse_field_def expect_end_def)
  ultimately show ?thesis by blast
qed

lemma parse_blocks_front:
  "parse_blocks e ls = (rs, tail) \<Longrightarrow>
   \<exists>front. ls = front @ tail \<and> (\<forall>more. parse_blocks e (front @ more) = (case parse_blocks e more of (rs', tail') \<Rightarrow> (rs @ rs', tail')))"
proof (induction e ls arbitrary: rs rule: parse_blocks.induct)
  case (1 e ls)
  show ?case
  proof (cases "parse_block e ls")
    case None
    with "1.prems" have "rs = []" "tail = ls" by (simp_all add: parse_blocks.simps [of e ls])
    then show ?thesis by (intro exI [of _ "[]"]) simp
  next
    case (Some x)
    obtain r rest where x: "x = (r, rest)" by (cases x)
    obtain rs0 where rs0: "parse_blocks e rest = (rs0, tail)" "rs = r # rs0"
      using "1.prems" Some x by (auto simp: parse_blocks.simps [of e ls] split: prod.splits)
    obtain f where f: "ls = f @ rest" "\<And>more. parse_block e (f @ more) = Some (r, more)"
      using parse_block_front Some x by blast
    obtain g where g: "rest = g @ tail" "\<And>more. parse_blocks e (g @ more) = (case parse_blocks e more of (rs', tail') \<Rightarrow> (rs0 @ rs', tail'))"
      using "1.IH" [OF Some x [symmetric] rs0(1)] by blast
    have "parse_blocks e ((f @ g) @ more) = (case parse_blocks e more of (rs', tail') \<Rightarrow> (rs @ rs', tail'))" for more
      using f(2) [of "g @ more"] g(2) [of more] rs0(2) by (simp add: parse_blocks.simps [of e "f @ g @ more"] split: prod.splits)
    with f g show ?thesis by (intro exI [of _ "f @ g"]) simp
  qed
qed

lemma split_inclusive_take: "split_inclusive (concat (take n (split_inclusive s))) = take n (split_inclusive s)"
proof (induction s arbitrary: n)
  case (Cons c s)
  show ?case
  proof (cases n)
    case (Suc m)
    show ?thesis
    proof (cases "c = nl")
      case True
      with Cons Suc show ?thesis by simp
    next
      case False
      show ?thesis
      proof (cases "split_inclusive s")
        case Nil
        with False Suc show ?thesis by simp
      next
        case C: (Cons l ls)
        with Cons [of n] Suc False show ?thesis by simp
      qed
    qed
  qed simp
qed simp

text \<open>The bytes kept in front of a torn tail parse to the records that were there, with room for more.\<close>

lemma parse_contents_kept:
  assumes "parse_contents e c = (rs, n)"
  shows "take n c = concat (take (length (split_inclusive c) - length (snd (parse_blocks e (map log_line (split_inclusive c))))) (split_inclusive c))"
    and "take n c = [] \<or> last (take n c) = nl \<Longrightarrow>
      parse_blocks e (map log_line (split_inclusive (take n c @ s))) =
        (case parse_blocks e (map log_line (split_inclusive s)) of (rs', tail) \<Rightarrow> (rs @ rs', tail))"
proof -
  let ?raw = "split_inclusive c"
  obtain tail where p: "parse_blocks e (map log_line ?raw) = (rs, tail)" and n: "n = length (concat (take (length ?raw - length tail) ?raw))"
    using assms by (auto simp: parse_contents_def Let_def split: prod.splits)
  let ?k = "length ?raw - length tail"
  have "c = concat (take ?k ?raw) @ concat (drop ?k ?raw)"
    by (metis append_take_drop_id concat_append concat_split_inclusive)
  with n have kept: "take n c = concat (take ?k ?raw)" by (metis append_eq_conv_conj)
  with p show "take n c = concat (take (length ?raw - length (snd (parse_blocks e (map log_line ?raw)))) ?raw)" by simp
  obtain front where f: "map log_line ?raw = front @ tail"
    "\<And>more. parse_blocks e (front @ more) = (case parse_blocks e more of (rs', tail') \<Rightarrow> (rs @ rs', tail'))"
    using parse_blocks_front [OF p] by blast
  from f(1) have "length ?raw = length front + length tail" by (metis length_append length_map)
  then have front: "map log_line (take ?k ?raw) = front" using arg_cong [OF f(1), of "take ?k"] by (simp add: take_map)
  assume "take n c = [] \<or> last (take n c) = nl"
  from split_inclusive_append [OF this, of s] have "split_inclusive (take n c @ s) = take ?k ?raw @ split_inclusive s"
    by (simp add: kept split_inclusive_take)
  with front f(2) show "parse_blocks e (map log_line (split_inclusive (take n c @ s))) =
      (case parse_blocks e (map log_line (split_inclusive s)) of (rs', tail) \<Rightarrow> (rs @ rs', tail))" by simp
qed

end
