(* ===== verification/Log_Theorems.thy ===== *)
theory Log_Theorems
  imports Oplog_Correct Instances
begin

text \<open>
  The properties of the branch files and of the operation log, each at a concrete input.
\<close>

lemma demo_hex_plain: "hex_plain demo_ext"
proof -
  have "graphic (hex_digit n)" if "n < 16" for n using that by (auto simp: hex_digit_def graphic_def)
  moreover have "unat (x :: u8) div 16 < 16" for x using unat_u8_less [of x] by (simp add: less_mult_imp_div_less)
  ultimately show ?thesis by (auto simp: hex_plain_def demo_ext_def demo_hex_def list_all_iff)
qed

lemma graphic_not_spaced: "list_all graphic s \<Longrightarrow> \<not> spaced s"
  unfolding spaced_def using occurs_any_graphic [of s] white_space_heads white_space_nonempty control_heads by blast

section \<open>Branches\<close>



section \<open>The operation log\<close>

definition log_text :: "sc_dir \<Rightarrow> string option" where
  "log_text d = (case read_text OPLOG d of Inl _ \<Rightarrow> None | Inr None \<Rightarrow> Some [] | Inr (Some c) \<Rightarrow> Some c)"


lemma parse_contents_Nil [simp]: "parse_contents e [] = ([], 0)"
  by (simp add: parse_contents_def)

lemma read_all_log: "read_all e d = Inr rs \<longleftrightarrow> (\<exists>c. log_text d = Some c \<and> rs = fst (parse_contents e c))"
  by (auto simp: read_all_def log_text_def bindE_eq_Inr split: option.splits sum.splits)

lemma log_text_set: "str_ok c \<Longrightarrow> log_text (set_file OPLOG c d) = Some c"
  by (simp add: log_text_def read_text_def set_file_def update_conv_fun from_utf8_str_bytes)



lemma one_line_valid: "str_ok s \<Longrightarrow> str_ok (one_line s)"
  unfolding one_line_def by (rule str_ok_map) auto

lemma ref_line_valid: "hex_plain e \<Longrightarrow> change_ok c \<Longrightarrow> str_ok (ref_line e c)"
proof -
  assume a: "hex_plain e" "change_ok c"
  obtain name b t where c: "c = (name, b, t)" by (cases c)
  have "str_ok (token e b)" "str_ok (token e t)" using str_ok_graphic [OF token_graphic [OF a(1)]] by blast+
  then show ?thesis using a(2) c by (simp add: ref_line_def change_ok_def str_ok_Cons ascii_def str_ok_append)
qed

lemma serialize_valid: "hex_plain e \<Longrightarrow> record_ok r \<Longrightarrow> str_ok (serialize e r)"
proof -
  assume a: "hex_plain e" "record_ok r"
  have k: "str_ok ''op ''" "str_ok ''ts ''" "str_ok ''desc ''" "str_ok ''head ''" "str_ok ''end''"
    by (rule str_ok_ascii; simp)+
  have "str_ok (''op '' @ show_nat (op_seq r))" "str_ok (''ts '' @ show_int (op_ts r))"
    using str_ok_append [OF k(1)] str_ok_append [OF k(2)] str_ok_graphic show_nat_graphic show_int_graphic by blast+
  moreover have "str_ok (''desc '' @ one_line (op_desc r))"
    unfolding str_ok_append [OF k(3)] using a(2) one_line_valid by (simp add: record_ok_def)
  moreover have "str_ok (''head '' @ op_head_before r @ '' '' @ op_head_after r)"
    unfolding str_ok_append [OF k(4)] using a(2) str_ok_Cons [of "CHR '' ''"] by (simp add: record_ok_def str_ok_append)
  moreover have "list_all str_ok (map (ref_line e) (op_refs r))"
    using a ref_line_valid by (simp add: record_ok_def list_all_iff)
  ultimately show ?thesis using k(5) unfolding serialize_def record_lines_def by (intro str_ok_unlines) (simp add: list_all_append)
qed



lemma record_lines_nonempty [simp]: "record_lines e r \<noteq> []"
  by (simp add: record_lines_def)





definition demo_op :: "nat \<Rightarrow> op_record" where
  "demo_op n = \<lparr>op_seq = n, op_ts = 5, op_desc = ''commit'', op_head_before = ''main'', op_head_after = ''main'', op_refs = []\<rparr>"

lemma demo_op_ok: "n < 2 ^ 64 \<Longrightarrow> record_ok (demo_op n)" "logged (demo_op n) = demo_op n"
  using graphic_not_spaced [of "''main''"] str_ok_graphic [of "''main''"] str_ok_graphic [of "''commit''"]
  by (simp_all add: record_ok_def graphic_def demo_op_def logged_def one_line_def nl_def cr_def)










section \<open>Trimming\<close>

lemma parse_written:
  assumes "hex_ok e" "hex_plain e" "list_all record_ok rs" "log_text d = Some (concat (map (serialize e) rs))"
  shows "read_all e d = Inr (map logged rs)"
  using parse_contents_serialize [OF assms(1-3)] assms(4) by (simp add: read_all_log)

lemma concat_valid: "hex_plain e \<Longrightarrow> list_all record_ok rs \<Longrightarrow> str_ok (concat (map (serialize e) rs))"
  by (induction rs) (simp_all add: str_ok_append serialize_valid)

lemma trim_kept:
  "read_all e d = Inr rs \<Longrightarrow> rs \<noteq> [] \<Longrightarrow> filter (\<lambda>r. op_ts r \<ge> cutoff \<or> op_seq r = op_seq (last rs)) rs = kept \<Longrightarrow>
   trim_older_than e cutoff d = (Inr (length rs - length kept),
     if length kept < length rs then set_file OPLOG (concat (map (serialize e) kept)) d else d)"
  by (simp add: trim_older_than_def Let_def)

text \<open>
  C33: trimming a log that the program wrote keeps, in order, the records not older than the cutoff and
  the newest one, drops the others and returns how many; so the log never becomes empty.
\<close>

theorem log_trimmed:
  assumes "hex_ok e" "hex_plain e" "list_all record_ok rs" "rs \<noteq> []" "log_text d = Some (concat (map (serialize e) rs))"
    and "kept = filter (\<lambda>r. op_ts r \<ge> cutoff \<or> op_seq r = op_seq (last rs)) rs"
  shows "\<exists>d'. trim_older_than e cutoff d = (Inr (length rs - length kept), d') \<and> read_all e d' = Inr (map logged kept) \<and> last kept = last rs"
proof -
  let ?P = "\<lambda>r. op_ts r \<ge> cutoff \<or> op_seq r = op_seq (last (map logged rs))"
  have l: "op_ts (logged r) = op_ts r" "op_seq (logged r) = op_seq r" for r by (simp_all add: logged_def)
  have k: "filter ?P (map logged rs) = map logged kept"
    using assms(4) unfolding assms(6) by (simp add: filter_map comp_def l last_map)
  have ra: "read_all e d = Inr (map logged rs)" by (rule parse_written [OF assms(1-3,5)])
  let ?d' = "set_file OPLOG (concat (map (serialize e) kept)) d"
  have t: "trim_older_than e cutoff d = (Inr (length rs - length kept), if length kept < length rs then ?d' else d)"
    using trim_kept [OF ra _ k] assms(4) by (simp add: comp_def)
  have ok: "list_all record_ok kept" using assms(3) unfolding assms(6) by (auto simp: list_all_iff)
  have "read_all e ?d' = Inr (map logged kept)"
    by (rule parse_written [OF assms(1,2) ok]) (rule log_text_set [OF concat_valid [OF assms(2) ok]])
  moreover have "length kept = length rs \<Longrightarrow> kept = rs"
    unfolding assms(6) by (metis filter_id_conv length_filter_less nat_less_le)
  moreover have "length kept \<le> length rs" unfolding assms(6) by simp
  moreover have "last kept = last rs"
    using assms(4) unfolding assms(6) by (induction rs rule: rev_induct) auto
  ultimately show ?thesis using t ra by (cases "length kept < length rs") auto
qed

theorem log_trimmed_witness:
  "\<exists>d d'. read_all demo_ext d = Inr [demo_op 1, demo_op 2] \<and> trim_older_than demo_ext 9 d = (Inr 1, d') \<and> read_all demo_ext d' = Inr [demo_op 2]"
proof -
  have ok: "list_all record_ok [demo_op 1, demo_op 2]" by (simp add: demo_op_ok)
  let ?c = "concat (map (serialize demo_ext) [demo_op 1, demo_op 2])"
  have t: "log_text (set_file OPLOG ?c \<lparr>fs_files = [], fs_dirs = []\<rparr>) = Some ?c"
    by (rule log_text_set [OF concat_valid [OF demo_hex_plain ok]])
  have "[demo_op 2] = filter (\<lambda>r. op_ts r \<ge> 9 \<or> op_seq r = op_seq (last [demo_op 1, demo_op 2])) [demo_op 1, demo_op 2]"
    by (simp add: demo_op_def)
  from log_trimmed [OF demo_hex_ok demo_hex_plain ok _ t this] parse_written [OF demo_hex_ok demo_hex_plain ok t]
  show ?thesis by (auto simp: demo_op_ok(2))
qed

end
