(* ===== verification/Progress.thy ===== *)
theory Progress
  imports Refs Merge
begin

text \<open>
  The state of a stopped merge, cherry-pick or rebase below \<^verbatim>\<open>.sc\<close> (\<^verbatim>\<open>merge_state.rs\<close>,
  \<^verbatim>\<open>pick_state.rs\<close>, \<^verbatim>\<open>rebase_state.rs\<close>, \<^verbatim>\<open>conflict_plaintext.rs\<close>) and the operation
  in progress as \<^verbatim>\<open>conflicts.rs\<close> finds it. Writing a state is a list of steps, one for each file that is
  replaced or removed; a crash leaves the effect of the first of them. The temporary file of a replacement
  is not modelled.
\<close>

section \<open>Steps\<close>

datatype file_step = PutFile string string | RemoveFile string

fun do_step :: "file_step \<Rightarrow> sc_dir \<Rightarrow> sc_dir" where
  "do_step (PutFile p text) d = d\<lparr>fs_files := AList.update p (str_bytes text) (fs_files d)\<rparr>"
| "do_step (RemoveFile p) d = d\<lparr>fs_files := AList.delete p (fs_files d)\<rparr>"

definition do_steps :: "file_step list \<Rightarrow> sc_dir \<Rightarrow> sc_dir" where
  "do_steps ss d = fold do_step ss d"

definition id_file :: "ext \<Rightarrow> string \<Rightarrow> object_id \<Rightarrow> file_step" where
  "id_file e p i = PutFile p (id_to_hex e i @ [nl])"

text \<open>The id is written, or the file of an earlier one removed.\<close>

definition id_file_opt :: "ext \<Rightarrow> string \<Rightarrow> object_id option \<Rightarrow> file_step" where
  "id_file_opt e p i = (case i of Some i \<Rightarrow> id_file e p i | None \<Rightarrow> RemoveFile p)"

text \<open>The first record of the conflicts, and its later versions.\<close>

definition first_conflicts :: "string \<Rightarrow> string list \<Rightarrow> file_step" where
  "first_conflicts p paths = PutFile p (join_with nl paths @ [nl])"

definition next_conflicts :: "string \<Rightarrow> string list \<Rightarrow> file_step" where
  "next_conflicts p paths = PutFile p (if paths = [] then [] else join_with nl paths @ [nl])"

definition read_conflict_file :: "string \<Rightarrow> sc_dir \<Rightarrow> repo_error + string list" where
  "read_conflict_file p d = bindE (read_text p d) (\<lambda>t. Inr (case t of None \<Rightarrow> [] | Some text \<Rightarrow> str_lines text))"

definition read_state_id :: "ext \<Rightarrow> string \<Rightarrow> sc_dir \<Rightarrow> repo_error + object_id option" where
  "read_state_id e p d = read_id_file e (\<lambda>t. BadRef (FileHasBadId p t)) p d"

section \<open>Plaintext and sidecars of a stop\<close>

definition CONFLICT_PLAINTEXT :: string where "CONFLICT_PLAINTEXT = ''CONFLICT_PLAINTEXT''"
definition CONFLICT_SIDECARS :: string where "CONFLICT_SIDECARS = ''CONFLICT_SIDECARS''"
definition SPARSE_WIDEN :: string where "SPARSE_WIDEN = ''sparse-widen''"

definition nul :: char where "nul = CHR 0x00"

definition clear_plaintext :: "file_step list" where
  "clear_plaintext = [RemoveFile SPARSE_WIDEN, RemoveFile CONFLICT_PLAINTEXT, RemoveFile CONFLICT_SIDECARS]"

definition write_plaintext :: "string list \<Rightarrow> file_step list" where
  "write_plaintext paths = (if paths = [] then clear_plaintext else [PutFile CONFLICT_PLAINTEXT (join_with nul paths)])"

definition read_paths :: "string \<Rightarrow> sc_dir \<Rightarrow> repo_error + string set" where
  "read_paths p d = bindE (read_text p d) (\<lambda>t. Inr (case t of None \<Rightarrow> {} | Some text \<Rightarrow> set (filter (\<lambda>q. q \<noteq> []) (split_on nul text))))"

definition read_plaintext :: "sc_dir \<Rightarrow> repo_error + string set" where
  "read_plaintext d = read_paths CONFLICT_PLAINTEXT d"

definition write_sidecars :: "string list \<Rightarrow> file_step list" where
  "write_sidecars paths = (if paths = [] then [RemoveFile CONFLICT_SIDECARS] else [PutFile CONFLICT_SIDECARS (join_with nul paths)])"

definition read_sidecars :: "sc_dir \<Rightarrow> repo_error + string set" where
  "read_sidecars d = read_paths CONFLICT_SIDECARS d"

definition retire_sidecar :: "string \<Rightarrow> unit dir_op" where
  "retire_sidecar sidecar d =
     (case read_sidecars d of
        Inl err \<Rightarrow> (Inl err, d)
      | Inr paths \<Rightarrow> (Inr (), if sidecar \<in> paths then do_steps (write_sidecars (sorted_list_of_set (paths - {sidecar}))) d else d))"

section \<open>Merges\<close>

definition MERGE_HEAD :: string where "MERGE_HEAD = ''MERGE_HEAD''"
definition MERGE_CONFLICTS :: string where "MERGE_CONFLICTS = ''MERGE_CONFLICTS''"
definition MERGE_DECIDED_ROOT :: string where "MERGE_DECIDED_ROOT = ''MERGE_DECIDED_ROOT''"

definition merge_in_progress :: "sc_dir \<Rightarrow> bool" where
  "merge_in_progress d \<longleftrightarrow> file_exists MERGE_HEAD d"

definition read_merge_head :: "ext \<Rightarrow> sc_dir \<Rightarrow> repo_error + object_id option" where
  "read_merge_head e d = read_state_id e MERGE_HEAD d"

definition merge_read_conflicts :: "sc_dir \<Rightarrow> repo_error + string list" where
  "merge_read_conflicts d = read_conflict_file MERGE_CONFLICTS d"

definition merge_decided_root :: "ext \<Rightarrow> sc_dir \<Rightarrow> repo_error + object_id option" where
  "merge_decided_root e d = read_state_id e MERGE_DECIDED_ROOT d"

definition merge_write :: "ext \<Rightarrow> object_id \<Rightarrow> string list \<Rightarrow> object_id option \<Rightarrow> file_step list" where
  "merge_write e theirs conflicts decided =
     [first_conflicts MERGE_CONFLICTS conflicts, id_file_opt e MERGE_DECIDED_ROOT decided, id_file e MERGE_HEAD theirs]"

definition merge_set_conflicts :: "string list \<Rightarrow> file_step list" where
  "merge_set_conflicts paths = [next_conflicts MERGE_CONFLICTS paths]"

definition merge_clear :: "file_step list" where
  "merge_clear = [RemoveFile MERGE_HEAD, RemoveFile MERGE_CONFLICTS, RemoveFile MERGE_DECIDED_ROOT] @ clear_plaintext"

section \<open>Cherry-picks\<close>

definition PICK_HEAD :: string where "PICK_HEAD = ''PICK_HEAD''"
definition PICK_CONFLICTS :: string where "PICK_CONFLICTS = ''PICK_CONFLICTS''"
definition PICK_DECIDED_ROOT :: string where "PICK_DECIDED_ROOT = ''PICK_DECIDED_ROOT''"
definition PICK_MAINLINE_BASE :: string where "PICK_MAINLINE_BASE = ''PICK_MAINLINE_BASE''"

definition pick_in_progress :: "sc_dir \<Rightarrow> bool" where
  "pick_in_progress d \<longleftrightarrow> file_exists PICK_HEAD d"

definition read_pick_head :: "ext \<Rightarrow> sc_dir \<Rightarrow> repo_error + object_id option" where
  "read_pick_head e d = read_state_id e PICK_HEAD d"

definition pick_read_conflicts :: "sc_dir \<Rightarrow> repo_error + string list" where
  "pick_read_conflicts d = read_conflict_file PICK_CONFLICTS d"

definition pick_decided_root :: "ext \<Rightarrow> sc_dir \<Rightarrow> repo_error + object_id option" where
  "pick_decided_root e d = read_state_id e PICK_DECIDED_ROOT d"

definition read_mainline_base :: "ext \<Rightarrow> sc_dir \<Rightarrow> repo_error + object_id option" where
  "read_mainline_base e d = read_state_id e PICK_MAINLINE_BASE d"

definition pick_write :: "ext \<Rightarrow> object_id \<Rightarrow> string list \<Rightarrow> object_id option \<Rightarrow> object_id option \<Rightarrow> file_step list" where
  "pick_write e picked conflicts decided mainline =
     [first_conflicts PICK_CONFLICTS conflicts, id_file_opt e PICK_DECIDED_ROOT decided, id_file_opt e PICK_MAINLINE_BASE mainline,
      id_file e PICK_HEAD picked]"

definition pick_set_conflicts :: "string list \<Rightarrow> file_step list" where
  "pick_set_conflicts paths = [next_conflicts PICK_CONFLICTS paths]"

definition pick_clear :: "file_step list" where
  "pick_clear = [RemoveFile PICK_HEAD, RemoveFile PICK_CONFLICTS, RemoveFile PICK_DECIDED_ROOT, RemoveFile PICK_MAINLINE_BASE] @ clear_plaintext"

section \<open>Rebases\<close>

record rebase_state =
  rb_branch :: string
  rb_original_tip :: object_id
  rb_target :: string
  rb_acc_tip :: object_id
  rb_conflicted :: object_id
  rb_remaining :: "object_id list"
  rb_total :: nat
  rb_author :: string
  rb_resolved :: bool
  rb_replayed :: nat
  rb_skipped :: nat

definition REBASE_STATE :: string where "REBASE_STATE = ''REBASE_STATE''"
definition REBASE_CONFLICTS :: string where "REBASE_CONFLICTS = ''REBASE_CONFLICTS''"
definition REBASE_DECIDED_ROOT :: string where "REBASE_DECIDED_ROOT = ''REBASE_DECIDED_ROOT''"

definition rebase_in_progress :: "sc_dir \<Rightarrow> bool" where
  "rebase_in_progress d \<longleftrightarrow> file_exists REBASE_STATE d"

abbreviation bad :: "rebase_fault \<Rightarrow> repo_error + 'a" where
  "bad f \<equiv> Inl (BadRef (BadRebaseState f))"

definition parse_id :: "ext \<Rightarrow> string \<Rightarrow> string \<Rightarrow> repo_error + object_id" where
  "parse_id e text field = (case id_from_str e text of Inr i \<Rightarrow> Inr i | Inl _ \<Rightarrow> bad (BadIdFor field text))"

definition parse_kv :: "string \<Rightarrow> string \<Rightarrow> repo_error + string" where
  "parse_kv line key = (case cut_once (CHR ''='') line of
     None \<Rightarrow> bad (MalformedLine key line)
   | Some (k, v) \<Rightarrow> if k \<noteq> key then bad (UnexpectedField key k) else Inr v)"

definition show_bool :: "bool \<Rightarrow> string" where
  "show_bool b = (if b then ''true'' else ''false'')"

definition kv :: "string \<Rightarrow> string \<Rightarrow> string" where
  "kv key v = key @ CHR ''='' # v"

definition rebase_lines :: "ext \<Rightarrow> rebase_state \<Rightarrow> string list" where
  "rebase_lines e st =
     [kv ''branch'' (rb_branch st), kv ''original_tip'' (id_to_hex e (rb_original_tip st)), kv ''target'' (rb_target st),
      kv ''acc_tip'' (id_to_hex e (rb_acc_tip st)), kv ''conflicted'' (id_to_hex e (rb_conflicted st)),
      kv ''total'' (show_nat (rb_total st)), kv ''author'' (rb_author st), kv ''resolved'' (show_bool (rb_resolved st)),
      kv ''replayed'' (show_nat (rb_replayed st)), kv ''skipped'' (show_nat (rb_skipped st))] @ map (id_to_hex e) (rb_remaining st)"

definition rebase_serialize :: "ext \<Rightarrow> rebase_state \<Rightarrow> string" where
  "rebase_serialize e st = unlines (rebase_lines e st)"

text \<open>The next line, which must be there, as the value of a key; and an optional one, read only if it starts with the key.\<close>

definition next_kv :: "string \<Rightarrow> string list \<Rightarrow> repo_error + string \<times> string list" where
  "next_kv key ls = (case ls of [] \<Rightarrow> bad (MissingField key) | l # rest \<Rightarrow> bindE (parse_kv l key) (\<lambda>v. Inr (v, rest)))"

definition next_id :: "ext \<Rightarrow> string \<Rightarrow> string list \<Rightarrow> repo_error + object_id \<times> string list" where
  "next_id e key ls = bindE (next_kv key ls) (\<lambda>(v, rest). bindE (parse_id e v key) (\<lambda>i. Inr (i, rest)))"

definition optional_kv :: "string \<Rightarrow> (string \<Rightarrow> 'a option) \<Rightarrow> 'a \<Rightarrow> string list \<Rightarrow> repo_error + 'a \<times> string list" where
  "optional_kv key parse absent ls =
     (case ls of
        l # rest \<Rightarrow>
          if prefix (key @ ''='') l then bindE (parse_kv l key) (\<lambda>v. case parse v of Some x \<Rightarrow> Inr (x, rest) | None \<Rightarrow> bad (BadValue key v))
          else Inr (absent, ls)
      | [] \<Rightarrow> Inr (absent, ls))"

definition parse_bool :: "string \<Rightarrow> bool option" where
  "parse_bool s = (if s = ''true'' then Some True else if s = ''false'' then Some False else None)"

fun parse_ids :: "ext \<Rightarrow> string list \<Rightarrow> repo_error + object_id list" where
  "parse_ids e [] = Inr []"
| "parse_ids e (l # ls) = bindE (parse_id e l ''remaining'') (\<lambda>i. bindE (parse_ids e ls) (\<lambda>is. Inr (i # is)))"

definition rebase_deserialize :: "ext \<Rightarrow> string \<Rightarrow> repo_error + rebase_state" where
  "rebase_deserialize e text =
     bindE (next_kv ''branch'' (str_lines text)) (\<lambda>(branch, ls).
     bindE (next_id e ''original_tip'' ls) (\<lambda>(original, ls).
     bindE (next_kv ''target'' ls) (\<lambda>(target, ls).
     bindE (next_id e ''acc_tip'' ls) (\<lambda>(acc, ls).
     bindE (next_id e ''conflicted'' ls) (\<lambda>(conflicted, ls).
     bindE (next_kv ''total'' ls) (\<lambda>(total_text, ls).
     bindE (case parse_u64 total_text of Some n \<Rightarrow> Inr n | None \<Rightarrow> bad (BadValue ''total'' total_text)) (\<lambda>total.
     bindE (next_kv ''author'' ls) (\<lambda>(author, ls).
     bindE (optional_kv ''resolved'' parse_bool False ls) (\<lambda>(resolved, ls).
     bindE (optional_kv ''replayed'' parse_u64 0 ls) (\<lambda>(replayed, ls).
     bindE (optional_kv ''skipped'' parse_u64 0 ls) (\<lambda>(skipped, ls).
     bindE (parse_ids e ls) (\<lambda>remaining.
       Inr \<lparr>rb_branch = branch, rb_original_tip = original, rb_target = target, rb_acc_tip = acc, rb_conflicted = conflicted,
         rb_remaining = remaining, rb_total = total, rb_author = author, rb_resolved = resolved, rb_replayed = replayed,
         rb_skipped = skipped\<rparr>))))))))))))"

definition rebase_write :: "ext \<Rightarrow> rebase_state \<Rightarrow> file_step list" where
  "rebase_write e st = [PutFile REBASE_STATE (rebase_serialize e st)]"

definition rebase_read :: "ext \<Rightarrow> sc_dir \<Rightarrow> repo_error + rebase_state option" where
  "rebase_read e d = bindE (read_text REBASE_STATE d) (\<lambda>t. case t of
     None \<Rightarrow> Inr None | Some text \<Rightarrow> bindE (rebase_deserialize e text) (\<lambda>st. Inr (Some st)))"

definition rebase_clear :: "file_step list" where
  "rebase_clear = [RemoveFile REBASE_STATE, RemoveFile REBASE_CONFLICTS, RemoveFile REBASE_DECIDED_ROOT] @ clear_plaintext"

definition rebase_read_conflicts :: "sc_dir \<Rightarrow> repo_error + string list" where
  "rebase_read_conflicts d = read_conflict_file REBASE_CONFLICTS d"

definition rebase_write_conflicts :: "string list \<Rightarrow> file_step list" where
  "rebase_write_conflicts paths = [next_conflicts REBASE_CONFLICTS paths]"

definition rebase_decided_root :: "ext \<Rightarrow> sc_dir \<Rightarrow> repo_error + object_id option" where
  "rebase_decided_root e d = (if \<not> rebase_in_progress d then Inr None else read_state_id e REBASE_DECIDED_ROOT d)"

definition write_decided_root :: "ext \<Rightarrow> object_id \<Rightarrow> file_step list" where
  "write_decided_root e i = [id_file e REBASE_DECIDED_ROOT i]"

section \<open>The operation in progress\<close>

datatype active_op = OpMerge | OpPick | OpRebase

definition active_conflict_op :: "sc_dir \<Rightarrow> active_op option" where
  "active_conflict_op d =
     (if merge_in_progress d then Some OpMerge else if pick_in_progress d then Some OpPick
      else if rebase_in_progress d then Some OpRebase else None)"

definition active_conflicts :: "sc_dir \<Rightarrow> repo_error + string list" where
  "active_conflicts d = (case active_conflict_op d of
     Some OpMerge \<Rightarrow> merge_read_conflicts d | Some OpPick \<Rightarrow> pick_read_conflicts d
   | Some OpRebase \<Rightarrow> rebase_read_conflicts d | None \<Rightarrow> Inr [])"

record op_triple =
  tr_ours :: object_id
  tr_theirs :: object_id
  tr_base :: "object_id option"

definition need :: "bad_ref \<Rightarrow> 'a option \<Rightarrow> repo_error + 'a" where
  "need err x = ok_or (BadRef err) x"

definition first_parent :: "snapshot \<Rightarrow> object_id option" where
  "first_parent s = (case sn_parents s of [] \<Rightarrow> None | p # _ \<Rightarrow> Some p)"

definition op_triple_of :: "nat \<Rightarrow> ext \<Rightarrow> sc_dir \<Rightarrow> op_triple repo_op" where
  "op_triple_of n e d =
     (case active_conflict_op d of
        Some OpMerge \<Rightarrow>
          bindS (liftE (bindE (head_tip e d) (need (HeadUnborn ''a merge'')))) (\<lambda>ours.
          bindS (liftE (bindE (read_merge_head e d) (need (StateFileMissing MERGE_HEAD)))) (\<lambda>theirs.
          bindS (merge_base n e ours theirs) (\<lambda>base. returnS \<lparr>tr_ours = ours, tr_theirs = theirs, tr_base = base\<rparr>)))
      | Some OpPick \<Rightarrow>
          bindS (liftE (bindE (read_pick_head e d) (need (StateFileMissing PICK_HEAD)))) (\<lambda>theirs.
          bindS (liftE (bindE (head_tip e d) (need (HeadUnborn ''a cherry-pick'')))) (\<lambda>ours.
          bindS (liftE (read_mainline_base e d)) (\<lambda>mainline.
          bindS (case mainline of Some b \<Rightarrow> returnS (Some b)
                 | None \<Rightarrow> bindS (liftR (get_snapshot e theirs)) (\<lambda>s. returnS (first_parent s))) (\<lambda>base.
            returnS \<lparr>tr_ours = ours, tr_theirs = theirs, tr_base = base\<rparr>))))
      | Some OpRebase \<Rightarrow>
          bindS (liftE (bindE (rebase_read e d) (need (StateFileMissing REBASE_STATE)))) (\<lambda>st.
          bindS (liftR (get_snapshot e (rb_conflicted st))) (\<lambda>s.
            returnS \<lparr>tr_ours = rb_acc_tip st, tr_theirs = rb_conflicted st, tr_base = first_parent s\<rparr>))
      | None \<Rightarrow> failS (InvalidArgument ''no merge/pick/rebase is in progress''))"

text \<open>What \<^verbatim>\<open>resolve_path\<close> leaves of the record once the working file is written.\<close>

definition drop_conflict :: "string \<Rightarrow> active_op \<Rightarrow> string list \<Rightarrow> file_step list" where
  "drop_conflict path op conflicts =
     (let remaining = filter (\<lambda>p. p \<noteq> path) conflicts in
      case op of OpMerge \<Rightarrow> merge_set_conflicts remaining | OpPick \<Rightarrow> pick_set_conflicts remaining
        | OpRebase \<Rightarrow> rebase_write_conflicts remaining)"

end
