(* ===== verification/Progress_Theorems.thy ===== *)
theory Progress_Theorems
  imports Progress Log_Theorems
begin

text \<open>
  The properties of the state of a stopped operation: it reads back, it is announced by its last step,
  and the paths that its line format loses.
\<close>

section \<open>Effects of steps\<close>

fun step_effect :: "file_step \<Rightarrow> (string \<rightharpoonup> bytes) \<Rightarrow> string \<rightharpoonup> bytes" where
  "step_effect (PutFile p text) m = m(p \<mapsto> str_bytes text)"
| "step_effect (RemoveFile p) m = m(p := None)"

lemma file_of_step: "file_of (do_step s d) = step_effect s (file_of d)"
  by (cases s) (simp_all add: file_of_def alist_simps)

lemma file_of_steps: "file_of (do_steps ss d) = fold step_effect ss (file_of d)"
  by (induction ss arbitrary: d) (simp_all add: do_steps_def file_of_step)

lemma file_exists_file: "file_exists p d \<longleftrightarrow> file_of d p \<noteq> None"
  by (simp add: file_exists_def file_of_def)

lemma id_file_effect [simp]: "step_effect (id_file e p i) m = m(p \<mapsto> str_bytes (id_line e i))"
  by (simp add: id_file_def id_line_def)

lemma id_file_opt_effect [simp]: "step_effect (id_file_opt e p t) m = m(p := map_option (\<lambda>i. str_bytes (id_line e i)) t)"
  by (simp add: id_file_opt_def split: option.splits)

lemma conflicts_effect [simp]:
  "step_effect (first_conflicts p cs) m = m(p \<mapsto> str_bytes (join_with nl cs @ [nl]))"
  "step_effect (next_conflicts p cs) m = m(p \<mapsto> str_bytes (if cs = [] then [] else join_with nl cs @ [nl]))"
  by (simp_all add: first_conflicts_def next_conflicts_def)

lemma plaintext_effect [simp]:
  "fold step_effect clear_plaintext m = m(SPARSE_WIDEN := None, CONFLICT_PLAINTEXT := None, CONFLICT_SIDECARS := None)"
  by (simp add: clear_plaintext_def)

lemmas state_files = MERGE_HEAD_def MERGE_CONFLICTS_def MERGE_DECIDED_ROOT_def PICK_HEAD_def PICK_CONFLICTS_def PICK_DECIDED_ROOT_def
  PICK_MAINLINE_BASE_def REBASE_STATE_def REBASE_CONFLICTS_def REBASE_DECIDED_ROOT_def CONFLICT_PLAINTEXT_def CONFLICT_SIDECARS_def
  SPARSE_WIDEN_def

section \<open>Records of conflicts\<close>




lemma split_inclusive_inner: "l \<in> set (split_inclusive s) \<Longrightarrow> l \<noteq> [] \<and> nl \<notin> set (butlast l)"
  by (induction s arbitrary: l) (auto split: if_splits list.splits)

lemma line_no_newline: "l \<in> set (str_lines s) \<Longrightarrow> nl \<notin> set l"
proof -
  assume "l \<in> set (str_lines s)"
  then obtain raw where r: "raw \<in> set (split_inclusive s)" "l = line_of raw" by (auto simp: str_lines_def)
  with split_inclusive_inner [of raw s] have "raw \<noteq> []" "nl \<notin> set (butlast raw)" by auto
  moreover have "raw = butlast raw @ [last raw]" using \<open>raw \<noteq> []\<close> by simp
  then have "set raw = insert (last raw) (set (butlast raw))" by (metis Un_insert_right list.set(1) list.simps(15) set_append sup_bot_right)
  ultimately show ?thesis using r(2) in_set_butlastD [of nl "butlast raw"] by (auto simp: line_of_def strip_suffix_def split: if_splits)
qed

section \<open>Stops\<close>

lemma merge_files:
  "file_of (do_steps (merge_write e theirs cs decided) d) = (file_of d)(MERGE_CONFLICTS \<mapsto> str_bytes (join_with nl cs @ [nl]),
     MERGE_DECIDED_ROOT := map_option (\<lambda>i. str_bytes (id_line e i)) decided, MERGE_HEAD \<mapsto> str_bytes (id_line e theirs))"
  by (simp add: merge_write_def file_of_steps)







text \<open>
  A conflicted path that holds a newline is lost: no path that the stopped merge reports holds one,
  whatever was recorded, so the path can never be resolved by name; and a stop without conflicts is
  reported with one conflict, the empty path.
\<close>

lemma newline_path_unresolvable:
  assumes "m = do_steps (merge_write e i cs decided) d" "active_conflicts m = Inr reported" "p \<in> set cs" "nl \<in> set p"
  shows "p \<notin> set reported \<and> active_conflicts (do_steps (merge_write e i [] decided) d) = Inr [[]]"
proof -
  have act: "active_conflicts (do_steps (merge_write e i cs decided) d) = read_conflict_file MERGE_CONFLICTS (do_steps (merge_write e i cs decided) d)" for cs
    by (simp add: active_conflicts_def active_conflict_op_def merge_in_progress_def file_exists_file merge_files merge_read_conflicts_def)
  obtain text' where "reported = str_lines text'"
    using assms(2) act [of cs] unfolding assms(1)
    by (auto simp: read_conflict_file_def bindE_eq_Inr merge_files read_text_file state_files split: option.splits)
  then have "p \<notin> set reported" using assms(4) line_no_newline by auto
  moreover have "str_lines [nl] = [[]]" by (simp add: str_lines_def line_of_def strip_suffix_def)
  then have "active_conflicts (do_steps (merge_write e i [] decided) d) = Inr [[]]"
    unfolding act using from_utf8_str_bytes [of "[nl]"]
    by (simp add: read_conflict_file_def read_text_file merge_files state_files str_ok_nl)
  ultimately show ?thesis by blast
qed

section \<open>Rebases\<close>

definition rebase_ok :: "rebase_state \<Rightarrow> bool" where
  "rebase_ok st \<longleftrightarrow> plain_line (rb_branch st) \<and> plain_line (rb_target st) \<and> plain_line (rb_author st)
     \<and> list_all id_ok ([rb_original_tip st, rb_acc_tip st, rb_conflicted st] @ rb_remaining st)
     \<and> rb_total st < 2 ^ 64 \<and> rb_replayed st < 2 ^ 64 \<and> rb_skipped st < 2 ^ 64"

lemma parse_kv_kv: "CHR ''='' \<notin> set key \<Longrightarrow> parse_kv (kv key v) key = Inr v"
  by (simp add: parse_kv_def kv_def cut_once_append)

lemma next_kv_kv [simp]: "CHR ''='' \<notin> set key \<Longrightarrow> next_kv key (kv key v # ls) = Inr (v, ls)"
  by (simp add: next_kv_def parse_kv_kv)

lemma parse_id_hex: "hex_ok e \<Longrightarrow> id_ok i \<Longrightarrow> parse_id e (id_to_hex e i) field = Inr i"
  by (simp add: parse_id_def id_from_str_to_hex)

lemma optional_kv_kv: "CHR ''='' \<notin> set key \<Longrightarrow> parse v = Some x \<Longrightarrow> optional_kv key parse y (kv key v # ls) = Inr (x, ls)"
  by (simp add: optional_kv_def parse_kv_kv) (simp add: kv_def)

lemma parse_ids_hex: "hex_ok e \<Longrightarrow> list_all id_ok is \<Longrightarrow> parse_ids e (map (id_to_hex e) is) = Inr is"
  by (induction "is") (simp_all add: parse_id_hex)

lemma parse_bool_show [simp]: "parse_bool (show_bool b) = Some b"
  by (simp add: parse_bool_def show_bool_def)

lemma kv_plain: "plain_line v \<Longrightarrow> nl \<notin> set key \<Longrightarrow> plain_line (kv key v)"
  using plain_line_append [of "[]" v] by (auto simp: plain_line_def kv_def nl_def cr_def)

lemma rebase_lines_plain: "hex_plain e \<Longrightarrow> rebase_ok st \<Longrightarrow> list_all plain_line (rebase_lines e st)"
proof -
  assume a: "hex_plain e" "rebase_ok st"
  have h: "plain_line (id_to_hex e i)" for i by (rule graphic_line [OF id_hex_graphic [OF a(1)]])
  have n: "plain_line (show_nat k)" "plain_line (show_bool b)" for k b
    by (rule graphic_line [OF show_nat_graphic]) (simp add: show_bool_def plain_line_def nl_def cr_def)
  have k: "plain_line v \<Longrightarrow> list_all graphic key \<Longrightarrow> plain_line (kv key v)" for v key
    using kv_plain graphic_plain by blast
  show ?thesis using a(2) h n by (auto simp: rebase_lines_def rebase_ok_def list_all_append list_all_iff intro!: k simp: graphic_def)
qed

text \<open>
  C36: the state of a stopped rebase reads back from its text, field by field, if the branch, the target
  and the author hold no newline and do not end in a carriage return.
\<close>

theorem rebase_state_roundtrip:
  assumes "hex_ok e" "hex_plain e" "rebase_ok st"
  shows "rebase_deserialize e (rebase_serialize e st) = Inr st"
proof -
  have l: "str_lines (rebase_serialize e st) = rebase_lines e st"
    unfolding rebase_serialize_def by (rule lines_unlines [OF rebase_lines_plain [OF assms(2,3)]])
  have i: "next_id e key (kv key (id_to_hex e j) # ls) = Inr (j, ls)" if "CHR ''='' \<notin> set key" "id_ok j" for key j ls
    using that by (simp add: next_id_def parse_id_hex [OF assms(1)])
  have o: "optional_kv ''resolved'' parse_bool b (kv ''resolved'' (show_bool (rb_resolved st)) # ls) = Inr (rb_resolved st, ls)"
    "optional_kv ''replayed'' parse_u64 n (kv ''replayed'' (show_nat (rb_replayed st)) # ls) = Inr (rb_replayed st, ls)"
    "optional_kv ''skipped'' parse_u64 n (kv ''skipped'' (show_nat (rb_skipped st)) # ls) = Inr (rb_skipped st, ls)" for b n ls
    using assms(3) by (simp_all add: optional_kv_kv parse_u64_show rebase_ok_def)
  show ?thesis
    using assms(3) parse_ids_hex [OF assms(1)]
    by (simp add: rebase_deserialize_def l rebase_lines_def i o parse_u64_show rebase_ok_def)
qed

definition demo_rebase :: "string \<Rightarrow> rebase_state" where
  "demo_rebase author = \<lparr>rb_branch = ''main'', rb_original_tip = id_of demo_ext [], rb_target = ''up'', rb_acc_tip = id_of demo_ext [],
     rb_conflicted = id_of demo_ext [1], rb_remaining = [id_of demo_ext [2]], rb_total = 3, rb_author = author, rb_resolved = True,
     rb_replayed = 1, rb_skipped = 0\<rparr>"

theorem rebase_state_roundtrip_witness:
  "rebase_deserialize demo_ext (rebase_serialize demo_ext (demo_rebase ''a=b'')) = Inr (demo_rebase ''a=b'')"
proof -
  have "rebase_ok (demo_rebase ''a=b'')"
    using id_of_ok [OF demo_blake3_ok] by (simp add: rebase_ok_def demo_rebase_def plain_line_def nl_def cr_def)
  from rebase_state_roundtrip [OF demo_hex_ok demo_hex_plain this] show ?thesis .
qed

text \<open>
  An author name of two lines makes the state of a stopped rebase unreadable: the second line is taken
  for the id of a commit, so neither continuing nor aborting can read the state any more.
\<close>

lemma rebase_author_newline:
  assumes "hex_ok e" "hex_plain e" "rebase_ok (st\<lparr>rb_author := a\<rparr>)" "nl \<notin> set b" "CHR ''='' \<notin> set b" "cr \<notin> set b"
    and "\<And>s. CHR ''='' \<in> set s \<Longrightarrow> hex_decode e s = None"
  shows "\<exists>field text. rebase_deserialize e (rebase_serialize e (st\<lparr>rb_author := a @ nl # b\<rparr>)) = Inl (BadRef (BadRebaseState (BadIdFor field text)))"
proof -
  let ?st = "st\<lparr>rb_author := a\<rparr>"
  define ls where "ls = [kv ''resolved'' (show_bool (rb_resolved st)), kv ''replayed'' (show_nat (rb_replayed st)),
    kv ''skipped'' (show_nat (rb_skipped st))] @ map (id_to_hex e) (rb_remaining st)"
  define fs where "fs = [kv ''branch'' (rb_branch st), kv ''original_tip'' (id_to_hex e (rb_original_tip st)), kv ''target'' (rb_target st),
    kv ''acc_tip'' (id_to_hex e (rb_acc_tip st)), kv ''conflicted'' (id_to_hex e (rb_conflicted st)), kv ''total'' (show_nat (rb_total st)),
    kv ''author'' a]"
  have s: "rebase_lines e ?st = fs @ ls" by (simp add: rebase_lines_def fs_def ls_def)
  have "rebase_serialize e (st\<lparr>rb_author := a @ nl # b\<rparr>) = unlines (fs @ b # ls)"
    by (simp add: rebase_serialize_def rebase_lines_def fs_def ls_def kv_def)
  moreover have "list_all plain_line (fs @ b # ls)"
    using rebase_lines_plain [OF assms(2,3)] plain_lineI [OF assms(4,6)] unfolding s by (simp add: list_all_append)
  ultimately have l: "str_lines (rebase_serialize e (st\<lparr>rb_author := a @ nl # b\<rparr>)) = fs @ b # ls" by (metis lines_unlines)
  have i: "next_id e key (kv key (id_to_hex e j) # ls) = Inr (j, ls)" if "CHR ''='' \<notin> set key" "id_ok j" for key j ls
    using that by (simp add: next_id_def parse_id_hex [OF assms(1)])
  have no: "\<not> prefix (key @ ''='') b" for key using assms(5) by (auto simp: prefix_def)
  then have o: "optional_kv key parse y (b # ls) = Inr (y, b # ls)" for key and parse :: "string \<Rightarrow> 'b option" and y
    by (simp add: optional_kv_def)
  have "parse_id e (kv key v) field = bad (BadIdFor field (kv key v))" for key v field
    using assms(7) [of "kv key v"] by (simp add: parse_id_def id_from_str_def kv_def)
  then have "\<exists>text. parse_ids e (b # ls) = bad (BadIdFor ''remaining'' text)"
    by (auto simp: ls_def parse_id_def bindE_def split: sum.splits)
  then obtain x where "parse_ids e (b # ls) = bad (BadIdFor ''remaining'' x)" by blast
  moreover have "id_ok (rb_original_tip st)" "id_ok (rb_acc_tip st)" "id_ok (rb_conflicted st)" "rb_total st < 2 ^ 64"
    using assms(3) by (simp_all add: rebase_ok_def)
  ultimately show ?thesis by (simp add: rebase_deserialize_def l fs_def i o parse_u64_show)
qed

lemma demo_unhex_strict: "CHR ''='' \<in> set s \<Longrightarrow> demo_unhex s = None"
  by (induction s rule: demo_unhex.induct) (auto simp: digit_val_def split: option.splits)

section \<open>Plaintext records\<close>

lemma split_join_paths: "ps \<noteq> [] \<Longrightarrow> \<forall>p \<in> set ps. nul \<notin> set p \<Longrightarrow> split_on nul (join_with nul ps) = ps"
  by (rule split_join)

lemma join_valid: "list_all str_ok ps \<Longrightarrow> str_ok (join_with nul ps)"
proof (induction ps)
  case (Cons p ps)
  then show ?case by (cases "ps = []") (simp_all add: join_with_Cons str_ok_append str_ok_Cons ascii_def nul_def)
qed simp

definition stored_path :: "string \<Rightarrow> bool" where
  "stored_path p \<longleftrightarrow> p \<noteq> [] \<and> nul \<notin> set p \<and> str_ok p"

lemma read_paths_ok:
  assumes "list_all stored_path ps"
    and "file_of d p = (if ps = [] then None else Some (str_bytes (join_with nul ps)))"
  shows "read_paths p d = Inr (set ps)"
proof (cases "ps = []")
  case True
  with assms(2) show ?thesis by (simp add: read_paths_def read_text_file)
next
  case False
  have "str_ok (join_with nul ps)" using assms(1) by (intro join_valid) (auto simp: list_all_iff stored_path_def)
  moreover have "split_on nul (join_with nul ps) = ps" using assms(1) False by (intro split_join_paths) (auto simp: list_all_iff stored_path_def)
  moreover have "filter (\<lambda>q. q \<noteq> []) ps = ps" using assms(1) by (auto simp: list_all_iff stored_path_def intro!: filter_True)
  ultimately show ?thesis using assms(2) False by (simp add: read_paths_def read_text_file from_utf8_str_bytes)
qed

text \<open>
  The paths a stop wrote in plaintext and its sidecars read back as sets, newlines in them included;
  retiring a sidecar removes exactly that one; clearing any of the three operations forgets both records.
\<close>

lemma plaintext_recorded:
  assumes "list_all stored_path ps" "list_all stored_path ss" "d1 = do_steps (write_plaintext ps @ write_sidecars ss) d"
  shows "read_plaintext d1 = Inr (set ps) \<and> read_sidecars d1 = Inr (set ss)
    \<and> (\<exists>d2. retire_sidecar s d1 = (Inr (), d2) \<and> read_sidecars d2 = Inr (set ss - {s}) \<and> read_plaintext d2 = Inr (set ps))
    \<and> (\<forall>clear \<in> {merge_clear, pick_clear, rebase_clear}. read_plaintext (do_steps clear d1) = Inr {} \<and> read_sidecars (do_steps clear d1) = Inr {})"
proof -
  have f: "file_of (do_steps (write_sidecars xs) d) = (file_of d)(CONFLICT_SIDECARS := if xs = [] then None else Some (str_bytes (join_with nul xs)))" for xs d
    by (simp add: write_sidecars_def file_of_steps)
  have g: "file_of d1 CONFLICT_PLAINTEXT = (if ps = [] then None else Some (str_bytes (join_with nul ps)))"
    "file_of d1 CONFLICT_SIDECARS = (if ss = [] then None else Some (str_bytes (join_with nul ss)))"
    by (simp_all add: assms(3) file_of_steps write_plaintext_def write_sidecars_def state_files clear_plaintext_def)
  have r: "read_plaintext d1 = Inr (set ps)" "read_sidecars d1 = Inr (set ss)"
    unfolding read_plaintext_def read_sidecars_def by (rule read_paths_ok [OF assms(1) g(1)], rule read_paths_ok [OF assms(2) g(2)])
  define d2 where "d2 = snd (retire_sidecar s d1)"
  have t: "retire_sidecar s d1 = (Inr (), d2)" by (simp add: d2_def retire_sidecar_def r)
  let ?xs = "sorted_list_of_set (set ss - {s})"
  have xs: "list_all stored_path ?xs" using assms(2) by (auto simp: list_all_iff)
  have "read_sidecars d2 = Inr (set ss - {s}) \<and> read_plaintext d2 = Inr (set ps)"
  proof (cases "s \<in> set ss")
    case True
    then have d2: "d2 = do_steps (write_sidecars ?xs) d1" by (simp add: d2_def retire_sidecar_def r)
    have "file_of d2 CONFLICT_SIDECARS = (if ?xs = [] then None else Some (str_bytes (join_with nul ?xs)))"
      "file_of d2 CONFLICT_PLAINTEXT = file_of d1 CONFLICT_PLAINTEXT" by (simp_all add: d2 f state_files)
    then show ?thesis
      using read_paths_ok [OF xs, of d2 CONFLICT_SIDECARS] read_paths_ok [OF assms(1), of d2 CONFLICT_PLAINTEXT] g(1)
      by (simp add: read_sidecars_def read_plaintext_def)
  next
    case False
    then have "d2 = d1" by (simp add: d2_def retire_sidecar_def r)
    with r False show ?thesis by simp
  qed
  moreover have "read_plaintext (do_steps clear d1) = Inr {} \<and> read_sidecars (do_steps clear d1) = Inr {}"
    if "clear \<in> {merge_clear, pick_clear, rebase_clear}" for clear
  proof -
    have "file_of (do_steps clear d1) CONFLICT_PLAINTEXT = None" "file_of (do_steps clear d1) CONFLICT_SIDECARS = None"
      using that by (auto simp: file_of_steps merge_clear_def pick_clear_def rebase_clear_def clear_plaintext_def)
    then show ?thesis by (simp add: read_plaintext_def read_sidecars_def read_paths_def read_text_file)
  qed
  ultimately show ?thesis using r t by blast
qed

end
