(* ===== verification/Reachable.thy ===== *)
theory Reachable
  imports Repo_Error Graph_Walk Vfs
begin

text \<open>
  Reachability over the object graph (\<^verbatim>\<open>crates/repo/src/reachable.rs\<close>, with the path filter of
  \<^verbatim>\<open>promisor.rs\<close>): every object that the snapshots, manifests, trees and registries below some
  tips name, read from any object source. Sets of ids are sets; the loops take one unit of fuel
  for each object they read.
\<close>

section \<open>Sources\<close>

record 's object_source =
  src_get :: "object_id \<Rightarrow> 's \<Rightarrow> (repo_error + object) \<times> 's"
  src_blob_size :: "object_id \<Rightarrow> 's \<Rightarrow> (repo_error + nat) \<times> 's"

definition default_blob_size :: "(object_id \<Rightarrow> 's \<Rightarrow> (repo_error + object) \<times> 's) \<Rightarrow> object_id \<Rightarrow> 's \<Rightarrow> (repo_error + nat) \<times> 's" where
  "default_blob_size get_op i = bindS (get_op i) (\<lambda>ob.
     case ob of Blob b \<Rightarrow> returnS (length b) | _ \<Rightarrow> failS (RCore (WrongKind i ''blob'')))"

definition store_source :: "ext \<Rightarrow> store object_source" where
  "store_source e = \<lparr>src_get = (\<lambda>i. liftR (get e i)),
     src_blob_size = (\<lambda>i. liftR (\<lambda>st. (store_blob_size e i st, st)))\<rparr>"

text \<open>A remote: the bytes come from a transport, a parameter, and are checked against the size cap and the id.\<close>

definition transport_get :: "ext \<Rightarrow> nat \<Rightarrow> (object_id \<Rightarrow> 's \<Rightarrow> (repo_error + bytes) \<times> 's) \<Rightarrow> object_id \<Rightarrow> 's \<Rightarrow> (repo_error + object) \<times> 's" where
  "transport_get e cap get_object i = bindS (get_object i) (\<lambda>b.
     if length b > cap then failS (Protocol (ObjectExceedsCap (length b) cap))
     else case decode b of
       Inl err \<Rightarrow> failS (RCore err)
     | Inr ob \<Rightarrow> if object_id e ob \<noteq> i then failS (CorruptObject i) else returnS ob)"

definition transport_source :: "ext \<Rightarrow> nat \<Rightarrow> (object_id \<Rightarrow> 's \<Rightarrow> (repo_error + bytes) \<times> 's) \<Rightarrow> 's object_source" where
  "transport_source e cap get_object = \<lparr>src_get = transport_get e cap get_object,
     src_blob_size = default_blob_size (transport_get e cap get_object)\<rparr>"

section \<open>Path filters\<close>

record prefix_filter =
  pf_matches :: "string \<Rightarrow> bool"
  pf_should_descend :: "string \<Rightarrow> bool"

datatype scope = AllPaths | Prefixes "string list"

definition trim_end_slashes :: "string \<Rightarrow> string" where
  "trim_end_slashes p = rev (dropWhile (\<lambda>c. c = slash) (rev p))"

definition promisor_matches :: "scope \<Rightarrow> string \<Rightarrow> bool" where
  "promisor_matches sc path =
     (case sc of AllPaths \<Rightarrow> True
      | Prefixes ps \<Rightarrow> list_ex (\<lambda>p. let bare = trim_end_slashes p in path = bare \<or> prefix (bare @ [slash]) path) ps)"

definition promisor_should_descend :: "scope \<Rightarrow> string \<Rightarrow> bool" where
  "promisor_should_descend sc path =
     (case sc of AllPaths \<Rightarrow> True
      | Prefixes ps \<Rightarrow> path = [] \<or> promisor_matches sc path
          \<or> list_ex (\<lambda>p. prefix (path @ [slash]) (trim_end_slashes p)) ps)"

definition promisor_filter :: "scope \<Rightarrow> prefix_filter" where
  "promisor_filter sc = \<lparr>pf_matches = promisor_matches sc, pf_should_descend = promisor_should_descend sc\<rparr>"

section \<open>Walking a tree\<close>

record size_gate =
  sg_limit :: nat
  sg_exempt :: bool
  sg_held :: "object_id set"

text \<open>What the walks of one request share: the ids kept and left out, the expanded pairs and the size verdicts.\<close>

record walk_state =
  ws_included :: "object_id set"
  ws_gaps :: "object_id set"
  ws_expanded :: "(object_id \<times> string) set"
  ws_sizes :: "object_id \<rightharpoonup> bool"

definition gate_keeps :: "'s object_source \<Rightarrow> size_gate \<Rightarrow> object_id \<Rightarrow> (object_id \<rightharpoonup> bool) \<Rightarrow> 's
    \<Rightarrow> (repo_error + bool \<times> (object_id \<rightharpoonup> bool)) \<times> 's" where
  "gate_keeps S g i sizes =
     (if sg_exempt g \<or> i \<in> sg_held g then returnS (True, sizes)
      else if sg_limit g = 0 then returnS (False, sizes)
      else if sg_limit g = 2 ^ 64 - 1 then returnS (True, sizes)
      else case sizes i of
        Some keep \<Rightarrow> returnS (keep, sizes)
      | None \<Rightarrow> bindS (src_blob_size S i) (\<lambda>n. let keep = (n < sg_limit g) in returnS (keep, sizes(i \<mapsto> keep))))"

definition child_path :: "string \<Rightarrow> string \<Rightarrow> string" where
  "child_path path name = (if path = [] then name else path @ slash # name)"

definition keep_blob :: "'s object_source \<Rightarrow> prefix_filter \<Rightarrow> size_gate option \<Rightarrow> string \<Rightarrow> object_id \<Rightarrow> walk_state \<Rightarrow> 's
    \<Rightarrow> (repo_error + bool \<times> (object_id \<rightharpoonup> bool)) \<times> 's" where
  "keep_blob S f gate path i w =
     (if \<not> pf_matches f path then returnS (False, ws_sizes w)
      else case gate of
        Some g \<Rightarrow> if i \<notin> ws_included w then gate_keeps S g i (ws_sizes w) else returnS (True, ws_sizes w)
      | None \<Rightarrow> returnS (True, ws_sizes w))"

type_synonym stack = "(object_id \<times> string) list"

definition visit_entry :: "'s object_source \<Rightarrow> prefix_filter option \<Rightarrow> size_gate option \<Rightarrow> string \<Rightarrow> tree_entry
    \<Rightarrow> walk_state \<times> stack \<Rightarrow> 's \<Rightarrow> (repo_error + walk_state \<times> stack) \<times> 's" where
  "visit_entry S filt gate path en ws = (case ws of (w, stack) \<Rightarrow>
     let i = te_id en; cp = child_path path (te_name en); included = w\<lparr>ws_included := insert i (ws_included w)\<rparr>;
         gapped = w\<lparr>ws_gaps := insert i (ws_gaps w)\<rparr> in
     (case te_kind en of
        BlobKind \<Rightarrow>
          (case filt of
             None \<Rightarrow> returnS (included, stack)
           | Some f \<Rightarrow> bindS (keep_blob S f gate cp i w) (\<lambda>(keep, sizes).
               returnS ((if keep then included else gapped)\<lparr>ws_sizes := sizes\<rparr>, stack)))
      | TreeKind \<Rightarrow>
          (case filt of
             None \<Rightarrow> if i \<in> ws_included w then returnS (w, stack) else returnS (included, (i, cp) # stack)
           | Some f \<Rightarrow>
               if \<not> pf_should_descend f cp then returnS (gapped, stack)
               else if (i, cp) \<in> ws_expanded w then returnS (included, stack)
               else returnS (included\<lparr>ws_expanded := insert (i, cp) (ws_expanded w)\<rparr>, (i, cp) # stack))))"

fun visit_entries :: "'s object_source \<Rightarrow> prefix_filter option \<Rightarrow> size_gate option \<Rightarrow> string \<Rightarrow> tree_entry list
    \<Rightarrow> walk_state \<times> stack \<Rightarrow> 's \<Rightarrow> (repo_error + walk_state \<times> stack) \<times> 's" where
  "visit_entries S filt gate path [] ws s = (Inr ws, s)"
| "visit_entries S filt gate path (en # ens) ws s =
     bindS (visit_entry S filt gate path en ws) (visit_entries S filt gate path ens) s"

text \<open>The stack of a walk, its top first.\<close>

fun drain :: "nat \<Rightarrow> 's object_source \<Rightarrow> prefix_filter option \<Rightarrow> size_gate option \<Rightarrow> stack \<Rightarrow> walk_state \<Rightarrow> 's
    \<Rightarrow> (repo_error + walk_state) \<times> 's" where
  "drain n S filt gate [] w s = (Inr w, s)"
| "drain 0 S filt gate (x # stack) w s = (Inl OutOfFuel, s)"
| "drain (Suc n) S filt gate ((i, path) # stack) w s =
     bindS (src_get S i) (\<lambda>ob.
       case ob of
         Tree t \<Rightarrow> bindS (visit_entries S filt gate path t (w, stack)) (\<lambda>(w, stack). drain n S filt gate stack w)
       | _ \<Rightarrow> failS (BadRef (ExpectedTree i))) s"

definition walk_tree_sized :: "nat \<Rightarrow> 's object_source \<Rightarrow> object_id \<Rightarrow> prefix_filter option \<Rightarrow> size_gate option \<Rightarrow> walk_state \<Rightarrow> 's
    \<Rightarrow> (repo_error + walk_state) \<times> 's" where
  "walk_tree_sized n S root filt gate w =
     (let included = w\<lparr>ws_included := insert root (ws_included w)\<rparr> in
      case filt of
        None \<Rightarrow> if root \<in> ws_included w then returnS w else drain n S filt gate [(root, [])] included
      | Some f \<Rightarrow>
          if (root, []) \<in> ws_expanded w then returnS included
          else drain n S filt gate [(root, [])] (included\<lparr>ws_expanded := insert (root, []) (ws_expanded w)\<rparr>))"

definition walk_state_of :: "object_id set \<Rightarrow> walk_state" where
  "walk_state_of seen = \<lparr>ws_included = seen, ws_gaps = {}, ws_expanded = {}, ws_sizes = Map.empty\<rparr>"

definition walk_tree :: "nat \<Rightarrow> 's object_source \<Rightarrow> object_id \<Rightarrow> object_id set \<Rightarrow> 's \<Rightarrow> (repo_error + object_id set) \<times> 's" where
  "walk_tree n S root seen =
     bindS (walk_tree_sized n S root None None (walk_state_of seen)) (\<lambda>w. returnS (ws_included w))"

section \<open>Walking the snapshots\<close>

text \<open>The loop over the queue; the callback walks a root tree and carries its own state besides the included ids.\<close>

fun snapshots_loop :: "nat \<Rightarrow> 's object_source \<Rightarrow> (object_id \<Rightarrow> object_id \<Rightarrow> object_id set \<times> 'c \<Rightarrow> 's \<Rightarrow> (repo_error + object_id set \<times> 'c) \<times> 's)
    \<Rightarrow> object_id list \<Rightarrow> object_id set \<times> 'c \<Rightarrow> 's \<Rightarrow> (repo_error + object_id set \<times> 'c) \<times> 's" where
  "snapshots_loop n S walk_root [] ic s = (Inr ic, s)"
| "snapshots_loop 0 S walk_root (sid # q) ic s = (Inl OutOfFuel, s)"
| "snapshots_loop (Suc n) S walk_root (sid # q) ic s =
     bindS (src_get S sid) (\<lambda>ob.
       case ob of
         Snapshot sn \<Rightarrow>
           let (included, q) = push_new (sn_parents sn) (fst ic) q
           in bindS (walk_root sid (sn_root sn) (included \<union> snd ` set (sn_secrets sn), snd ic))
                (snapshots_loop n S walk_root q)
       | Manifest m \<Rightarrow>
           let (included, q) = push_new (bm_base m # bm_anchors m) (fst ic \<union> set (bm_closure m)) q;
               (included, q) = push_new (case bm_prev m of None \<Rightarrow> [] | Some p \<Rightarrow> [p]) included q
           in snapshots_loop n S walk_root q (included, snd ic)
       | _ \<Rightarrow> failS (BadRef (ExpectedSnapshot sid))) s"

definition walk_snapshots :: "nat \<Rightarrow> 's object_source \<Rightarrow> object_id list
    \<Rightarrow> (object_id \<Rightarrow> object_id \<Rightarrow> object_id set \<times> 'c \<Rightarrow> 's \<Rightarrow> (repo_error + object_id set \<times> 'c) \<times> 's) \<Rightarrow> 'c
    \<Rightarrow> 's \<Rightarrow> (repo_error + object_id set \<times> 'c) \<times> 's" where
  "walk_snapshots n S tips walk_root c =
     (let (included, q) = push_new tips {} [] in snapshots_loop n S walk_root q (included, c))"

record reach_result =
  re_included :: "object_id set"
  re_gaps :: "object_id set"

definition reachable_objects_limited :: "nat \<Rightarrow> 's object_source \<Rightarrow> object_id list \<Rightarrow> prefix_filter option \<Rightarrow> nat option \<Rightarrow> object_id set
    \<Rightarrow> 's \<Rightarrow> (repo_error + reach_result) \<times> 's" where
  "reachable_objects_limited n S tips filt blob_limit held =
     (if blob_limit \<noteq> None \<and> filt = None then failS (InvalidArgument ''blob limit without a path filter'')
      else bindS (walk_snapshots n S tips
        (\<lambda>snapshot root (included, (gaps, expanded, sizes)).
           let gate = map_option (\<lambda>limit. \<lparr>sg_limit = limit, sg_exempt = snapshot \<in> set tips, sg_held = held\<rparr>) blob_limit
           in bindS (walk_tree_sized n S root filt gate
                \<lparr>ws_included = included, ws_gaps = gaps, ws_expanded = expanded, ws_sizes = sizes\<rparr>)
                (\<lambda>w. returnS (ws_included w, (ws_gaps w, ws_expanded w, ws_sizes w))))
        ({}, {}, Map.empty))
        (\<lambda>(included, (gaps, _, _)). returnS \<lparr>re_included = included, re_gaps = gaps - included\<rparr>))"

definition reachable_objects_filtered :: "nat \<Rightarrow> 's object_source \<Rightarrow> object_id list \<Rightarrow> prefix_filter option
    \<Rightarrow> 's \<Rightarrow> (repo_error + reach_result) \<times> 's" where
  "reachable_objects_filtered n S tips filt = reachable_objects_limited n S tips filt None {}"

definition reachable_objects :: "nat \<Rightarrow> 's object_source \<Rightarrow> object_id list \<Rightarrow> 's \<Rightarrow> (repo_error + object_id set) \<times> 's" where
  "reachable_objects n S tips = bindS (reachable_objects_filtered n S tips None) (\<lambda>r. returnS (re_included r))"

section \<open>Presence-based reachability\<close>

text \<open>\<open>gaps.entry(id).or_insert(referrer)\<close>\<close>

definition note_gap :: "object_id \<Rightarrow> object_id \<Rightarrow> (object_id \<rightharpoonup> object_id) \<Rightarrow> (object_id \<rightharpoonup> object_id)" where
  "note_gap i referrer gaps = (if gaps i = None then gaps(i \<mapsto> referrer) else gaps)"

type_synonym partial_state = "object_id set \<times> (object_id \<rightharpoonup> object_id)"

definition visit_present :: "ext \<Rightarrow> store \<Rightarrow> object_id \<Rightarrow> tree_entry \<Rightarrow> partial_state \<times> object_id list \<Rightarrow> partial_state \<times> object_id list" where
  "visit_present e st tree_id en ps = (case ps of ((present, gaps), stack) \<Rightarrow>
     if \<not> contains e (te_id en) st then ((present, note_gap (te_id en) tree_id gaps), stack)
     else case te_kind en of
       BlobKind \<Rightarrow> ((insert (te_id en) present, gaps), stack)
     | TreeKind \<Rightarrow> if te_id en \<in> present then ((present, gaps), stack)
                    else ((insert (te_id en) present, gaps), te_id en # stack))"

text \<open>\<^verbatim>\<open>contains\<close> does not change the store, so the loop over the entries of a tree reads one state.\<close>

fun drain_present :: "nat \<Rightarrow> ext \<Rightarrow> object_id list \<Rightarrow> partial_state \<Rightarrow> partial_state repo_op" where
  "drain_present n e [] ps st = (Inr ps, st)"
| "drain_present 0 e (i # stack) ps st = (Inl OutOfFuel, st)"
| "drain_present (Suc n) e (i # stack) ps st =
     bindS (liftR (get e i)) (\<lambda>ob st.
       case ob of
         Tree t \<Rightarrow> let (ps, stack) = foldl (\<lambda>a en. visit_present e st i en a) (ps, stack) t in drain_present n e stack ps st
       | _ \<Rightarrow> (Inl (BadRef (ExpectedTree i)), st)) st"

definition walk_tree_partial :: "nat \<Rightarrow> ext \<Rightarrow> object_id \<Rightarrow> object_id \<Rightarrow> partial_state \<Rightarrow> partial_state repo_op" where
  "walk_tree_partial n e referrer root ps st = (case ps of (present, gaps) \<Rightarrow>
     if \<not> contains e root st then (Inr (present, note_gap root referrer gaps), st)
     else if root \<in> present then (Inr (present, gaps), st)
     else drain_present n e [root] (insert root present, gaps) st)"

definition reachable_objects_partial :: "nat \<Rightarrow> ext \<Rightarrow> object_id list \<Rightarrow> partial_state repo_op" where
  "reachable_objects_partial n e tips =
     walk_snapshots n (store_source e) tips (\<lambda>snapshot root ps. walk_tree_partial n e snapshot root ps) Map.empty"

text \<open>A want that cannot be read is kept: only a manifest is dropped.\<close>

fun drop_manifests :: "'s object_source \<Rightarrow> object_id list \<Rightarrow> object_id list \<Rightarrow> 's \<Rightarrow> (repo_error + object_id list) \<times> 's" where
  "drop_manifests S [] out s = (Inr out, s)"
| "drop_manifests S (w # ws) out s =
     (case src_get S w s of
        (Inr (Manifest m), s') \<Rightarrow> drop_manifests S ws out s'
      | (_, s') \<Rightarrow> drop_manifests S ws (out @ [w]) s')"

definition filter_manifest_wants :: "'s object_source \<Rightarrow> object_id list \<Rightarrow> bool \<Rightarrow> 's \<Rightarrow> (repo_error + object_id list) \<times> 's" where
  "filter_manifest_wants S wants filter_active = (if \<not> filter_active then returnS wants else drop_manifests S wants [])"

end
