(* ===== verification/Index_Files.thy ===== *)
theory Index_Files
  imports Refs_Correct Reachable
begin

text \<open>
  The index files below \<^verbatim>\<open>.sc\<close>: signatures (\<^verbatim>\<open>signatures.rs\<close>), transcripts, their drop tombstones
  and the pending tombstones (\<^verbatim>\<open>transcripts.rs\<close>), and the marker of a partial clone
  (\<^verbatim>\<open>promisor.rs\<close>). The index lock, under which each of the updates runs, is one step here.
\<close>

section \<open>Words\<close>

text \<open>\<^verbatim>\<open>split_whitespace\<close>: \<open>span_word\<close> is the text up to the first white space.\<close>

fun span_word :: "string \<Rightarrow> string \<times> string" where
  "span_word [] = ([], [])"
| "span_word (c # s) =
     (if list_ex (\<lambda>w. prefix w (c # s)) white_space then ([], c # s)
      else case span_word s of (a, b) \<Rightarrow> (c # a, b))"

lemma span_word_split: "span_word s = (a, b) \<Longrightarrow> s = a @ b"
  by (induction s arbitrary: a b) (auto split: if_splits prod.splits)

lemma strip_front_shorter: "length (strip_front ws s) \<le> length s"
proof (induction ws s rule: strip_front.induct)
  case (1 ws s)
  then show ?case by (subst strip_front.simps) (fastforce split: option.splits)
qed

function words :: "string \<Rightarrow> string list" where
  "words s =
     (let (w, rest) = span_word (trim_start s) in if w = [] then [] else w # words rest)"
  by pat_completeness auto
termination
proof (relation "measure length")
  fix s x w rest
  assume "x = span_word (trim_start s)" "(w, rest) = x" "w \<noteq> []"
  then have "trim_start s = w @ rest" "w \<noteq> []" using span_word_split [of "trim_start s" w rest] by simp_all
  then have "length rest < length (trim_start s)" by simp
  also have "\<dots> \<le> length s" unfolding trim_start_def by (rule strip_front_shorter)
  finally show "(rest, s) \<in> measure length" by simp
qed simp

declare words.simps [simp del]

section \<open>Lines of ids\<close>

definition word_id :: "ext \<Rightarrow> string \<Rightarrow> object_id option" where
  "word_id e w = (case id_from_str e w of Inr i \<Rightarrow> Some i | Inl _ \<Rightarrow> None)"

text \<open>A malformed line is skipped, not fatal.\<close>

definition read_lines :: "string \<Rightarrow> (string \<Rightarrow> 'a option) \<Rightarrow> sc_dir \<Rightarrow> repo_error + 'a list" where
  "read_lines p parse d = bindE (read_text p d) (\<lambda>t. Inr (case t of None \<Rightarrow> [] | Some text \<Rightarrow> List.map_filter parse (str_lines text)))"

text \<open>The text in front of an appended line: a torn last line is ended first.\<close>

definition fresh_line :: "string \<Rightarrow> string" where
  "fresh_line t = (if t \<noteq> [] \<and> last t \<noteq> nl then [nl] else [])"

section \<open>Signatures\<close>

type_synonym sig_entry = "object_id \<times> object_id \<times> bytes"

definition SIGNATURES :: string where "SIGNATURES = ''signatures.v2''"

definition parse_sig_line :: "ext \<Rightarrow> string \<Rightarrow> sig_entry option" where
  "parse_sig_line e line = (case words line of
     [t, s, k] \<Rightarrow>
       (case (word_id e t, word_id e s, hex_decode e k) of
          (Some target, Some sig, Some signer) \<Rightarrow> if length signer = 32 then Some (target, sig, signer) else None
        | _ \<Rightarrow> None)
   | _ \<Rightarrow> None)"

definition sig_line :: "ext \<Rightarrow> sig_entry \<Rightarrow> string" where
  "sig_line e en = (case en of (target, sig, signer) \<Rightarrow> id_to_hex e target @ '' '' @ id_to_hex e sig @ '' '' @ hex_encode e signer)"

definition read_signatures :: "ext \<Rightarrow> sc_dir \<Rightarrow> repo_error + sig_entry list" where
  "read_signatures e d = read_lines SIGNATURES (parse_sig_line e) d"

definition write_signatures :: "ext \<Rightarrow> sig_entry list \<Rightarrow> sc_dir \<Rightarrow> sc_dir" where
  "write_signatures e ens d = set_file SIGNATURES (unlines (map (sig_line e) ens)) d"

text \<open>Appending under the lock, after the import of an older index: the first entry of a target and signer keeps the slot.\<close>

fun new_slots :: "(object_id \<times> bytes) set \<Rightarrow> sig_entry list \<Rightarrow> sig_entry list" where
  "new_slots slots [] = []"
| "new_slots slots ((t, s, k) # ens) = (if (t, k) \<in> slots then new_slots slots ens else (t, s, k) # new_slots (insert (t, k) slots) ens)"

definition append_signatures :: "ext \<Rightarrow> sig_entry list \<Rightarrow> unit dir_op" where
  "append_signatures e new d =
     (if new = [] then (Inr (), d)
      else case read_text SIGNATURES d of
        Inl err \<Rightarrow> (Inl err, d)
      | Inr t \<Rightarrow>
          let contents = (case t of None \<Rightarrow> [] | Some s \<Rightarrow> s);
              slots = (\<lambda>(t, _, k). (t, k)) ` set (List.map_filter (parse_sig_line e) (str_lines contents));
              added = new_slots slots new
          in (Inr (), if added = [] then d
              else set_file SIGNATURES (contents @ fresh_line contents @ unlines (map (sig_line e) added)) d))"

section \<open>Transcripts\<close>

type_synonym drop_entry = "object_id \<times> object_id \<times> object_id"

definition TRANSCRIPTS :: string where "TRANSCRIPTS = ''transcripts''"
definition TRANSCRIPT_DROPS :: string where "TRANSCRIPT_DROPS = ''transcript-drops''"
definition TRANSCRIPT_PENDING :: string where "TRANSCRIPT_PENDING = ''transcript-pending''"
definition TRANSCRIPT_PENDING_TRUST :: string where "TRANSCRIPT_PENDING_TRUST = ''transcript-pending-trust''"

definition parse_transcript_line :: "ext \<Rightarrow> string \<Rightarrow> (object_id \<times> object_id) option" where
  "parse_transcript_line e line = (case words line of
     [s, t] \<Rightarrow> (case (word_id e s, word_id e t) of (Some snap, Some tid) \<Rightarrow> Some (snap, tid) | _ \<Rightarrow> None)
   | _ \<Rightarrow> None)"

definition read_raw :: "ext \<Rightarrow> sc_dir \<Rightarrow> repo_error + (object_id \<times> object_id) list" where
  "read_raw e d = read_lines TRANSCRIPTS (parse_transcript_line e) d"

definition transcript_line :: "ext \<Rightarrow> object_id \<times> object_id \<Rightarrow> string" where
  "transcript_line e en = id_to_hex e (fst en) @ '' '' @ id_to_hex e (snd en)"

definition write_transcripts :: "ext \<Rightarrow> (object_id \<times> object_id) list \<Rightarrow> sc_dir \<Rightarrow> sc_dir" where
  "write_transcripts e ens d = set_file TRANSCRIPTS (unlines (map (transcript_line e) ens)) d"

definition parse_drop_line :: "ext \<Rightarrow> string \<Rightarrow> drop_entry option" where
  "parse_drop_line e line = (case words line of
     [s, t, x] \<Rightarrow>
       (case (word_id e s, word_id e t, word_id e x) of (Some snap, Some tomb, Some dropped) \<Rightarrow> Some (snap, tomb, dropped) | _ \<Rightarrow> None)
   | _ \<Rightarrow> None)"

definition read_drops :: "ext \<Rightarrow> sc_dir \<Rightarrow> repo_error + drop_entry list" where
  "read_drops e d = read_lines TRANSCRIPT_DROPS (parse_drop_line e) d"

definition drop_line :: "ext \<Rightarrow> drop_entry \<Rightarrow> string" where
  "drop_line e en = (case en of (snap, tomb, dropped) \<Rightarrow> id_to_hex e snap @ '' '' @ id_to_hex e tomb @ '' '' @ id_to_hex e dropped)"

definition write_drops :: "ext \<Rightarrow> drop_entry list \<Rightarrow> sc_dir \<Rightarrow> sc_dir" where
  "write_drops e ens d = set_file TRANSCRIPT_DROPS (unlines (map (drop_line e) ens)) d"

definition dropped_ids :: "ext \<Rightarrow> sc_dir \<Rightarrow> repo_error + object_id set" where
  "dropped_ids e d = bindE (read_drops e d) (\<lambda>ens. Inr (set (map (\<lambda>(_, _, x). x) ens)))"

definition read_transcripts :: "ext \<Rightarrow> sc_dir \<Rightarrow> repo_error + (object_id \<times> object_id) list" where
  "read_transcripts e d = bindE (dropped_ids e d) (\<lambda>dropped. bindE (read_raw e d) (\<lambda>ens. Inr (filter (\<lambda>(_, t). t \<notin> dropped) ens)))"

text \<open>The append is of bytes, so it does not need the file to be valid text; a file that is not cannot be read to look for the entry.\<close>

definition append_drop :: "ext \<Rightarrow> drop_entry \<Rightarrow> unit dir_op" where
  "append_drop e entry d =
     (case read_drops e d of
        Inl err \<Rightarrow> (Inl err, d)
      | Inr ens \<Rightarrow>
          if entry \<in> set ens then (Inr (), d)
          else let t = (case read_text TRANSCRIPT_DROPS d of Inr (Some t) \<Rightarrow> t | _ \<Rightarrow> [])
               in (Inr (), set_file TRANSCRIPT_DROPS (t @ fresh_line t @ drop_line e entry @ [nl]) d))"

definition append_transcript :: "ext \<Rightarrow> object_id \<Rightarrow> object_id \<Rightarrow> unit dir_op" where
  "append_transcript e snap tid d =
     (case dropped_ids e d of
        Inl err \<Rightarrow> (Inl err, d)
      | Inr dropped \<Rightarrow>
          if tid \<in> dropped then (Inr (), d)
          else case read_transcripts e d of
            Inl err \<Rightarrow> (Inl err, d)
          | Inr ens \<Rightarrow> (Inr (), if (snap, tid) \<in> set ens then d else write_transcripts e (ens @ [(snap, tid)]) d))"

definition MAX_PENDING :: nat where "MAX_PENDING = 1024"

definition read_pending :: "ext \<Rightarrow> sc_dir \<Rightarrow> repo_error + object_id list" where
  "read_pending e d = read_lines TRANSCRIPT_PENDING (\<lambda>l. word_id e (trim l)) d"

definition write_pending :: "ext \<Rightarrow> object_id list \<Rightarrow> sc_dir \<Rightarrow> sc_dir" where
  "write_pending e ids d =
     (if ids = [] then d\<lparr>fs_files := AList.delete TRANSCRIPT_PENDING_TRUST (AList.delete TRANSCRIPT_PENDING (fs_files d))\<rparr>
      else set_file TRANSCRIPT_PENDING (unlines (map (id_to_hex e) ids)) d)"

text \<open>The first occurrences, in order, of ids not seen before.\<close>

fun dedupe :: "object_id set \<Rightarrow> object_id list \<Rightarrow> object_id list" where
  "dedupe seen [] = []"
| "dedupe seen (i # is) = (if i \<in> seen then dedupe seen is else i # dedupe (insert i seen) is)"

definition last_n :: "nat \<Rightarrow> 'a list \<Rightarrow> 'a list" where
  "last_n n xs = drop (length xs - n) xs"

definition MAX_RETRIES :: nat where "MAX_RETRIES = 3"

text \<open>The fingerprint of the trusted keys; hashing key after key is hashing their concatenation, \<^verbatim>\<open>to_hex\<close> is lower-case hex.\<close>

definition fp_of :: "ext \<Rightarrow> bytes list \<Rightarrow> string" where
  "fp_of e keys = hex_encode e (blake3 e (concat (sort keys)))"

definition read_trust_state :: "sc_dir \<Rightarrow> (string \<times> nat) option" where
  "read_trust_state d = (case read_text TRANSCRIPT_PENDING_TRUST d of
     Inr (Some s) \<Rightarrow>
       (case words s of
          [] \<Rightarrow> None
        | [fp] \<Rightarrow> Some (fp, 0)
        | fp # n # _ \<Rightarrow> Some (fp, case parse_u32 n of Some failed \<Rightarrow> failed | None \<Rightarrow> 0))
   | _ \<Rightarrow> None)"

definition save_trust_state :: "string \<Rightarrow> nat \<Rightarrow> sc_dir \<Rightarrow> sc_dir" where
  "save_trust_state fp failed d = set_file TRANSCRIPT_PENDING_TRUST (fp @ '' '' @ show_nat failed) d"

definition needs_judging :: "sc_dir \<Rightarrow> string \<Rightarrow> bool" where
  "needs_judging d fp \<longleftrightarrow> file_exists TRANSCRIPT_PENDING d
     \<and> (case read_trust_state d of
          None \<Rightarrow> True
        | Some (saved, failed) \<Rightarrow> saved \<noteq> fp \<or> failed > 0 \<and> failed < MAX_RETRIES)"

definition note_pending :: "ext \<Rightarrow> object_id list \<Rightarrow> string \<Rightarrow> unit dir_op" where
  "note_pending e new fp d =
     (if new = [] then (Inr (), d)
      else case read_pending e d of
        Inl err \<Rightarrow> (Inl err, d)
      | Inr old \<Rightarrow>
          let added = dedupe (set old) (last_n MAX_PENDING (dedupe {} new))
          in (Inr (), if added = [] then d
              else let d = write_pending e (last_n MAX_PENDING (old @ added)) d
                   in if read_trust_state d = None then save_trust_state fp 0 d else d))"

section \<open>The marker of a partial clone\<close>

record promisor =
  pm_scope :: scope
  pm_blob_limit :: "nat option"
  pm_origin :: string

definition PROMISOR :: string where "PROMISOR = ''promisor''"
definition PROMISOR_BLOB_LIMIT :: string where "PROMISOR_BLOB_LIMIT = ''promisor-blob-limit''"
definition PROMISOR_LAZY :: string where "PROMISOR_LAZY = ''promisor-lazy''"

definition promisor_new :: "string \<Rightarrow> string list \<Rightarrow> promisor" where
  "promisor_new origin pfx = \<lparr>pm_scope = Prefixes pfx, pm_blob_limit = None, pm_origin = origin\<rparr>"

definition with_blob_limit :: "string \<Rightarrow> string list \<Rightarrow> nat \<Rightarrow> promisor" where
  "with_blob_limit origin pfx limit =
     \<lparr>pm_scope = (if pfx = [] then AllPaths else Prefixes pfx), pm_blob_limit = Some limit, pm_origin = origin\<rparr>"

definition pm_prefixes :: "promisor \<Rightarrow> string list" where
  "pm_prefixes p = (case pm_scope p of AllPaths \<Rightarrow> [] | Prefixes ps \<Rightarrow> ps)"

fun widen_with :: "string list \<Rightarrow> string list \<Rightarrow> string list" where
  "widen_with existing [] = existing"
| "widen_with existing (p # ps) = widen_with (if p \<in> set existing then existing else existing @ [p]) ps"

definition widen :: "string list \<Rightarrow> promisor \<Rightarrow> promisor" where
  "widen pfx p = (case pm_scope p of AllPaths \<Rightarrow> p | Prefixes ps \<Rightarrow> p\<lparr>pm_scope := Prefixes (widen_with ps pfx)\<rparr>)"

record pack_filter =
  pk_prefixes :: "string list"
  pk_blob_limit :: "nat option"

definition pack_filter_new :: "string list \<Rightarrow> nat option \<Rightarrow> pack_filter option" where
  "pack_filter_new pfx limit = (if pfx \<noteq> [] \<or> limit \<noteq> None then Some \<lparr>pk_prefixes = pfx, pk_blob_limit = limit\<rparr> else None)"

definition pack_filter_scope :: "pack_filter \<Rightarrow> promisor" where
  "pack_filter_scope f = (case pk_blob_limit f of Some limit \<Rightarrow> with_blob_limit [] (pk_prefixes f) limit | None \<Rightarrow> promisor_new [] (pk_prefixes f))"

definition promisor_malformed :: "repo_error + 'a" where
  "promisor_malformed = Inl (InvalidArgument ''malformed .sc/promisor'')"

definition limit_malformed :: "repo_error + 'a" where
  "limit_malformed = Inl (InvalidArgument ''malformed .sc/promisor-blob-limit'')"

definition load_limit :: "sc_dir \<Rightarrow> repo_error + nat option \<times> bool" where
  "load_limit d = bindE (read_text PROMISOR_BLOB_LIMIT d) (\<lambda>t. case t of
     None \<Rightarrow> Inr (None, False)
   | Some text \<Rightarrow>
       (case str_lines text of
          l # ls \<Rightarrow>
            (case Option.bind (strip_prefix ''limit '' l) parse_u64 of
               None \<Rightarrow> limit_malformed
             | Some limit \<Rightarrow>
                 (case ls of
                    s # _ \<Rightarrow> if s = ''scope all-paths'' then Inr (Some limit, True)
                             else if s = ''scope prefixes'' then Inr (Some limit, False) else limit_malformed
                  | [] \<Rightarrow> limit_malformed))
        | [] \<Rightarrow> limit_malformed))"

definition promisor_load :: "sc_dir \<Rightarrow> repo_error + promisor option" where
  "promisor_load d = bindE (read_text PROMISOR d) (\<lambda>t. case t of
     None \<Rightarrow> Inr None
   | Some text \<Rightarrow>
       (case str_lines text of
          [] \<Rightarrow> promisor_malformed
        | l # pfx \<Rightarrow>
            (case strip_prefix ''origin '' l of
               None \<Rightarrow> promisor_malformed
             | Some origin \<Rightarrow> bindE (load_limit d) (\<lambda>(limit, all_paths).
                 Inr (Some \<lparr>pm_scope = (if all_paths then AllPaths else Prefixes pfx), pm_blob_limit = limit, pm_origin = origin\<rparr>)))))"

text \<open>The two writes of \<^verbatim>\<open>store\<close>, in order.\<close>

definition promisor_store_steps :: "promisor \<Rightarrow> (sc_dir \<Rightarrow> sc_dir) list" where
  "promisor_store_steps p =
     [case pm_blob_limit p of
        Some limit \<Rightarrow> set_file PROMISOR_BLOB_LIMIT (unlines [''limit '' @ show_nat limit,
          ''scope '' @ (if pm_scope p = AllPaths then ''all-paths'' else ''prefixes'')])
      | None \<Rightarrow> delete_file PROMISOR_BLOB_LIMIT,
      set_file PROMISOR (unlines ((''origin '' @ pm_origin p) # pm_prefixes p))]"

definition promisor_store :: "promisor \<Rightarrow> sc_dir \<Rightarrow> sc_dir" where
  "promisor_store p d = fold (\<lambda>s. s) (promisor_store_steps p) d"

definition set_lazy :: "bool \<Rightarrow> sc_dir \<Rightarrow> sc_dir" where
  "set_lazy lazy d = (if lazy then set_file PROMISOR_LAZY [] d else delete_file PROMISOR_LAZY d)"

definition is_lazy :: "sc_dir \<Rightarrow> bool" where
  "is_lazy d \<longleftrightarrow> file_exists PROMISOR_LAZY d"

definition promisor_remove :: "sc_dir \<Rightarrow> sc_dir" where
  "promisor_remove d = set_lazy False (delete_file PROMISOR_BLOB_LIMIT (delete_file PROMISOR d))"

end
