(* ===== verification/Signatures.thy ===== *)
theory Signatures
  imports Index_Files "HOL-Library.Product_Lexorder"
begin

text \<open>
  Signatures (\<^verbatim>\<open>crates/crypto/src/signing.rs\<close>, \<^verbatim>\<open>crates/repo/src/signatures.rs\<close>): what a signature
  covers, which ones the index takes, the import of an older index, the rebuild from a store scan and
  the status shown for a snapshot. Ed25519 and HKDF are third-party code, the fields of \<open>signing_prims\<close>.
  The index lock, under which the index is updated, is one step.
\<close>

section \<open>Keys\<close>

text \<open>The key pair of a seed, its public half and the seeds that HKDF expands; \<open>sg_point\<close> holds of valid points.\<close>

record signing_prims =
  sg_public :: "bytes \<Rightarrow> bytes"
  sg_sign :: "bytes \<Rightarrow> bytes \<Rightarrow> bytes"
  sg_point :: "bytes \<Rightarrow> bool"
  sg_verify_strict :: "bytes \<Rightarrow> bytes \<Rightarrow> bytes \<Rightarrow> bool"
  sg_hkdf :: "bytes \<Rightarrow> bytes \<Rightarrow> bytes"

definition SIG_DOMAIN :: bytes where "SIG_DOMAIN = str_bytes ''sc-snapshot-sig-v1''"
definition TRANSCRIPT_SIG_DOMAIN :: bytes where "TRANSCRIPT_SIG_DOMAIN = str_bytes ''sc-transcript-sig-v1''"
definition SIG_PUB_PREFIX :: string where "SIG_PUB_PREFIX = ''scl-sig-''"
definition ID_PREFIX :: string where "ID_PREFIX = ''scl-id-''"

definition sig_to_key_string :: "ext \<Rightarrow> bytes \<Rightarrow> string" where
  "sig_to_key_string e k = SIG_PUB_PREFIX @ hex_encode e k"

definition sig_from_key_string :: "ext \<Rightarrow> signing_prims \<Rightarrow> string \<Rightarrow> bytes option" where
  "sig_from_key_string e sg s = (case strip_prefix SIG_PUB_PREFIX (trim s) of
     None \<Rightarrow> None
   | Some h \<Rightarrow> (case hex_decode e h of
       None \<Rightarrow> None
     | Some k \<Rightarrow> if length k = 32 \<and> sg_point sg k then Some k else None))"

text \<open>An identity: the secret of its encryption half and the seed of its signing half.\<close>

record identity =
  idn_enc :: bytes
  idn_signing :: "bytes option"

definition derive_identity_v2 :: "signing_prims \<Rightarrow> bytes \<Rightarrow> identity" where
  "derive_identity_v2 sg seed =
     \<lparr>idn_enc = sg_hkdf sg seed (str_bytes ''scl-id-v2-enc''), idn_signing = Some (sg_hkdf sg seed (str_bytes ''scl-id-v2-sig''))\<rparr>"

text \<open>\<open>from_v1\<close> is the parser of encryption-only secret keys.\<close>

definition parse_identity :: "ext \<Rightarrow> signing_prims \<Rightarrow> (string \<Rightarrow> bytes option) \<Rightarrow> string \<Rightarrow> identity option" where
  "parse_identity e sg from_v1 text = (let s = trim text in
     case strip_prefix ID_PREFIX s of
       Some h \<Rightarrow> (case hex_decode e h of
         None \<Rightarrow> None | Some seed \<Rightarrow> if length seed \<noteq> 32 then None else Some (derive_identity_v2 sg seed))
     | None \<Rightarrow> map_option (\<lambda>enc. \<lparr>idn_enc = enc, idn_signing = None\<rparr>) (from_v1 s))"

section \<open>What is signed\<close>

definition sign_id :: "signing_prims \<Rightarrow> bytes \<Rightarrow> bytes \<Rightarrow> bytes \<Rightarrow> bytes" where
  "sign_id sg domain key i = sg_sign sg key (domain @ i)"

definition verify_id :: "signing_prims \<Rightarrow> bytes \<Rightarrow> bytes \<Rightarrow> bytes \<Rightarrow> bytes \<Rightarrow> bool" where
  "verify_id sg domain signer i sig = (if \<not> sg_point sg signer then False else sg_verify_strict sg signer (domain @ i) sig)"

definition sign_snapshot_id :: "signing_prims \<Rightarrow> bytes \<Rightarrow> bytes \<Rightarrow> bytes" where
  "sign_snapshot_id sg key i = sign_id sg SIG_DOMAIN key i"

definition verify_snapshot_sig :: "signing_prims \<Rightarrow> bytes \<Rightarrow> bytes \<Rightarrow> bytes \<Rightarrow> bool" where
  "verify_snapshot_sig sg signer i sig = verify_id sg SIG_DOMAIN signer i sig"

definition sign_transcript_id :: "signing_prims \<Rightarrow> bytes \<Rightarrow> bytes \<Rightarrow> bytes" where
  "sign_transcript_id sg key i = sign_id sg TRANSCRIPT_SIG_DOMAIN key i"

definition verify_transcript_sig :: "signing_prims \<Rightarrow> bytes \<Rightarrow> bytes \<Rightarrow> bytes \<Rightarrow> bool" where
  "verify_transcript_sig sg signer i sig = verify_id sg TRANSCRIPT_SIG_DOMAIN signer i sig"

definition drop_digest :: "ext \<Rightarrow> object_id \<Rightarrow> bytes" where
  "drop_digest e tomb = blake3 e (str_bytes DROP_AGENT @ id_bytes tomb)"

section \<open>Which signatures the index takes\<close>

definition valid_for :: "ext \<Rightarrow> signing_prims \<Rightarrow> signature_obj \<Rightarrow> object \<Rightarrow> bool" where
  "valid_for e sg sig ob = (case ob of
     Snapshot _ \<Rightarrow> verify_snapshot_sig sg (si_signer sig) (id_bytes (si_snapshot sig)) (si_sig sig)
   | Transcript t \<Rightarrow>
       if dropped_id e t \<noteq> None then verify_transcript_sig sg (si_signer sig) (drop_digest e (si_snapshot sig)) (si_sig sig)
       else verify_transcript_sig sg (si_signer sig) (id_bytes (si_snapshot sig)) (si_sig sig)
   | _ \<Rightarrow> False)"

definition acceptable :: "ext \<Rightarrow> signing_prims \<Rightarrow> signature_obj \<Rightarrow> bool repo_op" where
  "acceptable e sg sig st =
     (if \<not> contains e (si_snapshot sig) st then (Inr False, st)
      else bindS (liftR (get e (si_snapshot sig))) (\<lambda>ob. returnS (valid_for e sg sig ob)) st)"

fun verify_incoming :: "ext \<Rightarrow> signing_prims \<Rightarrow> object_id list \<Rightarrow> sig_entry list repo_op" where
  "verify_incoming e sg [] st = (Inr [], st)"
| "verify_incoming e sg (i # is) st =
     bindS (liftR (get e i)) (\<lambda>ob.
     bindS (case ob of Signature sig \<Rightarrow> bindS (acceptable e sg sig) (\<lambda>ok. returnS (if ok then [(si_snapshot sig, i, si_signer sig)] else []))
            | _ \<Rightarrow> returnS []) (\<lambda>new.
     bindS (verify_incoming e sg is) (\<lambda>rest. returnS (new @ rest)))) st"

section \<open>The import of an older index\<close>

definition SIGNATURES_LEGACY :: string where "SIGNATURES_LEGACY = ''signatures''"

definition permanent :: "repo_error \<Rightarrow> bool" where
  "permanent err = (case err of
     CorruptObject _ \<Rightarrow> True
   | RCore c \<Rightarrow> (case c of NotFound _ \<Rightarrow> True | Malformed _ \<Rightarrow> True | WrongKind _ _ \<Rightarrow> True | PackCorrupt _ \<Rightarrow> True | BadPackIndex _ \<Rightarrow> True
       | _ \<Rightarrow> False)
   | _ \<Rightarrow> False)"

definition migration_pending :: "sc_dir \<Rightarrow> bool" where
  "migration_pending d \<longleftrightarrow> file_exists SIGNATURES_LEGACY d \<and> \<not> file_exists SIGNATURES d"

definition legacy_line :: "ext \<Rightarrow> string \<Rightarrow> (object_id \<times> object_id) option" where
  "legacy_line e line = (case words line of
     [t, i] \<Rightarrow> (case (word_id e t, word_id e i) of (Some target, Some sid) \<Rightarrow> Some (target, sid) | _ \<Rightarrow> None)
   | _ \<Rightarrow> None)"

definition checked_signer :: "ext \<Rightarrow> signing_prims \<Rightarrow> object_id \<Rightarrow> object_id \<Rightarrow> bytes option repo_op" where
  "checked_signer e sg target i =
     bindS (liftR (get e i)) (\<lambda>ob. case ob of
       Signature sig \<Rightarrow>
         if si_snapshot sig = target then bindS (acceptable e sg sig) (\<lambda>ok. returnS (if ok then Some (si_signer sig) else None))
         else returnS None
     | _ \<Rightarrow> returnS None)"

fun migrate_entries :: "ext \<Rightarrow> signing_prims \<Rightarrow> (object_id \<times> object_id) list \<Rightarrow> (object_id \<times> bytes) set \<Rightarrow> sig_entry list repo_op" where
  "migrate_entries e sg [] slots st = (Inr [], st)"
| "migrate_entries e sg ((target, i) # ls) slots st =
     (case checked_signer e sg target i st of
        (Inr (Some signer), st) \<Rightarrow>
          if (target, signer) \<in> slots then migrate_entries e sg ls slots st
          else bindS (migrate_entries e sg ls (insert (target, signer) slots)) (\<lambda>ens. returnS ((target, i, signer) # ens)) st
      | (Inr None, st) \<Rightarrow> migrate_entries e sg ls slots st
      | (Inl err, st) \<Rightarrow> if permanent err then migrate_entries e sg ls slots st else (Inl err, st))"

text \<open>Operations on a store and the files beside it.\<close>

type_synonym 'a wc_op = "store \<times> sc_dir \<Rightarrow> (repo_error + 'a) \<times> store \<times> sc_dir"

definition on_store :: "'a repo_op \<Rightarrow> 'a wc_op" where
  "on_store m s = (case m (fst s) of (r, st) \<Rightarrow> (r, st, snd s))"

definition on_dir :: "'a dir_op \<Rightarrow> 'a wc_op" where
  "on_dir m s = (case m (snd s) of (r, d) \<Rightarrow> (r, fst s, d))"

definition migrate_legacy :: "ext \<Rightarrow> signing_prims \<Rightarrow> unit wc_op" where
  "migrate_legacy e sg s =
     (if file_exists SIGNATURES (snd s) \<or> \<not> file_exists SIGNATURES_LEGACY (snd s) then (Inr (), s)
      else bindS (liftE (read_text SIGNATURES_LEGACY (snd s))) (\<lambda>t. case t of
        None \<Rightarrow> returnS ()
      | Some text \<Rightarrow>
          bindS (on_store (migrate_entries e sg (List.map_filter (legacy_line e) (str_lines text)) {})) (\<lambda>ens.
          on_dir (\<lambda>d. (Inr (), write_signatures e ens d)))) s)"

definition append_entries :: "ext \<Rightarrow> signing_prims \<Rightarrow> sig_entry list \<Rightarrow> unit wc_op" where
  "append_entries e sg new s =
     (if new = [] then (Inr (), s) else bindS (migrate_legacy e sg) (\<lambda>_. on_dir (append_signatures e new)) s)"

definition append_index :: "ext \<Rightarrow> signing_prims \<Rightarrow> object_id \<Rightarrow> unit wc_op" where
  "append_index e sg i =
     bindS (on_store (liftR (get e i))) (\<lambda>ob. case ob of
       Signature sig \<Rightarrow>
         bindS (on_store (acceptable e sg sig)) (\<lambda>ok.
           if \<not> ok then failS (InvalidArgument ''signature does not verify for its target'')
           else append_entries e sg [(si_snapshot sig, i, si_signer sig)])
     | _ \<Rightarrow> failS (InvalidArgument ''not a signature object''))"

text \<open>Signing a snapshot: \<^verbatim>\<open>manifest_at\<close> refuses the manifest of a private branch.\<close>

definition sign_snapshot :: "ext \<Rightarrow> signing_prims \<Rightarrow> object_id \<Rightarrow> identity \<Rightarrow> object_id wc_op" where
  "sign_snapshot e sg snapshot who =
     bindS (on_store (liftR (get e snapshot))) (\<lambda>ob. case ob of
       Manifest _ \<Rightarrow> failS (PrivateUnsupported ''sc sign'')
     | _ \<Rightarrow> (case idn_signing who of
         None \<Rightarrow> failS (InvalidArgument ''identity has no signing half'')
       | Some key \<Rightarrow>
           bindS (on_store (liftR (put e (Signature \<lparr>si_snapshot = snapshot, si_signer = sg_public sg key,
             si_sig = sign_snapshot_id sg key (id_bytes snapshot)\<rparr>)))) (\<lambda>i.
           bindS (append_index e sg i) (\<lambda>_. returnS i))))"

section \<open>The rebuild\<close>

record sig_scan =
  sc_seen :: "object_id set"
  sc_waiting :: "object_id list"
  sc_entries :: "sig_entry list"

fun scan_signatures :: "ext \<Rightarrow> signing_prims \<Rightarrow> object_id list \<Rightarrow> sig_scan \<Rightarrow> sig_scan repo_op" where
  "scan_signatures e sg [] sc st = (Inr sc, st)"
| "scan_signatures e sg (i # is) sc st =
     bindS (liftR (get e i)) (\<lambda>ob.
     bindS (case ob of
         Signature sig \<Rightarrow> (\<lambda>st.
           if \<not> contains e (si_snapshot sig) st then (Inr (sc\<lparr>sc_waiting := sc_waiting sc @ [i]\<rparr>), st)
           else bindS (acceptable e sg sig) (\<lambda>ok. returnS
             (if ok then sc\<lparr>sc_entries := sc_entries sc @ [(si_snapshot sig, i, si_signer sig)]\<rparr> else sc)) st)
       | _ \<Rightarrow> returnS sc) (scan_signatures e sg is)) st"

definition scan_new :: "ext \<Rightarrow> signing_prims \<Rightarrow> sig_scan \<Rightarrow> (bool \<times> sig_scan) repo_op" where
  "scan_new e sg sc st =
     (let new = filter (\<lambda>i. i \<notin> sc_seen sc) (all_ids e st) in
      bindS (scan_signatures e sg (new @ sc_waiting sc) (sc\<lparr>sc_seen := sc_seen sc \<union> set new, sc_waiting := []\<rparr>))
        (\<lambda>sc. returnS (new \<noteq> [], sc)) st)"

definition CATCH_UP_PASSES :: nat where "CATCH_UP_PASSES = 4"

fun catch_up :: "nat \<Rightarrow> ext \<Rightarrow> signing_prims \<Rightarrow> sig_scan \<Rightarrow> sig_scan repo_op" where
  "catch_up 0 e sg sc st = (Inr sc, st)"
| "catch_up (Suc n) e sg sc st = bindS (scan_new e sg sc) (\<lambda>(more, sc). if more then catch_up n e sg sc else returnS sc) st"

fun dedup_slots :: "sig_entry list \<Rightarrow> sig_entry list" where
  "dedup_slots ((t, s, k) # (t', s', k') # ens) =
     (if t = t' \<and> k = k' then dedup_slots ((t, s, k) # ens) else (t, s, k) # dedup_slots ((t', s', k') # ens))"
| "dedup_slots ens = ens"

definition by_slot :: "sig_entry list \<Rightarrow> sig_entry list" where
  "by_slot ens = dedup_slots (sort_key (\<lambda>(t, s, k). (t, k, s)) ens)"

text \<open>The passes without the lock, then one under it; the hooks of the tests do nothing.\<close>

definition reindex :: "ext \<Rightarrow> signing_prims \<Rightarrow> nat wc_op" where
  "reindex e sg =
     bindS (on_store (scan_new e sg \<lparr>sc_seen = {}, sc_waiting = [], sc_entries = []\<rparr>)) (\<lambda>(_, sc).
     bindS (on_store (catch_up CATCH_UP_PASSES e sg sc)) (\<lambda>sc.
     bindS (on_store (scan_new e sg sc)) (\<lambda>(_, sc). let ens = by_slot (sc_entries sc) in
     on_dir (\<lambda>d. (Inr (length ens), write_signatures e ens d)))))"

section \<open>Reading the index\<close>

record sig_index =
  sx_signed :: "object_id set"
  sx_by_signer :: "(object_id \<times> bytes) \<rightharpoonup> object_id"

fun index_entries :: "object_id set option \<Rightarrow> bytes set \<Rightarrow> sig_entry list \<Rightarrow> sig_index \<Rightarrow> sig_index" where
  "index_entries targets signers [] ix = ix"
| "index_entries targets signers ((t, s, k) # ens) ix =
     index_entries targets signers ens
       (if (case targets of Some ts \<Rightarrow> t \<notin> ts | None \<Rightarrow> False) then ix
        else let ix = ix\<lparr>sx_signed := insert t (sx_signed ix)\<rparr> in
          if k \<in> signers then ix\<lparr>sx_by_signer := (sx_by_signer ix)((t, k) \<mapsto> s)\<rparr> else ix)"

definition load_sig_index :: "ext \<Rightarrow> object_id set option \<Rightarrow> bytes set \<Rightarrow> sc_dir \<Rightarrow> repo_error + sig_index" where
  "load_sig_index e targets signers d = bindE (read_signatures e d) (\<lambda>ens.
     Inr (index_entries targets signers ens \<lparr>sx_signed = {}, sx_by_signer = Map.empty\<rparr>))"

definition indexed_signature_ids_for :: "ext \<Rightarrow> object_id list \<Rightarrow> sc_dir \<Rightarrow> repo_error + object_id list" where
  "indexed_signature_ids_for e snapshots d = bindE (read_signatures e d) (\<lambda>ens.
     Inr (sorted_list_of_set ((\<lambda>(t, s, k). s) ` {en \<in> set ens. fst en \<in> set snapshots})))"

datatype sig_status = Trusted string | Untrusted bytes | Invalid | Unsigned

text \<open>\<open>None\<close> is the panic of the \<^verbatim>\<open>unreachable!\<close> at the end.\<close>

fun status_loop :: "(bytes \<Rightarrow> bytes \<Rightarrow> bool) \<Rightarrow> (bytes \<rightharpoonup> string) \<Rightarrow> signature_obj list \<Rightarrow> string option \<Rightarrow> bytes option \<Rightarrow> sig_status option" where
  "status_loop ver trust [] trusted_name untrusted_signer =
     (case trusted_name of Some n \<Rightarrow> Some (Trusted n) | None \<Rightarrow> map_option Untrusted untrusted_signer)"
| "status_loop ver trust (s # ss) trusted_name untrusted_signer =
     (if \<not> ver (si_signer s) (si_sig s) then Some Invalid
      else case trust (si_signer s) of
        Some n \<Rightarrow> status_loop ver trust ss (if trusted_name = None then Some n else trusted_name) untrusted_signer
      | None \<Rightarrow> status_loop ver trust ss trusted_name (if untrusted_signer = None then Some (si_signer s) else untrusted_signer))"

definition status_from :: "(bytes \<Rightarrow> bytes \<Rightarrow> bytes \<Rightarrow> bool) \<Rightarrow> object_id \<Rightarrow> (bytes \<rightharpoonup> string) \<Rightarrow> signature_obj list \<Rightarrow> sig_status option" where
  "status_from ver target trust sigs =
     (if sigs = [] then Some Unsigned else status_loop (\<lambda>k s. ver k (id_bytes target) s) trust sigs None None)"

fun load_signatures :: "ext \<Rightarrow> object_id list \<Rightarrow> signature_obj list repo_op" where
  "load_signatures e [] st = (Inr [], st)"
| "load_signatures e (i # is) st =
     bindS (liftR (get e i)) (\<lambda>ob. case ob of
       Signature s \<Rightarrow> bindS (load_signatures e is) (\<lambda>ss. returnS (s # ss))
     | _ \<Rightarrow> failS (InvalidArgument ''signature index entry does not resolve to a signature object'')) st"

definition signatures_for :: "ext \<Rightarrow> object_id \<Rightarrow> signature_obj list wc_op" where
  "signatures_for e snapshot s =
     bindS (liftE (read_signatures e (snd s))) (\<lambda>ens.
       on_store (load_signatures e (map (fst \<circ> snd) (filter (\<lambda>en. fst en = snapshot) ens)))) s"

definition snapshot_sig_status :: "ext \<Rightarrow> signing_prims \<Rightarrow> object_id \<Rightarrow> (bytes \<rightharpoonup> string) \<Rightarrow> sig_status option wc_op" where
  "snapshot_sig_status e sg snapshot trust =
     bindS (signatures_for e snapshot) (\<lambda>sigs. returnS (status_from (verify_snapshot_sig sg) snapshot trust sigs))"

end
