(* ===== verification/Signatures_Correct.thy ===== *)
theory Signatures_Correct
  imports Signatures Vfs_Correct Oplog_Correct
begin

text \<open>
  Index files read back what was written, also after a torn append, and the signature index is sound:
  every entry names a held signature that verifies for a held target.
\<close>

section \<open>Words\<close>

lemma char_of_eqs:
  "(cr = char_of n) = ((n :: nat) mod 256 = 13)" "(char_of n = cr) = ((n :: nat) mod 256 = 13)"
  "(CHR '' '' = char_of n) = ((n :: nat) mod 256 = 32)" "(char_of n = CHR '' '') = ((n :: nat) mod 256 = 32)"
proof -
  have "(char_of n = c) = (n mod 256 = of_char c)" for c by (metis char_of_char char_of_mod_256 of_char_of)
  moreover have "(of_char cr :: nat) = 13" "(of_char (CHR '' '') :: nat) = 32" by (simp_all add: cr_def)
  ultimately show "(cr = char_of n) = ((n :: nat) mod 256 = 13)" "(char_of n = cr) = ((n :: nat) mod 256 = 13)"
    "(CHR '' '' = char_of n) = ((n :: nat) mod 256 = 32)" "(char_of n = CHR '' '') = ((n :: nat) mod 256 = 32)" by metis+
qed

lemma white_space_chars:
  "list_all (\<lambda>w. w = [cr] \<or> last w \<noteq> cr) white_space" "list_ex (\<lambda>w. w = [cr]) white_space" "list_ex (\<lambda>w. w = '' '') white_space"
  "List.find (\<lambda>w. w \<noteq> [] \<and> prefix w [cr]) white_space = Some [cr]" "List.find (\<lambda>w. w \<noteq> [] \<and> prefix w [CHR '' '']) white_space = Some '' ''"
  by (simp_all add: white_space_def utf8_of_def char_of_eqs)

lemma white_space_mem: "[cr] \<in> set white_space" "'' '' \<in> set white_space"
  using white_space_chars(2,3) by (simp_all add: list_ex_iff)

lemma prefix_cr: "w \<in> set white_space \<Longrightarrow> s \<noteq> [] \<Longrightarrow> prefix w (s @ [cr]) \<longleftrightarrow> prefix w s"
proof -
  assume w: "w \<in> set white_space" "s \<noteq> []"
  have "w = s @ [cr] \<Longrightarrow> False"
  proof -
    assume eq: "w = s @ [cr]"
    with w white_space_chars(1) show False by (auto simp: list_all_iff)
  qed
  then show ?thesis by (auto simp: prefix_snoc)
qed

lemma span_word_cr: "span_word (s @ [cr]) = (fst (span_word s), snd (span_word s) @ [cr])"
proof (induction s)
  case Nil
  have "list_ex (\<lambda>w. prefix w [cr]) white_space" by (auto simp: list_ex_iff intro: bexI [OF _ white_space_mem(1)])
  then show ?case by simp
next
  case (Cons c s)
  have "list_ex (\<lambda>w. prefix w (c # s @ [cr])) white_space = list_ex (\<lambda>w. prefix w (c # s)) white_space"
    using prefix_cr [of _ "c # s"] by (auto simp: list_ex_iff)
  with Cons show ?case by (auto split: prod.splits)
qed

lemma trim_start_cr: "trim_start (s @ [cr]) = (if trim_start s = [] then [] else trim_start s @ [cr])"
  unfolding trim_start_def
proof (induction white_space s rule: strip_front.induct)
  case (1 s)
  show ?case
  proof (cases "s = []")
    case True
    have "strip_front white_space [] = []" by (rule strip_front_stop) simp
    then show ?thesis using True white_space_chars(4) by (subst strip_front.simps) simp
  next
    case False
    have eq: "List.find (\<lambda>w. w \<noteq> [] \<and> prefix w (s @ [cr])) white_space = List.find (\<lambda>w. w \<noteq> [] \<and> prefix w s) white_space"
      by (rule find_cong) (use prefix_cr False in auto)
    show ?thesis
    proof (cases "List.find (\<lambda>w. w \<noteq> [] \<and> prefix w s) white_space")
      case None
      then have "strip_front white_space s = s" "strip_front white_space (s @ [cr]) = s @ [cr]"
        using eq by (subst strip_front.simps, simp)+
      then show ?thesis using False by simp
    next
      case (Some w)
      then have "prefix w s" by (auto simp: find_Some_iff)
      then have "drop (length w) (s @ [cr]) = drop (length w) s @ [cr]" by (auto simp: prefix_def)
      with Some eq have "strip_front white_space (s @ [cr]) = strip_front white_space (drop (length w) s @ [cr])"
        "strip_front white_space s = strip_front white_space (drop (length w) s)"
        by (subst strip_front.simps, simp)+
      with 1 [OF Some] show ?thesis by simp
    qed
  qed
qed

lemma words_cr: "words (s @ [cr]) = words s"
proof (induction s rule: words.induct)
  case (1 s)
  obtain w rest where sp: "span_word (trim_start s) = (w, rest)" by fastforce
  show ?case
  proof (cases "trim_start s = []")
    case True
    then show ?thesis by (subst (1 2) words.simps) (simp add: trim_start_cr)
  next
    case False
    have "span_word (trim_start (s @ [cr])) = (w, rest @ [cr])" using sp False span_word_cr [of "trim_start s"] by (simp add: trim_start_cr)
    moreover have "w \<noteq> [] \<Longrightarrow> words (rest @ [cr]) = words rest" using 1 sp by auto
    ultimately show ?thesis using sp by (subst (1 2) words.simps) simp
  qed
qed

lemma graphic_no_space: "list_all graphic (c # s) \<Longrightarrow> w \<in> set white_space \<Longrightarrow> \<not> prefix w (c # s @ t)"
  using white_space_heads [of w] white_space_nonempty [of w] prefix_hd [of w "c # s @ t"] by auto

lemma span_word_graphic:
  assumes "list_all graphic w" "s = [] \<or> (\<exists>x \<in> set white_space. prefix x s)"
  shows "span_word (w @ s) = (w, s)"
  using assms(1)
proof (induction w)
  case Nil
  show ?case
  proof (cases s)
    case (Cons c t)
    then show ?thesis using assms(2) by (auto simp: list_ex_iff)
  qed simp
next
  case (Cons c w)
  have "\<not> list_ex (\<lambda>x. prefix x (c # w @ s)) white_space" using graphic_no_space [OF Cons.prems] by (auto simp: list_ex_iff)
  with Cons show ?case by simp
qed

lemma words_graphic:
  assumes "list_all graphic w" "w \<noteq> []" "s = [] \<or> (\<exists>x \<in> set white_space. prefix x s)"
  shows "words (w @ s) = w # words s"
proof -
  have "graphic (hd (w @ s))" using assms(1,2) by (cases w) auto
  then have "trim_start (w @ s) = w @ s" by (intro trim_start_graphic) simp
  with span_word_graphic [OF assms(1,3)] assms(2) show ?thesis by (subst words.simps) simp
qed

lemma words_Nil [simp]: "words [] = []"
  by (subst words.simps) (simp add: trim_start_graphic)

text \<open>White space whose first byte is a space is just the space.\<close>

lemma white_space_heads_space: "list_all (\<lambda>w. w \<noteq> [] \<and> (hd w = CHR '' '' \<longrightarrow> w = '' '')) white_space"
  by (simp add: white_space_def utf8_of_def char_of_eqs)

lemma first_char: "List.find (\<lambda>x. x \<noteq> [] \<and> prefix x ('' '' @ s)) white_space = List.find (\<lambda>x. x \<noteq> [] \<and> prefix x '' '') white_space"
proof (rule find_cong)
  fix x assume "x \<in> set white_space"
  then have "x \<noteq> [] \<and> (hd x = CHR '' '' \<longrightarrow> x = '' '')" using white_space_heads_space by (simp add: list_all_iff)
  then show "(x \<noteq> [] \<and> prefix x ('' '' @ s)) = (x \<noteq> [] \<and> prefix x '' '')" by (cases x) auto
qed simp

lemma words_space:
  assumes "list_all graphic w" "w \<noteq> []"
  shows "words ('' '' @ w @ s) = words (w @ s)"
proof -
  have "List.find (\<lambda>x. x \<noteq> [] \<and> prefix x ('' '' @ w @ s)) white_space = Some '' ''"
    using white_space_chars(5) first_char [of "w @ s"] by simp
  then have "trim_start ('' '' @ w @ s) = trim_start (w @ s)"
    unfolding trim_start_def by (subst strip_front.simps) simp
  then show ?thesis by (subst (1 2) words.simps) simp
qed

lemma words_line:
  assumes "list_all (\<lambda>w. list_all graphic w \<and> w \<noteq> []) (w # ws)"
  shows "words (w @ concat (map (\<lambda>x. '' '' @ x) ws)) = w # ws"
  using assms
proof (induction ws arbitrary: w)
  case Nil
  then show ?case using words_graphic [of w "[]"] by simp
next
  case (Cons v ws)
  let ?r = "v @ concat (map (\<lambda>x. '' '' @ x) ws)"
  have "\<exists>x \<in> set white_space. prefix x ('' '' @ ?r)" using white_space_mem(2) by (intro bexI [of _ "'' ''"]) simp_all
  then have "words (w @ '' '' @ ?r) = w # words ('' '' @ ?r)" using Cons.prems by (intro words_graphic) auto
  moreover have "words ('' '' @ ?r) = words ?r" using Cons.prems by (intro words_space) auto
  ultimately show ?case using Cons.IH [of v] Cons.prems by simp
qed

section \<open>Files of lines\<close>

lemma split_inclusive_torn:
  "c \<noteq> [] \<Longrightarrow> last c \<noteq> nl \<Longrightarrow> \<exists>ls p. split_inclusive c = ls @ [p] \<and> nl \<notin> set p \<and> (\<forall>s. split_inclusive (c @ nl # s) = ls @ (p @ [nl]) # split_inclusive s)"
proof (induction c)
  case (Cons a c)
  show ?case
  proof (cases "c = []")
    case True
    with Cons.prems show ?thesis by (intro exI [of _ "[]"] exI [of _ "[a]"]) simp
  next
    case False
    with Cons obtain ls p where i: "split_inclusive c = ls @ [p]" "nl \<notin> set p" "\<forall>s. split_inclusive (c @ nl # s) = ls @ (p @ [nl]) # split_inclusive s"
      by auto
    show ?thesis
    proof (cases "a = nl")
      case True
      with i show ?thesis by (intro exI [of _ "[a] # ls"] exI [of _ p]) simp
    next
      case a: False
      show ?thesis
      proof (cases ls)
        case Nil
        with i a show ?thesis by (intro exI [of _ "[]"] exI [of _ "a # p"]) simp
      next
        case (Cons l ls')
        with i a show ?thesis by (intro exI [of _ "(a # l) # ls'"] exI [of _ p]) simp
      qed
    qed
  qed
qed simp

text \<open>Lines appended after a torn one, which is ended first, are read; the torn one is read as before.\<close>

lemma map_filter_append: "List.map_filter f (xs @ ys) = List.map_filter f xs @ List.map_filter f ys"
  by (simp add: List.map_filter_def)

lemma appended_lines:
  assumes "list_all plain_line ls" "\<And>l. parse (l @ [cr]) = parse l"
  shows "List.map_filter parse (str_lines (c @ fresh_line c @ unlines ls)) = List.map_filter parse (str_lines c) @ List.map_filter parse ls"
proof -
  have u: "map line_of (split_inclusive (unlines ls)) = ls" using lines_unlines [OF assms(1)] by (simp add: str_lines_def)
  show ?thesis
  proof (cases "c = [] \<or> last c = nl")
    case True
    then show ?thesis by (auto simp: str_lines_def fresh_line_def split_inclusive_append map_filter_append u)
  next
    case False
    then obtain l p where s: "split_inclusive c = l @ [p]" "nl \<notin> set p" "\<forall>s. split_inclusive (c @ nl # s) = l @ (p @ [nl]) # split_inclusive s"
      using split_inclusive_torn [of c] by auto
    have "last p \<noteq> nl" if "p \<noteq> []" using s(2) last_in_set [OF that] by metis
    then have p: "line_of p = p" by (auto simp: line_of_def)
    have "parse (line_of (p @ [nl])) = parse p"
      using assms(2) [of "butlast p"] append_butlast_last_id [of p]
      by (cases "p = []"; cases "last p = cr") (auto simp: line_of_def strip_suffix_def)
    then have "List.map_filter parse [line_of (p @ [nl])] = List.map_filter parse [line_of p]" using p by (simp add: List.map_filter_def)
    with False s show ?thesis using map_filter_append [of parse "[line_of (p @ [nl])]" ls]
      by (simp add: str_lines_def fresh_line_def map_filter_append u del: List.map_filter_simps)
  qed
qed

section \<open>Signature lines\<close>

definition sig_entry_ok :: "sig_entry \<Rightarrow> bool" where
  "sig_entry_ok en = (case en of (t, s, k) \<Rightarrow> id_ok t \<and> id_ok s \<and> length k = 32)"

lemma word_id_hex: "hex_ok e \<Longrightarrow> id_ok i \<Longrightarrow> word_id e (id_to_hex e i) = Some i"
  by (simp add: word_id_def id_from_str_to_hex)

lemma word_id_ok: "word_id e w = Some i \<Longrightarrow> id_ok i"
  by (auto simp: word_id_def id_from_str_ok split: sum.splits)

lemma parse_sig_line_ok: "parse_sig_line e l = Some en \<Longrightarrow> sig_entry_ok en"
  by (auto simp: parse_sig_line_def sig_entry_ok_def word_id_ok split: list.splits option.splits if_splits)

lemma parse_sig_line_cr: "parse_sig_line e (l @ [cr]) = parse_sig_line e l"
  by (simp add: parse_sig_line_def words_cr)

abbreviation hexes :: "ext \<Rightarrow> bool" where
  "hexes e \<equiv> hex_ok e \<and> hex_plain e"

lemma hex_nonempty: "hex_ok e \<Longrightarrow> b \<noteq> [] \<Longrightarrow> hex_encode e b \<noteq> []"
  by (metis hex_ok_def length_0_conv mult_eq_0_iff zero_neq_numeral)

lemma parse_sig_line_line:
  assumes "hexes e" "sig_entry_ok en"
  shows "parse_sig_line e (sig_line e en) = Some en"
proof -
  have hx: "hex_ok e" "hex_plain e" using assms(1) by simp_all
  obtain t s k where en: "en = (t, s, k)" "id_ok t" "id_ok s" "length k = 32" using assms(2) by (cases en) (auto simp: sig_entry_ok_def)
  have ne: "id_bytes t \<noteq> []" "id_bytes s \<noteq> []" "k \<noteq> []" using en by (auto simp: id_ok_def)
  have "words (id_to_hex e t @ concat (map (\<lambda>x. '' '' @ x) [id_to_hex e s, hex_encode e k])) = [id_to_hex e t, id_to_hex e s, hex_encode e k]"
    by (rule words_line) (use ne hex_nonempty [OF hx(1)] hx(2) in \<open>simp add: id_to_hex_def hex_plain_def\<close>)
  then have "words (sig_line e en) = [id_to_hex e t, id_to_hex e s, hex_encode e k]" by (simp add: sig_line_def en(1))
  moreover have "hex_decode e (hex_encode e k) = Some k" using hx(1) by (simp add: hex_ok_def)
  ultimately show ?thesis using en hx(1) by (simp add: parse_sig_line_def word_id_hex)
qed

lemma sig_line_plain:
  assumes "hexes e"
  shows "plain_line (sig_line e en) \<and> str_ok (sig_line e en)"
proof -
  obtain t s k where en: "en = (t, s, k)" by (cases en)
  have g: "list_all graphic (id_to_hex e t)" "list_all graphic (id_to_hex e s)" "list_all graphic (hex_encode e k)"
    using assms id_hex_graphic [of e] by (simp_all add: hex_plain_def)
  have "plain_line (sig_line e en)"
    using graphic_plain [OF g(1)] graphic_plain [OF g(2)]
      plain_line_append [OF _ _ graphic_line [OF g(3)], of "id_to_hex e t @ '' '' @ id_to_hex e s @ '' ''"]
    by (simp add: sig_line_def en nl_def cr_def)
  moreover have "str_ok (sig_line e en)"
    using str_ok_graphic [OF g(1)] str_ok_graphic [OF g(2)] str_ok_graphic [OF g(3)]
    by (simp add: sig_line_def en str_ok_append str_ok_Cons)
  ultimately show ?thesis by simp
qed

lemma sig_lines_plain: "hexes e \<Longrightarrow> list_all plain_line (map (sig_line e) ens)" "hexes e \<Longrightarrow> str_ok (unlines (map (sig_line e) ens))"
  using sig_line_plain by (auto simp: list_all_iff intro!: str_ok_unlines)

lemma sig_lines_parse: "hexes e \<Longrightarrow> list_all sig_entry_ok ens \<Longrightarrow> List.map_filter (parse_sig_line e) (map (sig_line e) ens) = ens"
  by (induction ens) (auto simp: parse_sig_line_line List.map_filter_simps)

lemma read_after_set: "str_ok text \<Longrightarrow> read_signatures e (set_file SIGNATURES text d) = Inr (List.map_filter (parse_sig_line e) (str_lines text))"
  by (simp add: read_signatures_def read_lines_def read_text_def set_file_def update_conv_fun from_utf8_str_bytes)

lemma read_write_signatures: "hexes e \<Longrightarrow> list_all sig_entry_ok ens \<Longrightarrow> read_signatures e (write_signatures e ens d) = Inr ens"
  using sig_lines_plain by (simp add: write_signatures_def read_after_set lines_unlines sig_lines_parse)

lemma new_slots_sub: "set (new_slots slots ens) \<subseteq> set ens"
  by (induction slots ens rule: new_slots.induct) auto

text \<open>An append adds the entries of free slots behind those that were there.\<close>

lemma append_signatures_read:
  assumes "list_all sig_entry_ok new" "append_signatures e new d = (r, d')" "read_signatures e d = Inr old" "hexes e"
  shows "r = Inr () \<and> read_signatures e d' = Inr (old @ new_slots ((\<lambda>(t, _, k). (t, k)) ` set old) new)"
proof (cases "new = []")
  case True
  with assms show ?thesis by (auto simp: append_signatures_def)
next
  case False
  obtain t where t: "read_text SIGNATURES d = Inr t" and old: "old = (case t of None \<Rightarrow> [] | Some text \<Rightarrow> List.map_filter (parse_sig_line e) (str_lines text))"
    using assms(3) by (auto simp: read_signatures_def read_lines_def bindE_eq_Inr)
  let ?c = "case t of None \<Rightarrow> [] | Some s \<Rightarrow> s"
  let ?added = "new_slots ((\<lambda>(t, _, k). (t, k)) ` set (List.map_filter (parse_sig_line e) (str_lines ?c))) new"
  have old': "old = List.map_filter (parse_sig_line e) (str_lines ?c)" using old by (cases t) (auto simp: str_lines_def List.map_filter_simps)
  have ok: "list_all sig_entry_ok ?added" using assms(1) new_slots_sub by (fastforce simp: list_all_iff)
  have run: "append_signatures e new d = (Inr (), if ?added = [] then d
      else set_file SIGNATURES (?c @ fresh_line ?c @ unlines (map (sig_line e) ?added)) d)"
    using False t by (simp add: append_signatures_def Let_def)
  have c: "str_ok ?c" using t by (cases t) (auto simp: read_text_def from_utf8_def str_ok_def [of "bytes_str _"] split: option.splits if_splits)
  have "str_ok (?c @ fresh_line ?c @ unlines (map (sig_line e) ?added))"
    using c sig_lines_plain(2) [OF assms(4)] by (simp add: str_ok_append fresh_line_def str_ok_nl)
  note rd = read_after_set [OF this, of e d]
  note al = appended_lines [OF sig_lines_plain(1) [OF assms(4)], of "parse_sig_line e" ?c ?added, OF parse_sig_line_cr]
  have "read_signatures e (set_file SIGNATURES (?c @ fresh_line ?c @ unlines (map (sig_line e) ?added)) d) = Inr (old @ ?added)"
    unfolding rd al old' sig_lines_parse [OF assms(4) ok] by simp
  with run assms(2,3) show ?thesis unfolding old' [symmetric] by (cases "?added = []") simp_all
qed

end
