(* ===== verification/Reachable_Correct.thy ===== *)
theory Reachable_Correct
  imports Reachable Worklist
begin

text \<open>
  Reachability computes the objects that the tips need: the least set that holds the tips and, with an
  object, everything the object names. The contract \<open>object_graph\<close> is what the walk needs of a source;
  the store and the presence walk over it are its instances.
\<close>

section \<open>References\<close>

text \<open>What an object names: further snapshots or manifests, trees, and objects that are never decoded.\<close>

definition snap_refs :: "object \<Rightarrow> object_id set" where
  "snap_refs ob = (case ob of Snapshot s \<Rightarrow> set (sn_parents s)
     | Manifest m \<Rightarrow> insert (bm_base m) (set (bm_anchors m)) \<union> set_option (bm_prev m) | _ \<Rightarrow> {})"

definition tree_refs :: "object \<Rightarrow> object_id set" where
  "tree_refs ob = (case ob of Snapshot s \<Rightarrow> {sn_root s} | Tree t \<Rightarrow> te_id ` {en \<in> set t. te_kind en = TreeKind} | _ \<Rightarrow> {})"

definition leaf_refs :: "object \<Rightarrow> object_id set" where
  "leaf_refs ob = (case ob of Snapshot s \<Rightarrow> snd ` set (sn_secrets s) | Manifest m \<Rightarrow> set (bm_closure m)
     | Tree t \<Rightarrow> te_id ` {en \<in> set t. te_kind en = BlobKind} | _ \<Rightarrow> {})"

definition refs :: "object \<Rightarrow> object_id set" where
  "refs ob = snap_refs ob \<union> tree_refs ob \<union> leaf_refs ob"

lemma refs_canon [simp]:
  "snap_refs (canon ob) = snap_refs ob" "tree_refs (canon ob) = tree_refs ob" "leaf_refs (canon ob) = leaf_refs ob"
  by (cases ob; simp add: canon_def snap_refs_def tree_refs_def leaf_refs_def sort_snapshot_def sort_manifest_def)+

lemma refs_Tree: "refs (Tree t) = te_id ` set t"
proof -
  have "te_kind en = TreeKind \<or> te_kind en = BlobKind" for en by (cases "te_kind en") auto
  then show ?thesis by (auto simp: refs_def snap_refs_def tree_refs_def leaf_refs_def)
qed

inductive_set live :: "(object_id \<rightharpoonup> object) \<Rightarrow> object_id set \<Rightarrow> object_id set" for obj tips where
  tip: "t \<in> tips \<Longrightarrow> t \<in> live obj tips"
| ref: "i \<in> live obj tips \<Longrightarrow> obj i = Some ob \<Longrightarrow> r \<in> refs ob \<Longrightarrow> r \<in> live obj tips"

definition snapish :: "object option \<Rightarrow> bool" where
  "snapish o' \<longleftrightarrow> (\<exists>s. o' = Some (Snapshot s)) \<or> (\<exists>m. o' = Some (Manifest m))"

definition treeish :: "object option \<Rightarrow> bool" where
  "treeish o' \<longleftrightarrow> (\<exists>t. o' = Some (Tree t))"

definition leafish :: "object option \<Rightarrow> bool" where
  "leafish o' \<longleftrightarrow> \<not> snapish o' \<and> \<not> treeish o'"

text \<open>Every reference names an object of the kind it says. Leaves may be absent; trees too, with gaps.\<close>

definition tree_ok :: "bool \<Rightarrow> object option \<Rightarrow> bool" where
  "tree_ok gap o' \<longleftrightarrow> treeish o' \<or> gap \<and> o' = None"

definition well_kinded :: "bool \<Rightarrow> (object_id \<rightharpoonup> object) \<Rightarrow> object_id set \<Rightarrow> bool" where
  "well_kinded gap obj tips \<longleftrightarrow> (\<forall>t \<in> tips. snapish (obj t) \<or> tree_ok gap (obj t)) \<and> (\<forall>i \<in> live obj tips. \<forall>ob. obj i = Some ob \<longrightarrow>
     (\<forall>r \<in> snap_refs ob. snapish (obj r)) \<and> (\<forall>r \<in> tree_refs ob. tree_ok gap (obj r)) \<and> (\<forall>r \<in> leaf_refs ob. leafish (obj r)))"

lemma leafish_refs: "leafish (Some ob) \<Longrightarrow> refs ob = {}"
  by (cases ob) (auto simp: leafish_def snapish_def treeish_def refs_def snap_refs_def tree_refs_def leaf_refs_def)

lemma live_closed:
  assumes "tips \<subseteq> X" "\<And>i ob. i \<in> X \<Longrightarrow> obj i = Some ob \<Longrightarrow> refs ob \<subseteq> X"
  shows "live obj tips \<subseteq> X"
proof
  fix i assume "i \<in> live obj tips"
  then show "i \<in> X" by (induction rule: live.induct) (use assms in blast)+
qed

section \<open>The contract of a source\<close>

locale object_graph =
  fixes S :: "'s object_source" and inv :: "'s \<Rightarrow> bool" and obj :: "object_id \<rightharpoonup> object" and tips :: "object_id set"
    and gap :: bool
  assumes serve: "\<And>i ob s. inv s \<Longrightarrow> obj i = Some ob \<Longrightarrow> snapish (Some ob) \<or> treeish (Some ob) \<Longrightarrow>
      \<exists>ob' s'. src_get S i s = (Inr ob', s') \<and> inv s' \<and> canon ob' = canon ob"
    and kinds: "well_kinded gap obj tips"
    and finite_obj: "finite (dom obj)"
begin

abbreviation "L \<equiv> live obj tips"

text \<open>The ids that the walk still has to read are those of \<open>pend\<close>; everything else it holds is expanded.\<close>

definition wf :: "object_id set \<Rightarrow> object_id set \<Rightarrow> bool" where
  "wf pend inc \<longleftrightarrow> pend \<subseteq> inc \<and> inc \<subseteq> L \<and> (\<forall>i \<in> inc - pend. \<forall>ob. obj i = Some ob \<longrightarrow> refs ob \<subseteq> inc)"

definition todo :: "object_id set \<Rightarrow> nat" where
  "todo inc = card {i \<in> L - inc. obj i \<noteq> None}"

lemma finite_todo: "finite {i \<in> L - inc. obj i \<noteq> None}"
  using finite_obj by (rule rev_finite_subset) auto

lemma todo_insert: "i \<in> L \<Longrightarrow> i \<notin> inc \<Longrightarrow> obj i \<noteq> None \<Longrightarrow> Suc (todo (insert i inc)) = todo inc"
proof -
  assume i: "i \<in> L" "i \<notin> inc" "obj i \<noteq> None"
  have "{j \<in> L - insert i inc. obj j \<noteq> None} = {j \<in> L - inc. obj j \<noteq> None} - {i}" by auto
  moreover have "i \<in> {j \<in> L - inc. obj j \<noteq> None}" using i by auto
  ultimately show ?thesis unfolding todo_def using card_Suc_Diff1 [OF finite_todo [of inc], of i] by metis
qed

lemma todo_mono: "inc \<subseteq> inc' \<Longrightarrow> todo inc' \<le> todo inc"
  unfolding todo_def by (rule card_mono [OF finite_todo]) auto

lemma todo_bound: "todo inc \<le> card (dom obj)"
  unfolding todo_def by (rule card_mono [OF finite_obj]) auto

lemma live_refs: "i \<in> L \<Longrightarrow> obj i = Some ob \<Longrightarrow> refs ob \<subseteq> L"
  by (auto intro: live.ref)

lemma live_kinds: "i \<in> L \<Longrightarrow> obj i = Some ob \<Longrightarrow> (\<forall>r \<in> snap_refs ob. snapish (obj r)) \<and> (\<forall>r \<in> tree_refs ob. tree_ok gap (obj r))
    \<and> (\<forall>r \<in> leaf_refs ob. leafish (obj r))"
  using kinds unfolding well_kinded_def by blast

lemma wf_leaves: "wf pend inc \<Longrightarrow> ls \<subseteq> L \<Longrightarrow> (\<And>r. r \<in> ls \<Longrightarrow> leafish (obj r)) \<Longrightarrow> wf pend (inc \<union> ls)"
proof -
  assume a: "wf pend inc" "ls \<subseteq> L" "\<And>r. r \<in> ls \<Longrightarrow> leafish (obj r)"
  have "refs ob \<subseteq> inc \<union> ls" if "i \<in> inc \<union> ls - pend" "obj i = Some ob" for i ob
  proof (cases "i \<in> ls")
    case True
    then show ?thesis using leafish_refs [of ob] a(3) [of i] that(2) by simp
  next
    case False
    then have "refs ob \<subseteq> inc" using a(1) that unfolding wf_def by blast
    then show ?thesis by blast
  qed
  with a show ?thesis by (auto simp: wf_def)
qed

lemma wf_pend: "wf pend inc \<Longrightarrow> p \<subseteq> L \<Longrightarrow> wf (pend \<union> (p - inc)) (inc \<union> p)"
  unfolding wf_def by blast

text \<open>An id leaves the pending set when everything it names is held.\<close>

lemma wf_done: "wf (insert i pend) inc \<Longrightarrow> (\<And>ob. obj i = Some ob \<Longrightarrow> refs ob \<subseteq> inc) \<Longrightarrow> wf pend inc"
  unfolding wf_def by blast

lemma wf_finish: "wf {} inc \<Longrightarrow> tips \<subseteq> inc \<Longrightarrow> inc = L"
  using live_closed [of tips inc obj] unfolding wf_def by blast

section \<open>Walking a tree without a filter\<close>

definition good_entry :: "tree_entry \<Rightarrow> bool" where
  "good_entry en \<longleftrightarrow> te_id en \<in> L \<and> (case te_kind en of TreeKind \<Rightarrow> tree_ok gap (obj (te_id en)) | BlobKind \<Rightarrow> leafish (obj (te_id en)))"

lemma good_entries: "i \<in> L \<Longrightarrow> obj i = Some (Tree t) \<Longrightarrow> \<forall>en \<in> set t. good_entry en"
  using live_refs [of i "Tree t"] live_kinds [of i "Tree t"]
  by (fastforce simp: good_entry_def refs_Tree tree_refs_def leaf_refs_def split: entry_kind.splits)

lemma visit_entries_ok:
  "\<not> gap \<Longrightarrow> wf pend (ws_included w) \<Longrightarrow> \<forall>en \<in> set ens. good_entry en \<Longrightarrow> fst ` set stack \<subseteq> pend \<Longrightarrow>
    \<exists>w' new. visit_entries S None gate path ens (w, stack) s = (Inr (w', new @ stack), s)
      \<and> wf (pend \<union> fst ` set new) (ws_included w') \<and> ws_included w' = ws_included w \<union> te_id ` set ens
      \<and> (\<forall>x \<in> set new. treeish (obj (fst x))) \<and> todo (ws_included w') + length new \<le> todo (ws_included w)"
proof (induction ens arbitrary: w pend stack)
  case Nil
  then show ?case by (intro exI [of _ w] exI [of _ "[]"]) simp
next
  case (Cons en ens)
  let ?i = "te_id en" and ?w = "w\<lparr>ws_included := insert (te_id en) (ws_included w)\<rparr>"
  have good: "\<forall>en \<in> set ens. good_entry en" using Cons.prems(3) by simp
  have iL: "?i \<in> L" using Cons.prems(3) by (simp add: good_entry_def)
  show ?case
  proof (cases "te_kind en")
    case BlobKind
    then have lf: "leafish (obj ?i)" using Cons.prems(3) by (simp add: good_entry_def)
    have w1: "wf pend (ws_included ?w)" using wf_leaves [OF Cons.prems(2), of "{?i}"] iL lf by simp
    obtain w' new where r: "visit_entries S None gate path ens (?w, stack) s = (Inr (w', new @ stack), s)"
      "wf (pend \<union> fst ` set new) (ws_included w')" "ws_included w' = ws_included ?w \<union> te_id ` set ens"
      "\<forall>x \<in> set new. treeish (obj (fst x))" "todo (ws_included w') + length new \<le> todo (ws_included ?w)"
      using Cons.IH [OF Cons.prems(1) w1 good Cons.prems(4)] by blast
    have "todo (ws_included ?w) \<le> todo (ws_included w)" by (rule todo_mono) auto
    with r BlobKind show ?thesis by (intro exI [of _ w'] exI [of _ new]) (auto simp: visit_entry_def bindS_def Let_def)
  next
    case TreeKind
    then have "tree_ok gap (obj ?i)" using Cons.prems(3) by (simp add: good_entry_def)
    then have tr: "treeish (obj ?i)" using Cons.prems(1) by (simp add: tree_ok_def)
    show ?thesis
    proof (cases "?i \<in> ws_included w")
      case True
      obtain w' new where r: "visit_entries S None gate path ens (w, stack) s = (Inr (w', new @ stack), s)"
        "wf (pend \<union> fst ` set new) (ws_included w')" "ws_included w' = ws_included w \<union> te_id ` set ens"
        "\<forall>x \<in> set new. treeish (obj (fst x))" "todo (ws_included w') + length new \<le> todo (ws_included w)"
        using Cons.IH [OF Cons.prems(1,2) good Cons.prems(4)] by blast
      with True TreeKind show ?thesis by (intro exI [of _ w'] exI [of _ new]) (auto simp: visit_entry_def bindS_def Let_def)
    next
      case False
      have w1: "wf (insert ?i pend) (ws_included ?w)" using wf_pend [OF Cons.prems(2), of "{?i}"] iL False by (simp add: insert_Diff_if)
      let ?x = "(?i, child_path path (te_name en))"
      have st: "fst ` set (?x # stack) \<subseteq> insert ?i pend" using Cons.prems(4) by auto
      obtain w' new where r: "visit_entries S None gate path ens (?w, ?x # stack) s = (Inr (w', new @ ?x # stack), s)"
        "wf (insert ?i pend \<union> fst ` set new) (ws_included w')" "ws_included w' = ws_included ?w \<union> te_id ` set ens"
        "\<forall>x \<in> set new. treeish (obj (fst x))" "todo (ws_included w') + length new \<le> todo (ws_included ?w)"
        using Cons.IH [OF Cons.prems(1) w1 good st] by blast
      have "Suc (todo (ws_included ?w)) = todo (ws_included w)"
        using todo_insert [OF iL False] tr by (auto simp: treeish_def)
      with r False TreeKind tr show ?thesis
        by (intro exI [of _ w'] exI [of _ "new @ [?x]"]) (auto simp: visit_entry_def bindS_def Let_def)
    qed
  qed
qed

lemma drain_ok:
  "\<not> gap \<Longrightarrow> inv s \<Longrightarrow> wf (pend \<union> fst ` set stack) (ws_included w) \<Longrightarrow> \<forall>x \<in> set stack. treeish (obj (fst x)) \<Longrightarrow>
    todo (ws_included w) + length stack \<le> n \<Longrightarrow>
    \<exists>w' s'. drain n S None gate stack w s = (Inr w', s') \<and> inv s' \<and> wf pend (ws_included w') \<and> ws_included w \<subseteq> ws_included w'"
proof (induction n arbitrary: stack w s)
  case 0
  then show ?case by (intro exI [of _ w] exI [of _ s]) simp
next
  case (Suc n)
  show ?case
  proof (cases stack)
    case Nil
    with Suc.prems show ?thesis by (intro exI [of _ w] exI [of _ s]) simp
  next
    case (Cons x stack0)
    obtain i path where x: "x = (i, path)" by (cases x)
    have iL: "i \<in> L" using Suc.prems(3) Cons x by (auto simp: wf_def)
    obtain t where t: "obj i = Some (Tree t)" using Suc.prems(4) Cons x by (auto simp: treeish_def)
    obtain ob' s1 where g: "src_get S i s = (Inr ob', s1)" "inv s1" "canon ob' = canon (Tree t)"
      using serve [OF Suc.prems(2) t] by (auto simp: treeish_def)
    then have ob': "ob' = Tree t" by (cases ob') (auto simp: canon_def)
    have w0: "wf (insert i (pend \<union> fst ` set stack0)) (ws_included w)" using Suc.prems(3) Cons x by (simp add: insert_commute)
    have st: "fst ` set stack0 \<subseteq> insert i (pend \<union> fst ` set stack0)" by auto
    obtain w1 new where v: "visit_entries S None gate path t (w, stack0) s1 = (Inr (w1, new @ stack0), s1)"
      "wf (insert i (pend \<union> fst ` set stack0) \<union> fst ` set new) (ws_included w1)" "ws_included w1 = ws_included w \<union> te_id ` set t"
      "\<forall>x \<in> set new. treeish (obj (fst x))" "todo (ws_included w1) + length new \<le> todo (ws_included w)"
      using visit_entries_ok [OF Suc.prems(1) w0 good_entries [OF iL t] st] by blast
    have eq: "insert i (pend \<union> fst ` set stack0) \<union> fst ` set new = insert i (pend \<union> fst ` set (new @ stack0))" by auto
    have "wf (pend \<union> fst ` set (new @ stack0)) (ws_included w1)"
      by (rule wf_done [OF v(2) [unfolded eq]]) (use t v(3) in \<open>auto simp: refs_Tree\<close>)
    moreover have "\<forall>x \<in> set (new @ stack0). treeish (obj (fst x))" using v(4) Suc.prems(4) Cons by auto
    moreover have "todo (ws_included w1) + length (new @ stack0) \<le> n" using v(5) Suc.prems(5) Cons by simp
    ultimately obtain w' s' where r: "drain n S None gate (new @ stack0) w1 s1 = (Inr w', s')" "inv s'" "wf pend (ws_included w')"
      "ws_included w1 \<subseteq> ws_included w'" using Suc.IH [OF Suc.prems(1) g(2)] by blast
    have "drain (Suc n) S None gate stack w s = (Inr w', s')"
      using g(1) ob' v(1) r(1) by (simp add: Cons x bindS_def)
    with r v(3) show ?thesis by blast
  qed
qed

lemma walk_tree_sized_ok:
  assumes "\<not> gap" "inv s" "wf pend (ws_included w)" "root \<in> L" "treeish (obj root)" "card (dom obj) \<le> n"
  shows "\<exists>w' s'. walk_tree_sized n S root None gate w s = (Inr w', s') \<and> inv s' \<and> wf pend (ws_included w')
    \<and> insert root (ws_included w) \<subseteq> ws_included w'"
proof (cases "root \<in> ws_included w")
  case True
  with assms show ?thesis by (intro exI [of _ w] exI [of _ s]) (auto simp: walk_tree_sized_def)
next
  case False
  let ?w = "w\<lparr>ws_included := insert root (ws_included w)\<rparr>"
  have "wf (pend \<union> fst ` set [(root, [])]) (ws_included ?w)" using wf_pend [OF assms(3), of "{root}"] assms(4) False by (simp add: insert_Diff_if)
  moreover have "todo (ws_included ?w) + length [(root, [])] \<le> n"
    using todo_insert [OF assms(4) False] assms(5,6) todo_bound [of "ws_included w"] by (auto simp: treeish_def)
  ultimately obtain w' s' where "drain n S None gate [(root, [])] ?w s = (Inr w', s')" "inv s'" "wf pend (ws_included w')"
    "ws_included ?w \<subseteq> ws_included w'"
    using drain_ok [OF assms(1,2), of pend "[(root, [])]" ?w n gate] assms(5) by auto
  with False show ?thesis by (auto simp: walk_tree_sized_def Let_def)
qed

section \<open>Walking the snapshots\<close>

text \<open>What the walk needs of its callback; \<open>tot\<close> is what the carried state adds to the included ids: absent trees.\<close>

definition absent :: "object_id set \<Rightarrow> bool" where
  "absent X \<longleftrightarrow> (\<forall>i \<in> X. obj i = None)"

definition callback_ok :: "(object_id \<Rightarrow> object_id \<Rightarrow> object_id set \<times> 'c \<Rightarrow> 's \<Rightarrow> (repo_error + object_id set \<times> 'c) \<times> 's)
    \<Rightarrow> ('c \<Rightarrow> object_id set) \<Rightarrow> bool" where
  "callback_ok cb tot \<longleftrightarrow> (\<forall>s sid root inc c pend. inv s \<longrightarrow> wf pend (inc \<union> tot c) \<longrightarrow> pend \<subseteq> inc \<longrightarrow> absent (tot c) \<longrightarrow>
     root \<in> L \<longrightarrow> tree_ok gap (obj root) \<longrightarrow>
     (\<exists>inc' c' s'. cb sid root (inc, c) s = (Inr (inc', c'), s') \<and> inv s' \<and> wf pend (inc' \<union> tot c') \<and> inc \<subseteq> inc'
        \<and> insert root (inc \<union> tot c) \<subseteq> inc' \<union> tot c' \<and> absent (tot c')))"

lemma push_todo:
  "push_new ps inc q = (inc', q') \<Longrightarrow> \<forall>p \<in> set ps. p \<in> L \<and> obj p \<noteq> None \<Longrightarrow> todo inc' + length q' = todo inc + length q"
proof (induction ps inc q rule: push_new.induct)
  case (2 p ps inc q)
  then show ?case using todo_insert [of p inc] by (cases "p \<in> inc") auto
qed simp

text \<open>Enqueueing references to snapshots.\<close>

lemma push_ok:
  assumes "push_new ps inc q = (inc', q')" "\<forall>p \<in> set ps. p \<in> L \<and> snapish (obj p)"
    and "wf (X \<union> set q) (inc \<union> A)" "absent A" "set q \<subseteq> inc" "\<forall>i \<in> set q. snapish (obj i)"
  shows "wf (X \<union> set q') (inc' \<union> A)" "inc' = inc \<union> set ps" "set q' \<subseteq> inc'" "\<forall>i \<in> set q'. snapish (obj i)"
    "todo inc' + length q' = todo inc + length q"
proof -
  obtain new where n: "q' = q @ new" "set new = set ps - inc" "inc' = inc \<union> set ps" using push_new_queue [OF assms(1)] by blast
  have "p \<notin> A" if "p \<in> set ps" for p using assms(2,4) that by (auto simp: absent_def snapish_def)
  then have "set ps - (inc \<union> A) = set new" using n(2) by auto
  with wf_pend [OF assms(3), of "set ps"] assms(2) n show "wf (X \<union> set q') (inc' \<union> A)"
    by (simp add: Un_assoc Un_commute [of A] subset_iff)
  show "inc' = inc \<union> set ps" "set q' \<subseteq> inc'" "\<forall>i \<in> set q'. snapish (obj i)" using n assms(2,5,6) by auto
  show "todo inc' + length q' = todo inc + length q"
    using push_todo [OF assms(1)] assms(2) by (auto simp: snapish_def)
qed

lemma snapshots_loop_ok:
  assumes cb: "callback_ok cb tot"
  shows "inv s \<Longrightarrow> wf (set q) (inc \<union> tot c) \<Longrightarrow> absent (tot c) \<Longrightarrow> set q \<subseteq> inc \<Longrightarrow> \<forall>i \<in> set q. snapish (obj i) \<Longrightarrow>
    todo inc + length q \<le> n \<Longrightarrow>
    \<exists>inc' c' s'. snapshots_loop n S cb q (inc, c) s = (Inr (inc', c'), s') \<and> inv s' \<and> wf {} (inc' \<union> tot c')
      \<and> inc \<subseteq> inc' \<and> absent (tot c')"
proof (induction n arbitrary: q inc c s)
  case 0
  then show ?case by auto
next
  case (Suc n)
  show ?case
  proof (cases q)
    case Nil
    with Suc.prems show ?thesis by auto
  next
    case (Cons sid q0)
    have sL: "sid \<in> L" using Suc.prems(2,4) Cons by (auto simp: wf_def)
    obtain ob where ob: "obj sid = Some ob" "snapish (Some ob)" using Suc.prems(5) Cons by (auto simp: snapish_def)
    obtain ob' s1 where g: "src_get S sid s = (Inr ob', s1)" "inv s1" "canon ob' = canon ob"
      using serve [OF Suc.prems(1) ob(1)] ob(2) by blast
    have same: "snap_refs ob' = snap_refs ob" "tree_refs ob' = tree_refs ob" "leaf_refs ob' = leaf_refs ob"
      using g(3) refs_canon by metis+
    note kinds = live_kinds [OF sL ob(1)] and lives = live_refs [OF sL ob(1), unfolded refs_def]
    have w0: "wf ({sid} \<union> set q0) (inc \<union> tot c)" using Suc.prems(2) Cons by simp
    have q0: "set q0 \<subseteq> inc" "\<forall>i \<in> set q0. snapish (obj i)" using Suc.prems(4,5) Cons by auto
    have m0: "todo inc + length q0 \<le> n" using Suc.prems(6) Cons by simp
    from g(3) ob(2) consider (snap) sn where "ob' = Snapshot sn" | (man) m where "ob' = Manifest m"
      by (cases ob'; auto simp: snapish_def canon_def)
    then show ?thesis
    proof cases
      case snap
      have r: "snap_refs ob = set (sn_parents sn)" "tree_refs ob = {sn_root sn}" "leaf_refs ob = snd ` set (sn_secrets sn)"
        using same snap by (simp_all add: snap_refs_def tree_refs_def leaf_refs_def)
      obtain inc1 q1 where p: "push_new (sn_parents sn) inc q0 = (inc1, q1)" by fastforce
      have pp: "\<forall>p \<in> set (sn_parents sn). p \<in> L \<and> snapish (obj p)" using kinds lives r by auto
      note p1 = push_ok [OF p pp w0 Suc.prems(3) q0]
      let ?inc = "inc1 \<union> snd ` set (sn_secrets sn)"
      have "wf ({sid} \<union> set q1) ((inc1 \<union> tot c) \<union> snd ` set (sn_secrets sn))"
        by (rule wf_leaves [OF p1(1)]) (use kinds lives r in auto)
      moreover have "(inc1 \<union> tot c) \<union> snd ` set (sn_secrets sn) = ?inc \<union> tot c" by auto
      ultimately have w1: "wf ({sid} \<union> set q1) (?inc \<union> tot c)" by simp
      have "{sid} \<union> set q1 \<subseteq> ?inc" using p1(2,3) Suc.prems(4) Cons by auto
      moreover have "sn_root sn \<in> L" "tree_ok gap (obj (sn_root sn))" using kinds lives r by auto
      ultimately obtain inc2 c2 s2 where c2: "cb sid (sn_root sn) (?inc, c) s1 = (Inr (inc2, c2), s2)" "inv s2"
        "wf ({sid} \<union> set q1) (inc2 \<union> tot c2)" "?inc \<subseteq> inc2" "insert (sn_root sn) (?inc \<union> tot c) \<subseteq> inc2 \<union> tot c2" "absent (tot c2)"
        using cb g(2) w1 Suc.prems(3) unfolding callback_ok_def by metis
      have "wf (set q1) (inc2 \<union> tot c2)"
        by (rule wf_done [of sid]) (use c2(3,5) ob(1) r p1(2) in \<open>auto simp: refs_def\<close>)
      moreover have "todo inc2 + length q1 \<le> n" using p1(5) m0 todo_mono [of inc1 inc2] c2(4) by simp
      ultimately obtain inc' c' s' where f: "snapshots_loop n S cb q1 (inc2, c2) s2 = (Inr (inc', c'), s')" "inv s'"
        "wf {} (inc' \<union> tot c')" "inc2 \<subseteq> inc'" "absent (tot c')"
        using Suc.IH [OF c2(2) _ c2(6), of q1] p1(3,4) c2(4) by blast
      have "snapshots_loop (Suc n) S cb q (inc, c) s = (Inr (inc', c'), s')"
        using g(1) c2(1) f(1) p snap by (simp add: Cons bindS_def)
      with f p1(2) c2(4) show ?thesis by auto
    next
      case man
      have r: "snap_refs ob = insert (bm_base m) (set (bm_anchors m)) \<union> set_option (bm_prev m)" "tree_refs ob = {}" "leaf_refs ob = set (bm_closure m)"
        using same man by (simp_all add: snap_refs_def tree_refs_def leaf_refs_def)
      let ?inc = "inc \<union> set (bm_closure m)" and ?prev = "case bm_prev m of None \<Rightarrow> [] | Some p \<Rightarrow> [p]"
      obtain inc1 q1 where p: "push_new (bm_base m # bm_anchors m) ?inc q0 = (inc1, q1)" by fastforce
      obtain inc2 q2 where p': "push_new ?prev inc1 q1 = (inc2, q2)" by fastforce
      have "wf ({sid} \<union> set q0) ((inc \<union> tot c) \<union> set (bm_closure m))"
        by (rule wf_leaves [OF w0]) (use kinds lives r in auto)
      moreover have "(inc \<union> tot c) \<union> set (bm_closure m) = ?inc \<union> tot c" by auto
      ultimately have w1: "wf ({sid} \<union> set q0) (?inc \<union> tot c)" by simp
      have pp: "\<forall>p \<in> set (bm_base m # bm_anchors m). p \<in> L \<and> snapish (obj p)" using kinds lives r by auto
      have pp': "\<forall>p \<in> set ?prev. p \<in> L \<and> snapish (obj p)" using kinds lives r by (auto split: option.splits)
      have q0': "set q0 \<subseteq> ?inc" using q0(1) by blast
      note p1 = push_ok [OF p pp w1 Suc.prems(3) q0' q0(2)]
      note p2 = push_ok [OF p' pp' p1(1) Suc.prems(3) p1(3,4)]
      have "wf (set q2) (inc2 \<union> tot c)"
        by (rule wf_done [of sid]) (use p2(1,2) p1(2) ob(1) r in \<open>auto simp: refs_def split: option.splits\<close>)
      moreover have "todo inc2 + length q2 \<le> n" using p1(5) p2(5) m0 todo_mono [of inc ?inc] by simp
      ultimately obtain inc' c' s' where f: "snapshots_loop n S cb q2 (inc2, c) s1 = (Inr (inc', c'), s')" "inv s'"
        "wf {} (inc' \<union> tot c')" "inc2 \<subseteq> inc'" "absent (tot c')"
        using Suc.IH [OF g(2) _ Suc.prems(3) p2(3,4)] by blast
      have "snapshots_loop (Suc n) S cb q (inc, c) s = (Inr (inc', c'), s')"
        using g(1) f(1) p p' man by (simp add: Cons bindS_def)
      with f p1(2) p2(2) show ?thesis by auto
    qed
  qed
qed

lemma walk_snapshots_ok:
  assumes "callback_ok cb tot" "inv s" "tot c = {}" "set ts \<subseteq> tips" "\<forall>t \<in> set ts. snapish (obj t)" "card (dom obj) \<le> n"
  shows "\<exists>inc' c' s'. walk_snapshots n S ts cb c s = (Inr (inc', c'), s') \<and> inv s' \<and> wf {} (inc' \<union> tot c') \<and> set ts \<subseteq> inc'
    \<and> absent (tot c')"
proof -
  obtain inc q where p: "push_new ts {} [] = (inc, q)" by fastforce
  have pp: "\<forall>p \<in> set ts. p \<in> L \<and> snapish (obj p)" using assms(4,5) live.tip by blast
  have w: "wf ({} \<union> set []) ({} \<union> tot c)" "absent (tot c)" using assms(3) by (simp_all add: wf_def absent_def)
  note p1 = push_ok [OF p pp w, simplified]
  have "todo inc + length q \<le> n" using p1(5) todo_bound [of "{}"] assms(6) by simp
  then obtain inc' c' s' where f: "snapshots_loop n S cb q (inc, c) s = (Inr (inc', c'), s')" "inv s'" "wf {} (inc' \<union> tot c')"
    "inc \<subseteq> inc'" "absent (tot c')"
    using snapshots_loop_ok [OF assms(1,2) p1(1) w(2) p1(3,4)] by blast
  with p p1(2) show ?thesis by (simp add: walk_snapshots_def)
qed

lemma reachable_objects_ok:
  assumes "\<not> gap" "inv s" "set ts \<subseteq> tips" "\<forall>t \<in> set ts. snapish (obj t)" "card (dom obj) \<le> n"
  shows "\<exists>inc s'. reachable_objects n S ts s = (Inr inc, s') \<and> inv s' \<and> wf {} inc \<and> set ts \<subseteq> inc"
proof -
  let ?cb = "\<lambda>snapshot root (included, (gaps, expanded, sizes)).
     bindS (walk_tree_sized n S root None None \<lparr>ws_included = included, ws_gaps = gaps, ws_expanded = expanded, ws_sizes = sizes\<rparr>)
       (\<lambda>w. returnS (ws_included w, (ws_gaps w, ws_expanded w, ws_sizes w)))"
  have "callback_ok ?cb (\<lambda>_. {})"
    unfolding callback_ok_def
  proof (intro allI impI)
    fix s and sid root :: object_id and inc and c :: "object_id set \<times> (object_id \<times> string) set \<times> (object_id \<Rightarrow> bool option)" and pend
    assume a: "inv s" "wf pend (inc \<union> {})" "pend \<subseteq> inc" "absent {}" "root \<in> L" "tree_ok gap (obj root)"
    obtain gp ex sz where c: "c = (gp, ex, sz)" by (cases c)
    have "treeish (obj root)" using a(6) assms(1) unfolding tree_ok_def by blast
    with walk_tree_sized_ok [OF assms(1) a(1), of pend "\<lparr>ws_included = inc, ws_gaps = gp, ws_expanded = ex, ws_sizes = sz\<rparr>" root n None]
      a(2,5) assms(5) obtain w' s' where "walk_tree_sized n S root None None \<lparr>ws_included = inc, ws_gaps = gp, ws_expanded = ex, ws_sizes = sz\<rparr> s
        = (Inr w', s')" "inv s'" "wf pend (ws_included w')" "insert root inc \<subseteq> ws_included w'" by auto
    then show "\<exists>inc' c' s'. ?cb sid root (inc, c) s = (Inr (inc', c'), s') \<and> inv s' \<and> wf pend (inc' \<union> {}) \<and> inc \<subseteq> inc'
        \<and> insert root (inc \<union> {}) \<subseteq> inc' \<union> {} \<and> absent {}"
      using c a(4) by (auto simp: bindS_def)
  qed
  from walk_snapshots_ok [OF this assms(2) _ assms(3,4,5), of "({}, {}, Map.empty)"]
  show ?thesis by (auto simp: reachable_objects_def reachable_objects_filtered_def reachable_objects_limited_def bindS_def)
qed

end

section \<open>Presence-based walks\<close>

text \<open>A source that also says what it holds: the presence walk reads held trees only and records the others as gaps.\<close>

locale presence_graph = object_graph S inv obj tips True
  for S :: "store object_source" and inv :: "store \<Rightarrow> bool" and obj :: "object_id \<rightharpoonup> object" and tips :: "object_id set" +
  fixes e :: ext
  assumes src: "\<And>i st. src_get S i st = liftR (get e i) st"
    and held: "\<And>i st. inv st \<Longrightarrow> contains e i st \<longleftrightarrow> obj i \<noteq> None"
begin

definition visited :: "partial_state \<Rightarrow> object_id set" where
  "visited ps = fst ps \<union> dom (snd ps)"

definition gaps_ok :: "partial_state \<Rightarrow> bool" where
  "gaps_ok ps \<longleftrightarrow> absent (dom (snd ps))"

lemma dom_note_gap [simp]: "dom (note_gap i r gaps) = insert i (dom gaps)"
  by (auto simp: note_gap_def)

lemma visit_present_ok:
  assumes "inv st"
  shows "wf pend (visited ps) \<Longrightarrow> gaps_ok ps \<Longrightarrow> \<forall>en \<in> set ens. good_entry en \<Longrightarrow> set stack \<subseteq> pend \<Longrightarrow> pend \<subseteq> fst ps \<Longrightarrow>
    \<exists>ps' new. foldl (\<lambda>a en. visit_present e st i en a) (ps, stack) ens = (ps', new @ stack)
      \<and> wf (pend \<union> set new) (visited ps') \<and> gaps_ok ps' \<and> visited ps' = visited ps \<union> te_id ` set ens \<and> fst ps \<subseteq> fst ps' \<and> set new \<subseteq> fst ps'
      \<and> (\<forall>x \<in> set new. treeish (obj x)) \<and> todo (visited ps') + length new \<le> todo (visited ps)"
proof (induction ens arbitrary: ps pend stack)
  case Nil
  then show ?case by (intro exI [of _ ps] exI [of _ "[]"]) simp
next
  case (Cons en ens)
  let ?i = "te_id en"
  obtain present gaps where ps: "ps = (present, gaps)" by (cases ps)
  have good: "\<forall>en \<in> set ens. good_entry en" and iL: "?i \<in> L" using Cons.prems(3) by (simp_all add: good_entry_def)
  let ?step = "visit_present e st i en (ps, stack)"
  consider (gap) "obj ?i = None" "?step = ((present, note_gap ?i i gaps), stack)"
    | (blob) "leafish (obj ?i)" "obj ?i \<noteq> None" "?step = ((insert ?i present, gaps), stack)"
    | (seen) "?i \<in> present" "?step = (ps, stack)"
    | (tree) "treeish (obj ?i)" "?i \<notin> present" "?step = ((insert ?i present, gaps), ?i # stack)"
    using held [OF assms, of ?i] Cons.prems(3)
    by (cases "te_kind en"; cases "contains e ?i st"; cases "?i \<in> present") (auto simp: visit_present_def ps good_entry_def tree_ok_def treeish_def)
  then show ?case
  proof cases
    case gap
    let ?ps = "(present, note_gap ?i i gaps)"
    have lf: "leafish (obj ?i)" using gap(1) by (simp add: leafish_def snapish_def treeish_def)
    have eq: "visited ?ps = visited ps \<union> {?i}" by (auto simp: visited_def ps)
    have "wf pend (visited ?ps)" unfolding eq by (rule wf_leaves [OF Cons.prems(1)]) (use iL lf in auto)
    moreover have "gaps_ok ?ps" using Cons.prems(2) gap(1) by (simp add: gaps_ok_def absent_def ps)
    moreover have "pend \<subseteq> fst ?ps" using Cons.prems(5) by (simp add: ps)
    ultimately obtain ps' new where r: "foldl (\<lambda>a en. visit_present e st i en a) (?ps, stack) ens = (ps', new @ stack)"
      "wf (pend \<union> set new) (visited ps')" "gaps_ok ps'" "visited ps' = visited ?ps \<union> te_id ` set ens" "fst ?ps \<subseteq> fst ps'" "set new \<subseteq> fst ps'"
      "\<forall>x \<in> set new. treeish (obj x)" "todo (visited ps') + length new \<le> todo (visited ?ps)"
      using Cons.IH [OF _ _ good Cons.prems(4)] by blast
    have "todo (visited ?ps) \<le> todo (visited ps)" unfolding eq by (rule todo_mono) auto
    with r gap eq show ?thesis by (intro exI [of _ ps'] exI [of _ new]) (auto simp: ps)
  next
    case blob
    let ?ps = "(insert ?i present, gaps)"
    have eq: "visited ?ps = visited ps \<union> {?i}" by (auto simp: visited_def ps)
    have "wf pend (visited ?ps)" unfolding eq by (rule wf_leaves [OF Cons.prems(1)]) (use iL blob in auto)
    moreover have "gaps_ok ?ps" using Cons.prems(2) by (simp add: gaps_ok_def ps)
    moreover have "pend \<subseteq> fst ?ps" using Cons.prems(5) by (auto simp: ps)
    ultimately obtain ps' new where r: "foldl (\<lambda>a en. visit_present e st i en a) (?ps, stack) ens = (ps', new @ stack)"
      "wf (pend \<union> set new) (visited ps')" "gaps_ok ps'" "visited ps' = visited ?ps \<union> te_id ` set ens" "fst ?ps \<subseteq> fst ps'" "set new \<subseteq> fst ps'"
      "\<forall>x \<in> set new. treeish (obj x)" "todo (visited ps') + length new \<le> todo (visited ?ps)"
      using Cons.IH [OF _ _ good Cons.prems(4)] by blast
    have "todo (visited ?ps) \<le> todo (visited ps)" unfolding eq by (rule todo_mono) auto
    with r blob eq show ?thesis by (intro exI [of _ ps'] exI [of _ new]) (auto simp: ps)
  next
    case seen
    then obtain ps' new where r: "foldl (\<lambda>a en. visit_present e st i en a) (ps, stack) ens = (ps', new @ stack)"
      "wf (pend \<union> set new) (visited ps')" "gaps_ok ps'" "visited ps' = visited ps \<union> te_id ` set ens" "fst ps \<subseteq> fst ps'" "set new \<subseteq> fst ps'"
      "\<forall>x \<in> set new. treeish (obj x)" "todo (visited ps') + length new \<le> todo (visited ps)"
      using Cons.IH [OF Cons.prems(1,2) good Cons.prems(4,5)] by blast
    with seen show ?thesis by (intro exI [of _ ps'] exI [of _ new]) (auto simp: ps visited_def)
  next
    case tree
    let ?ps = "(insert ?i present, gaps)"
    have new: "?i \<notin> visited ps" using tree Cons.prems(2) by (force simp: visited_def gaps_ok_def absent_def ps treeish_def)
    have eq: "visited ?ps = visited ps \<union> {?i}" by (auto simp: visited_def ps)
    have "wf (insert ?i pend) (visited ?ps)"
      using wf_pend [OF Cons.prems(1), of "{?i}"] iL new unfolding eq by (simp add: insert_Diff_if)
    moreover have "gaps_ok ?ps" using Cons.prems(2) by (simp add: gaps_ok_def ps)
    moreover have "insert ?i pend \<subseteq> fst ?ps" "set (?i # stack) \<subseteq> insert ?i pend" using Cons.prems(4,5) by (auto simp: ps)
    ultimately obtain ps' new where r: "foldl (\<lambda>a en. visit_present e st i en a) (?ps, ?i # stack) ens = (ps', new @ ?i # stack)"
      "wf (insert ?i pend \<union> set new) (visited ps')" "gaps_ok ps'" "visited ps' = visited ?ps \<union> te_id ` set ens" "fst ?ps \<subseteq> fst ps'" "set new \<subseteq> fst ps'"
      "\<forall>x \<in> set new. treeish (obj x)" "todo (visited ps') + length new \<le> todo (visited ?ps)"
      using Cons.IH [OF _ _ good, of "insert ?i pend" ?ps "?i # stack"] by blast
    have "Suc (todo (visited ?ps)) = todo (visited ps)" using todo_insert [OF iL new] tree(1) eq by (auto simp: treeish_def)
    with r tree eq show ?thesis by (intro exI [of _ ps'] exI [of _ "new @ [?i]"]) (auto simp: ps)
  qed
qed

lemma drain_present_ok:
  "inv st \<Longrightarrow> wf (pend \<union> set stack) (visited ps) \<Longrightarrow> gaps_ok ps \<Longrightarrow> pend \<union> set stack \<subseteq> fst ps \<Longrightarrow> \<forall>x \<in> set stack. treeish (obj x) \<Longrightarrow>
    todo (visited ps) + length stack \<le> n \<Longrightarrow>
    \<exists>ps' st'. drain_present n e stack ps st = (Inr ps', st') \<and> inv st' \<and> wf pend (visited ps') \<and> gaps_ok ps'
      \<and> fst ps \<subseteq> fst ps' \<and> visited ps \<subseteq> visited ps'"
proof (induction n arbitrary: stack ps st)
  case 0
  then show ?case by auto
next
  case (Suc n)
  show ?case
  proof (cases stack)
    case Nil
    with Suc.prems show ?thesis by auto
  next
    case (Cons i stack0)
    have iL: "i \<in> L" using Suc.prems(2) Cons by (auto simp: wf_def)
    obtain t where t: "obj i = Some (Tree t)" using Suc.prems(5) Cons by (auto simp: treeish_def)
    obtain ob' s1 where g: "src_get S i st = (Inr ob', s1)" "inv s1" "canon ob' = canon (Tree t)"
      using serve [OF Suc.prems(1) t] by (auto simp: treeish_def)
    then have ob': "ob' = Tree t" by (cases ob') (auto simp: canon_def)
    have w0: "wf (insert i (pend \<union> set stack0)) (visited ps)" using Suc.prems(2) Cons by simp
    have st: "set stack0 \<subseteq> insert i (pend \<union> set stack0)" "insert i (pend \<union> set stack0) \<subseteq> fst ps" using Suc.prems(4) Cons by auto
    obtain ps1 new where v: "foldl (\<lambda>a en. visit_present e s1 i en a) (ps, stack0) t = (ps1, new @ stack0)"
      "wf (insert i (pend \<union> set stack0) \<union> set new) (visited ps1)" "gaps_ok ps1" "visited ps1 = visited ps \<union> te_id ` set t"
      "fst ps \<subseteq> fst ps1" "set new \<subseteq> fst ps1" "\<forall>x \<in> set new. treeish (obj x)" "todo (visited ps1) + length new \<le> todo (visited ps)"
      using visit_present_ok [OF g(2) w0 Suc.prems(3) good_entries [OF iL t] st] by blast
    have eq: "insert i (pend \<union> set stack0) \<union> set new = insert i (pend \<union> set (new @ stack0))" by auto
    have "wf (pend \<union> set (new @ stack0)) (visited ps1)"
      by (rule wf_done [OF v(2) [unfolded eq]]) (use t v(4) in \<open>auto simp: refs_Tree\<close>)
    moreover have "\<forall>x \<in> set (new @ stack0). treeish (obj x)" using v(7) Suc.prems(5) Cons by auto
    moreover have "pend \<union> set (new @ stack0) \<subseteq> fst ps1" using v(5,6) st(2) by auto
    moreover have "todo (visited ps1) + length (new @ stack0) \<le> n" using v(8) Suc.prems(6) Cons by simp
    ultimately obtain ps' s' where r: "drain_present n e (new @ stack0) ps1 s1 = (Inr ps', s')" "inv s'" "wf pend (visited ps')"
      "gaps_ok ps'" "fst ps1 \<subseteq> fst ps'" "visited ps1 \<subseteq> visited ps'" using Suc.IH [OF g(2) _ v(3)] by blast
    have "drain_present (Suc n) e stack ps st = (Inr ps', s')"
      using g(1) ob' v(1) r(1) by (simp add: Cons bindS_def src Let_def)
    with r v(4,5) show ?thesis by blast
  qed
qed

lemma walk_tree_partial_ok:
  assumes "inv st" "wf pend (visited ps)" "gaps_ok ps" "pend \<subseteq> fst ps" "root \<in> L" "tree_ok True (obj root)" "card (dom obj) \<le> n"
  shows "\<exists>ps' st'. walk_tree_partial n e referrer root ps st = (Inr ps', st') \<and> inv st' \<and> wf pend (visited ps') \<and> gaps_ok ps'
    \<and> fst ps \<subseteq> fst ps' \<and> insert root (visited ps) \<subseteq> visited ps'"
proof -
  obtain present gaps where ps: "ps = (present, gaps)" by (cases ps)
  consider (gap) "obj root = None" "\<not> contains e root st" | (seen) "contains e root st" "root \<in> present"
    | (walk) "treeish (obj root)" "contains e root st" "root \<notin> present"
    using held [OF assms(1), of root] assms(6) by (cases "root \<in> present") (auto simp: tree_ok_def treeish_def)
  then show ?thesis
  proof cases
    case gap
    let ?ps = "(present, note_gap root referrer gaps)"
    have lf: "leafish (obj root)" using gap(1) by (simp add: leafish_def snapish_def treeish_def)
    have eq: "visited ?ps = visited ps \<union> {root}" by (auto simp: visited_def ps)
    have "wf pend (visited ?ps)" unfolding eq by (rule wf_leaves [OF assms(2)]) (use assms(5) lf in auto)
    moreover have "gaps_ok ?ps" using assms(3) gap(1) by (simp add: gaps_ok_def absent_def ps)
    ultimately show ?thesis using gap(2) assms(1) eq by (auto simp: walk_tree_partial_def ps)
  next
    case seen
    then show ?thesis using assms by (auto simp: walk_tree_partial_def ps visited_def)
  next
    case walk
    let ?ps = "(insert root present, gaps)"
    have new: "root \<notin> visited ps" using walk assms(3) by (force simp: visited_def gaps_ok_def absent_def ps treeish_def)
    have eq: "visited ?ps = visited ps \<union> {root}" by (auto simp: visited_def ps)
    have "wf (pend \<union> set [root]) (visited ?ps)"
      using wf_pend [OF assms(2), of "{root}"] assms(5) new unfolding eq by (simp add: insert_Diff_if)
    moreover have "gaps_ok ?ps" "pend \<union> set [root] \<subseteq> fst ?ps" using assms(3,4) by (auto simp: gaps_ok_def ps)
    moreover have "Suc (todo (visited ?ps)) = todo (visited ps)" using todo_insert [OF assms(5) new] walk(1) eq by (auto simp: treeish_def)
    then have "todo (visited ?ps) + length [root] \<le> n" using todo_bound [of "visited ps"] assms(7) by simp
    ultimately obtain ps' s' where "drain_present n e [root] ?ps st = (Inr ps', s')" "inv s'" "wf pend (visited ps')" "gaps_ok ps'"
      "fst ?ps \<subseteq> fst ps'" "visited ?ps \<subseteq> visited ps'"
      using drain_present_ok [OF assms(1), of pend "[root]" ?ps n] walk(1) by auto
    with walk eq show ?thesis by (auto simp: walk_tree_partial_def ps)
  qed
qed

lemma reachable_objects_partial_ok:
  assumes "inv st" "S = store_source e" "set ts \<subseteq> tips" "\<forall>t \<in> set ts. snapish (obj t)" "card (dom obj) \<le> n"
  shows "\<exists>ps st'. reachable_objects_partial n e ts st = (Inr ps, st') \<and> inv st' \<and> wf {} (visited ps) \<and> set ts \<subseteq> fst ps \<and> gaps_ok ps"
proof -
  let ?cb = "\<lambda>snapshot root ps. walk_tree_partial n e snapshot root ps"
  have "callback_ok ?cb dom"
    unfolding callback_ok_def
  proof (intro allI impI)
    fix s and sid root :: object_id and inc and c :: "object_id \<rightharpoonup> object_id" and pend
    assume a: "inv s" "wf pend (inc \<union> dom c)" "pend \<subseteq> inc" "absent (dom c)" "root \<in> L" "tree_ok True (obj root)"
    then show "\<exists>inc' c' s'. ?cb sid root (inc, c) s = (Inr (inc', c'), s') \<and> inv s' \<and> wf pend (inc' \<union> dom c') \<and> inc \<subseteq> inc'
        \<and> insert root (inc \<union> dom c) \<subseteq> inc' \<union> dom c' \<and> absent (dom c')"
      using walk_tree_partial_ok [OF a(1), of pend "(inc, c)" root n sid] assms(5)
      by (simp add: visited_def gaps_ok_def) blast
  qed
  from walk_snapshots_ok [OF this assms(1) _ assms(3,4,5), of Map.empty]
  show ?thesis unfolding reachable_objects_partial_def assms(2) [symmetric] by (simp add: visited_def gaps_ok_def)
qed

end

section \<open>The store as a source\<close>

text \<open>Reading objects leaves the files alone.\<close>

definition files :: "store \<Rightarrow> (object_id \<times> pack_loc) list \<times> disk" where
  "files st = (st_pack_index st, (st_disk st)\<lparr>dk_spill := []\<rparr>)"

lemma ensure_capacity_files: "files (snd (ensure_capacity e n i st)) = files st"
proof (induction e n i st rule: ensure_capacity.induct)
  case (1 e needed incoming st)
  have w: "evict_to_spill e v st = (x, st') \<Longrightarrow> files st' = files st" for v x st'
    by (auto simp: evict_to_spill_def Let_def files_def write_spill_def split: option.splits object.splits if_splits)
  have d: "files (drop_resident_blob v st) = files st" for v
    by (simp add: drop_resident_blob_def files_def split: option.splits)
  show ?case
    using 1 w d by (subst ensure_capacity.simps) (fastforce split: option.splits backend.splits spill_policy.splits prod.splits sum.splits)
qed

lemma reserve_files: "files (snd (reserve e n i st)) = files st"
  by (simp add: reserve_def ensure_capacity_files)

lemma get_files: "files (snd (get e i st)) = files st"
proof -
  have adm: "files (admit i ob n s) = files s" for ob n s by (simp add: files_def)
  have upd: "files (s\<lparr>st_clock := t, st_resident := r\<rparr>) = files s" "files (s\<lparr>st_spilled := x, st_rehydrations := y\<rparr>) = files s"
    "files (s\<lparr>st_rehydrations := y\<rparr>) = files s" "files (s\<lparr>st_spilled := x\<rparr>) = files s" for s t r x y by (simp_all add: files_def)
  show ?thesis
    by (auto simp: get_def Let_def reserve_files ensure_capacity_files adm upd intro!: bindS_keeps [of files] split: option.splits)
qed

definition graph_inv :: "ext \<Rightarrow> bytes set \<Rightarrow> bool \<Rightarrow> object_id set \<Rightarrow> store \<Rightarrow> store \<Rightarrow> bool" where
  "graph_inv e U gap tips st0 st \<longleftrightarrow> store_ok e U st0 \<and> well_kinded gap (view e st0) tips \<and> grows e U st0 st \<and> view e st = view e st0
     \<and> files st = files st0"

text \<open>The graph that a store serves; without the invariant there is nothing to walk.\<close>

definition graph_of :: "ext \<Rightarrow> bytes set \<Rightarrow> bool \<Rightarrow> object_id set \<Rightarrow> store \<Rightarrow> object_id \<rightharpoonup> object" where
  "graph_of e U gap tips st0 = (if store_ok e U st0 \<and> well_kinded gap (view e st0) tips then view e st0 else Map.empty)"

definition tips_of :: "ext \<Rightarrow> bytes set \<Rightarrow> bool \<Rightarrow> object_id set \<Rightarrow> store \<Rightarrow> object_id set" where
  "tips_of e U gap tips st0 = (if store_ok e U st0 \<and> well_kinded gap (view e st0) tips then tips else {})"

lemma graph_inv_simps:
  "graph_inv e U gap tips st0 st \<Longrightarrow> graph_of e U gap tips st0 = view e st0"
  "graph_inv e U gap tips st0 st \<Longrightarrow> tips_of e U gap tips st0 = tips"
  by (simp_all add: graph_inv_def graph_of_def tips_of_def)

lemma graph_inv_get:
  assumes "graph_inv e U gap tips st0 st" "graph_of e U gap tips st0 i = Some ob" "snapish (Some ob) \<or> treeish (Some ob)"
  shows "\<exists>ob' st'. src_get (store_source e) i st = (Inr ob', st') \<and> graph_inv e U gap tips st0 st' \<and> canon ob' = canon ob"
proof -
  have ok: "store_ok e U st" and v: "view e st i = Some ob" and vv: "view e st = view e st0"
    using assms(1,2) grows_ok graph_inv_simps(1) [OF assms(1)] by (auto simp: graph_inv_def)
  have c: "canon ob = ob" using v by (auto simp: view_def split: sum.splits)
  have z: "blob_size ob = 0" using assms(3) by (auto simp: snapish_def treeish_def blob_size_def)
  obtain ob' st' where g: "get e i st = (Inr ob', st')" "canon ob' = canon ob" using get_held [OF ok, of i ob] v c z by auto
  have "grows e U st st'" "view e st' = view e st"
    using os.get_inv [OF ok g(1)] os.get_view [OF ok g(1)] get_okD(2) [OF ok g(1)] get_budget [of e i st] g(1) by (simp_all add: grows_def)
  moreover have "files st' = files st" using get_files [of e i st] g(1) by simp
  ultimately show ?thesis using assms(1) g grows_trans vv by (auto simp: graph_inv_def store_source_def liftR_def)
qed

interpretation sg: object_graph "store_source e" "graph_inv e U gap tips st0" "graph_of e U gap tips st0" "tips_of e U gap tips st0" gap
  for e U gap tips st0
proof
  show "\<exists>ob' s'. src_get (store_source e) i s = (Inr ob', s') \<and> graph_inv e U gap tips st0 s' \<and> canon ob' = canon ob"
    if "graph_inv e U gap tips st0 s" "graph_of e U gap tips st0 i = Some ob" "snapish (Some ob) \<or> treeish (Some ob)" for i ob s
    by (rule graph_inv_get [OF that])
  show "well_kinded gap (graph_of e U gap tips st0) (tips_of e U gap tips st0)"
    by (auto simp: graph_of_def tips_of_def well_kinded_def)
  show "finite (dom (graph_of e U gap tips st0))" using finite_view by (auto simp: graph_of_def)
qed

interpretation pg: presence_graph "store_source e" "graph_inv e U True tips st0" "graph_of e U True tips st0" "tips_of e U True tips st0" e
  for e U tips st0
proof
  show "src_get (store_source e) i st = liftR (get e i) st" for i st by (simp add: store_source_def)
  show "contains e i st \<longleftrightarrow> graph_of e U True tips st0 i \<noteq> None" if "graph_inv e U True tips st0 st" for i st
    using that view_contains [of e U st i] grows_ok [of e U st0 st] graph_inv_simps(1) [OF that]
    by (auto simp: graph_inv_def store_ok_def)
qed

lemma reachable_store_ok:
  assumes "store_ok e U st" "well_kinded False (view e st) (set ts)" "\<forall>t \<in> set ts. snapish (view e st t)" "card (dom (view e st)) \<le> n"
  shows "\<exists>st'. reachable_objects n (store_source e) ts st = (Inr (live (view e st) (set ts)), st') \<and> grows e U st st' \<and> view e st' = view e st"
proof -
  have i: "graph_inv e U False (set ts) st st" using assms grows_refl by (simp add: graph_inv_def)
  obtain inc st' where r: "reachable_objects n (store_source e) ts st = (Inr inc, st')" "graph_inv e U False (set ts) st st'"
    "sg.wf e U False (set ts) st {} inc" "set ts \<subseteq> inc"
    using sg.reachable_objects_ok [OF _ i, of ts n] assms(3,4) graph_inv_simps [OF i] by auto
  with sg.wf_finish [OF r(3)] graph_inv_simps [OF i] show ?thesis by (auto simp: graph_inv_def)
qed

lemma reachable_partial_ok:
  assumes "store_ok e U st" "well_kinded True (view e st) (set ts)" "\<forall>t \<in> set ts. snapish (view e st t)" "card (dom (view e st)) \<le> n"
  shows "\<exists>present gaps st'. reachable_objects_partial n e ts st = (Inr (present, gaps), st') \<and> grows e U st st' \<and> view e st' = view e st
    \<and> present \<union> dom gaps = live (view e st) (set ts) \<and> (\<forall>i \<in> dom gaps. view e st i = None)"
proof -
  have i: "graph_inv e U True (set ts) st st" using assms grows_refl by (simp add: graph_inv_def)
  obtain ps st' where r: "reachable_objects_partial n e ts st = (Inr ps, st')" "graph_inv e U True (set ts) st st'"
    "sg.wf e U True (set ts) st {} (pg.visited ps)" "set ts \<subseteq> fst ps" "pg.gaps_ok e U (set ts) st ps"
    using pg.reachable_objects_partial_ok [OF i refl, of ts n] assms(3,4) graph_inv_simps [OF i] by auto
  have "tips_of e U True (set ts) st \<subseteq> pg.visited ps" using r(4) graph_inv_simps(2) [OF i] by (auto simp: pg.visited_def)
  from sg.wf_finish [OF r(3) this] r show ?thesis
    using graph_inv_simps [OF i] unfolding pg.gaps_ok_def sg.absent_def pg.visited_def
    by (auto simp: graph_inv_def intro!: exI [of _ "fst ps"] exI [of _ "snd ps"])
qed

end
