(* ===== verification/Signature_Theorems.thy ===== *)
theory Signature_Theorems
  imports Signatures_Correct Reachable_Correct Merge_Theorems Log_Theorems
begin

text \<open>
  The properties of signatures: the index stays sound under every operation that writes it, and what the
  status of a snapshot means.
\<close>

section \<open>Reading objects\<close>

definition reads :: "ext \<Rightarrow> bytes set \<Rightarrow> store \<Rightarrow> store \<Rightarrow> bool" where
  "reads e U st st' \<longleftrightarrow> grows e U st st' \<and> view e st' = view e st \<and> files st' = files st"

lemma reads_refl: "store_ok e U st \<Longrightarrow> reads e U st st"
  by (simp add: reads_def grows_refl)

lemma reads_trans: "reads e U a b \<Longrightarrow> reads e U b c \<Longrightarrow> reads e U a c"
  unfolding reads_def using grows_trans by auto

lemma reads_ok: "reads e U st st' \<Longrightarrow> store_ok e U st'"
  by (auto simp: reads_def dest: grows_ok)

lemma get_reads:
  assumes "store_ok e U st" "liftR (get e i) st = (r, st')"
  shows "reads e U st st'" "r = Inr ob \<Longrightarrow> view e st i = Some (canon ob)"
proof -
  obtain x where g: "get e i st = (x, st')" "r = (case x of Inl err \<Rightarrow> Inl (RCore err) | Inr ob \<Rightarrow> Inr ob)"
    using assms(2) by (auto simp: liftR_def split: prod.splits sum.splits)
  show "reads e U st st'"
    using os.get_inv [OF assms(1) g(1)] os.get_view [OF assms(1) g(1)] get_okD(2) [OF assms(1) g(1)] get_budget [of e i st]
      get_files [of e i st] g(1)
    by (simp add: reads_def grows_def)
  show "r = Inr ob \<Longrightarrow> view e st i = Some (canon ob)"
    using os.get_result [OF assms(1), of i ob st'] g by (auto split: sum.splits)
qed

section \<open>Sound entries\<close>

definition sound_entry :: "ext \<Rightarrow> signing_prims \<Rightarrow> store \<Rightarrow> sig_entry \<Rightarrow> bool" where
  "sound_entry e sg st en = (case en of (t, s, k) \<Rightarrow> \<exists>sig ob. view e st s = Some (Signature sig) \<and> si_snapshot sig = t \<and> si_signer sig = k
     \<and> view e st t = Some ob \<and> valid_for e sg sig ob)"

definition index_sound :: "ext \<Rightarrow> signing_prims \<Rightarrow> bytes set \<Rightarrow> store \<times> sc_dir \<Rightarrow> bool" where
  "index_sound e sg U s \<longleftrightarrow> store_ok e U (fst s)
     \<and> (\<forall>ens. read_signatures e (snd s) = Inr ens \<longrightarrow> (\<forall>en \<in> set ens. sound_entry e sg (fst s) en))"

lemma sound_grows: "sound_entry e sg st en \<Longrightarrow> grows e U st st' \<Longrightarrow> sound_entry e sg st' en"
  unfolding sound_entry_def using grows_view by (fastforce split: prod.splits)

lemma sound_reads: "reads e U st st' \<Longrightarrow> sound_entry e sg st' en = sound_entry e sg st en"
  by (simp add: reads_def sound_entry_def)

lemma valid_for_canon [simp]: "valid_for e sg sig (canon ob) = valid_for e sg sig ob"
  by (cases ob) (simp_all add: canon_def valid_for_def)

lemma canon_Signature [simp]: "canon ob = Signature s \<longleftrightarrow> ob = Signature s" "canon (Signature s) = Signature s"
  by (cases ob) (simp_all add: canon_def)

lemma sound_entry_ids:
  assumes "store_ok e U st" "blake3_ok e" "sound_entry e sg st en"
  shows "sig_entry_ok en"
proof -
  obtain t s k where en: "en = (t, s, k)" by (cases en)
  obtain sig ob where v: "view e st s = Some (Signature sig)" "si_signer sig = k" "view e st t = Some ob"
    using assms(3) by (auto simp: sound_entry_def en)
  have c: "content_inv e U st" using assms(1) by (simp add: store_ok_def)
  obtain c where "id_of e c = s" "decode c = Inr (Signature sig)"
    using view_sourced [OF c v(1)] by (auto simp: sourced_def)
  moreover obtain c' where "id_of e c' = t" using view_sourced [OF c v(3)] by (auto simp: sourced_def)
  moreover have "length (si_signer sig) = 32"
    using decode_sound [OF calculation(2)] by (auto simp: object_ok_def signature_ok_def)
  ultimately show ?thesis using assms(2) v(2) by (auto simp: sig_entry_ok_def en id_of_ok)
qed

lemma acceptable_ok:
  assumes "store_ok e U st" "acceptable e sg sig st = (r, st')"
  shows "reads e U st st'" "r = Inr True \<Longrightarrow> \<exists>ob. view e st (si_snapshot sig) = Some ob \<and> valid_for e sg sig ob"
proof -
  obtain x s where g: "liftR (get e (si_snapshot sig)) st = (x, s)" by fastforce
  show "reads e U st st'"
    using assms(2) reads_refl [OF assms(1)] get_reads(1) [OF assms(1) g] g by (auto simp: acceptable_def bindS_def split: if_splits sum.splits)
  show "r = Inr True \<Longrightarrow> \<exists>ob. view e st (si_snapshot sig) = Some ob \<and> valid_for e sg sig ob"
    using assms(2) g get_reads(2) [OF assms(1) g] by (force simp: acceptable_def bindS_def split: if_splits sum.splits)
qed

text \<open>An object read as a signature that is accepted gives a sound entry.\<close>

lemma accepted_sound:
  assumes "store_ok e U st" "liftR (get e i) st = (Inr (Signature sig), s1)" "acceptable e sg sig s1 = (Inr True, s2)"
  shows "sound_entry e sg st (si_snapshot sig, i, si_signer sig)" "reads e U st s2"
proof -
  note g = get_reads [OF assms(1,2)]
  note a = acceptable_ok [OF reads_ok [OF g(1)] assms(3)]
  show "reads e U st s2" using reads_trans [OF g(1) a(1)] .
  show "sound_entry e sg st (si_snapshot sig, i, si_signer sig)"
    using g a(2) by (auto simp: sound_entry_def reads_def)
qed

lemma verify_incoming_ok:
  "store_ok e U st \<Longrightarrow> verify_incoming e sg is st = (r, st') \<Longrightarrow> reads e U st st' \<and> (\<forall>ens. r = Inr ens \<longrightarrow> (\<forall>en \<in> set ens. sound_entry e sg st en))"
proof (induction "is" arbitrary: st r st')
  case Nil
  then show ?case using reads_refl by auto
next
  case (Cons i "is")
  obtain x s1 where g: "liftR (get e i) st = (x, s1)" by fastforce
  note r1 = get_reads(1) [OF Cons.prems(1) g]
  show ?case
  proof (cases x)
    case (Inl err)
    with Cons.prems g r1 show ?thesis by (auto simp: bindS_def)
  next
    case (Inr ob)
    let ?step = "case ob of Signature sig \<Rightarrow> bindS (acceptable e sg sig) (\<lambda>ok. returnS (if ok then [(si_snapshot sig, i, si_signer sig)] else [])) | _ \<Rightarrow> returnS []"
    obtain y s2 where st: "?step s1 = (y, s2)" by fastforce
    have s2: "reads e U st s2 \<and> (\<forall>new. y = Inr new \<longrightarrow> (\<forall>en \<in> set new. sound_entry e sg st en))"
    proof (cases "\<exists>sig. ob = Signature sig")
      case True
      then obtain sig where ob: "ob = Signature sig" by blast
      obtain z s3 where a: "acceptable e sg sig s1 = (z, s3)" by fastforce
      have eq: "y = (case z of Inl err \<Rightarrow> Inl err | Inr ok \<Rightarrow> Inr (if ok then [(si_snapshot sig, i, si_signer sig)] else []))" "s2 = s3"
        using st ob a by (auto simp: bindS_def split: sum.splits)
      have "reads e U st s2" using reads_trans [OF r1 acceptable_ok(1) [OF reads_ok [OF r1] a]] eq by simp
      then show ?thesis using eq a accepted_sound(1) [OF Cons.prems(1)] g Inr ob by (auto split: sum.splits if_splits)
    next
      case False
      then have "y = Inr []" "s2 = s1" using st by (auto split: object.splits)
      with r1 show ?thesis by simp
    qed
    show ?thesis
    proof (cases y)
      case (Inl err)
      then have "r = Inl err" "st' = s2" using Cons.prems(2) g Inr st by (auto simp: bindS_def)
      with s2 show ?thesis by simp
    next
      case new: (Inr new)
      obtain z s3 where rest: "verify_incoming e sg is s2 = (z, s3)" by fastforce
      have "r = (case z of Inl err \<Rightarrow> Inl err | Inr ens \<Rightarrow> Inr (new @ ens))" "st' = s3"
        using Cons.prems(2) g Inr st new rest by (auto simp: bindS_def split: sum.splits)
      with Cons.IH [OF reads_ok rest] s2 new show ?thesis using reads_trans sound_reads by (fastforce split: sum.splits)
    qed
  qed
qed

section \<open>The import and the rebuild\<close>

lemma checked_signer_ok:
  assumes "store_ok e U st" "checked_signer e sg t i st = (r, st')"
  shows "reads e U st st'" "r = Inr (Some k) \<Longrightarrow> sound_entry e sg st (t, i, k)"
proof -
  obtain x s1 where g: "liftR (get e i) st = (x, s1)" by fastforce
  note r1 = get_reads(1) [OF assms(1) g]
  have "reads e U st st' \<and> (r = Inr (Some k) \<longrightarrow> sound_entry e sg st (t, i, k))"
  proof (cases "\<exists>sig. x = Inr (Signature sig) \<and> si_snapshot sig = t")
    case True
    then obtain sig where x: "x = Inr (Signature sig)" "si_snapshot sig = t" by blast
    obtain z s2 where a: "acceptable e sg sig s1 = (z, s2)" by fastforce
    have "r = (case z of Inl err \<Rightarrow> Inl err | Inr ok \<Rightarrow> Inr (if ok then Some (si_signer sig) else None))" "st' = s2"
      using assms(2) g x a by (auto simp: checked_signer_def bindS_def split: sum.splits)
    then show ?thesis
      using reads_trans [OF r1 acceptable_ok(1) [OF reads_ok [OF r1] a]] accepted_sound(1) [OF assms(1)] g x a
      by (auto split: sum.splits if_splits)
  next
    case False
    then have "st' = s1" "r \<noteq> Inr (Some k)"
      using assms(2) g by (auto simp: checked_signer_def bindS_def split: sum.splits object.splits if_splits)
    with r1 show ?thesis by simp
  qed
  then show "reads e U st st'" "r = Inr (Some k) \<Longrightarrow> sound_entry e sg st (t, i, k)" by simp_all
qed

lemma migrate_entries_ok:
  "store_ok e U st \<Longrightarrow> migrate_entries e sg ls slots st = (r, st') \<Longrightarrow> reads e U st st' \<and> (\<forall>ens. r = Inr ens \<longrightarrow> (\<forall>en \<in> set ens. sound_entry e sg st en))"
proof (induction ls arbitrary: slots st r st')
  case Nil
  then show ?case using reads_refl by auto
next
  case (Cons l ls)
  obtain t i where l: "l = (t, i)" by (cases l)
  obtain x s1 where c: "checked_signer e sg t i st = (x, s1)" by fastforce
  note r1 = checked_signer_ok [OF Cons.prems(1) c]
  have skip: "migrate_entries e sg ls slots' s1 = (y, s2) \<Longrightarrow> reads e U st s2 \<and> (\<forall>ens. y = Inr ens \<longrightarrow> (\<forall>en \<in> set ens. sound_entry e sg st en))" for slots' y s2
    using Cons.IH [OF reads_ok [OF r1(1)]] reads_trans [OF r1(1)] sound_reads [OF r1(1)] by blast
  show ?case
  proof (cases "\<exists>k. x = Inr (Some k) \<and> (t, k) \<notin> slots")
    case True
    then obtain k where k: "x = Inr (Some k)" "(t, k) \<notin> slots" by blast
    obtain y s2 where m: "migrate_entries e sg ls (insert (t, k) slots) s1 = (y, s2)" by fastforce
    have "r = (case y of Inl err \<Rightarrow> Inl err | Inr ens \<Rightarrow> Inr ((t, i, k) # ens))" "st' = s2"
      using Cons.prems(2) l c k m by (auto simp: bindS_def split: sum.splits)
    then show ?thesis using skip [OF m] r1(2) [OF k(1)] by (auto split: sum.splits)
  next
    case False
    then have "migrate_entries e sg ls slots s1 = (r, st') \<or> (isErr r \<and> st' = s1)"
      using Cons.prems(2) l c by (auto split: sum.splits option.splits if_splits)
    then show ?thesis using skip r1(1) by auto
  qed
qed

definition kept :: "ext \<Rightarrow> signing_prims \<Rightarrow> bytes set \<Rightarrow> store \<times> sc_dir \<Rightarrow> store \<times> sc_dir \<Rightarrow> bool" where
  "kept e sg U s s' \<longleftrightarrow> grows e U (fst s) (fst s') \<and> (index_sound e sg U s \<longrightarrow> index_sound e sg U s')"

lemma kept_refl: "store_ok e U (fst s) \<Longrightarrow> kept e sg U s s"
  by (simp add: kept_def grows_refl)

lemma kept_trans: "kept e sg U a b \<Longrightarrow> kept e sg U b c \<Longrightarrow> kept e sg U a c"
  unfolding kept_def using grows_trans by blast

lemma kept_grows: "grows e U st st' \<Longrightarrow> kept e sg U (st, d) (st', d)"
  unfolding kept_def index_sound_def using sound_grows by (fastforce dest: grows_ok)

lemma kept_reads: "reads e U st st' \<Longrightarrow> kept e sg U (st, d) (st', d)"
  by (rule kept_grows) (simp add: reads_def)

lemma kept_written:
  assumes "store_ok e U st" "hexes e" "blake3_ok e" "\<forall>en \<in> set ens. sound_entry e sg st en"
  shows "kept e sg U (st, d) (st, write_signatures e ens d)"
proof -
  have "list_all sig_entry_ok ens" using sound_entry_ids [OF assms(1,3)] assms(4) by (auto simp: list_all_iff)
  with assms show ?thesis by (simp add: kept_def index_sound_def read_write_signatures grows_refl)
qed

lemma migrate_legacy_kept:
  assumes "store_ok e U (fst s)" "hexes e" "blake3_ok e" "migrate_legacy e sg s = (r, s')"
  shows "kept e sg U s s'"
proof -
  obtain st d where s: "s = (st, d)" by (cases s)
  show ?thesis
  proof (cases "file_exists SIGNATURES d \<or> \<not> file_exists SIGNATURES_LEGACY d \<or> (\<forall>text. read_text SIGNATURES_LEGACY d \<noteq> Inr (Some text))")
    case True
    then have "s' = s" using assms(4) s
      by (auto simp: migrate_legacy_def bindS_def split: if_splits option.splits sum.splits)
    with kept_refl [OF assms(1)] show ?thesis by simp
  next
    case False
    then obtain body where tx: "read_text SIGNATURES_LEGACY d = Inr (Some body)" "\<not> file_exists SIGNATURES d" "file_exists SIGNATURES_LEGACY d" by blast
    let ?ls = "List.map_filter (legacy_line e) (str_lines body)"
    obtain x s1 where m: "migrate_entries e sg ?ls {} st = (x, s1)" by fastforce
    have ok: "store_ok e U st" using assms(1) s by simp
    note me = migrate_entries_ok [OF ok m]
    have s1: "kept e sg U (st, d) (s1, d)" using me by (simp add: kept_reads)
    show ?thesis
    proof (cases x)
      case (Inl err)
      then have "s' = (s1, d)" using assms(4) s tx m by (auto simp: migrate_legacy_def bindS_def on_store_def)
      with s1 s show ?thesis by simp
    next
      case (Inr ens)
      then have "s' = (s1, write_signatures e ens d)"
        using assms(4) s tx m by (auto simp: migrate_legacy_def bindS_def on_store_def on_dir_def)
      moreover have "kept e sg U (s1, d) (s1, write_signatures e ens d)"
        using me Inr sound_reads [of e U st s1 sg] by (intro kept_written assms(2,3)) (auto dest: reads_ok)
      ultimately show ?thesis using kept_trans [OF s1] s by simp
    qed
  qed
qed

lemma migrate_legacy_reads:
  assumes "store_ok e U st" "migrate_legacy e sg (st, d) = (r, st', d')"
  shows "reads e U st st'"
proof (cases "file_exists SIGNATURES d \<or> \<not> file_exists SIGNATURES_LEGACY d \<or> (\<forall>body. read_text SIGNATURES_LEGACY d \<noteq> Inr (Some body))")
  case True
  then have "st' = st" using assms(2) by (auto simp: migrate_legacy_def bindS_def split: if_splits option.splits sum.splits)
  with reads_refl [OF assms(1)] show ?thesis by simp
next
  case False
  then obtain body where tx: "read_text SIGNATURES_LEGACY d = Inr (Some body)" "\<not> file_exists SIGNATURES d" "file_exists SIGNATURES_LEGACY d" by blast
  obtain x s1 where m: "migrate_entries e sg (List.map_filter (legacy_line e) (str_lines body)) {} st = (x, s1)" by fastforce
  then have "st' = s1" using assms(2) tx by (auto simp: migrate_legacy_def bindS_def on_store_def on_dir_def split: sum.splits)
  with migrate_entries_ok [OF assms(1) m] show ?thesis by simp
qed

lemma append_entries_kept:
  assumes "store_ok e U (fst s)" "hexes e" "blake3_ok e" "\<forall>en \<in> set new. sound_entry e sg (fst s) en" "append_entries e sg new s = (r, s')"
  shows "kept e sg U s s'"
proof (cases "new = []")
  case True
  with assms kept_refl show ?thesis by (simp add: append_entries_def)
next
  case False
  obtain x s1 where m: "migrate_legacy e sg s = (x, s1)" by (cases "migrate_legacy e sg s")
  note k1 = migrate_legacy_kept [OF assms(1-3) m]
  show ?thesis
  proof (cases x)
    case (Inl err)
    with assms(5) m False k1 show ?thesis by (simp add: append_entries_def bindS_def)
  next
    case (Inr u)
    obtain st d where s1: "s1 = (st, d)" by (cases s1)
    obtain y d' where a: "append_signatures e new d = (y, d')" by fastforce
    have s': "s' = (st, d')" using assms(5) m False Inr s1 a by (simp add: append_entries_def bindS_def on_dir_def)
    have ok: "store_ok e U st" and snd: "\<forall>en \<in> set new. sound_entry e sg st en"
      using k1 s1 assms(4) sound_grows by (auto simp: kept_def dest: grows_ok)
    have new: "list_all sig_entry_ok new" using sound_entry_ids [OF ok assms(3)] snd by (auto simp: list_all_iff)
    have "kept e sg U (st, d) (st, d')"
    proof (cases "read_signatures e d")
      case (Inl err)
      then have "d' = d" using a by (auto simp: append_signatures_def read_signatures_def read_lines_def split: sum.splits if_splits)
      with kept_refl [of e U "(st, d)"] ok show ?thesis by simp
    next
      case (Inr old)
      from append_signatures_read [OF new a this assms(2)] new_slots_sub
      obtain added where ad: "set added \<subseteq> set new" "read_signatures e d' = Inr (old @ added)" by blast
      have "sound_entry e sg st en" if "en \<in> set added" for en using that ad(1) snd by blast
      with ok Inr ad(2) show ?thesis by (auto simp: kept_def index_sound_def grows_refl)
    qed
    with kept_trans [OF k1] s1 s' show ?thesis by simp
  qed
qed

lemma append_index_kept:
  assumes "store_ok e U (fst s)" "hexes e" "blake3_ok e" "append_index e sg i s = (r, s')"
  shows "kept e sg U s s'"
proof -
  obtain st d where s: "s = (st, d)" by (cases s)
  have ok: "store_ok e U st" using assms(1) s by simp
  obtain x s1 where g: "liftR (get e i) st = (x, s1)" by fastforce
  note r1 = get_reads(1) [OF ok g]
  show ?thesis
  proof (cases "\<exists>sig. x = Inr (Signature sig)")
    case True
    then obtain sig where x: "x = Inr (Signature sig)" by blast
    obtain z s2 where a: "acceptable e sg sig s1 = (z, s2)" by fastforce
    note r2 = reads_trans [OF r1 acceptable_ok(1) [OF reads_ok [OF r1] a]]
    show ?thesis
    proof (cases "z = Inr True")
      case True
      have sd: "sound_entry e sg s2 (si_snapshot sig, i, si_signer sig)"
        using accepted_sound(1) [OF ok g [unfolded x] a [unfolded True]] sound_reads [OF r2] by simp
      obtain y s3 where ap: "append_entries e sg [(si_snapshot sig, i, si_signer sig)] (s2, d) = (y, s3)"
        by (cases "append_entries e sg [(si_snapshot sig, i, si_signer sig)] (s2, d)")
      then have "s' = s3" using assms(4) s g x a True by (auto simp: append_index_def bindS_def on_store_def split: sum.splits)
      moreover have "kept e sg U (s2, d) s3" using append_entries_kept [OF _ assms(2,3) _ ap] sd reads_ok [OF r2] by simp
      ultimately show ?thesis using kept_trans [OF kept_reads [OF r2]] s by simp
    next
      case False
      then have "s' = (s2, d)" using assms(4) s g x a by (auto simp: append_index_def bindS_def on_store_def split: sum.splits if_splits)
      with kept_reads [OF r2] s show ?thesis by simp
    qed
  next
    case False
    then have "s' = (s1, d)" using assms(4) s g by (auto simp: append_index_def bindS_def on_store_def split: sum.splits object.splits)
    with kept_reads [OF r1] s show ?thesis by simp
  qed
qed

lemma sign_snapshot_kept:
  assumes "store_ok e U (fst s)" "hexes e" "blake3_ok e" "sign_snapshot e sg snap who s = (r, s')"
    and "\<And>key. idn_signing who = Some key \<Longrightarrow>
      known U (Signature \<lparr>si_snapshot = snap, si_signer = sg_public sg key, si_sig = sign_snapshot_id sg key (id_bytes snap)\<rparr>)"
  shows "kept e sg U s s'"
proof -
  obtain st d where s: "s = (st, d)" by (cases s)
  have ok: "store_ok e U st" using assms(1) s by simp
  obtain x s1 where g: "liftR (get e snap) st = (x, s1)" by fastforce
  note r1 = get_reads(1) [OF ok g]
  show ?thesis
  proof (cases "(\<exists>ob. x = Inr ob \<and> (\<forall>m. ob \<noteq> Manifest m)) \<and> idn_signing who \<noteq> None")
    case True
    then obtain ob key where x: "x = Inr ob" "\<forall>m. ob \<noteq> Manifest m" "idn_signing who = Some key" by blast
    let ?so = "Signature \<lparr>si_snapshot = snap, si_signer = sg_public sg key, si_sig = sign_snapshot_id sg key (id_bytes snap)\<rparr>"
    obtain s2 where p: "put e ?so s1 = (Inr (object_id e ?so), s2)" "grows e U s1 s2"
      using put_weightless [OF reads_ok [OF r1] assms(5) [OF x(3)]] by (auto simp: blob_size_def)
    obtain y s3 where a: "append_index e sg (object_id e ?so) (s2, d) = (y, s3)" by (cases "append_index e sg (object_id e ?so) (s2, d)")
    have k2: "kept e sg U (st, d) (s2, d)" using r1 p(2) grows_trans by (intro kept_grows) (auto simp: reads_def)
    have "s' = s3"
      using assms(4) s g x p(1) a by (auto simp: sign_snapshot_def bindS_def on_store_def liftR_def split: object.splits sum.splits)
    moreover have "kept e sg U (s2, d) s3" using append_index_kept [OF _ assms(2,3) a] grows_ok [OF p(2)] by simp
    ultimately show ?thesis using kept_trans [OF k2] s by simp
  next
    case False
    then have "s' = (s1, d)"
      using assms(4) s g by (auto simp: sign_snapshot_def bindS_def on_store_def split: object.splits sum.splits option.splits)
    with kept_reads [OF r1] s show ?thesis by simp
  qed
qed

section \<open>The rebuild\<close>

abbreviation scan_sound :: "ext \<Rightarrow> signing_prims \<Rightarrow> store \<Rightarrow> sig_scan \<Rightarrow> bool" where
  "scan_sound e sg st sc \<equiv> \<forall>en \<in> set (sc_entries sc). sound_entry e sg st en"

lemma scan_signatures_ok:
  "store_ok e U st \<Longrightarrow> scan_sound e sg st sc \<Longrightarrow> scan_signatures e sg is sc st = (r, st') \<Longrightarrow>
    reads e U st st' \<and> (\<forall>sc'. r = Inr sc' \<longrightarrow> scan_sound e sg st sc')"
proof (induction "is" arbitrary: sc st r st')
  case Nil
  then show ?case using reads_refl by auto
next
  case (Cons i "is")
  obtain x s1 where g: "liftR (get e i) st = (x, s1)" by fastforce
  note r1 = get_reads(1) [OF Cons.prems(1) g]
  have rest: "scan_signatures e sg is sc1 s2 = (y, s3) \<Longrightarrow> reads e U st s2 \<Longrightarrow> scan_sound e sg st sc1 \<Longrightarrow>
      reads e U st s3 \<and> (\<forall>sc'. y = Inr sc' \<longrightarrow> scan_sound e sg st sc')" for sc1 s2 y s3
  proof -
    assume a: "scan_signatures e sg is sc1 s2 = (y, s3)" "reads e U st s2" "scan_sound e sg st sc1"
    have "scan_sound e sg s2 sc1" using a(3) sound_reads [OF a(2)] by simp
    from Cons.IH [OF reads_ok [OF a(2)] this a(1)] show "reads e U st s3 \<and> (\<forall>sc'. y = Inr sc' \<longrightarrow> scan_sound e sg st sc')"
      using reads_trans [OF a(2)] sound_reads [OF a(2)] by simp
  qed
  show ?case
  proof (cases "\<exists>sig. x = Inr (Signature sig) \<and> contains e (si_snapshot sig) s1")
    case True
    then obtain sig where x: "x = Inr (Signature sig)" "contains e (si_snapshot sig) s1" by blast
    obtain z s2 where a: "acceptable e sg sig s1 = (z, s2)" by fastforce
    note r2 = reads_trans [OF r1 acceptable_ok(1) [OF reads_ok [OF r1] a]]
    show ?thesis
    proof (cases z)
      case (Inl err)
      then have "isErr r" "st' = s2" using Cons.prems(3) g x a by (auto simp: bindS_def)
      with r2 show ?thesis by auto
    next
      case (Inr ok)
      let ?sc = "if ok then sc\<lparr>sc_entries := sc_entries sc @ [(si_snapshot sig, i, si_signer sig)]\<rparr> else sc"
      have "scan_signatures e sg is ?sc s2 = (r, st')" using Cons.prems(3) g x a Inr by (simp add: bindS_def)
      moreover have "scan_sound e sg st ?sc"
        using Cons.prems(1,2) accepted_sound(1) [OF Cons.prems(1)] g x(1) a Inr by auto
      ultimately show ?thesis using rest r2 by blast
    qed
  next
    case False
    show ?thesis
    proof (cases x)
      case (Inl err)
      then have "isErr r" "st' = s1" using Cons.prems(3) g by (auto simp: bindS_def)
      with r1 show ?thesis by auto
    next
      case (Inr ob)
      obtain sc1 where "scan_signatures e sg is sc1 s1 = (r, st')" "sc_entries sc1 = sc_entries sc"
      proof (cases "\<exists>sig. ob = Signature sig")
        case True
        with False Inr Cons.prems(3) g that show thesis by (force simp: bindS_def)
      next
        case no: False
        with Inr Cons.prems(3) g that show thesis by (cases ob) (auto simp: bindS_def)
      qed
      with rest r1 Cons.prems(2) show ?thesis by metis
    qed
  qed
qed

lemma scan_new_ok:
  assumes "store_ok e U st" "scan_sound e sg st sc" "scan_new e sg sc st = (r, st')"
  shows "reads e U st st' \<and> (\<forall>p. r = Inr p \<longrightarrow> scan_sound e sg st (snd p))"
proof -
  let ?new = "filter (\<lambda>i. i \<notin> sc_seen sc) (all_ids e st)" and ?sc = "sc\<lparr>sc_seen := sc_seen sc \<union> set (filter (\<lambda>i. i \<notin> sc_seen sc) (all_ids e st)), sc_waiting := []\<rparr>"
  obtain y s1 where y: "scan_signatures e sg (?new @ sc_waiting sc) ?sc st = (y, s1)" by fastforce
  have "scan_sound e sg st ?sc" using assms(2) by simp
  note sc = scan_signatures_ok [OF assms(1) this y]
  have "st' = s1" "r = (case y of Inl err \<Rightarrow> Inl err | Inr sc \<Rightarrow> Inr (?new \<noteq> [], sc))"
    using assms(3) y by (auto simp: scan_new_def Let_def bindS_def split: sum.splits)
  with sc show ?thesis by (auto split: sum.splits)
qed

lemma catch_up_ok:
  "store_ok e U st \<Longrightarrow> scan_sound e sg st sc \<Longrightarrow> catch_up n e sg sc st = (r, st') \<Longrightarrow> reads e U st st' \<and> (\<forall>sc'. r = Inr sc' \<longrightarrow> scan_sound e sg st sc')"
proof (induction n arbitrary: sc st)
  case 0
  then show ?case using reads_refl by auto
next
  case (Suc n)
  obtain x s1 where x: "scan_new e sg sc st = (x, s1)" by fastforce
  note s = scan_new_ok [OF Suc.prems(1,2) x]
  show ?case
  proof (cases "\<exists>sc1. x = Inr (True, sc1)")
    case True
    then obtain sc1 where x1: "x = Inr (True, sc1)" by blast
    then have "catch_up n e sg sc1 s1 = (r, st')" using Suc.prems(3) x by (simp add: bindS_def)
    moreover have "scan_sound e sg s1 sc1" using s x1 sound_reads [of e U st s1 sg] by simp
    ultimately have "reads e U s1 st' \<and> (\<forall>sc'. r = Inr sc' \<longrightarrow> scan_sound e sg s1 sc')" using Suc.IH reads_ok s by blast
    then show ?thesis using s reads_trans [of e U st s1 st'] sound_reads [of e U st s1 sg] by simp
  next
    case False
    then have "st' = s1 \<and> (\<forall>sc'. r = Inr sc' \<longrightarrow> x = Inr (False, sc'))" using Suc.prems(3) x by (auto simp: bindS_def split: sum.splits if_splits)
    with s show ?thesis by auto
  qed
qed

lemma dedup_slots_sub: "set (dedup_slots ens) \<subseteq> set ens"
  by (induction ens rule: dedup_slots.induct) auto

lemma by_slot_sub: "set (by_slot ens) \<subseteq> set ens"
  using dedup_slots_sub [of "sort_key (\<lambda>(t, s, k). (t, k, s)) ens"] by (simp add: by_slot_def)

lemma reindex_kept:
  assumes "store_ok e U (fst s)" "hexes e" "blake3_ok e" "reindex e sg s = (r, s')"
  shows "kept e sg U s s'"
proof -
  obtain st d where s: "s = (st, d)" by (cases s)
  let ?sc0 = "\<lparr>sc_seen = {}, sc_waiting = [], sc_entries = []\<rparr>"
  have ok: "store_ok e U st" using assms(1) s by simp
  obtain x s1 where x: "scan_new e sg ?sc0 st = (x, s1)" by fastforce
  note n1 = scan_new_ok [OF ok _ x]
  show ?thesis
  proof (cases x)
    case (Inl err)
    then have "s' = (s1, d)" using assms(4) s x by (auto simp: reindex_def bindS_def on_store_def)
    with n1 s kept_reads show ?thesis by auto
  next
    case (Inr p)
    then obtain b sc1 where p: "x = Inr (b, sc1)" by (cases p) auto
    have n1': "reads e U st s1 \<and> scan_sound e sg st sc1" using n1 p by simp
    then have k1: "reads e U st s1" "scan_sound e sg s1 sc1" using sound_reads [of e U st s1 sg] by simp_all
    obtain y s2 where y: "catch_up CATCH_UP_PASSES e sg sc1 s1 = (y, s2)" by fastforce
    note n2 = catch_up_ok [OF reads_ok [OF k1(1)] k1(2) y]
    show ?thesis
    proof (cases y)
      case (Inl err)
      then have "s' = (s2, d)" using assms(4) s x p y by (auto simp: reindex_def bindS_def on_store_def)
      with n2 s kept_reads [OF reads_trans [OF k1(1)]] show ?thesis by auto
    next
      case (Inr sc2)
      have k2: "reads e U s1 s2" "scan_sound e sg s2 sc2" using n2 Inr sound_reads [of e U s1 s2 sg] by simp_all
      obtain z s3 where z: "scan_new e sg sc2 s2 = (z, s3)" by fastforce
      note n3 = scan_new_ok [OF reads_ok [OF k2(1)] k2(2) z]
      have k3: "kept e sg U (st, d) (s3, d)" using n3 reads_trans [OF reads_trans [OF k1(1) k2(1)]] kept_reads by blast
      show ?thesis
      proof (cases z)
        case (Inl err)
        then have "s' = (s3, d)" using assms(4) s x p y Inr z by (auto simp: reindex_def bindS_def on_store_def)
        with k3 s show ?thesis by simp
      next
        case z': (Inr q)
        then obtain b' sc3 where q: "z = Inr (b', sc3)" by (cases q) auto
        have "s' = (s3, write_signatures e (by_slot (sc_entries sc3)) d)"
          using assms(4) s x p y Inr z q by (auto simp: reindex_def bindS_def on_store_def on_dir_def Let_def)
        moreover have "scan_sound e sg s3 sc3" using n3 q sound_reads [of e U s2 s3 sg] by simp
        then have "kept e sg U (s3, d) (s3, write_signatures e (by_slot (sc_entries sc3)) d)"
          using n3 by_slot_sub [of "sc_entries sc3"] by (intro kept_written assms(2,3)) (auto dest: reads_ok)
        ultimately show ?thesis using kept_trans [OF k3] s by simp
      qed
    qed
  qed
qed

section \<open>Status\<close>

lemma get_weightless:
  assumes "store_ok e U st" "view e st i = Some ob" "blob_size ob = 0"
  shows "\<exists>ob' st'. liftR (get e i) st = (Inr ob', st') \<and> canon ob' = ob \<and> reads e U st st'"
proof -
  have "canon ob = ob" using assms(2) by (auto simp: view_def split: sum.splits)
  then obtain ob' st' where g: "get e i st = (Inr ob', st')" "canon ob' = ob" using get_held [of e U st i ob] assms by auto
  then have "liftR (get e i) st = (Inr ob', st')" by (simp add: liftR_def)
  with get_reads(1) [OF assms(1) this] g(2) show ?thesis by blast
qed

lemma load_signatures_ok:
  "store_ok e U st \<Longrightarrow> list_all2 (\<lambda>i sig. view e st i = Some (Signature sig)) is sigs \<Longrightarrow>
    \<exists>st'. load_signatures e is st = (Inr sigs, st') \<and> reads e U st st'"
proof (induction "is" arbitrary: sigs st)
  case Nil
  then show ?case using reads_refl by auto
next
  case (Cons i "is")
  obtain sig rest where s: "sigs = sig # rest" "view e st i = Some (Signature sig)" "list_all2 (\<lambda>i sig. view e st i = Some (Signature sig)) is rest"
    using Cons.prems(2) by (auto simp: list_all2_Cons1)
  obtain s1 where g: "liftR (get e i) st = (Inr (Signature sig), s1)" "reads e U st s1"
    using get_weightless [OF Cons.prems(1) s(2)] by (auto simp: blob_size_def)
  have "list_all2 (\<lambda>i sig. view e s1 i = Some (Signature sig)) is rest" using s(3) g(2) by (simp add: reads_def)
  from Cons.IH [OF reads_ok [OF g(2)] this] obtain s2 where "load_signatures e is s1 = (Inr rest, s2)" "reads e U s1 s2" by blast
  with g s(1) show ?case using reads_trans [OF g(2)] by (auto simp: bindS_def)
qed

text \<open>The first trusted signer names the status when every signature verifies.\<close>

lemma status_loop_trusted:
  "\<forall>s \<in> set ss. ver (si_signer s) (si_sig s) \<Longrightarrow> tn \<noteq> None \<or> (\<exists>s \<in> set ss. trust (si_signer s) \<noteq> None) \<Longrightarrow>
    \<exists>n. status_loop ver trust ss tn us = Some (Trusted n) \<and> (tn = Some n \<or> tn = None \<and> (\<exists>s \<in> set ss. trust (si_signer s) = Some n))"
proof (induction ss arbitrary: tn us)
  case Nil
  then show ?case by auto
next
  case (Cons s ss)
  show ?case
  proof (cases "trust (si_signer s)")
    case None
    with Cons.prems Cons.IH [of tn "if us = None then Some (si_signer s) else us"] show ?thesis by auto
  next
    case (Some n)
    with Cons.prems Cons.IH [of "if tn = None then Some n else tn" us] show ?thesis by (cases tn) auto
  qed
qed

lemma status_loop_untrusted:
  "\<forall>s \<in> set ss. ver (si_signer s) (si_sig s) \<Longrightarrow> \<forall>s \<in> set ss. trust (si_signer s) = None \<Longrightarrow>
    status_loop ver trust ss None us = map_option Untrusted (if us = None \<and> ss \<noteq> [] then Some (si_signer (hd ss)) else us)"
  by (induction ss arbitrary: us) auto

definition verified_sig :: "signing_prims \<Rightarrow> object_id \<Rightarrow> signature_obj \<Rightarrow> bool" where
  "verified_sig sg i sig \<longleftrightarrow> si_snapshot sig = i \<and> verify_snapshot_sig sg (si_signer sig) (id_bytes i) (si_sig sig)"

lemma indexed_sigs:
  assumes "\<forall>en \<in> set ens. sound_entry e sg st en" "view e st snap = Some (Snapshot sn)"
  shows "\<exists>sigs. list_all2 (\<lambda>i sig. view e st i = Some (Signature sig)) (map (\<lambda>en. fst (snd en)) (filter (\<lambda>en. fst en = snap) ens)) sigs
    \<and> list_all (verified_sig sg snap) sigs \<and> map si_signer sigs = map (\<lambda>en. snd (snd en)) (filter (\<lambda>en. fst en = snap) ens)"
  using assms(1)
proof (induction ens)
  case (Cons en ens)
  obtain t s k where en: "en = (t, s, k)" by (cases en)
  obtain sigs where sigs: "list_all2 (\<lambda>i sig. view e st i = Some (Signature sig)) (map (\<lambda>en. fst (snd en)) (filter (\<lambda>en. fst en = snap) ens)) sigs"
    "list_all (verified_sig sg snap) sigs" "map si_signer sigs = map (\<lambda>en. snd (snd en)) (filter (\<lambda>en. fst en = snap) ens)"
    using Cons by auto
  show ?case
  proof (cases "t = snap")
    case True
    then obtain sig where "view e st s = Some (Signature sig)" "si_snapshot sig = snap" "si_signer sig = k" "valid_for e sg sig (Snapshot sn)"
      using Cons.prems en assms(2) by (auto simp: sound_entry_def)
    moreover from this have "verified_sig sg snap sig" by (simp add: verified_sig_def valid_for_def)
    ultimately show ?thesis using sigs True en by (intro exI [of _ "sig # sigs"]) simp
  qed (use sigs en in auto)
qed simp

lemma signatures_for_ok:
  assumes "index_sound e sg U (st, d)" "read_signatures e d = Inr ens" "view e st snap = Some (Snapshot sn)"
  shows "\<exists>sigs st'. signatures_for e snap (st, d) = (Inr sigs, st', d) \<and> reads e U st st' \<and> list_all (verified_sig sg snap) sigs
    \<and> map si_signer sigs = map (\<lambda>en. snd (snd en)) (filter (\<lambda>en. fst en = snap) ens)"
proof -
  have ok: "store_ok e U st" and s: "\<forall>en \<in> set ens. sound_entry e sg st en" using assms(1,2) by (auto simp: index_sound_def)
  obtain sigs where sigs: "list_all2 (\<lambda>i sig. view e st i = Some (Signature sig)) (map (\<lambda>en. fst (snd en)) (filter (\<lambda>en. fst en = snap) ens)) sigs"
    "list_all (verified_sig sg snap) sigs" "map si_signer sigs = map (\<lambda>en. snd (snd en)) (filter (\<lambda>en. fst en = snap) ens)"
    using indexed_sigs [OF s assms(3)] by blast
  from load_signatures_ok [OF ok sigs(1)] obtain st' where "load_signatures e (map (\<lambda>en. fst (snd en)) (filter (\<lambda>en. fst en = snap) ens)) st = (Inr sigs, st')"
    "reads e U st st'" by blast
  with assms(2) sigs show ?thesis by (auto simp: signatures_for_def bindS_def on_store_def comp_def)
qed

section \<open>Properties\<close>

text \<open>
  The operations that write the index or the store beside it: an ingest of verified objects, the local
  index append, signing, the import, the rebuild, and whatever else the store or the other files undergo
  while nothing that was held is lost.
\<close>

inductive sig_step :: "ext \<Rightarrow> signing_prims \<Rightarrow> bytes set \<Rightarrow> store \<times> sc_dir \<Rightarrow> store \<times> sc_dir \<Rightarrow> bool" for e sg U where
  ingest: "verify_incoming e sg is st = (Inr ens, st') \<Longrightarrow> append_entries e sg ens (st', d) = (r, s') \<Longrightarrow> sig_step e sg U (st, d) s'"
| index: "append_index e sg i s = (r, s') \<Longrightarrow> sig_step e sg U s s'"
| sign: "(\<And>key. idn_signing who = Some key \<Longrightarrow>
      known U (Signature \<lparr>si_snapshot = snap, si_signer = sg_public sg key, si_sig = sign_snapshot_id sg key (id_bytes snap)\<rparr>)) \<Longrightarrow>
    sign_snapshot e sg snap who s = (r, s') \<Longrightarrow> sig_step e sg U s s'"
| import: "migrate_legacy e sg s = (r, s') \<Longrightarrow> sig_step e sg U s s'"
| rebuild: "reindex e sg s = (r, s') \<Longrightarrow> sig_step e sg U s s'"
| store: "grows e U st st' \<Longrightarrow> sig_step e sg U (st, d) (st', d)"
| others: "file_of d' SIGNATURES = file_of d SIGNATURES \<Longrightarrow> sig_step e sg U (st, d) (st, d')"

lemma sig_step_sound:
  assumes "sig_step e sg U s s'" "hexes e" "blake3_ok e" "index_sound e sg U s"
  shows "index_sound e sg U s'"
proof -
  have ok: "store_ok e U (fst s)" using assms(4) by (simp add: index_sound_def)
  have "kept e sg U s s'"
    using assms(1)
  proof (cases rule: sig_step.cases)
    case (ingest "is" st ens st' d r)
    have ok': "store_ok e U st" using ok ingest by simp
    note v = verify_incoming_ok [OF ok' ingest(2)]
    have "kept e sg U (st', d) s'"
      using append_entries_kept [OF _ assms(2,3) _ ingest(3)] v sound_reads [of e U st st' sg] by (auto dest: reads_ok)
    moreover have "kept e sg U (st, d) (st', d)" using v by (simp add: kept_reads)
    ultimately show ?thesis using kept_trans ingest(1) by blast
  next
    case (index i r)
    then show ?thesis by (rule append_index_kept [OF ok assms(2,3)])
  next
    case (sign who snap r)
    from sign_snapshot_kept [OF ok assms(2,3) sign(2)] sign(1) show ?thesis by blast
  next
    case (import r)
    then show ?thesis by (rule migrate_legacy_kept [OF ok assms(2,3)])
  next
    case (rebuild r)
    then show ?thesis by (rule reindex_kept [OF ok assms(2,3)])
  next
    case (store st st' d)
    then show ?thesis by (simp add: kept_grows)
  next
    case (others d' d st)
    then have "read_signatures e d' = read_signatures e d" by (simp add: read_signatures_def read_lines_def read_text_file)
    with ok others show ?thesis by (simp add: kept_def index_sound_def grows_refl)
  qed
  with assms(4) show ?thesis by (simp add: kept_def)
qed

text \<open>
  C28: no sequence of ingests, appends, signings, imports, rebuilds and other store operations ever puts a
  forged, dangling or misattributed signature in the index: every entry names a held signature object of
  that signer for that target, and it verifies over the held target in the domain of the target's kind.
\<close>

theorem signature_index_sound:
  assumes "hexes e" "blake3_ok e" "store_ok e U st" "read_signatures e d = Inr []" "(sig_step e sg U)\<^sup>*\<^sup>* (st, d) (st', d')"
    and "read_signatures e d' = Inr ens" "(t, s, k) \<in> set ens"
  shows "\<exists>sig ob. view e st' s = Some (Signature sig) \<and> si_snapshot sig = t \<and> si_signer sig = k \<and> view e st' t = Some ob \<and> valid_for e sg sig ob"
proof -
  have "index_sound e sg U (st', d')"
    using assms(5)
  proof (induction rule: rtranclp_induct)
    case base
    with assms(3,4) show ?case by (simp add: index_sound_def)
  next
    case (step s1 s2)
    with sig_step_sound [OF step(2) assms(1,2)] show ?case by blast
  qed
  with assms(6,7) show ?thesis by (fastforce simp: index_sound_def sound_entry_def)
qed

definition key_pair :: "signing_prims \<Rightarrow> bytes \<Rightarrow> bool" where
  "key_pair sg key \<longleftrightarrow> sg_point sg (sg_public sg key) \<and> (\<forall>m. sg_verify_strict sg (sg_public sg key) m (sg_sign sg key m))"

definition signed_obj :: "signing_prims \<Rightarrow> bytes \<Rightarrow> object_id \<Rightarrow> signature_obj" where
  "signed_obj sg key snap = \<lparr>si_snapshot = snap, si_signer = sg_public sg key, si_sig = sign_snapshot_id sg key (id_bytes snap)\<rparr>"

lemma signed_valid: "key_pair sg key \<Longrightarrow> valid_for e sg (signed_obj sg key snap) (Snapshot sn)"
  by (simp add: valid_for_def signed_obj_def verify_snapshot_sig_def verify_id_def sign_snapshot_id_def sign_id_def key_pair_def)

lemma sign_snapshot_ok:
  assumes "store_ok e U st" "hexes e" "blake3_ok e" "\<not> migration_pending d" "read_signatures e d = Inr old"
    and "view e st snap = Some (Snapshot sn)" "idn_signing who = Some key" "key_pair sg key" "known U (Signature (signed_obj sg key snap))"
  shows "\<exists>i st' d'. sign_snapshot e sg snap who (st, d) = (Inr i, st', d') \<and> grows e U st st'
    \<and> read_signatures e d' = Inr (old @ new_slots ((\<lambda>(t, _, k). (t, k)) ` set old) [(snap, i, sg_public sg key)])"
proof -
  let ?so = "signed_obj sg key snap" and ?i = "object_id e (Signature (signed_obj sg key snap))"
  obtain ob1 s1 where g: "liftR (get e snap) st = (Inr ob1, s1)" "canon ob1 = Snapshot sn" "reads e U st s1"
    using get_weightless [OF assms(1,6)] by (auto simp: blob_size_def)
  then obtain sn1 where ob1: "ob1 = Snapshot sn1" by (cases ob1) (auto simp: canon_def)
  obtain s2 where p: "put e (Signature ?so) s1 = (Inr ?i, s2)" "grows e U s1 s2" "view e s2 ?i = Some (Signature ?so)"
    using put_weightless [OF reads_ok [OF g(3)] assms(9)] by (auto simp: blob_size_def)
  have v2: "view e s2 snap = Some (Snapshot sn)" using assms(6) g(3) grows_view [OF p(2)] by (simp add: reads_def)
  obtain s3 where g3: "liftR (get e ?i) s2 = (Inr (Signature ?so), s3)" "reads e U s2 s3"
    using get_weightless [OF grows_ok [OF p(2)] p(3)] by (auto simp: blob_size_def)
  have v3: "view e s3 snap = Some (Snapshot sn)" using v2 g3(2) by (simp add: reads_def)
  obtain ob4 s4 where g4: "liftR (get e snap) s3 = (Inr ob4, s4)" "canon ob4 = Snapshot sn" "reads e U s3 s4"
    using get_weightless [OF reads_ok [OF g3(2)] v3] by (auto simp: blob_size_def)
  then have "valid_for e sg ?so ob4" using signed_valid [OF assms(8), of e snap sn] by (metis valid_for_canon)
  moreover have "contains e snap s3" using v3 view_contains [of e U s3 snap] reads_ok [OF g3(2)] by (auto simp: store_ok_def)
  ultimately have acc: "acceptable e sg ?so s3 = (Inr True, s4)" using g4(1) by (simp add: acceptable_def bindS_def signed_obj_def)
  have "sig_entry_ok (snap, ?i, sg_public sg key)"
    using sound_entry_ids [OF grows_ok [OF p(2)] assms(3), of sg "(snap, ?i, sg_public sg key)"] p(3) v2 signed_valid [OF assms(8), of e snap sn]
    by (simp add: sound_entry_def signed_obj_def)
  then have ok: "list_all sig_entry_ok [(snap, ?i, sg_public sg key)]" by simp
  obtain d' where ap: "append_signatures e [(snap, ?i, sg_public sg key)] d = (Inr (), d')"
    "read_signatures e d' = Inr (old @ new_slots ((\<lambda>(t, _, k). (t, k)) ` set old) [(snap, ?i, sg_public sg key)])"
    using append_signatures_read [OF ok _ assms(5,2)] by (metis surj_pair)
  have mg: "migrate_legacy e sg (s4, d) = (Inr (), s4, d)" using assms(4) by (auto simp: migrate_legacy_def migration_pending_def)
  have "append_index e sg ?i (s2, d) = (Inr (), s4, d')"
    using g3(1) acc mg ap(1) by (simp add: append_index_def append_entries_def bindS_def on_store_def on_dir_def signed_obj_def)
  then have "sign_snapshot e sg snap who (st, d) = (Inr ?i, s4, d')"
    using g(1) ob1 assms(7) p(1) by (simp add: sign_snapshot_def bindS_def on_store_def liftR_def signed_obj_def)
  moreover have "grows e U st s4"
    using g(3) p(2) g3(2) g4(3) grows_trans unfolding reads_def by blast
  ultimately show ?thesis using ap(2) by blast
qed

text \<open>
  C29: signing a held snapshot puts one entry in a sound index, and the status of the snapshot then names
  a trusted signer as soon as the signing key is trusted, whatever other signatures the index holds for it.
\<close>

theorem signed_snapshot_trusted:
  assumes "index_sound e sg U (st, d)" "hexes e" "blake3_ok e" "\<not> migration_pending d" "read_signatures e d = Inr old"
    and "view e st snap = Some (Snapshot sn)" "idn_signing who = Some key" "key_pair sg key" "known U (Signature (signed_obj sg key snap))"
    and "trust (sg_public sg key) = Some name"
  shows "\<exists>i st' d' n st''. sign_snapshot e sg snap who (st, d) = (Inr i, st', d') \<and> index_sound e sg U (st', d')
    \<and> snapshot_sig_status e sg snap trust (st', d') = (Inr (Some (Trusted n)), st'', d') \<and> n \<in> ran trust"
proof -
  have ok: "store_ok e U st" using assms(1) by (simp add: index_sound_def)
  obtain i st' d' where s: "sign_snapshot e sg snap who (st, d) = (Inr i, st', d')" "grows e U st st'"
    "read_signatures e d' = Inr (old @ new_slots ((\<lambda>(t, _, k). (t, k)) ` set old) [(snap, i, sg_public sg key)])"
    using sign_snapshot_ok [OF ok assms(2-9)] by blast
  have "kept e sg U (st, d) (st', d')"
    using sign_snapshot_kept [OF _ assms(2,3) s(1)] ok assms(7,9) by (simp add: signed_obj_def)
  then have snd: "index_sound e sg U (st', d')" using assms(1) by (simp add: kept_def)
  let ?ens = "old @ new_slots ((\<lambda>(t, _, k). (t, k)) ` set old) [(snap, i, sg_public sg key)]"
  have v: "view e st' snap = Some (Snapshot sn)" using grows_view [OF s(2) assms(6)] .
  obtain sigs st'' where f: "signatures_for e snap (st', d') = (Inr sigs, st'', d')" "list_all (verified_sig sg snap) sigs"
    "map si_signer sigs = map (\<lambda>en. snd (snd en)) (filter (\<lambda>en. fst en = snap) ?ens)"
    using signatures_for_ok [OF snd s(3) v] by blast
  have "sg_public sg key \<in> set (map si_signer sigs)"
    unfolding f(3) by (force simp: image_iff split: if_splits)
  then obtain s where "s \<in> set sigs" "si_signer s = sg_public sg key" by auto
  then have "\<exists>s \<in> set sigs. trust (si_signer s) \<noteq> None" "sigs \<noteq> []" using assms(10) by (force, auto)
  moreover have "\<forall>s \<in> set sigs. verify_snapshot_sig sg (si_signer s) (id_bytes snap) (si_sig s)"
    using f(2) by (auto simp: list_all_iff verified_sig_def)
  ultimately obtain n where "status_from (verify_snapshot_sig sg) snap trust sigs = Some (Trusted n)" "n \<in> ran trust"
    using status_loop_trusted [of sigs "\<lambda>k s. verify_snapshot_sig sg k (id_bytes snap) s" None trust None]
    by (auto simp: status_from_def ran_def)
  with f(1) s(1) snd show ?thesis by (auto simp: snapshot_sig_status_def bindS_def)
qed

section \<open>An instance\<close>

definition demo_signing :: signing_prims where
  "demo_signing = \<lparr>sg_public = \<lambda>k. replicate 32 7, sg_sign = \<lambda>k m. replicate 64 (word_of_nat (length m)), sg_point = \<lambda>k. k = replicate 32 7,
     sg_verify_strict = \<lambda>k m s. s = replicate 64 (word_of_nat (length m)), sg_hkdf = \<lambda>k i. k\<rparr>"

definition demo_who :: identity where
  "demo_who = \<lparr>idn_enc = [], idn_signing = Some []\<rparr>"

lemma demo_key_pair: "key_pair demo_signing key"
  by (simp add: key_pair_def demo_signing_def)

lemma prefix_hexes: "hexes prefix_ext" "blake3_ok prefix_ext"
  using demo_hex_plain prefix_ext_ok by (simp_all add: hex_plain_def prefix_ext_def blake3_ok_def min_def)

lemma demo_signed_store:
  "\<exists>U st. store_ok prefix_ext U st \<and> view prefix_ext st (snap_id 1) = Some (demo_snap 1 [])
     \<and> known U (Signature (signed_obj demo_signing key (snap_id 1)))"
proof -
  let ?sig = "Signature (signed_obj demo_signing key (snap_id 1))"
  let ?U = "encode ` {demo_snap 1 [], ?sig}"
  have "collision_free prefix_ext ?U"
    unfolding collision_free_def inj_on_def
    by (auto simp: prefix_digest demo_snap_def encode_def w_u8_def tag_defs)
  then have ok: "store_ok prefix_ext ?U demo_st"
    unfolding demo_st_def using prefix_ext_ok
    by (auto simp: store_ok_def acct_inv_def total_def stamps_ok_def content_defs store_new_def empty_disk_def existing_loose_def)
  have "known ?U (demo_snap 1 [])"
    by (simp add: known_def demo_snap_def object_ok_def snapshot_ok_def snapshot_fields_ok_def vec_ok_def id_ok_def
        protection_default_def str_ok_def str_bytes_def)
  moreover have "canon (demo_snap 1 []) = demo_snap 1 []" "blob_size (demo_snap 1 []) = 0"
    by (simp_all add: demo_snap_def canon_def sort_snapshot_def protection_default_def blob_size_def)
  ultimately obtain st where "grows prefix_ext ?U demo_st st" "view prefix_ext st (snap_id 1) = Some (demo_snap 1 [])"
    using put_weightless [OF ok, of "demo_snap 1 []"] by (auto simp: demo_snap_id)
  moreover have "known ?U ?sig"
    by (simp add: known_def signed_obj_def demo_signing_def object_ok_def signature_ok_def id_ok_def sign_snapshot_id_def sign_id_def)
  ultimately show ?thesis using grows_ok by blast
qed

theorem signed_snapshot_trusted_witness:
  "\<exists>st i st' d' n st''. sign_snapshot prefix_ext demo_signing (snap_id 1) demo_who (st, \<lparr>fs_files = [], fs_dirs = []\<rparr>) = (Inr i, st', d')
    \<and> snapshot_sig_status prefix_ext demo_signing (snap_id 1) [replicate 32 7 \<mapsto> ''me''] (st', d') = (Inr (Some (Trusted n)), st'', d') \<and> n = ''me''"
proof -
  obtain U st where st: "store_ok prefix_ext U st" "view prefix_ext st (snap_id 1) = Some (demo_snap 1 [])"
    "known U (Signature (signed_obj demo_signing [] (snap_id 1)))" using demo_signed_store by blast
  have rd: "read_signatures prefix_ext \<lparr>fs_files = [], fs_dirs = []\<rparr> = Inr []" by (simp add: read_signatures_def read_lines_def read_text_def)
  have "index_sound prefix_ext demo_signing U (st, \<lparr>fs_files = [], fs_dirs = []\<rparr>)" using st(1) rd by (simp add: index_sound_def)
  from signed_snapshot_trusted [OF this prefix_hexes _ rd st(2) [unfolded demo_snap_def] _ demo_key_pair st(3), of demo_who "[replicate 32 7 \<mapsto> ''me'']" "''me''"]
  show ?thesis by (fastforce simp: demo_who_def demo_signing_def migration_pending_def file_exists_def)
qed

theorem signature_index_sound_witness:
  "\<exists>st i st' d'. sign_snapshot prefix_ext demo_signing (snap_id 1) demo_who (st, \<lparr>fs_files = [], fs_dirs = []\<rparr>) = (Inr i, st', d')
    \<and> read_signatures prefix_ext d' = Inr [(snap_id 1, i, replicate 32 7)] \<and> (\<exists>sig ob. view prefix_ext st' i = Some (Signature sig)
      \<and> view prefix_ext st' (snap_id 1) = Some ob \<and> valid_for prefix_ext demo_signing sig ob)"
proof -
  obtain U st where st: "store_ok prefix_ext U st" "view prefix_ext st (snap_id 1) = Some (demo_snap 1 [])"
    "known U (Signature (signed_obj demo_signing [] (snap_id 1)))" using demo_signed_store by blast
  let ?d = "\<lparr>fs_files = [], fs_dirs = []\<rparr>"
  have rd: "read_signatures prefix_ext ?d = Inr []" by (simp add: read_signatures_def read_lines_def read_text_def)
  have mp: "\<not> migration_pending ?d" by (simp add: migration_pending_def file_exists_def)
  obtain i st' d' where s: "sign_snapshot prefix_ext demo_signing (snap_id 1) demo_who (st, ?d) = (Inr i, st', d')"
    "read_signatures prefix_ext d' = Inr [(snap_id 1, i, replicate 32 7)]"
    using sign_snapshot_ok [OF st(1) prefix_hexes mp rd st(2) [unfolded demo_snap_def] _ demo_key_pair st(3), of demo_who]
    by (auto simp: demo_who_def demo_signing_def)
  have "sig_step prefix_ext demo_signing U (st, ?d) (st', d')"
    by (rule sig_step.sign [OF _ s(1)]) (use st(3) in \<open>simp add: demo_who_def signed_obj_def\<close>)
  then have "(sig_step prefix_ext demo_signing U)\<^sup>*\<^sup>* (st, ?d) (st', d')" by blast
  from signature_index_sound [OF prefix_hexes st(1) rd this s(2), of "snap_id 1" i "replicate 32 7"] obtain sig ob where
    "view prefix_ext st' i = Some (Signature sig)" "view prefix_ext st' (snap_id 1) = Some ob" "valid_for prefix_ext demo_signing sig ob" by auto
  with s show ?thesis by (intro exI [of _ st] exI [of _ i] exI [of _ st'] exI [of _ d'] conjI) blast+
qed

end
