(* ===== verification/Gc.thy ===== *)
theory Gc
  imports Signatures Oplog Progress
begin

text \<open>
  Garbage collection (\<^verbatim>\<open>crates/repo/src/gc.rs\<close>): the roots, the objects kept, the new pack, the sweep
  over the loose files and the removal of the packs it supersedes. Workspace sessions, file time stamps
  and the clock are arguments.
\<close>

section \<open>Roots\<close>

record pending_ws =
  pw_index :: u32
  pw_candidate :: object_id
  pw_result :: object_id

record pending_refresh =
  pr_target :: object_id
  pr_branch :: string
  pr_workspaces :: "pending_ws list"
  pr_writers :: "u32 list"

record ws_entry =
  we_index :: u32
  we_dir :: string
  we_live :: bool
  we_landed_tip :: "object_id option"

record ws_session =
  wss_name :: "string option"
  wss_base_snapshot :: object_id
  wss_base_branch :: string
  wss_author :: string
  wss_sparse :: "string list"
  wss_pending_refresh :: "pending_refresh option"
  wss_workspaces :: "ws_entry list"

definition session_roots :: "ws_session \<Rightarrow> object_id set" where
  "session_roots s = insert (wss_base_snapshot s)
     (case wss_pending_refresh s of None \<Rightarrow> {}
      | Some p \<Rightarrow> insert (pr_target p) (pw_candidate ` set (pr_workspaces p) \<union> pw_result ` set (pr_workspaces p)))"

definition gc_roots :: "ext \<Rightarrow> ws_session list \<Rightarrow> sc_dir \<Rightarrow> repo_error + object_id list" where
  "gc_roots e sessions d =
     bindE (list_heads e d) (\<lambda>heads.
     bindE (head_tip e d) (\<lambda>head.
     bindE (list_remote_tips e d) (\<lambda>remotes.
     bindE (read_merge_head e d) (\<lambda>mh.
     bindE (read_pick_head e d) (\<lambda>ph.
     bindE (rebase_read e d) (\<lambda>rb.
     bindE (referenced_ids e d) (\<lambda>ops.
       Inr (sorted_list_of_set (snd ` set heads \<union> set_option head \<union> (\<lambda>(_, _, i). i) ` set remotes \<union> set_option mh \<union> set_option ph
         \<union> rb_acc_tip ` set_option rb \<union> \<Union> (session_roots ` set sessions) \<union> set ops)))))))))"

section \<open>Objects to keep\<close>

definition walk_decided_root :: "nat \<Rightarrow> ext \<Rightarrow> object_id \<Rightarrow> bool \<Rightarrow> object_id set \<Rightarrow> object_id set repo_op" where
  "walk_decided_root n e root partial reach =
     (if partial then bindS (walk_tree_partial n e root root (reach, Map.empty)) (\<lambda>(present, _). returnS present)
      else walk_tree n (store_source e) root reach)"

definition walk_decided :: "nat \<Rightarrow> ext \<Rightarrow> bool \<Rightarrow> repo_error + object_id option \<Rightarrow> object_id set \<Rightarrow> object_id set repo_op" where
  "walk_decided n e partial root reach =
     bindS (liftE root) (\<lambda>r. case r of Some tree \<Rightarrow> walk_decided_root n e tree partial reach | None \<Rightarrow> returnS reach)"

text \<open>A decided root of a merge or pick counts only under its own head.\<close>

definition under_head :: "repo_error + object_id option \<Rightarrow> repo_error + object_id option \<Rightarrow> repo_error + object_id option" where
  "under_head head root = bindE head (\<lambda>h. case h of Some _ \<Rightarrow> root | None \<Rightarrow> Inr None)"

definition gc_reachable :: "nat \<Rightarrow> ext \<Rightarrow> ws_session list \<Rightarrow> sc_dir \<Rightarrow> object_id set repo_op" where
  "gc_reachable n e sessions d =
     bindS (liftE (gc_roots e sessions d)) (\<lambda>roots.
     bindS (liftE (promisor_load d)) (\<lambda>pm. let partial = (pm \<noteq> None) in
     bindS (if partial then bindS (reachable_objects_partial n e roots) (\<lambda>(present, _). returnS present)
            else reachable_objects n (store_source e) roots) (\<lambda>reach.
     bindS (walk_decided n e partial (under_head (read_merge_head e d) (merge_decided_root e d)) reach) (\<lambda>reach.
     bindS (walk_decided n e partial (under_head (read_pick_head e d) (pick_decided_root e d)) reach) (\<lambda>reach.
       walk_decided n e partial (rebase_decided_root e d) reach)))))"

text \<open>Keep the entries whose owner is kept, and with each its object; an entry kept early can keep a later one.\<close>

fun keep_entries :: "('a \<Rightarrow> object_id) \<Rightarrow> ('a \<Rightarrow> object_id) \<Rightarrow> 'a list \<Rightarrow> object_id set \<Rightarrow> object_id set \<times> 'a list" where
  "keep_entries owner obj [] reach = (reach, [])"
| "keep_entries owner obj (en # ens) reach =
     (if owner en \<in> reach
      then let (reach, kept) = keep_entries owner obj ens (insert (obj en) reach) in (reach, en # kept)
      else keep_entries owner obj ens reach)"

definition transcripts_prune :: "ext \<Rightarrow> object_id set \<Rightarrow> (object_id set \<times> nat) dir_op" where
  "transcripts_prune e reach d =
     (case read_drops e d of
        Inl err \<Rightarrow> (Inl err, d)
      | Inr drops \<Rightarrow> (case read_pending e d of
          Inl err \<Rightarrow> (Inl err, d)
        | Inr pending \<Rightarrow> (case read_raw e d of
            Inl err \<Rightarrow> (Inl err, d)
          | Inr entries \<Rightarrow>
              let dropped = set (map (\<lambda>(_, _, x). x) drops);
                  reach = reach \<union> set (map (\<lambda>(_, tomb, _). tomb) drops) \<union> set pending;
                  (reach, kept) = keep_entries fst snd (filter (\<lambda>(_, t). t \<notin> dropped) entries) reach;
                  pruned = length entries - length kept
              in (Inr (reach, pruned), if pruned > 0 then write_transcripts e kept d else d))))"

definition signatures_prune :: "ext \<Rightarrow> object_id set \<Rightarrow> (object_id set \<times> nat) dir_op" where
  "signatures_prune e reach d =
     (case read_signatures e d of
        Inl err \<Rightarrow> (Inl err, d)
      | Inr entries \<Rightarrow>
          let (reach, kept) = keep_entries fst (fst \<circ> snd) entries reach; pruned = length entries - length kept
          in (Inr (reach, pruned), if pruned > 0 then write_signatures e kept d else d))"

section \<open>Collecting\<close>

record gc_stats =
  gs_packed :: nat
  gs_loose_pruned :: nat
  gs_loose_kept :: nat
  gs_packs_removed :: nat
  gs_signatures_pruned :: nat
  gs_transcripts_pruned :: nat

text \<open>Time stamps of the loose files, in nanoseconds, and the stamp of the file \<^verbatim>\<open>existing_loose_path\<close> finds.\<close>

record stamps =
  sp_sharded :: "string \<times> string \<Rightarrow> int"
  sp_flat :: "string \<Rightarrow> int"

definition loose_mtime :: "ext \<Rightarrow> stamps \<Rightarrow> object_id \<Rightarrow> store \<Rightarrow> int option" where
  "loose_mtime e sp i st =
     (if st_backend st \<noteq> Persistent then None
      else if map_of (dk_sharded (st_disk st)) (shard_path e i) \<noteq> None then Some (sp_sharded sp (shard_path e i))
      else if map_of (dk_flat (st_disk st)) (id_to_hex e i) \<noteq> None then Some (sp_flat sp (id_to_hex e i))
      else None)"

text \<open>\<^verbatim>\<open>duration_since\<close> fails on a stamp of the future, which then counts as young.\<close>

definition old_enough :: "ext \<Rightarrow> stamps \<Rightarrow> int \<Rightarrow> nat \<Rightarrow> object_id \<Rightarrow> store \<Rightarrow> bool" where
  "old_enough e sp now grace i st \<longleftrightarrow> (case loose_mtime e sp i st of Some t \<Rightarrow> t \<le> now \<and> now - t \<ge> int grace | None \<Rightarrow> False)"

fun sweep :: "ext \<Rightarrow> stamps \<Rightarrow> int \<Rightarrow> nat \<Rightarrow> object_id set \<Rightarrow> object_id list \<Rightarrow> gc_stats \<times> store \<Rightarrow> gc_stats \<times> store" where
  "sweep e sp now grace reach [] acc = acc"
| "sweep e sp now grace reach (i # is) (gs, st) =
     sweep e sp now grace reach is
       (if i \<in> reach then (gs, delete e i st)
        else if old_enough e sp now grace i st then (gs\<lparr>gs_loose_pruned := gs_loose_pruned gs + 1\<rparr>, delete e i st)
        else (gs\<lparr>gs_loose_kept := gs_loose_kept gs + 1\<rparr>, st))"

fun drop_packs :: "string \<Rightarrow> string list \<Rightarrow> gc_stats \<Rightarrow> gc_stats repo_op" where
  "drop_packs keep [] gs st = (Inr gs, st)"
| "drop_packs keep (h # hs) gs st =
     (if h \<noteq> keep
      then bindS (liftR (delete_pack h)) (\<lambda>_. drop_packs keep hs (gs\<lparr>gs_packs_removed := gs_packs_removed gs + 1\<rparr>)) st
      else drop_packs keep hs gs st)"

definition repack :: "ext \<Rightarrow> object_id set \<Rightarrow> string option repo_op" where
  "repack e reach = (if reach = {} then returnS None
     else bindS (liftR (write_pack e (sorted_list_of_set reach))) (\<lambda>hash. returnS (Some hash)))"

definition gc_collect :: "ext \<Rightarrow> stamps \<Rightarrow> int \<Rightarrow> nat \<Rightarrow> object_id set \<Rightarrow> gc_stats \<Rightarrow> gc_stats repo_op" where
  "gc_collect e sp now grace reach gs =
     bindS (repack e reach) (\<lambda>new_hash st.
       let gs = gs\<lparr>gs_packed := card reach\<rparr>; (gs, st) = sweep e sp now grace reach (list_loose e st) (gs, st)
       in case new_hash of None \<Rightarrow> (Inr gs, st) | Some keep \<Rightarrow> drop_packs keep (pack_hashes st) gs st)"

text \<open>The whole pass; times are nanoseconds, those of the log seconds.\<close>

definition gc_run :: "nat \<Rightarrow> ext \<Rightarrow> signing_prims \<Rightarrow> ws_session list \<Rightarrow> stamps \<Rightarrow> int \<Rightarrow> nat
    \<Rightarrow> store \<times> sc_dir \<Rightarrow> (repo_error + gc_stats) \<times> store \<times> sc_dir" where
  "gc_run n e sg sessions sp now grace s =
     (case migrate_legacy e sg s of
        (Inl err, s) \<Rightarrow> (Inl err, s)
      | (Inr _, (st, d)) \<Rightarrow> (case trim_older_than e (max 0 ((now - int grace) div 10 ^ 9)) d of
          (Inl err, d) \<Rightarrow> (Inl err, st, d)
        | (Inr _, d) \<Rightarrow> (case gc_reachable n e sessions d st of
            (Inl err, st) \<Rightarrow> (Inl err, st, d)
          | (Inr reach, st) \<Rightarrow> (case transcripts_prune e reach d of
              (Inl err, d) \<Rightarrow> (Inl err, st, d)
            | (Inr (reach, tp), d) \<Rightarrow> (case signatures_prune e reach d of
                (Inl err, d) \<Rightarrow> (Inl err, st, d)
              | (Inr (reach, sp'), d) \<Rightarrow>
                  (case gc_collect e sp now grace reach
                      \<lparr>gs_packed = 0, gs_loose_pruned = 0, gs_loose_kept = 0, gs_packs_removed = 0, gs_signatures_pruned = sp', gs_transcripts_pruned = tp\<rparr> st of
                     (r, st) \<Rightarrow> (r, st, d)))))))"

end
