(* ===== verification/Gc_Correct.thy ===== *)
theory Gc_Correct
  imports Gc Worklist Reachable_Correct Refs_Correct Core_Theorems
begin

text \<open>
  Garbage collection keeps what the roots need. The argument is about the files: a store opened again
  on the disk that a pass leaves, finished or stopped by an error, still serves every live object.
\<close>

section \<open>What a disk holds\<close>

definition pack_good :: "ext \<Rightarrow> bytes set \<Rightarrow> bytes \<Rightarrow> bytes \<Rightarrow> bool" where
  "pack_good e U idx pack \<longleftrightarrow> (\<exists>es. parse_index idx = Inr es
     \<and> (\<forall>en \<in> set es. \<exists>ob. read_record e (ie_id en) (ie_offset en) pack = Inr ob \<and> sourced e U (ie_id en) ob))"

definition packs_good :: "ext \<Rightarrow> bytes set \<Rightarrow> disk \<Rightarrow> bool" where
  "packs_good e U d \<longleftrightarrow> distinct (map fst (dk_idx d))
     \<and> (\<forall>name idx pack. map_of (dk_idx d) name = Some idx \<longrightarrow> map_of (dk_pack d) name = Some pack \<longrightarrow> pack_good e U idx pack)"

definition loose_files_good :: "ext \<Rightarrow> bytes set \<Rightarrow> disk \<Rightarrow> bool" where
  "loose_files_good e U d \<longleftrightarrow>
     (\<forall>i raw. map_of (dk_sharded d) (shard_path e i) = Some raw \<longrightarrow> loose_good e U i raw)
     \<and> (\<forall>i raw. map_of (dk_flat d) (id_to_hex e i) = Some raw \<longrightarrow> loose_good e U i raw)
     \<and> (\<forall>i b. map_of (dk_spill d) (id_to_hex e i) = Some b \<longrightarrow> sourced e U i (Blob b))"

definition disk_good :: "ext \<Rightarrow> bytes set \<Rightarrow> disk \<Rightarrow> bool" where
  "disk_good e U d \<longleftrightarrow> packs_good e U d \<and> loose_files_good e U d"

text \<open>The ids of the packs that have an index.\<close>

definition pack_ids :: "disk \<Rightarrow> string \<Rightarrow> object_id set" where
  "pack_ids d name = (case (map_of (dk_idx d) name, map_of (dk_pack d) name) of
     (Some idx, Some pack) \<Rightarrow> (case parse_index idx of Inr es \<Rightarrow> ie_id ` set es | Inl _ \<Rightarrow> {}) | _ \<Rightarrow> {})"

lemma mem_pack_ids: "i \<in> pack_ids d name \<longleftrightarrow>
    (\<exists>idx pack es. map_of (dk_idx d) name = Some idx \<and> map_of (dk_pack d) name = Some pack \<and> parse_index idx = Inr es \<and> i \<in> ie_id ` set es)"
  by (auto simp: pack_ids_def split: option.splits sum.splits)

definition loose_on :: "ext \<Rightarrow> disk \<Rightarrow> object_id \<Rightarrow> bool" where
  "loose_on e d i \<longleftrightarrow> map_of (dk_sharded d) (shard_path e i) \<noteq> None \<or> map_of (dk_flat d) (id_to_hex e i) \<noteq> None"

definition on_disk :: "ext \<Rightarrow> disk \<Rightarrow> object_id \<Rightarrow> bool" where
  "on_disk e d i \<longleftrightarrow> loose_on e d i \<or> (\<exists>name. i \<in> pack_ids d name)"

section \<open>Opening packs\<close>

lemma load_entries_dom: "dom (map_of (load_entries p es m)) = dom (map_of m) \<union> ie_id ` set es"
proof (induction p es m rule: load_entries.induct)
  case (2 p en es m)
  then show ?case by (auto simp: domIff map_add_def split: option.splits)
qed simp

lemma load_entries_entry:
  "map_of (load_entries p es m) i = Some loc \<Longrightarrow> map_of m i = Some loc \<or> (\<exists>en \<in> set es. ie_id en = i \<and> loc = \<lparr>pl_pack = p, pl_offset = ie_offset en\<rparr>)"
proof (induction p es m rule: load_entries.induct)
  case (2 p en es m)
  then show ?case by (auto simp: map_add_def split: if_splits option.splits)
qed simp

definition index_entry_ok :: "ext \<Rightarrow> bytes set \<Rightarrow> (string \<times> bytes) list \<Rightarrow> object_id \<Rightarrow> pack_loc \<Rightarrow> bool" where
  "index_entry_ok e U packs i loc \<longleftrightarrow> (\<exists>pack ob. map_of packs (pl_pack loc) = Some pack \<and> read_record e i (pl_offset loc) pack = Inr ob \<and> sourced e U i ob)"

definition indexed :: "(string \<times> bytes) list \<Rightarrow> (string \<times> bytes) list \<Rightarrow> object_id set" where
  "indexed packs idxs = {i. \<exists>(name, idx) \<in> set idxs. map_of packs name \<noteq> None \<and> (\<exists>es. parse_index idx = Inr es \<and> i \<in> ie_id ` set es)}"

lemma indexed_simps:
  "indexed packs [] = {}"
  "map_of packs name = None \<Longrightarrow> indexed packs ((name, idx) # rest) = indexed packs rest"
  "map_of packs name = Some pack \<Longrightarrow> parse_index idx = Inr es \<Longrightarrow> indexed packs ((name, idx) # rest) = ie_id ` set es \<union> indexed packs rest"
  by (auto simp: indexed_def)

lemma load_indexes_ok:
  assumes "\<forall>(name, idx) \<in> set idxs. \<forall>pack. map_of packs name = Some pack \<longrightarrow> pack_good e U idx pack"
    and "\<And>i loc. map_of m i = Some loc \<Longrightarrow> index_entry_ok e U packs i loc"
  shows "\<exists>m'. load_indexes packs idxs m = (Inr (), m') \<and> (\<forall>i loc. map_of m' i = Some loc \<longrightarrow> index_entry_ok e U packs i loc)
    \<and> dom (map_of m') = dom (map_of m) \<union> indexed packs idxs"
  using assms
proof (induction packs idxs m rule: load_indexes.induct)
  case (1 packs m)
  then show ?case by (simp add: indexed_simps)
next
  case (2 packs name idx rest m)
  have rest: "\<forall>(name, idx) \<in> set rest. \<forall>pack. map_of packs name = Some pack \<longrightarrow> pack_good e U idx pack"
    using "2.prems"(1) by simp
  show ?case
  proof (cases "map_of packs name")
    case None
    from "2.IH"(1) [OF this rest "2.prems"(2)] None show ?thesis by (simp add: indexed_simps)
  next
    case (Some pack)
    with "2.prems"(1) obtain es where es: "parse_index idx = Inr es"
      and rd: "\<forall>en \<in> set es. \<exists>ob. read_record e (ie_id en) (ie_offset en) pack = Inr ob \<and> sourced e U (ie_id en) ob"
      by (fastforce simp: pack_good_def)
    have ok: "index_entry_ok e U packs i loc" if "map_of (load_entries name es m) i = Some loc" for i loc
      using load_entries_entry [OF that] "2.prems"(2) Some rd by (fastforce simp: index_entry_ok_def)
    have "map_of packs name \<noteq> None" using Some by simp
    from "2.IH"(2) [OF this es rest ok] Some es show ?thesis by (simp add: indexed_simps load_entries_dom Un_assoc)
  qed
qed

lemma pack_ids_parsed:
  assumes "distinct (map fst (dk_idx d))"
  shows "indexed (dk_pack d) (dk_idx d) = (\<Union>name. pack_ids d name)"
proof -
  have "(name, idx) \<in> set (dk_idx d) \<longleftrightarrow> map_of (dk_idx d) name = Some idx" for name idx
    using map_of_eq_Some_iff [OF assms] by simp
  then show ?thesis by (fastforce simp: indexed_def set_eq_iff mem_pack_ids)
qed

lemma reload_ok:
  assumes "packs_good e U (st_disk st)" "st_backend st = Persistent"
  obtains m where "reload_packs st = (Inr (), st\<lparr>st_pack_index := m\<rparr>)" "dom (map_of m) = (\<Union>name. pack_ids (st_disk st) name)"
    "\<And>i loc. map_of m i = Some loc \<Longrightarrow> index_entry_ok e U (dk_pack (st_disk st)) i loc"
proof -
  have d: "distinct (map fst (dk_idx (st_disk st)))" using assms(1) by (simp add: packs_good_def)
  have g: "\<forall>(name, idx) \<in> set (dk_idx (st_disk st)). \<forall>pack. map_of (dk_pack (st_disk st)) name = Some pack \<longrightarrow> pack_good e U idx pack"
    using assms(1) by (auto simp: packs_good_def)
  obtain m where "load_indexes (dk_pack (st_disk st)) (dk_idx (st_disk st)) [] = (Inr (), m)"
    "\<forall>i loc. map_of m i = Some loc \<longrightarrow> index_entry_ok e U (dk_pack (st_disk st)) i loc"
    "dom (map_of m) = (\<Union>name. pack_ids (st_disk st) name)"
    using load_indexes_ok [OF g, of "[]"] pack_ids_parsed [OF d] by auto
  with assms(2) that show thesis by (simp add: reload_packs_def)
qed

lemma opened_ok:
  assumes "hex_ok e" "zstd_ok e" "collision_free e U" "disk_good e U d"
  obtains st where "open_persistent B d = (Inr (), st)" "store_ok e U st" "st_budget st = B" "\<And>i. contains e i st \<longleftrightarrow> on_disk e d i"
proof -
  let ?s = "store_new B Persistent d"
  have s: "st_disk ?s = d" "st_backend ?s = Persistent" "st_resident ?s = []" "st_spilled ?s = []" by (simp_all add: store_new_def)
  obtain m where m: "reload_packs ?s = (Inr (), ?s\<lparr>st_pack_index := m\<rparr>)" "dom (map_of m) = (\<Union>name. pack_ids d name)"
    "\<And>i loc. map_of m i = Some loc \<Longrightarrow> index_entry_ok e U (dk_pack d) i loc"
    using reload_ok [of e U ?s] assms(4) s by (auto simp: disk_good_def)
  let ?st = "?s\<lparr>st_pack_index := m\<rparr>"
  have "disk_src e U ?st"
    using assms(4) m(3) s by (fastforce simp: disk_src_def disk_good_def loose_files_good_def read_pack_object_def index_entry_ok_def)
  then have "store_ok e U ?st"
    using assms s by (auto simp: store_ok_def content_inv_def resident_src_def spill_src_def disk_good_def loose_files_good_def
      acct_inv_def total_def stamps_ok_def store_new_def)
  moreover have "contains e i ?st \<longleftrightarrow> on_disk e d i" for i
    using m(2) s by (auto simp: contains_def on_disk_def loose_on_def existing_loose_def domIff set_eq_iff split: option.splits)
  ultimately show thesis using that m(1) by (simp add: open_persistent_def store_new_def)
qed

text \<open>Two stores serve an id alike when both hold it.\<close>

lemma held_same:
  assumes "store_ok e U st" "store_ok e U st'" "contains e i st" "contains e i st'"
  shows "view e st' i = view e st i"
  by (rule view_cong) (use assms in \<open>auto simp: store_ok_def\<close>)

section \<open>The new pack\<close>

text \<open>The bytes of \<open>U\<close> are the encodings of their objects, and their compressed forms fit a record.\<close>

definition exact :: "ext \<Rightarrow> bytes set \<Rightarrow> bool" where
  "exact e U \<longleftrightarrow> (\<forall>c \<in> U. (\<forall>ob. decode c = Inr ob \<longrightarrow> encode ob = c) \<and> (\<forall>z. zstd_encode e c = Some z \<longrightarrow> length z < 2 ^ 32))"

lemma sourced_exact:
  assumes "exact e U" "sourced e U i ob"
  shows "encode ob \<in> U \<and> id_of e (encode ob) = i \<and> decode (encode ob) = Inr (canon ob)"
proof -
  obtain c ob' where c: "c \<in> U" "id_of e c = i" "decode c = Inr ob'" "canon ob' = canon ob"
    using assms(2) by (auto simp: sourced_def)
  then have c': "c = encode ob'" using assms(1) by (auto simp: exact_def)
  also have "\<dots> = encode ob" using c(4) encode_canon by metis
  finally have "c = encode ob" .
  moreover obtain t s where "object_ok ob'" using c(3) by (rule decode_sound)
  then have "decode (encode ob') = Inr (canon ob')" by (rule decode_encode_lemma)
  ultimately show ?thesis using c c' by simp
qed

definition to_pack :: "ext \<Rightarrow> bytes set \<Rightarrow> object_id \<Rightarrow> object_id \<times> bytes \<Rightarrow> bool" where
  "to_pack e U i p \<longleftrightarrow> (\<exists>ob. p = (i, encode ob) \<and> sourced e U i ob)"

definition same_files :: "ext \<Rightarrow> bytes set \<Rightarrow> store \<Rightarrow> store \<Rightarrow> bool" where
  "same_files e U st st' \<longleftrightarrow> store_ok e U st' \<and> files st' = files st \<and> st_backend st' = st_backend st \<and> st_budget st' = st_budget st"

lemma get_same_files: "store_ok e U st \<Longrightarrow> get e i st = (r, st') \<Longrightarrow> same_files e U st st'"
  using get_okD(1,2) [of e U st i r st'] get_files [of e i st] get_budget [of e i st] by (simp add: same_files_def)

lemma same_files_trans: "same_files e U a b \<Longrightarrow> same_files e U b c \<Longrightarrow> same_files e U a c"
  by (simp add: same_files_def)

lemma get_all_ok:
  "store_ok e U st \<Longrightarrow> get_all e is st = (r, st') \<Longrightarrow> same_files e U st st'
    \<and> (\<forall>objs. r = Inr objs \<longrightarrow> list_all2 (to_pack e U) is objs \<and> (\<forall>i \<in> set is. contains e i st))"
proof (induction "is" arbitrary: st r st')
  case Nil
  then show ?case by (auto simp: same_files_def)
next
  case (Cons i "is")
  obtain x s where g: "get e i st = (x, s)" by (cases "get e i st")
  note s = get_same_files [OF Cons.prems(1) g]
  then have ok: "store_ok e U s" by (simp add: same_files_def)
  show ?case
  proof (cases x)
    case (Inl err)
    with g s Cons.prems(2) show ?thesis by (auto simp: bindS_def)
  next
    case (Inr ob)
    have "content_inv e U st" using Cons.prems(1) by (simp add: store_ok_def)
    moreover have "lookup e st i = Inr ob" using get_okD(4) [OF Cons.prems(1) g] Inr by (auto split: sum.splits)
    moreover have "contains e i st" using lookup_not_contains [of e i st] calculation(2) by (cases "contains e i st") auto
    ultimately have so: "sourced e U i ob" using lookup_contains [of e U st i] by (metis sum.inject(2))
    obtain y s' where a: "get_all e is s = (y, s')" by (cases "get_all e is s")
    note rest = Cons.IH [OF ok a]
    have rr: "r = (case y of Inl err \<Rightarrow> Inl err | Inr objs \<Rightarrow> Inr ((i, encode ob) # objs))" "st' = s'"
      using Cons.prems(2) g Inr a by (auto simp: bindS_def split: sum.splits)
    have "to_pack e U i (i, encode ob)" using so by (auto simp: to_pack_def)
    moreover have "contains e j s = contains e j st" for j using get_okD(3) [OF Cons.prems(1) g] .
    ultimately show ?thesis using rest rr same_files_trans [OF s, of s'] \<open>contains e i st\<close> by (cases y) auto
  qed
qed

lemma read_record_at:
  assumes "length z < 2 ^ 32" "zstd_stream e z = (c, True)" "id_of e c = i" "decode c = Inr ob"
  shows "read_record e i (length pre) (pre @ nat_le 4 (length z) @ z @ rest) = Inr ob"
proof -
  have n: "length z mod 256 ^ 4 = length z" using assms(1) by simp
  have b: "record_bounds (nat_le 4 (length z) @ z) 0 None = Inr (4, 4 + length z)"
    using record_bounds_at [of "[]" z None "[]"] assms(1) by simp
  have "read_object_at e (nat_le 4 (length z) @ z) 0 i = Inr ob"
    unfolding read_object_at_def b using assms by (simp add: sub_slice_def decompress_and_decode_def zstd_decode_all_def)
  then show ?thesis using n by (simp add: read_record_def Let_def del: power_Suc)
qed

lemma compress_records:
  assumes "zstd_ok e" "exact e U" "list_all2 (to_pack e U) is objs"
  shows "\<exists>rs. compress_all e objs = Some rs \<and> map fst rs = is
    \<and> (\<forall>(i, z) \<in> set rs. length z < 2 ^ 32 \<and> (\<exists>c ob. zstd_stream e z = (c, True) \<and> id_of e c = i \<and> decode c = Inr ob \<and> sourced e U i ob))"
  using assms(3)
proof (induction rule: list_all2_induct)
  case (Cons i "is" p objs)
  obtain ob where ob: "p = (i, encode ob)" "sourced e U i ob" using Cons.hyps(1) by (auto simp: to_pack_def)
  note x = sourced_exact [OF assms(2) ob(2)]
  obtain z where z: "zstd_encode e (encode ob) = Some z" "zstd_stream e z = (encode ob, True)" using assms(1) by (auto simp: zstd_ok_def)
  moreover have "length z < 2 ^ 32" using assms(2) x z(1) by (auto simp: exact_def)
  moreover have "sourced e U i (canon ob)" using ob(2) by (simp add: sourced_def)
  moreover obtain rs where "compress_all e objs = Some rs" "map fst rs = is"
    "\<forall>(i, z) \<in> set rs. length z < 2 ^ 32 \<and> (\<exists>c ob. zstd_stream e z = (c, True) \<and> id_of e c = i \<and> decode c = Inr ob \<and> sourced e U i ob)"
    using Cons.IH by blast
  ultimately show ?case using ob(1) x by (intro exI [of _ "(i, z) # rs"]) auto
qed simp

text \<open>Building a pack of what was read gives a good pack that holds exactly the ids.\<close>

lemma build_pack_good:
  assumes "zstd_ok e" "blake3_ok e" "exact e U" "list_all2 (to_pack e U) is objs" "distinct is" "length is < 2 ^ 31"
  shows "\<exists>pack idx es. build_pack e objs = Inr (pack, idx) \<and> pack_good e U idx pack \<and> parse_index idx = Inr es \<and> ie_id ` set es = set is"
proof -
  obtain rs where rs: "compress_all e objs = Some rs" "map fst rs = is"
    "\<forall>(i, z) \<in> set rs. length z < 2 ^ 32 \<and> (\<exists>c ob. zstd_stream e z = (c, True) \<and> id_of e c = i \<and> decode c = Inr ob \<and> sourced e U i ob)"
    using compress_records [OF assms(1,3,4)] by blast
  let ?pack = "pack_header @ concat (map rec_bytes rs)" and ?l = "layout (length pack_header) rs"
  let ?es = "sort_key ie_id ?l"
  have b: "build_pack e objs = Inr (?pack, write_idx ?es)" using rs(1) by (simp add: build_pack_def pack_records_eq)
  have n: "length rs = length is" using rs(2) by (metis length_map)
  have ids: "length (id_bytes i) = 32" if "(i, z) \<in> set rs" for i z
    using rs(3) that assms(2) by (auto simp: id_of_def blake3_ok_def)
  have "length (rec_bytes p) \<le> 2 ^ 32 + 36" if "p \<in> set rs" for p
    using rs(3) that ids by (cases p) (fastforce simp: rec_bytes_pair)
  then have "sum_list (map length (map rec_bytes rs)) \<le> length rs * (2 ^ 32 + 36)"
    by (induction rs) (auto simp: add_mono)
  also have "\<dots> \<le> (2 ^ 31 - 1) * (2 ^ 32 + 36)" using n assms(6) by (intro mult_le_mono1) simp
  finally have small: "length ?pack < 2 ^ 64" by (simp add: length_concat)
  have rok: "list_all (\<lambda>p. id_ok (fst p)) rs" using ids by (auto simp: list_all_iff id_ok_def)
  have lok: "list_all entry_ok ?l" using small by (intro layout_entry_ok [OF rok]) simp
  have es_ids: "map ie_id ?es = sort is" by (simp add: map_sort_key_same layout_ids rs(2))
  have "length ?l = length is" using arg_cong [OF layout_ids [of "length pack_header" rs], of length] n by simp
  then have "parse_index (write_idx ?es) = Inr ?es"
    using lok assms(5,6) es_ids
    by (intro parse_index_write_idx) (simp_all add: list_all_iff strict_sorted_iff IDX_ROW_def del: sort_key_simps)
  moreover have "ie_id ` set ?es = set is" using arg_cong [OF es_ids, of set] by simp
  moreover have "\<exists>ob. read_record e (ie_id en) (ie_offset en) ?pack = Inr ob \<and> sourced e U (ie_id en) ob" if "en \<in> set ?es" for en
  proof -
    have "en \<in> set ?l" using that by simp
    then obtain rs1 z rs2 where s: "rs = rs1 @ (ie_id en, z) # rs2"
      "ie_offset en = length (pack_header @ concat (map rec_bytes rs1) @ id_bytes (ie_id en))" by (rule layout_split)
    then have "(ie_id en, z) \<in> set rs" by simp
    with rs(3) obtain c ob where "length z < 2 ^ 32" "zstd_stream e z = (c, True)" "id_of e c = ie_id en" "decode c = Inr ob" "sourced e U (ie_id en) ob"
      by blast
    moreover have "?pack = (pack_header @ concat (map rec_bytes rs1) @ id_bytes (ie_id en)) @ nat_le 4 (length z) @ z @ concat (map rec_bytes rs2)"
      using s(1) by (simp add: rec_bytes_pair)
    ultimately show ?thesis unfolding s(2) using read_record_at by metis
  qed
  ultimately show ?thesis using b unfolding pack_good_def by blast
qed

text \<open>Writing it: the files are untouched on an error and gain the pack otherwise.\<close>

definition added_pack :: "disk \<Rightarrow> string \<Rightarrow> object_id set \<Rightarrow> disk \<Rightarrow> bool" where
  "added_pack d h reach d' \<longleftrightarrow> dk_sharded d' = dk_sharded d \<and> dk_flat d' = dk_flat d \<and> pack_ids d' h = reach
     \<and> (\<forall>name. name \<noteq> h \<longrightarrow> pack_ids d' name = pack_ids d name)"

lemma write_pack_ok:
  assumes "store_ok e U st" "blake3_ok e" "exact e U" "disk_good e U (st_disk st)" "st_backend st = Persistent"
    and "distinct is" "card (dom (view e st)) < 2 ^ 31" "write_pack e is st = (r, st')"
  shows "st_backend st' = Persistent" "st_budget st' = st_budget st" "disk_good e U (st_disk st')"
    "case r of Inl err \<Rightarrow> files st' = files st | Inr h \<Rightarrow> added_pack (st_disk st) h (set is) (st_disk st')"
proof -
  have ok: "hex_ok e" "zstd_ok e" using assms(1) by (simp_all add: store_ok_def)
  obtain x s where g: "get_all e is st = (x, s)" by (cases "get_all e is st")
  have s: "same_files e U st s" "\<And>objs. x = Inr objs \<Longrightarrow> list_all2 (to_pack e U) is objs" "\<And>objs. x = Inr objs \<Longrightarrow> \<forall>i \<in> set is. contains e i st"
    using get_all_ok [OF assms(1) g] by auto
  have f: "dk_sharded (st_disk s) = dk_sharded (st_disk st)" "dk_flat (st_disk s) = dk_flat (st_disk st)"
    "dk_pack (st_disk s) = dk_pack (st_disk st)" "dk_idx (st_disk s) = dk_idx (st_disk st)"
    using s(1) by (auto simp: same_files_def files_def) (metis disk.ext_inject disk.surjective disk.update_convs(5))+
  have spill: "\<forall>i b. map_of (dk_spill (st_disk s)) (id_to_hex e i) = Some b \<longrightarrow> sourced e U i (Blob b)"
    using s(1) by (auto simp: same_files_def store_ok_def content_inv_def spill_src_def)
  have sg: "disk_good e U (st_disk s)" using assms(4) f spill by (simp add: disk_good_def packs_good_def loose_files_good_def)
  have p: "st_backend s = Persistent" "st_budget s = st_budget st" using s(1) assms(5) by (simp_all add: same_files_def)
  have "st_backend st' = Persistent \<and> st_budget st' = st_budget st \<and> disk_good e U (st_disk st')
    \<and> (case r of Inl err \<Rightarrow> files st' = files st | Inr h \<Rightarrow> added_pack (st_disk st) h (set is) (st_disk st'))"
  proof (cases x)
    case (Inl err)
    then show ?thesis using assms(8) g p sg s(1) by (auto simp: write_pack_def bindS_def same_files_def)
  next
    case (Inr objs)
    have "set is \<subseteq> dom (view e st)" using s(3) [OF Inr] assms(1) view_contains [of e U st] by (fastforce simp: store_ok_def)
    then have "card (set is) \<le> card (dom (view e st))" by (rule card_mono [OF finite_view [OF assms(1)]])
    then have len: "length is < 2 ^ 31" using assms(6,7) by (simp add: distinct_card)
    obtain pack idx es where b: "build_pack e objs = Inr (pack, idx)" "pack_good e U idx pack" "parse_index idx = Inr es" "ie_id ` set es = set is"
      using build_pack_good [OF ok(2) assms(2,3) s(2) [OF Inr] assms(6) len] by blast
    let ?h = "hex_encode e (blake3 e pack)"
    let ?d = "(st_disk s)\<lparr>dk_pack := AList.update ?h pack (dk_pack (st_disk s)), dk_idx := AList.update ?h idx (dk_idx (st_disk s))\<rparr>"
    let ?s = "s\<lparr>st_disk := ?d\<rparr>"
    have good: "disk_good e U ?d"
      using sg b(2) by (auto simp: disk_good_def packs_good_def loose_files_good_def alist_simps split: if_splits)
    then have "packs_good e U (st_disk ?s)" "st_backend ?s = Persistent" using p(1) by (simp_all add: disk_good_def)
    then obtain m where m: "reload_packs ?s = (Inr (), ?s\<lparr>st_pack_index := m\<rparr>)" by (rule reload_ok)
    have "added_pack (st_disk st) ?h (set is) ?d"
      using f b(3,4) by (auto simp: added_pack_def pack_ids_def alist_simps)
    moreover have "write_pack e is st = (Inr ?h, ?s\<lparr>st_pack_index := m\<rparr>)"
      using g Inr b(1) p(1) m by (simp add: write_pack_def bindS_def Let_def)
    ultimately show ?thesis using assms(8) p good by auto
  qed
  then show "st_backend st' = Persistent" "st_budget st' = st_budget st" "disk_good e U (st_disk st')"
    "case r of Inl err \<Rightarrow> files st' = files st | Inr h \<Rightarrow> added_pack (st_disk st) h (set is) (st_disk st')" by simp_all
qed

section \<open>Sweeping and dropping packs\<close>

text \<open>After the sweep and the removal of packs: loose files only go, the packs outside \<open>hs\<close> stay.\<close>

definition thinned :: "disk \<Rightarrow> disk \<Rightarrow> bool" where
  "thinned d d' \<longleftrightarrow> map_of (dk_sharded d') \<subseteq>\<^sub>m map_of (dk_sharded d) \<and> map_of (dk_flat d') \<subseteq>\<^sub>m map_of (dk_flat d)
     \<and> map_of (dk_spill d') = map_of (dk_spill d)"

lemma thinned_trans: "thinned a b \<Longrightarrow> thinned b c \<Longrightarrow> thinned a c"
  unfolding thinned_def by (auto intro: map_le_trans)

lemma thinned_loose: "loose_files_good e U d \<Longrightarrow> thinned d d' \<Longrightarrow> loose_files_good e U d'"
  unfolding loose_files_good_def thinned_def map_le_def by (metis domI)

definition packs_of :: "disk \<Rightarrow> (string \<times> bytes) list \<times> (string \<times> bytes) list" where
  "packs_of d = (dk_pack d, dk_idx d)"

lemma packs_of_good: "packs_of d' = packs_of d \<Longrightarrow> packs_good e U d' = packs_good e U d"
  "packs_of d' = packs_of d \<Longrightarrow> pack_ids d' = pack_ids d"
  by (simp_all add: packs_of_def packs_good_def pack_ids_def fun_eq_iff)

lemma delete_thins: "thinned (st_disk st) (st_disk (delete e i st))" "packs_of (st_disk (delete e i st)) = packs_of (st_disk st)"
  by (auto simp: delete_def Let_def thinned_def packs_of_def delete_map_le)

lemma sweep_ok:
  "sweep e sp now grace reach is (gs, st) = (gs', st') \<Longrightarrow> st_backend st' = st_backend st \<and> st_budget st' = st_budget st
    \<and> thinned (st_disk st) (st_disk st') \<and> packs_of (st_disk st') = packs_of (st_disk st)"
proof (induction "is" arbitrary: gs st)
  case Nil
  then show ?case by (auto simp: thinned_def)
next
  case (Cons i "is")
  let ?st = "delete e i st"
  show ?case
  proof (cases "i \<in> reach \<or> old_enough e sp now grace i st")
    case True
    then obtain gs0 where "sweep e sp now grace reach is (gs0, ?st) = (gs', st')" using Cons.prems by (auto split: if_splits)
    from Cons.IH [OF this] delete_thins [where st = st and e = e and i = i] show ?thesis by (auto intro: thinned_trans)
  next
    case False
    with Cons.prems Cons.IH show ?thesis by auto
  qed
qed

lemma delete_pack_ok:
  assumes "packs_good e U (st_disk st)" "st_backend st = Persistent"
  obtains st' where "delete_pack h st = (Inr (), st')" "packs_good e U (st_disk st')" "st_backend st' = Persistent" "st_budget st' = st_budget st"
    "thinned (st_disk st) (st_disk st')" "\<And>name. pack_ids (st_disk st') name = (if name = h then {} else pack_ids (st_disk st) name)"
    "dk_sharded (st_disk st') = dk_sharded (st_disk st)" "dk_flat (st_disk st') = dk_flat (st_disk st)"
proof -
  let ?d = "(st_disk st)\<lparr>dk_pack := AList.delete h (dk_pack (st_disk st)), dk_idx := AList.delete h (dk_idx (st_disk st))\<rparr>"
  let ?s = "st\<lparr>st_disk := ?d\<rparr>"
  have good: "packs_good e U (st_disk ?s)" using assms(1) by (auto simp: packs_good_def alist_simps)
  have "st_backend ?s = Persistent" using assms(2) by simp
  with good obtain m where m: "reload_packs ?s = (Inr (), ?s\<lparr>st_pack_index := m\<rparr>)" by (rule reload_ok)
  show thesis
  proof (rule that)
    show "delete_pack h st = (Inr (), ?s\<lparr>st_pack_index := m\<rparr>)" using assms(2) m by (simp add: delete_pack_def)
    show "pack_ids (st_disk (?s\<lparr>st_pack_index := m\<rparr>)) name = (if name = h then {} else pack_ids (st_disk st) name)" for name
      by (simp add: pack_ids_def alist_simps)
  qed (use good assms(2) in \<open>simp_all add: thinned_def packs_good_def\<close>)
qed

lemma drop_packs_ok:
  assumes "packs_good e U (st_disk st)" "st_backend st = Persistent"
  shows "\<exists>gs' st'. drop_packs keep hs gs st = (Inr gs', st') \<and> packs_good e U (st_disk st') \<and> st_backend st' = Persistent
    \<and> st_budget st' = st_budget st \<and> thinned (st_disk st) (st_disk st')
    \<and> (\<forall>name. pack_ids (st_disk st') name = (if name \<in> set hs \<and> name \<noteq> keep then {} else pack_ids (st_disk st) name))
    \<and> dk_sharded (st_disk st') = dk_sharded (st_disk st) \<and> dk_flat (st_disk st') = dk_flat (st_disk st)"
  using assms
proof (induction hs arbitrary: gs st)
  case Nil
  then show ?case by (auto simp: thinned_def)
next
  case (Cons h hs)
  show ?case
  proof (cases "h = keep")
    case True
    with Cons.IH [OF Cons.prems, of gs] show ?thesis by fastforce
  next
    case False
    obtain s where s: "delete_pack h st = (Inr (), s)" "packs_good e U (st_disk s)" "st_backend s = Persistent" "st_budget s = st_budget st"
      "thinned (st_disk st) (st_disk s)" "\<And>name. pack_ids (st_disk s) name = (if name = h then {} else pack_ids (st_disk st) name)"
      "dk_sharded (st_disk s) = dk_sharded (st_disk st)" "dk_flat (st_disk s) = dk_flat (st_disk st)"
      using delete_pack_ok [OF Cons.prems] by blast
    from Cons.IH [OF s(2,3), of "gs\<lparr>gs_packs_removed := gs_packs_removed gs + 1\<rparr>"] s False show ?thesis
      by (fastforce simp: bindS_def liftR_def intro: thinned_trans)
  qed
qed

text \<open>How many of its two possible loose files an object has; each listed one is visited once.\<close>

definition loose_count :: "ext \<Rightarrow> object_id \<Rightarrow> store \<Rightarrow> nat" where
  "loose_count e i st = (if map_of (dk_sharded (st_disk st)) (shard_path e i) \<noteq> None then 1 else 0)
     + (if map_of (dk_flat (st_disk st)) (id_to_hex e i) \<noteq> None then 1 else 0)"

lemma loose_count_on: "loose_on e (st_disk st) i \<longleftrightarrow> loose_count e i st \<noteq> 0"
  by (simp add: loose_on_def loose_count_def)

lemma loose_count_delete:
  assumes "hex_ok e" "st_backend st = Persistent"
  shows "loose_count e j (delete e i st) = (if j = i then loose_count e i st - 1 else loose_count e j st)"
  unfolding loose_count_def delete_files [OF assms(1)] using assms(2) by auto

lemma old_enough_delete:
  assumes "hex_ok e" "j \<noteq> i"
  shows "old_enough e sp now grace j (delete e i st) = old_enough e sp now grace j st"
  using assms(2) by (simp add: old_enough_def loose_mtime_def delete_files [OF assms(1)])

definition hex_digits :: "ext \<Rightarrow> bool" where
  "hex_digits e \<longleftrightarrow> (\<forall>b. list_all is_ascii_hexdigit (hex_encode e b))"

lemma parsed_ids_mem: "hex_ok e \<Longrightarrow> id_ok i \<Longrightarrow> id_to_hex e i \<in> set ns \<Longrightarrow> i \<in> set (parsed_ids e ns)"
  by (auto simp: parsed_ids_def mem_map_filter id_from_str_to_hex intro!: bexI [of _ "id_to_hex e i"])

lemma listed_loose:
  assumes "hex_ok e" "hex_digits e" "id_ok i" "st_backend st = Persistent"
  shows "loose_count e i st \<le> count_list (list_loose e st) i"
proof -
  let ?a = "parsed_ids e (map (\<lambda>((d, n), _). d @ n)
             (filter (\<lambda>((d, n), _). length d = 2 \<and> list_all is_ascii_hexdigit d) (dk_sharded (st_disk st))))"
  let ?b = "parsed_ids e (map fst (dk_flat (st_disk st)))"
  have h: "length (id_to_hex e i) = 64" "list_all is_ascii_hexdigit (take 2 (id_to_hex e i))"
    using assms(1-3) by (auto simp: hex_ok_def id_to_hex_def id_ok_def hex_digits_def list_all_iff dest: in_set_takeD)
  have "i \<in> set ?a" if "map_of (dk_sharded (st_disk st)) (shard_path e i) \<noteq> None"
  proof -
    obtain raw where "(shard_path e i, raw) \<in> set (dk_sharded (st_disk st))" using \<open>map_of _ _ \<noteq> None\<close> by (auto dest: map_of_SomeD)
    then have "(shard_path e i, raw) \<in> set (filter (\<lambda>((d, n), _). length d = 2 \<and> list_all is_ascii_hexdigit d) (dk_sharded (st_disk st)))"
      using h by (simp add: shard_path_def)
    then have "id_to_hex e i \<in> set (map (\<lambda>((d, n), _). d @ n) (filter (\<lambda>((d, n), _). length d = 2 \<and> list_all is_ascii_hexdigit d) (dk_sharded (st_disk st))))"
      by (force simp: shard_path_def image_iff)
    then show ?thesis by (rule parsed_ids_mem [OF assms(1,3)])
  qed
  moreover have "i \<in> set ?b" if "map_of (dk_flat (st_disk st)) (id_to_hex e i) \<noteq> None"
    using that by (intro parsed_ids_mem [OF assms(1,3)]) (auto simp: map_of_eq_None_iff)
  moreover have "1 \<le> count_list xs i" if "i \<in> set xs" for xs :: "object_id list"
    using that by (simp add: Suc_le_eq count_list_0_iff flip: neq0_conv)
  ultimately have "(if map_of (dk_sharded (st_disk st)) (shard_path e i) \<noteq> None then 1 else 0) \<le> count_list ?a i"
    "(if map_of (dk_flat (st_disk st)) (id_to_hex e i) \<noteq> None then 1 else 0) \<le> count_list ?b i" by auto
  from add_mono [OF this] have "loose_count e i st \<le> count_list (?a @ ?b) i" by (simp only: loose_count_def count_list_append)
  also have "?a @ ?b = list_loose e st" by (simp only: list_loose_def assms(4) simp_thms if_False)
  finally show ?thesis .
qed

text \<open>An unreachable object whose file is young is left alone to the end.\<close>

lemma sweep_young:
  assumes "hex_ok e"
  shows "sweep e sp now grace reach is (gs, st) = (gs', st') \<Longrightarrow> i \<notin> reach \<Longrightarrow> \<not> old_enough e sp now grace i st \<Longrightarrow>
    \<not> old_enough e sp now grace i st'"
proof (induction "is" arbitrary: gs st)
  case (Cons j js)
  show ?case
  proof (cases "j \<in> reach \<or> old_enough e sp now grace j st")
    case True
    then have "i \<noteq> j" using Cons.prems by auto
    obtain gs0 where "sweep e sp now grace reach js (gs0, delete e j st) = (gs', st')" using True Cons.prems by (auto split: if_splits)
    from Cons.IH [OF this Cons.prems(2)] Cons.prems(3) show ?thesis
      unfolding old_enough_delete [OF assms \<open>i \<noteq> j\<close>] by blast
  next
    case False
    with Cons show ?thesis by auto
  qed
qed simp

lemma sweep_reclaims:
  assumes "hex_ok e"
  shows "sweep e sp now grace reach is (gs, st) = (gs', st') \<Longrightarrow> st_backend st = Persistent \<Longrightarrow>
    loose_count e i st' \<le> loose_count e i st - count_list is i \<or> i \<notin> reach \<and> \<not> old_enough e sp now grace i st'"
proof (induction "is" arbitrary: gs st)
  case Nil
  then show ?case by simp
next
  case (Cons j js)
  show ?case
  proof (cases "j \<in> reach \<or> old_enough e sp now grace j st")
    case True
    then obtain gs0 where "sweep e sp now grace reach js (gs0, delete e j st) = (gs', st')" using Cons.prems by (auto split: if_splits)
    from Cons.IH [OF this] Cons.prems(2) show ?thesis
      unfolding loose_count_delete [OF assms Cons.prems(2)] by (auto split: if_splits)
  next
    case False
    then have "sweep e sp now grace reach js (gs\<lparr>gs_loose_kept := gs_loose_kept gs + 1\<rparr>, st) = (gs', st')" using Cons.prems by simp
    note IH = Cons.IH [OF this Cons.prems(2)]
    show ?thesis
    proof (cases "j = i")
      case False
      with IH show ?thesis by simp
    next
      case True
      have young: "\<not> old_enough e sp now grace i st'"
        using sweep_young [OF assms \<open>sweep e sp now grace reach js (gs\<lparr>gs_loose_kept := gs_loose_kept gs + 1\<rparr>, st) = (gs', st')\<close>] False True by blast
      with False True show ?thesis by blast
    qed
  qed
qed

text \<open>The collecting half of a pass, whatever it returns.\<close>

lemma gc_collect_ok:
  assumes "store_ok e U st" "blake3_ok e" "exact e U" "disk_good e U (st_disk st)" "st_backend st = Persistent"
    and "finite reach" "card (dom (view e st)) < 2 ^ 31" "gc_collect e sp now grace reach gs st = (r, st')"
  shows "disk_good e U (st_disk st') \<and> st_backend st' = Persistent \<and> (case r of Inl err \<Rightarrow> files st' = files st | Inr gs' \<Rightarrow>
    (reach \<noteq> {} \<longrightarrow> (\<exists>h. pack_ids (st_disk st') h = reach))
    \<and> (\<forall>i. hex_digits e \<longrightarrow> id_ok i \<longrightarrow> loose_on e (st_disk st') i \<longrightarrow> i \<notin> reach \<and> \<not> old_enough e sp now grace i st'))"
proof -
  have hex: "hex_ok e" using assms(1) by (simp add: store_ok_def)
  show ?thesis
  proof (cases "reach = {}")
  case True
  obtain gs1 s1 where sw: "sweep e sp now grace reach (list_loose e st) (gs\<lparr>gs_packed := card reach\<rparr>, st) = (gs1, s1)" by fastforce
  with True assms(8) have "r = Inr gs1" "st' = s1" by (simp_all add: gc_collect_def repack_def bindS_def)
  moreover note s = sweep_ok [OF sw]
  have "disk_good e U (st_disk s1)"
    using assms(4) s thinned_loose [of e U "st_disk st" "st_disk s1"] packs_of_good(1) [of "st_disk s1" "st_disk st" e U]
    unfolding disk_good_def by blast
  moreover have "i \<notin> reach \<and> \<not> old_enough e sp now grace i s1" if "hex_digits e" "id_ok i" "loose_on e (st_disk s1) i" for i
    using sweep_reclaims [OF hex sw assms(5), of i] listed_loose [OF hex that(1,2) assms(5)] that(3) by (auto simp: loose_count_on)
  moreover have "st_backend s1 = Persistent" using s assms(5) by simp
  ultimately show ?thesis using True by simp
next
  case False
  have d: "distinct (sorted_list_of_set reach)" by simp
  obtain x s where w: "write_pack e (sorted_list_of_set reach) st = (x, s)" by (cases "write_pack e (sorted_list_of_set reach) st")
  note wp = write_pack_ok [OF assms(1-5) d assms(7) w]
  show ?thesis
  proof (cases x)
    case (Inl err)
    then have "r = Inl (RCore err)" "st' = s" using assms(8) w False by (auto simp: gc_collect_def repack_def bindS_def liftR_def)
    with wp Inl show ?thesis by simp
  next
    case (Inr h)
    obtain gs1 s1 where sw: "sweep e sp now grace reach (list_loose e s) (gs\<lparr>gs_packed := card reach\<rparr>, s) = (gs1, s1)" by fastforce
    note sw' = sweep_ok [OF sw]
    have g1: "packs_good e U (st_disk s1)" "loose_files_good e U (st_disk s1)" "st_backend s1 = Persistent"
      using sw' wp(1,3) thinned_loose [of e U "st_disk s" "st_disk s1"] packs_of_good(1) [of "st_disk s1" "st_disk s" e U]
      unfolding disk_good_def by auto
    obtain gs2 s2 where dp: "drop_packs h (pack_hashes s1) gs1 s1 = (Inr gs2, s2)" "packs_good e U (st_disk s2)" "thinned (st_disk s1) (st_disk s2)"
      "\<forall>name. pack_ids (st_disk s2) name = (if name \<in> set (pack_hashes s1) \<and> name \<noteq> h then {} else pack_ids (st_disk s1) name)"
      "dk_sharded (st_disk s2) = dk_sharded (st_disk s1)" "dk_flat (st_disk s2) = dk_flat (st_disk s1)" "st_backend s2 = Persistent"
      using drop_packs_ok [OF g1(1,3)] by blast
    have "r = Inr gs2" "st' = s2"
      using assms(8) w Inr sw dp(1) False by (simp_all add: gc_collect_def repack_def bindS_def liftR_def)
    moreover have "disk_good e U (st_disk s2)" using dp(2) thinned_loose [OF g1(2) dp(3)] by (simp add: disk_good_def)
    moreover have "pack_ids (st_disk s2) h = reach"
      using dp(4) sw' wp(4) Inr assms(6) packs_of_good(2) [of "st_disk s1" "st_disk s"] by (simp add: added_pack_def)
    moreover have "i \<notin> reach \<and> \<not> old_enough e sp now grace i s2" if "hex_digits e" "id_ok i" "loose_on e (st_disk s2) i" for i
    proof -
      have "loose_on e (st_disk s1) i" "old_enough e sp now grace i s2 = old_enough e sp now grace i s1"
        using that(3) dp(5-7) g1(3) by (simp_all add: loose_on_def old_enough_def loose_mtime_def)
      then show ?thesis
        using sweep_reclaims [OF hex sw wp(1), of i] listed_loose [OF hex that(1,2) wp(1)] by (auto simp: loose_count_on)
    qed
    ultimately show ?thesis using dp(7) by auto
  qed
qed
qed

end
