(* ===== verification/Gc_Reach.thy ===== *)
theory Gc_Reach
  imports Gc Reachable_Correct
begin

text \<open>
  What a pass computes as reachable: the objects that the roots and the decided trees of unfinished
  operations need, in a full clone and in a partial one.
\<close>

section \<open>The tips of a pass\<close>

definition decided_trees :: "ext \<Rightarrow> sc_dir \<Rightarrow> repo_error + object_id set" where
  "decided_trees e d =
     bindE (under_head (read_merge_head e d) (merge_decided_root e d)) (\<lambda>m.
     bindE (under_head (read_pick_head e d) (pick_decided_root e d)) (\<lambda>p.
     bindE (rebase_decided_root e d) (\<lambda>r. Inr (set_option m \<union> set_option p \<union> set_option r))))"

definition partial_clone :: "sc_dir \<Rightarrow> bool" where
  "partial_clone d \<longleftrightarrow> (case promisor_load d of Inr (Some _) \<Rightarrow> True | _ \<Rightarrow> False)"

text \<open>The graph below the tips is well kinded: roots are snapshots, decided roots are trees.\<close>

definition gc_graph_ok :: "ext \<Rightarrow> store \<Rightarrow> bool \<Rightarrow> object_id set \<Rightarrow> object_id set \<Rightarrow> bool" where
  "gc_graph_ok e st gap roots trees \<longleftrightarrow> (\<forall>t \<in> roots. snapish (view e st t)) \<and> (\<forall>t \<in> trees. tree_ok gap (view e st t))
     \<and> well_kinded gap (view e st) (roots \<union> trees)"

section \<open>Gaps do not steer the presence walk\<close>

definition same_present :: "(repo_error + partial_state) \<times> store \<Rightarrow> (repo_error + partial_state) \<times> store \<Rightarrow> bool" where
  "same_present x y \<longleftrightarrow> map_prod (map_sum id fst) id x = map_prod (map_sum id fst) id y"

lemma visit_present_same:
  "fst (fst ps) = fst (fst ps') \<Longrightarrow> snd ps = snd ps' \<Longrightarrow>
    fst (fst (visit_present e st i en ps)) = fst (fst (visit_present e st i en ps')) \<and> snd (visit_present e st i en ps) = snd (visit_present e st i en ps')"
  by (cases ps; cases ps') (auto simp: visit_present_def split: prod.splits entry_kind.splits)

lemma visits_present_same:
  "fst (fst ps) = fst (fst ps') \<Longrightarrow> snd ps = snd ps' \<Longrightarrow>
    fst (fst (foldl (\<lambda>a en. visit_present e st i en a) ps ens)) = fst (fst (foldl (\<lambda>a en. visit_present e st i en a) ps' ens))
    \<and> snd (foldl (\<lambda>a en. visit_present e st i en a) ps ens) = snd (foldl (\<lambda>a en. visit_present e st i en a) ps' ens)"
proof (induction ens arbitrary: ps ps')
  case (Cons en ens)
  note v = visit_present_same [OF Cons.prems, of e st i en]
  show ?case using Cons.IH [OF conjunct1 [OF v] conjunct2 [OF v]] by simp
qed simp

lemma drain_present_same: "fst ps = fst ps' \<Longrightarrow> same_present (drain_present n e stack ps st) (drain_present n e stack ps' st)"
proof (induction n e stack ps st arbitrary: ps' rule: drain_present.induct)
  case (3 n e i stack ps st)
  obtain r s where g: "get e i st = (r, s)" by (cases "get e i st")
  show ?case
  proof (cases r)
    case (Inl err)
    with g show ?thesis by (simp add: same_present_def bindS_def liftR_def)
  next
    case (Inr ob)
    show ?thesis
    proof (cases ob)
      case (Tree t)
      obtain a stk where a: "foldl (\<lambda>a en. visit_present e s i en a) (ps, stack) t = (a, stk)" by fastforce
      obtain a' stk' where a': "foldl (\<lambda>a en. visit_present e s i en a) (ps', stack) t = (a', stk')" by fastforce
      have "fst a = fst a'" "stk = stk'" using visits_present_same [of "(ps, stack)" "(ps', stack)" e s i t] 3(2) a a' by simp_all
      moreover have l: "liftR (get e i) st = (Inr ob, s)" using g Inr by (simp add: liftR_def)
      ultimately show ?thesis using "3.IH" [OF l Tree a [symmetric] refl, of a'] Tree a a' by (simp add: bindS_def)
    qed (use g Inr in \<open>simp_all add: same_present_def bindS_def liftR_def\<close>)
  qed
qed (simp_all add: same_present_def)

lemma walk_partial_same: "same_present (walk_tree_partial n e rf root (p, g) st) (walk_tree_partial n e rf root (p, g') st)"
  by (auto simp: walk_tree_partial_def same_present_def intro!: drain_present_same [unfolded same_present_def])

section \<open>The set of objects kept\<close>

text \<open>\<open>walked\<close>: everything from the tips \<open>T\<close> on is held, up to absent ids \<open>G\<close>.\<close>

definition walked :: "ext \<Rightarrow> bytes set \<Rightarrow> bool \<Rightarrow> object_id set \<Rightarrow> store \<Rightarrow> object_id set \<Rightarrow> object_id set \<Rightarrow> store \<Rightarrow> bool" where
  "walked e U gap tips st0 T reach st \<longleftrightarrow> graph_inv e U gap tips st0 st \<and> (\<exists>G. sg.wf e U gap tips st0 {} (reach \<union> G) \<and> sg.absent e U gap tips st0 G
     \<and> (\<not> gap \<longrightarrow> G = {}) \<and> T \<subseteq> reach \<union> G)"

lemma walked_root_strict:
  assumes "walked e U False tips st0 T reach st" "root \<in> tips" "tree_ok False (view e st0 root)" "card (dom (view e st0)) \<le> n"
  shows "\<exists>reach' st'. walk_tree n (store_source e) root reach st = (Inr reach', st') \<and> walked e U False tips st0 (insert root T) reach' st'"
proof -
  have i: "graph_inv e U False tips st0 st" and w: "sg.wf e U False tips st0 {} reach" "T \<subseteq> reach"
    using assms(1) by (auto simp: walked_def)
  note simps = graph_inv_simps [OF i]
  have "root \<in> live (graph_of e U False tips st0) (tips_of e U False tips st0)" using assms(2) simps live.tip by metis
  moreover have "treeish (graph_of e U False tips st0 root)" using assms(3) simps by (simp add: tree_ok_def)
  ultimately obtain w' s' where "walk_tree_sized n (store_source e) root None None (walk_state_of reach) st = (Inr w', s')"
    "graph_inv e U False tips st0 s'" "sg.wf e U False tips st0 {} (ws_included w')" "insert root reach \<subseteq> ws_included w'"
    using sg.walk_tree_sized_ok [of False e U tips st0 st "{}" "walk_state_of reach" root n None] i w(1) assms(4) simps
    by (auto simp: walk_state_of_def)
  then show ?thesis using w(2) by (auto simp: walk_tree_def bindS_def walked_def sg.absent_def intro!: exI [of _ "{}"])
qed

lemma walked_root_partial:
  assumes "walked e U True tips st0 T reach st" "root \<in> tips" "tree_ok True (view e st0 root)" "card (dom (view e st0)) \<le> n"
  shows "\<exists>ps st'. walk_tree_partial n e root root (reach, Map.empty) st = (Inr ps, st') \<and> walked e U True tips st0 (insert root T) (fst ps) st'"
proof -
  obtain G where i: "graph_inv e U True tips st0 st" and w: "sg.wf e U True tips st0 {} (reach \<union> G)" "sg.absent e U True tips st0 G" "T \<subseteq> reach \<union> G"
    using assms(1) by (auto simp: walked_def)
  note simps = graph_inv_simps [OF i]
  let ?g = "\<lambda>i. if i \<in> G then Some i else None"
  have dom: "dom ?g = G" by (auto split: if_splits)
  have "root \<in> live (graph_of e U True tips st0) (tips_of e U True tips st0)" using assms(2) simps live.tip by metis
  moreover have "pg.gaps_ok e U tips st0 (reach, ?g)" using w(2) dom by (simp add: pg.gaps_ok_def)
  moreover have "sg.wf e U True tips st0 {} (pg.visited (reach, ?g))" using w(1) dom by (simp add: pg.visited_def)
  ultimately obtain ps' s' where p: "walk_tree_partial n e root root (reach, ?g) st = (Inr ps', s')" "graph_inv e U True tips st0 s'"
    "sg.wf e U True tips st0 {} (pg.visited ps')" "pg.gaps_ok e U tips st0 ps'" "insert root (pg.visited (reach, ?g)) \<subseteq> pg.visited ps'"
    using pg.walk_tree_partial_ok [OF i, of "{}" "(reach, ?g)" root n root] assms(3,4) simps by auto
  obtain x s where x: "walk_tree_partial n e root root (reach, Map.empty) st = (x, s)"
    by (cases "walk_tree_partial n e root root (reach, Map.empty) st")
  from walk_partial_same [of n e root root reach ?g st Map.empty] p(1) x obtain ps where
    "x = Inr ps" "fst ps = fst ps'" "s = s'" by (cases x) (auto simp: same_present_def)
  moreover have "walked e U True tips st0 (insert root T) (fst ps') s'"
    unfolding walked_def
    using p(2-5) w(3) dom by (intro conjI exI [of _ "dom (snd ps')"]) (auto simp: pg.visited_def pg.gaps_ok_def)
  ultimately show ?thesis using x by auto
qed

lemma walked_decided:
  assumes "walked e U gap tips st0 T reach st" "r = Inr x" "set_option x \<subseteq> tips" "\<forall>t \<in> set_option x. tree_ok gap (view e st0 t)"
    and "card (dom (view e st0)) \<le> n"
  shows "\<exists>reach' st'. walk_decided n e gap r reach st = (Inr reach', st') \<and> walked e U gap tips st0 (set_option x \<union> T) reach' st'"
proof (cases x)
  case None
  with assms(1,2) show ?thesis by (simp add: walk_decided_def bindS_def)
next
  case (Some root)
  show ?thesis
  proof (cases gap)
    case True
    then obtain ps st' where "walk_tree_partial n e root root (reach, Map.empty) st = (Inr ps, st')" "walked e U True tips st0 (insert root T) (fst ps) st'"
      using walked_root_partial [of e U tips st0 T reach st root n] assms Some by auto
    with True Some assms(2) show ?thesis by (cases ps) (auto simp: walk_decided_def walk_decided_root_def bindS_def)
  next
    case False
    with walked_root_strict [of e U tips st0 T reach st root n] assms Some show ?thesis
      by (auto simp: walk_decided_def walk_decided_root_def bindS_def)
  qed
qed

lemma roots_walked:
  assumes "store_ok e U st" "well_kinded gap (view e st) tips" "set rl \<subseteq> tips" "\<forall>t \<in> set rl. snapish (view e st t)" "card (dom (view e st)) \<le> n"
  shows "\<exists>reach st'. (if gap then bindS (reachable_objects_partial n e rl) (\<lambda>(present, _). returnS present)
      else reachable_objects n (store_source e) rl) st = (Inr reach, st') \<and> walked e U gap tips st (set rl) reach st'"
proof (cases gap)
  case True
  have i: "graph_inv e U True tips st st" using assms True grows_refl by (simp add: graph_inv_def)
  obtain ps st' where "reachable_objects_partial n e rl st = (Inr ps, st')" "graph_inv e U True tips st st'"
    "sg.wf e U True tips st {} (pg.visited ps)" "set rl \<subseteq> fst ps" "pg.gaps_ok e U tips st ps"
    using pg.reachable_objects_partial_ok [OF i refl, of rl n] assms graph_inv_simps [OF i] by auto
  then show ?thesis using True
    by (cases ps) (auto simp: walked_def pg.visited_def pg.gaps_ok_def bindS_def)
next
  case False
  have i: "graph_inv e U False tips st st" using assms False grows_refl by (simp add: graph_inv_def)
  obtain inc st' where "reachable_objects n (store_source e) rl st = (Inr inc, st')" "graph_inv e U False tips st st'"
    "sg.wf e U False tips st {} inc" "set rl \<subseteq> inc"
    using sg.reachable_objects_ok [OF _ i, of rl n] assms graph_inv_simps [OF i] by auto
  then show ?thesis using False by (auto simp: walked_def sg.absent_def intro!: exI [of _ "{}"])
qed

lemma gc_reachable_ok:
  assumes "store_ok e U st" "gc_roots e sessions d = Inr rl" "decided_trees e d = Inr trees" "promisor_load d = Inr pm"
    and "gc_graph_ok e st (partial_clone d) (set rl) trees" "card (dom (view e st)) \<le> n"
  shows "\<exists>reach st'. gc_reachable n e sessions d st = (Inr reach, st') \<and> store_ok e U st' \<and> files st' = files st
    \<and> st_backend st' = st_backend st \<and> view e st' = view e st
    \<and> reach \<subseteq> live (view e st) (set rl \<union> trees)
    \<and> {i \<in> live (view e st) (set rl \<union> trees). partial_clone d \<longrightarrow> view e st i \<noteq> None} \<subseteq> reach"
proof -
  let ?gap = "partial_clone d" and ?tips = "set rl \<union> trees"
  have gap: "?gap \<longleftrightarrow> pm \<noteq> None" using assms(4) by (auto simp: partial_clone_def split: option.splits)
  obtain m p r where m: "under_head (read_merge_head e d) (merge_decided_root e d) = Inr m"
    and p: "under_head (read_pick_head e d) (pick_decided_root e d) = Inr p"
    and r: "rebase_decided_root e d = Inr r" and trees: "trees = set_option m \<union> set_option p \<union> set_option r"
    using assms(3) by (auto simp: decided_trees_def bindE_eq_Inr)
  have tk: "\<forall>t \<in> trees. tree_ok ?gap (view e st t)" and sn: "\<forall>t \<in> set rl. snapish (view e st t)" and wk: "well_kinded ?gap (view e st) ?tips"
    using assms(5) by (auto simp: gc_graph_ok_def)
  have dt: "set_option x \<subseteq> ?tips" "\<forall>t \<in> set_option x. tree_ok ?gap (view e st t)" if "x \<in> {m, p, r}" for x
    using tk that unfolding trees by auto
  obtain reach0 s0 where w0: "(if ?gap then bindS (reachable_objects_partial n e rl) (\<lambda>(present, _). returnS present)
      else reachable_objects n (store_source e) rl) st = (Inr reach0, s0)" "walked e U ?gap ?tips st (set rl) reach0 s0"
    using roots_walked [OF assms(1) wk _ sn assms(6)] by auto
  obtain reach1 s1 where w1: "walk_decided n e ?gap (under_head (read_merge_head e d) (merge_decided_root e d)) reach0 s0 = (Inr reach1, s1)"
    "walked e U ?gap ?tips st (set_option m \<union> set rl) reach1 s1"
    using walked_decided [OF w0(2) m dt assms(6)] by blast
  obtain reach2 s2 where w2: "walk_decided n e ?gap (under_head (read_pick_head e d) (pick_decided_root e d)) reach1 s1 = (Inr reach2, s2)"
    "walked e U ?gap ?tips st (set_option p \<union> (set_option m \<union> set rl)) reach2 s2"
    using walked_decided [OF w1(2) p dt assms(6)] by blast
  obtain reach st' where w3: "walk_decided n e ?gap (rebase_decided_root e d) reach2 s2 = (Inr reach, st')"
    "walked e U ?gap ?tips st (set_option r \<union> (set_option p \<union> (set_option m \<union> set rl))) reach st'"
    using walked_decided [OF w2(2) r dt assms(6)] by blast
  have run: "gc_reachable n e sessions d st = (Inr reach, st')"
    using assms(2,4) w0(1) w1(1) w2(1) w3(1) unfolding gap by (simp add: gc_reachable_def bindS_def Let_def)
  obtain G where G: "sg.wf e U ?gap ?tips st {} (reach \<union> G)" "sg.absent e U ?gap ?tips st G" "\<not> ?gap \<longrightarrow> G = {}" "?tips \<subseteq> reach \<union> G"
    and i: "graph_inv e U ?gap ?tips st st'"
    using w3(2) trees by (auto simp: walked_def)
  have eq: "reach \<union> G = live (view e st) ?tips" using sg.wf_finish [OF G(1)] G(4) graph_inv_simps [OF i] by simp
  have none: "view e st j = None" if "j \<in> G" for j using G(2) that unfolding sg.absent_def by (simp add: graph_inv_simps(1) [OF i])
  have "reach \<subseteq> live (view e st) ?tips" using eq by blast
  moreover have "{i \<in> live (view e st) ?tips. ?gap \<longrightarrow> view e st i \<noteq> None} \<subseteq> reach"
  proof
    fix i
    assume a: "i \<in> {i \<in> live (view e st) ?tips. ?gap \<longrightarrow> view e st i \<noteq> None}"
    then have "i \<in> reach \<union> G" using eq by simp
    moreover have "i \<notin> G" using a none [of i] G(3) by (cases ?gap) auto
    ultimately show "i \<in> reach" by simp
  qed
  ultimately show ?thesis using run i by (auto simp: graph_inv_def grows_def)
qed

end
