(* ===== verification/Gc_Theorems.thy ===== *)
theory Gc_Theorems
  imports Gc_Correct Gc_Reach Signature_Theorems
begin

text \<open>
  The properties of garbage collection: a pass loses nothing that is live, whatever it returns, and what
  it reclaims; reachability is exactly the closure of the tips.
\<close>

section \<open>The index prunes keep what is reachable\<close>

lemma keep_entries_sup: "reach \<subseteq> fst (keep_entries owner obj ens reach) \<and> (finite reach \<longrightarrow> finite (fst (keep_entries owner obj ens reach)))"
  by (induction owner obj ens reach rule: keep_entries.induct) (auto split: prod.splits)

lemma transcripts_prune_sup:
  assumes "transcripts_prune e reach d = (Inr (reach', n), d')"
  shows "reach \<subseteq> reach'" "finite reach \<Longrightarrow> finite reach'"
proof -
  have "\<exists>drops pending entries kept. keep_entries fst snd (filter (\<lambda>(_, t). t \<notin> set (map (\<lambda>(_, _, x). x) drops)) entries)
      (reach \<union> set (map (\<lambda>(_, tomb, _). tomb) (drops :: drop_entry list)) \<union> set pending) = (reach', kept)"
    using assms by (auto simp: transcripts_prune_def Let_def split: sum.splits prod.splits)
  then obtain drops pending entries kept where r: "keep_entries fst snd (filter (\<lambda>(_, t). t \<notin> set (map (\<lambda>(_, _, x). x) drops)) entries)
      (reach \<union> set (map (\<lambda>(_, tomb, _). tomb) (drops :: drop_entry list)) \<union> set pending) = (reach', kept)" by blast
  note k = keep_entries_sup [of "reach \<union> set (map (\<lambda>(_, tomb, _). tomb) drops) \<union> set pending" fst snd
    "filter (\<lambda>(_, t). t \<notin> set (map (\<lambda>(_, _, x). x) drops)) entries"]
  show "reach \<subseteq> reach'" using k unfolding r by simp
  show "finite reach \<Longrightarrow> finite reach'" using k unfolding r by simp
qed

lemma signatures_prune_sup:
  assumes "signatures_prune e reach d = (Inr (reach', n), d')"
  shows "reach \<subseteq> reach'" "finite reach \<Longrightarrow> finite reach'"
proof -
  have "\<exists>entries kept. keep_entries fst (fst \<circ> snd) (entries :: sig_entry list) reach = (reach', kept)"
    using assms by (auto simp: signatures_prune_def Let_def split: sum.splits prod.splits)
  then obtain entries kept where "keep_entries fst (fst \<circ> snd) (entries :: sig_entry list) reach = (reach', kept)" by blast
  with keep_entries_sup [of reach fst "fst \<circ> snd" entries] show "reach \<subseteq> reach'" "finite reach \<Longrightarrow> finite reach'" by simp_all
qed

section \<open>Finitely many objects\<close>

lemma finite_refs: "finite (refs ob)"
  by (cases ob) (auto simp: refs_def snap_refs_def tree_refs_def leaf_refs_def)

lemma finite_live:
  assumes "finite tips" "finite (dom obj)"
  shows "finite (live obj tips)"
proof -
  have "live obj tips \<subseteq> tips \<union> (\<Union>i \<in> dom obj. refs (the (obj i)))"
  proof
    fix i assume "i \<in> live obj tips"
    then show "i \<in> tips \<union> (\<Union>i \<in> dom obj. refs (the (obj i)))" by (induction rule: live.induct) (auto intro!: bexI)
  qed
  then show ?thesis by (rule finite_subset) (use assms finite_refs in auto)
qed

section \<open>Safety\<close>

text \<open>A store all of whose objects are in its files; its objects are those of \<open>U\<close>, with their canonical bytes.\<close>

definition gc_ready :: "ext \<Rightarrow> bytes set \<Rightarrow> store \<Rightarrow> bool" where
  "gc_ready e U st \<longleftrightarrow> store_ok e U st \<and> st_backend st = Persistent \<and> blake3_ok e \<and> exact e U \<and> disk_good e U (st_disk st)
     \<and> (\<forall>i. contains e i st \<longrightarrow> on_disk e (st_disk st) i) \<and> card (dom (view e st)) < 2 ^ 31"

text \<open>The files beside the store as the roots are read: after the import of an older index and the trim of the log.\<close>

definition gc_cutoff :: "int \<Rightarrow> nat \<Rightarrow> int" where
  "gc_cutoff now grace = max 0 ((now - int grace) div 10 ^ 9)"

definition gc_dir :: "ext \<Rightarrow> signing_prims \<Rightarrow> int \<Rightarrow> nat \<Rightarrow> store \<times> sc_dir \<Rightarrow> sc_dir" where
  "gc_dir e sg now grace s = snd (trim_older_than e (gc_cutoff now grace) (snd (snd (migrate_legacy e sg s))))"

lemma files_disk:
  assumes "files st' = files st"
  shows "st_pack_index st' = st_pack_index st" "dk_sharded (st_disk st') = dk_sharded (st_disk st)" "dk_flat (st_disk st') = dk_flat (st_disk st)"
    "dk_pack (st_disk st') = dk_pack (st_disk st)" "dk_idx (st_disk st') = dk_idx (st_disk st)"
  using assms by (auto simp: files_def) (metis disk.ext_inject disk.surjective disk.update_convs(5))+

lemma files_on_disk: "files st' = files st \<Longrightarrow> on_disk e (st_disk st') i = on_disk e (st_disk st) i"
  using files_disk [of st' st] by (simp add: on_disk_def loose_on_def pack_ids_def)

lemma files_good:
  assumes "files st' = files st" "disk_good e U (st_disk st)" "store_ok e U st'"
  shows "disk_good e U (st_disk st')"
proof -
  have "\<forall>i b. map_of (dk_spill (st_disk st')) (id_to_hex e i) = Some b \<longrightarrow> sourced e U i (Blob b)"
    using assms(3) by (auto simp: store_ok_def content_inv_def spill_src_def)
  with assms(2) files_disk [OF assms(1)] show ?thesis by (simp add: disk_good_def packs_good_def loose_files_good_def)
qed


text \<open>The disk that a pass leaves.\<close>

lemma gc_run_disk:
  assumes "gc_ready e U st" "gc_run n e sg sessions sp now grace (st, d) = (r, st', d')"
    and "gc_roots e sessions (gc_dir e sg now grace (st, d)) = Inr rl" "decided_trees e (gc_dir e sg now grace (st, d)) = Inr trees"
      "promisor_load (gc_dir e sg now grace (st, d)) = Inr pm"
    and "gc_graph_ok e st (partial_clone (gc_dir e sg now grace (st, d))) (set rl) trees" "card (dom (view e st)) \<le> n"
  shows "disk_good e U (st_disk st') \<and> st_backend st' = Persistent \<and> (isErr r \<longrightarrow> (\<forall>i. on_disk e (st_disk st') i = on_disk e (st_disk st) i))
    \<and> (\<not> isErr r \<longrightarrow> (\<exists>h. {i \<in> live (view e st) (set rl \<union> trees). view e st i \<noteq> None} \<subseteq> pack_ids (st_disk st') h)
         \<and> (\<forall>i. hex_digits e \<longrightarrow> id_ok i \<longrightarrow> loose_on e (st_disk st') i \<longrightarrow>
              (i \<in> live (view e st) (set rl \<union> trees) \<longrightarrow> view e st i = None) \<and> \<not> old_enough e sp now grace i st'))"
proof -
  have ok: "store_ok e U st" and good: "disk_good e U (st_disk st)" and pers: "st_backend st = Persistent" using assms(1) by (simp_all add: gc_ready_def)
  have unchanged: "files s = files st \<Longrightarrow> store_ok e U s \<Longrightarrow> disk_good e U (st_disk s) \<and> (\<forall>i. on_disk e (st_disk s) i = on_disk e (st_disk st) i)" for s
    using files_good [OF _ good] files_on_disk by blast
  let ?dt = "gc_dir e sg now grace (st, d)"
  obtain x s1 d1 where mg: "migrate_legacy e sg (st, d) = (x, s1, d1)" by (metis surj_pair)
  have s1: "store_ok e U s1" "files s1 = files st" "view e s1 = view e st" "st_backend s1 = Persistent"
    using migrate_legacy_reads [OF ok mg] pers by (auto simp: reads_def grows_def)
  obtain y d2 where tr: "trim_older_than e (gc_cutoff now grace) d1 = (y, d2)" by fastforce
  have dt: "?dt = d2" by (simp add: gc_dir_def mg tr)
  have "gc_graph_ok e s1 (partial_clone d2) (set rl) trees" using assms(6) s1(3) dt by (simp add: gc_graph_ok_def)
  moreover have "card (dom (view e s1)) \<le> n" using assms(7) s1(3) by simp
  ultimately obtain reach s2 where rc: "gc_reachable n e sessions d2 s1 = (Inr reach, s2)" "store_ok e U s2" "files s2 = files s1"
    "st_backend s2 = st_backend s1" "view e s2 = view e s1" "reach \<subseteq> live (view e s1) (set rl \<union> trees)"
    "{i \<in> live (view e s1) (set rl \<union> trees). partial_clone d2 \<longrightarrow> view e s1 i \<noteq> None} \<subseteq> reach"
    using gc_reachable_ok [OF s1(1), of sessions d2 rl trees pm n] assms(3-5) dt by auto
  have fin: "finite reach"
  proof (rule finite_subset [OF rc(6)])
    show "finite (live (view e s1) (set rl \<union> trees))"
    proof (rule finite_live)
      show "finite (set rl \<union> trees)" using assms(4) by (auto simp: decided_trees_def bindE_eq_Inr)
    qed (rule finite_view [OF s1(1)])
  qed
  have f2: "files s2 = files st" using rc(3) s1(2) by simp
  note un1 = unchanged [OF s1(2,1)] and un2 = unchanged [OF f2 rc(2)]
  note run = assms(2) [unfolded gc_run_def mg gc_cutoff_def [symmetric], simplified]
  show ?thesis
  proof (cases x)
    case (Inl err)
    then have "r = Inl err" "st' = s1" using run by simp_all
    with un1 s1(4) show ?thesis by simp
  next
    case x: (Inr u)
    show ?thesis
    proof (cases y)
      case (Inl err)
      then have "r = Inl err" "st' = s1" using run x tr by simp_all
      with un1 s1(4) show ?thesis by simp
    next
      case y: (Inr k)
      obtain t d3 where tp: "transcripts_prune e reach d2 = (t, d3)" by fastforce
      show ?thesis
      proof (cases t)
        case (Inl err)
        then have "r = Inl err" "st' = s2" using run x tr y rc(1) tp by simp_all
        with un2 rc(4) s1(4) show ?thesis by simp
      next
        case t: (Inr q)
        obtain reach1 tn where q: "q = (reach1, tn)" by fastforce
        note tps = transcripts_prune_sup [OF tp [unfolded t q]]
        obtain u d4 where sp: "signatures_prune e reach1 d3 = (u, d4)" by fastforce
        show ?thesis
        proof (cases u)
          case (Inl err)
          then have "r = Inl err" "st' = s2" using run x tr y rc(1) tp t q sp by simp_all
          with un2 rc(4) s1(4) show ?thesis by simp
        next
          case u: (Inr v)
          obtain reach2 sn where v: "v = (reach2, sn)" by fastforce
          note sps = signatures_prune_sup [OF sp [unfolded u v]]
          obtain gs where gc: "gc_collect e sp now grace reach2 gs s2 = (r, st')"
            using run x tr y rc(1) tp t q sp u v by (auto split: prod.splits)
          have pre: "disk_good e U (st_disk s2)" "st_backend s2 = Persistent" "finite reach2" "card (dom (view e s2)) < 2 ^ 31" "blake3_ok e" "exact e U"
            using un2 rc(4,5) s1(3,4) sps(2) tps(2) fin assms(1) by (simp_all add: gc_ready_def)
          note gcd = gc_collect_ok [OF rc(2) pre(5,6,1,2,3,4) gc]
          have sup: "{i \<in> live (view e st) (set rl \<union> trees). view e st i \<noteq> None} \<subseteq> reach2" (is "?L \<subseteq> _")
            using rc(7) s1(3) tps(1) sps(1) by auto
          show ?thesis
          proof (cases r)
            case (Inl err)
            with gcd un2 files_on_disk [of st' s2] show ?thesis by auto
          next
            case r: (Inr gs')
            with gcd have p: "reach2 \<noteq> {} \<longrightarrow> (\<exists>h. pack_ids (st_disk st') h = reach2)" "disk_good e U (st_disk st')"
              "\<forall>i. hex_digits e \<longrightarrow> id_ok i \<longrightarrow> loose_on e (st_disk st') i \<longrightarrow> i \<notin> reach2 \<and> \<not> old_enough e sp now grace i st'" "st_backend st' = Persistent" by auto
            have "\<exists>h. ?L \<subseteq> pack_ids (st_disk st') h"
            proof (cases "reach2 = {}")
              case True
              with sup show ?thesis by blast
            next
              case False
              with p(1) sup show ?thesis by metis
            qed
            moreover have "(i \<in> live (view e st) (set rl \<union> trees) \<longrightarrow> view e st i = None) \<and> \<not> old_enough e sp now grace i st'"
              if "hex_digits e" "id_ok i" "loose_on e (st_disk st') i" for i
              using p(3) that sup by blast
            ultimately show ?thesis using p(2,4) r by simp
          qed
        qed
      qed
    qed
  qed
qed


text \<open>A loose file too young to delete.\<close>

definition young :: "ext \<Rightarrow> stamps \<Rightarrow> int \<Rightarrow> nat \<Rightarrow> object_id \<Rightarrow> store \<Rightarrow> bool" where
  "young e sp now grace i st \<longleftrightarrow> (\<exists>t. loose_mtime e sp i st = Some t \<and> now - t < int grace)"

lemma not_old_young: "st_backend st = Persistent \<Longrightarrow> loose_on e (st_disk st) i \<Longrightarrow> \<not> old_enough e sp now grace i st \<Longrightarrow> young e sp now grace i st"
  by (auto simp: young_def old_enough_def loose_mtime_def loose_on_def split: if_splits)

text \<open>
  C27: a successful garbage collection reclaims. What is live and held ends in one pack, and a loose file that
  stays belongs to no held live object and was too young to delete.
\<close>

theorem gc_reclaims:
  assumes "gc_ready e U st" "hex_digits e" "gc_run n e sg sessions sp now grace (st, d) = (Inr gs, st', d')"
    and "gc_roots e sessions (gc_dir e sg now grace (st, d)) = Inr rl" "decided_trees e (gc_dir e sg now grace (st, d)) = Inr trees"
      "promisor_load (gc_dir e sg now grace (st, d)) = Inr pm"
    and "gc_graph_ok e st (partial_clone (gc_dir e sg now grace (st, d))) (set rl) trees" "card (dom (view e st)) \<le> n"
  shows "(\<exists>h. {i \<in> live (view e st) (set rl \<union> trees). view e st i \<noteq> None} \<subseteq> pack_ids (st_disk st') h)
    \<and> (\<forall>i. id_ok i \<longrightarrow> loose_on e (st_disk st') i \<longrightarrow>
         (i \<in> live (view e st) (set rl \<union> trees) \<longrightarrow> view e st i = None) \<and> young e sp now grace i st')"
  using gc_run_disk [OF assms(1,3-8)] assms(2) not_old_young [of st' e _ sp now grace] by simp

section \<open>An instance\<close>

lemma demo_hex_digits: "hex_digits prefix_ext"
proof -
  have "\<forall>n \<in> set [0..<16]. is_ascii_hexdigit (hex_digit n)" by code_simp
  then have "is_ascii_hexdigit (hex_digit n)" if "n < 16" for n using that by simp
  moreover have "unat (x :: u8) div 16 < 16" for x using unat_u8_less [of x] by (simp add: less_mult_imp_div_less)
  ultimately show ?thesis by (auto simp: hex_digits_def prefix_ext_def demo_ext_def demo_hex_def list_all_iff)
qed

definition demo_gc_dir :: sc_dir where
  "demo_gc_dir = \<lparr>fs_files = [(''HEAD'', str_bytes (HEAD_PREFIX @ ''main'' @ [nl]))], fs_dirs = []\<rparr>"


lemma demo_read: "read_text p demo_gc_dir = (if p = ''HEAD'' then Inr (Some (HEAD_PREFIX @ ''main'' @ [nl])) else Inr None)"
proof -
  have "str_ok (HEAD_PREFIX @ ''main'' @ [nl])" by (rule str_ok_ascii) (simp add: HEAD_PREFIX_def nl_def)
  from from_utf8_str_bytes [OF this] show ?thesis unfolding demo_gc_dir_def read_text_def by simp
qed

lemma demo_current: "current_branch demo_gc_dir = Inr ''main''"
proof -
  have "trim_end (HEAD_PREFIX @ ''main'' @ [nl]) = HEAD_PREFIX @ ''main''"
    using trim_end_newline [of "HEAD_PREFIX @ ''main''"] trim_end_graphic [of "HEAD_PREFIX @ ''main''"] by (simp add: graphic_def nl_def)
  moreover have "trim_start (HEAD_PREFIX @ ''main'' @ [nl]) = HEAD_PREFIX @ ''main'' @ [nl]"
    by (rule trim_start_graphic) (simp add: HEAD_PREFIX_def graphic_def)
  moreover have "strip_prefix HEAD_PREFIX (HEAD_PREFIX @ ''main'') = Some ''main''" by (simp add: HEAD_PREFIX_def)
  ultimately show ?thesis unfolding current_branch_def demo_read trim_def by simp
qed

lemma demo_gc_roots: "gc_roots e ss demo_gc_dir = Inr (sorted_list_of_set (\<Union> (session_roots ` set ss)))"
proof -
  have "branch_name_ok ''main''"
    using graphic_not_spaced [of "''main''"] by (simp add: branch_name_ok_def graphic_def)
  then have "head_tip e demo_gc_dir = Inr None"
    by (simp add: head_tip_def demo_current read_branch_tip_def validate_branch_name_def read_id_file_def demo_read ref_path_def HEADS_DIR_def)
  moreover have "list_heads e demo_gc_dir = Inr []" "list_remote_tips e demo_gc_dir = Inr []"
    by (simp_all add: demo_gc_dir_def list_heads_def list_remote_tips_def files_in_def dirs_in_def HEADS_DIR_def map_filter_simps)
  moreover have "referenced_ids e demo_gc_dir = Inr []" by (simp add: referenced_ids_def read_all_def demo_read OPLOG_def map_filter_simps)
  moreover have "read_merge_head e demo_gc_dir = Inr None" "read_pick_head e demo_gc_dir = Inr None" "rebase_read e demo_gc_dir = Inr None"
    by (simp_all add: read_merge_head_def read_pick_head_def rebase_read_def read_state_id_def read_id_file_def demo_read
      MERGE_HEAD_def PICK_HEAD_def REBASE_STATE_def)
  ultimately show ?thesis by (simp add: gc_roots_def)
qed

lemma demo_decided: "decided_trees e demo_gc_dir = Inr {}" "promisor_load demo_gc_dir = Inr None" "gc_dir e sg now grace (st, demo_gc_dir) = demo_gc_dir"
proof -
  have "read_merge_head e demo_gc_dir = Inr None" "read_pick_head e demo_gc_dir = Inr None"
    by (simp_all add: read_merge_head_def read_pick_head_def read_state_id_def read_id_file_def demo_read MERGE_HEAD_def PICK_HEAD_def)
  moreover have "rebase_decided_root e demo_gc_dir = Inr None"
    by (simp add: rebase_decided_root_def rebase_in_progress_def REBASE_STATE_def file_exists_def demo_gc_dir_def)
  ultimately show "decided_trees e demo_gc_dir = Inr {}" by (simp add: decided_trees_def under_head_def)
  show "promisor_load demo_gc_dir = Inr None" by (simp add: promisor_load_def demo_read PROMISOR_def)
  have "migrate_legacy e sg (st, demo_gc_dir) = (Inr (), st, demo_gc_dir)"
    by (simp add: migrate_legacy_def file_exists_def demo_gc_dir_def SIGNATURES_LEGACY_def)
  then show "gc_dir e sg now grace (st, demo_gc_dir) = demo_gc_dir"
    by (simp add: gc_dir_def trim_older_than_def read_all_def demo_read OPLOG_def)
qed

definition demo_commit :: object where
  "demo_commit = Snapshot \<lparr>sn_root = object_id prefix_ext (Tree []), sn_parents = [],
     sn_author = [], sn_timestamp = 0, sn_message = [], sn_secrets = [], sn_protection = protection_default\<rparr>"

text \<open>A store that only ever wrote loose files.\<close>

definition unpacked :: "store \<Rightarrow> bool" where
  "unpacked st \<longleftrightarrow> st_backend st = Persistent \<and> st_pack_index st = [] \<and> dk_pack (st_disk st) = [] \<and> dk_idx (st_disk st) = []"

lemma put_unpacked: "unpacked st \<Longrightarrow> blob_size ob = 0 \<Longrightarrow> unpacked (snd (put e ob st))"
  by (auto simp: put_def Let_def bindS_def reserve_def write_object_file_def admit_def unpacked_def split: option.splits)

lemma unpacked_ready:
  assumes "store_ok e U st" "unpacked st" "blake3_ok e" "exact e U" "card (dom (view e st)) < 2 ^ 31"
  shows "gc_ready e U st" "\<And>i. view e st i \<noteq> None \<Longrightarrow> loose_on e (st_disk st) i"
proof -
  have c: "content_inv e U st" using assms(1) by (simp add: store_ok_def)
  then have l: "loose_on e (st_disk st) i" if "contains e i st" for i
  proof -
    have "existing_loose e i st \<noteq> None"
      using that c assms(2) by (auto simp: unpacked_def contains_def content_inv_def resident_src_def spill_src_def)
    then show ?thesis using assms(2) by (auto simp: unpacked_def existing_loose_def loose_on_def split: option.splits)
  qed
  have "disk_good e U (st_disk st)"
    using c assms(2) by (auto simp: disk_good_def packs_good_def loose_files_good_def content_defs unpacked_def)
  then show "gc_ready e U st" using assms l by (auto simp: gc_ready_def unpacked_def on_disk_def)
  show "loose_on e (st_disk st) i" if "view e st i \<noteq> None" for i
    using l view_contains [of e U st i] c that by auto
qed


abbreviation demo_root :: object_id where
  "demo_root \<equiv> object_id prefix_ext (Tree [])"

abbreviation demo_tip :: object_id where
  "demo_tip \<equiv> object_id prefix_ext demo_commit"


lemma demo_encodings: "length (encode (Tree [])) < 1000" "length (encode demo_commit) < 1000"
  "encode (Tree []) = TAG_TREE # drop 1 (encode (Tree []))" "encode demo_commit = TAG_SNAPSHOT # drop 1 (encode demo_commit)"
proof -
  have "length (id_bytes demo_root) = 32" using id_of_ok [OF prefix_hexes(2)] by (simp add: object_id_def id_ok_def)
  then show "length (encode (Tree [])) < 1000" "length (encode demo_commit) < 1000"
    by (simp_all add: encode_def w_u8_def demo_commit_def w_snapshot_def w_id_def sort_snapshot_def protection_default_def
      w_vec_def w_str_def w_bytes_def w_u32_def w_i64_def str_bytes_def)
  show "encode (Tree []) = TAG_TREE # drop 1 (encode (Tree []))" "encode demo_commit = TAG_SNAPSHOT # drop 1 (encode demo_commit)"
    by (simp_all add: encode_def w_u8_def demo_commit_def)
qed

lemma demo_pair_objects:
  assumes "ob \<in> {Tree [], demo_commit}"
  shows "object_ok ob" "canon ob = ob" "blob_size ob = 0" "length (encode ob) < 1000"
proof -
  have "object_ok (Tree [])" by (simp add: object_ok_def tree_ok_def vec_ok_def)
  moreover have "object_ok demo_commit"
    by (simp add: demo_commit_def object_ok_def snapshot_ok_def snapshot_fields_ok_def vec_ok_def
        protection_default_def str_ok_def str_bytes_def id_of_ok [OF prefix_hexes(2)] object_id_def)
  ultimately show "object_ok ob" using assms by auto
  show "canon ob = ob" "blob_size ob = 0" "length (encode ob) < 1000"
    using assms demo_encodings(1,2) by (auto simp: demo_commit_def canon_def sort_snapshot_def protection_default_def blob_size_def)
qed

lemma demo_loose_store:
  "\<exists>U st. gc_ready prefix_ext U st \<and> card (dom (view prefix_ext st)) \<le> 2 \<and> loose_on prefix_ext (st_disk st) demo_root
     \<and> view prefix_ext st demo_root = Some (Tree []) \<and> view prefix_ext st demo_tip = Some demo_commit"
proof -
  let ?obs = "{Tree [], demo_commit}" let ?U = "encode ` ?obs" let ?st = "store_new 10 Persistent empty_disk"
  have "blake3 prefix_ext (encode (Tree [])) \<noteq> blake3 prefix_ext (encode demo_commit)"
    by (subst demo_encodings(3), subst demo_encodings(4)) (simp add: prefix_digest tag_defs)
  then have "collision_free prefix_ext ?U"
    unfolding collision_free_def inj_on_def by auto
  then have ok: "store_ok prefix_ext ?U ?st"
    using prefix_ext_ok
    by (auto simp: store_ok_def acct_inv_def total_def stamps_ok_def content_defs store_new_def empty_disk_def existing_loose_def)
  have k: "known ?U ob" if "ob \<in> ?obs" for ob using demo_pair_objects(1) [OF that] that by (auto simp: known_def)
  obtain s1 where s1: "put prefix_ext (Tree []) ?st = (Inr demo_root, s1)" "grows prefix_ext ?U ?st s1" "view prefix_ext s1 demo_root = Some (Tree [])"
    using put_weightless [OF ok k, of "Tree []"] demo_pair_objects(2,3) [of "Tree []"] by auto
  obtain s2 where s2: "put prefix_ext demo_commit s1 = (Inr demo_tip, s2)" "grows prefix_ext ?U s1 s2" "view prefix_ext s2 demo_tip = Some demo_commit"
    using put_weightless [OF grows_ok [OF s1(2)] k, of demo_commit] demo_pair_objects(2,3) [of demo_commit] by auto
  have v: "view prefix_ext s2 demo_root = Some (Tree [])" using grows_view [OF s2(2) s1(3)] .
  have okk: "store_ok prefix_ext ?U s2" using grows_ok [OF s2(2)] .
  then have "dom (view prefix_ext s2) \<subseteq> id_of prefix_ext ` ?U"
    using view_sourced [of prefix_ext ?U s2] by (fastforce simp: store_ok_def sourced_def)
  then have "card (dom (view prefix_ext s2)) \<le> card (id_of prefix_ext ` ?U)" by (intro card_mono) auto
  also have "\<dots> \<le> 2" using card_image_le [of ?U "id_of prefix_ext"] card_image_le [of ?obs encode] by (auto simp: card_insert_if split: if_splits)
  finally have card: "card (dom (view prefix_ext s2)) \<le> 2" .
  have "unpacked ?st" by (simp add: unpacked_def store_new_def empty_disk_def)
  then have un: "unpacked s2"
    using put_unpacked [of ?st "Tree []" prefix_ext] put_unpacked [of s1 demo_commit prefix_ext] demo_pair_objects(3) s1(1) s2(1) by auto
  have "exact prefix_ext ?U"
    using demo_pair_objects(1,2) decode_encode_lemma demo_encodings(1,2) by (fastforce simp: exact_def prefix_ext_def demo_ext_def)
  from unpacked_ready [OF okk un prefix_hexes(2) this] card v s2(3) show ?thesis by fastforce
qed


abbreviation demo_stamps :: stamps where
  "demo_stamps \<equiv> \<lparr>sp_sharded = \<lambda>_. 0, sp_flat = \<lambda>_. 0\<rparr>"


theorem gc_reclaims_witness:
  "\<exists>st gs st' d'. loose_on prefix_ext (st_disk st) demo_root
    \<and> gc_run 2 prefix_ext demo_signing [] demo_stamps 100 10 (st, demo_gc_dir) = (Inr gs, st', d')
    \<and> \<not> loose_on prefix_ext (st_disk st') demo_root"
proof -
  obtain U st where st: "gc_ready prefix_ext U st" "card (dom (view prefix_ext st)) \<le> 2" "loose_on prefix_ext (st_disk st) demo_root"
    using demo_loose_store by blast
  have roots: "gc_roots prefix_ext [] demo_gc_dir = Inr []" by (simp add: demo_gc_roots)
  have pc: "partial_clone demo_gc_dir = False" by (simp add: partial_clone_def demo_decided)
  have g: "gc_graph_ok prefix_ext st False (set []) {}" using live_closed [of "{}" "{}"] by (auto simp: gc_graph_ok_def well_kinded_def)
  obtain reach s1 where rc: "gc_reachable 2 prefix_ext [] demo_gc_dir st = (Inr reach, s1)" "reach \<subseteq> live (view prefix_ext st) (set [] \<union> {})"
    using gc_reachable_ok [OF _ roots demo_decided(1,2) _ st(2)] st(1) g unfolding pc gc_ready_def by blast
  then have "reach = {}" using live_closed [of "{}" "{}"] by auto
  let ?zero = "\<lparr>gs_packed = 0, gs_loose_pruned = 0, gs_loose_kept = 0, gs_packs_removed = 0, gs_signatures_pruned = 0, gs_transcripts_pruned = 0\<rparr>"
  obtain gs s2 where sw: "sweep prefix_ext demo_stamps 100 10 {} (list_loose prefix_ext s1) (?zero, s1) = (gs, s2)" by (metis surj_pair)
  with \<open>reach = {}\<close> have co: "gc_collect prefix_ext demo_stamps 100 10 reach ?zero s1 = (Inr gs, s2)"
    by (simp add: gc_collect_def repack_def bindS_def)
  have "transcripts_prune prefix_ext reach demo_gc_dir = (Inr (reach, 0), demo_gc_dir)" "signatures_prune prefix_ext reach demo_gc_dir = (Inr (reach, 0), demo_gc_dir)"
    by (simp_all add: transcripts_prune_def signatures_prune_def read_drops_def read_pending_def read_raw_def read_signatures_def read_lines_def demo_read
      SIGNATURES_def TRANSCRIPTS_def TRANSCRIPT_DROPS_def TRANSCRIPT_PENDING_def)
  moreover have "migrate_legacy prefix_ext demo_signing (st, demo_gc_dir) = (Inr (), st, demo_gc_dir)"
    by (simp add: migrate_legacy_def file_exists_def demo_gc_dir_def SIGNATURES_LEGACY_def)
  moreover have "trim_older_than prefix_ext c demo_gc_dir = (Inr 0, demo_gc_dir)" for c
    by (simp add: trim_older_than_def read_all_def demo_read OPLOG_def)
  ultimately have run: "gc_run 2 prefix_ext demo_signing [] demo_stamps 100 10 (st, demo_gc_dir) = (Inr gs, s2, demo_gc_dir)"
    using rc(1) co by (simp add: gc_run_def)
  have "hex_digits prefix_ext" by (rule demo_hex_digits)
  from gc_reclaims [OF st(1) this run, unfolded demo_decided pc, OF roots refl refl g st(2)]
  have "loose_on prefix_ext (st_disk s2) demo_root \<Longrightarrow> young prefix_ext demo_stamps 100 10 demo_root s2"
    using id_of_ok [OF prefix_hexes(2)] by (auto simp: object_id_def)
  then have "\<not> loose_on prefix_ext (st_disk s2) demo_root" by (auto simp: young_def loose_mtime_def split: if_splits)
  with run st(3) show ?thesis by blast
qed

end
