(* ===== verification/Lock.thy ===== *)
theory Lock
  imports Refs
begin

text \<open>
  The two locks of a repository (\<^verbatim>\<open>crates/repo/src/lock.rs\<close>). \<^verbatim>\<open>RepoLock\<close> is a file that names its
  holder; processes interleave between any two of its file operations, and may die between them. The
  index lock is an advisory lock on a file that stays, held per thread.
\<close>

section \<open>The holder that a lock file names\<close>

text \<open>\<open>alive\<close> is what \<^verbatim>\<open>kill(pid, 0)\<close> reports of a process.\<close>

definition pid_is_dead :: "(u32 \<Rightarrow> bool) \<Rightarrow> u32 \<Rightarrow> u32 \<Rightarrow> bool" where
  "pid_is_dead alive self pid \<longleftrightarrow> (if pid = self then False else \<not> alive pid)"

definition holder_is_dead :: "(u32 \<Rightarrow> bool) \<Rightarrow> u32 \<Rightarrow> string \<Rightarrow> bool" where
  "holder_is_dead alive self contents =
     (case parse_u32 (trim contents) of None \<Rightarrow> False | Some pid \<Rightarrow> pid_is_dead alive self (word_of_nat pid))"

definition pid_line :: "u32 \<Rightarrow> string" where
  "pid_line i = show_nat (unat i) @ [nl]"

section \<open>The repository lock\<close>

text \<open>A file that is removed and created again is another file: an open one keeps its \<open>lf_inode\<close>.\<close>

record lock_file =
  lf_inode :: nat
  lf_text :: string

text \<open>
  Where a process stands: before \<^verbatim>\<open>acquire\<close>, before the exclusive creation of an attempt, with the file created
  but not written, before the look at the holder, before the removal of a stale lock, with the guard, or not running.
\<close>

datatype lock_pc = Outside | Trying nat | Writing nat | Inspecting | Removing | Holding nat | Dead

record lock_sys =
  lk_file :: "lock_file option"
  lk_fresh :: nat
  lk_pc :: "u32 \<Rightarrow> lock_pc"

abbreviation goto :: "u32 \<Rightarrow> lock_pc \<Rightarrow> lock_sys \<Rightarrow> lock_sys" where
  "goto i p s \<equiv> s\<lparr>lk_pc := (lk_pc s)(i := p)\<rparr>"

definition alive_in :: "lock_sys \<Rightarrow> u32 \<Rightarrow> bool" where
  "alive_in s pid \<longleftrightarrow> lk_pc s pid \<noteq> Dead"

definition create_lock :: "u32 \<Rightarrow> lock_sys \<Rightarrow> lock_sys" where
  "create_lock i s = goto i (Writing (lk_fresh s))
     (s\<lparr>lk_file := Some \<lparr>lf_inode = lk_fresh s, lf_text = []\<rparr>, lk_fresh := Suc (lk_fresh s)\<rparr>)"

definition write_pid :: "u32 \<Rightarrow> nat \<Rightarrow> lock_sys \<Rightarrow> lock_sys" where
  "write_pid i n s = (case lk_file s of
     Some f \<Rightarrow> if lf_inode f = n then s\<lparr>lk_file := Some (f\<lparr>lf_text := pid_line i\<rparr>)\<rparr> else s
   | None \<Rightarrow> s)"

text \<open>The steps of \<^verbatim>\<open>RepoLock::acquire\<close> for process \<open>i\<close>; the attempts are numbered 0 and 1.\<close>

inductive acquire_step :: "u32 \<Rightarrow> lock_sys \<Rightarrow> lock_sys \<Rightarrow> bool" for i where
  enter: "lk_pc s i = Outside \<Longrightarrow> acquire_step i s (goto i (Trying 0) s)"
| created: "lk_pc s i = Trying a \<Longrightarrow> lk_file s = None \<Longrightarrow> acquire_step i s (create_lock i s)"
| written: "lk_pc s i = Writing n \<Longrightarrow> acquire_step i s (goto i (Holding n) (write_pid i n s))"
| unwritten: "lk_pc s i = Writing n \<Longrightarrow> acquire_step i s (goto i (Holding n) s)"
| exists_first: "lk_pc s i = Trying 0 \<Longrightarrow> lk_file s \<noteq> None \<Longrightarrow> acquire_step i s (goto i Inspecting s)"
| exists_again: "lk_pc s i = Trying (Suc a) \<Longrightarrow> lk_file s \<noteq> None \<Longrightarrow> acquire_step i s (goto i Outside s)"
| stale: "lk_pc s i = Inspecting \<Longrightarrow> lk_file s = Some f \<Longrightarrow> holder_is_dead (alive_in s) i (lf_text f)
    \<Longrightarrow> acquire_step i s (goto i Removing s)"
| respected: "lk_pc s i = Inspecting \<Longrightarrow> lk_file s = None \<or> (\<exists>f. lk_file s = Some f \<and> \<not> holder_is_dead (alive_in s) i (lf_text f))
    \<Longrightarrow> acquire_step i s (goto i Outside s)"
| removed: "lk_pc s i = Removing \<Longrightarrow> acquire_step i s (goto i (Trying 1) (s\<lparr>lk_file := None\<rparr>))"

text \<open>
  Besides, a holder drops its guard, which removes whatever lock file there is; an operation fails; a process
  dies anywhere; and its number is given to a new process.
\<close>

inductive lock_step :: "lock_sys \<Rightarrow> lock_sys \<Rightarrow> bool" where
  acquire: "acquire_step i s s' \<Longrightarrow> lock_step s s'"
| release: "lk_pc s i = Holding n \<Longrightarrow> lock_step s (goto i Outside (s\<lparr>lk_file := None\<rparr>))"
| io_error: "lk_pc s i \<in> {Trying 0, Trying 1, Inspecting, Removing} \<Longrightarrow> lock_step s (goto i Outside s)"
| crash: "lock_step s (goto i Dead s)"
| spawn: "lk_pc s i = Dead \<Longrightarrow> lock_step s (goto i Outside s)"

inductive_cases acquire_stepE: "acquire_step i s s'"
inductive_cases lock_stepE: "lock_step s s'"

definition holds :: "lock_sys \<Rightarrow> u32 \<Rightarrow> bool" where
  "holds s i \<longleftrightarrow> (\<exists>n. lk_pc s i = Holding n)"

section \<open>The index lock\<close>

text \<open>One poll of \<^verbatim>\<open>try_lock\<close> and the time at which it is judged.\<close>

datatype try_result = Granted_lock | Would_block | Try_error io_kind

fun wait_lock :: "string \<Rightarrow> nat \<Rightarrow> (try_result \<times> nat) list \<Rightarrow> (repo_error + unit) option" where
  "wait_lock path deadline [] = None"
| "wait_lock path deadline ((r, now) # polls) =
     (case r of
        Granted_lock \<Rightarrow> Some (Inr ())
      | Would_block \<Rightarrow> if now < deadline then wait_lock path deadline polls else Some (Inl (IndexBusy path))
      | Try_error k \<Rightarrow> Some (Inl (RIo k)))"

text \<open>
  \<open>held\<close> is the thread's list of paths; the critical section \<open>f\<close> may take index locks itself. \<open>None\<close>: still waiting.
\<close>

definition with_index_lock_for :: "string \<Rightarrow> nat \<Rightarrow> (try_result \<times> nat) list
    \<Rightarrow> (string list \<Rightarrow> 's \<Rightarrow> (repo_error + 'a) \<times> string list \<times> 's) \<Rightarrow> string list \<Rightarrow> 's
    \<Rightarrow> ((repo_error + 'a) \<times> string list \<times> 's) option" where
  "with_index_lock_for path deadline polls f held s =
     (if path \<in> set held then Some (f held s)
      else case wait_lock path deadline polls of
        None \<Rightarrow> None
      | Some (Inl err) \<Rightarrow> Some (Inl err, held, s)
      | Some (Inr _) \<Rightarrow> (case f (held @ [path]) s of (r, held', s') \<Rightarrow> Some (r, filter (\<lambda>p. p \<noteq> path) held', s')))"

end
