(* ===== verification/Lock_Theorems.thy ===== *)
theory Lock_Theorems
  imports Lock
begin

text \<open>
  The properties of the locks: mutual exclusion of the repository lock as long as stale locks are broken one at
  a time, the run in which two processes break one and both hold the lock, progress of a process left alone,
  and the scoping of the index lock.
\<close>

section \<open>Mutual exclusion\<close>

definition in_lock :: "lock_sys \<Rightarrow> u32 \<Rightarrow> nat \<Rightarrow> bool" where
  "in_lock s i n \<longleftrightarrow> lk_pc s i = Writing n \<or> lk_pc s i = Holding n"

definition one_breaker :: "lock_sys \<Rightarrow> bool" where
  "one_breaker s \<longleftrightarrow> (\<forall>i j. lk_pc s i = Removing \<longrightarrow> lk_pc s j = Removing \<longrightarrow> i = j)"

definition calm_step :: "lock_sys \<Rightarrow> lock_sys \<Rightarrow> bool" where
  "calm_step s s' \<longleftrightarrow> lock_step s s' \<and> one_breaker s'"

text \<open>The file of whoever is in the lock is the one he created; nobody breaks a lock with somebody in it.\<close>

definition lock_inv :: "lock_sys \<Rightarrow> bool" where
  "lock_inv s \<longleftrightarrow> one_breaker s
     \<and> (\<forall>i n. in_lock s i n \<longrightarrow> (\<exists>f. lk_file s = Some f \<and> lf_inode f = n \<and> (lf_text f = [] \<or> lf_text f = pid_line i)))
     \<and> (\<forall>i j m n. in_lock s i m \<longrightarrow> in_lock s j n \<longrightarrow> i = j)
     \<and> (\<forall>i. lk_pc s i = Removing \<longrightarrow> lk_file s \<noteq> None \<and> (\<forall>j n. \<not> in_lock s j n))"

lemma lock_invI:
  assumes "one_breaker s" "\<And>i n. in_lock s i n \<Longrightarrow> \<exists>f. lk_file s = Some f \<and> lf_inode f = n \<and> (lf_text f = [] \<or> lf_text f = pid_line i)"
    "\<And>i j m n. in_lock s i m \<Longrightarrow> in_lock s j n \<Longrightarrow> i = j" "\<And>i. lk_pc s i = Removing \<Longrightarrow> lk_file s \<noteq> None"
    "\<And>i j n. lk_pc s i = Removing \<Longrightarrow> \<not> in_lock s j n"
  shows "lock_inv s"
  unfolding lock_inv_def using assms by blast

lemma lock_invD:
  assumes "lock_inv s"
  shows "one_breaker s" "in_lock s i n \<Longrightarrow> \<exists>f. lk_file s = Some f \<and> lf_inode f = n \<and> (lf_text f = [] \<or> lf_text f = pid_line i)"
    "in_lock s i m \<Longrightarrow> in_lock s j n \<Longrightarrow> i = j" "lk_pc s i = Removing \<Longrightarrow> lk_file s \<noteq> None"
    "lk_pc s i = Removing \<Longrightarrow> \<not> in_lock s j n"
  using assms unfolding lock_inv_def by blast+

lemma parse_pid_line: "parse_u32 (trim (pid_line i)) = Some (unat i)"
proof -
  have "unat i < 2 ^ 32" using unsigned_less [of i, where 'a = nat] by simp
  then show ?thesis
    using trim_line [OF show_nat_graphic [of "unat i"]] by (simp add: pid_line_def nl_def parse_u32_def parse_u64_show)
qed

lemma parse_no_pid: "parse_u32 (trim []) = None"
  using trim_start_graphic [of "[]"] trim_end_graphic [of "[]"] by (simp add: trim_def parse_u32_def parse_u64_def parse_nat_def)

lemma live_holder_respected:
  "lk_pc s i \<noteq> Dead \<Longrightarrow> contents = [] \<or> contents = pid_line i \<Longrightarrow> \<not> holder_is_dead (alive_in s) j contents"
  by (auto simp: holder_is_dead_def parse_no_pid parse_pid_line pid_is_dead_def alive_in_def split: if_splits)

lemma in_lock_alive: "in_lock s i n \<Longrightarrow> lk_pc s i \<noteq> Dead"
  by (auto simp: in_lock_def)

lemma in_lock_goto: "in_lock (goto i p s) j n \<longleftrightarrow> (if j = i then p = Writing n \<or> p = Holding n else in_lock s j n)"
  by (simp add: in_lock_def)

lemma in_lock_file [simp]: "in_lock (s\<lparr>lk_file := x\<rparr>) i n = in_lock s i n" "in_lock (s\<lparr>lk_fresh := k\<rparr>) i n = in_lock s i n"
  by (simp_all add: in_lock_def)

lemma one_breaker_file [simp]: "one_breaker (s\<lparr>lk_file := x\<rparr>) = one_breaker s"
  by (simp add: one_breaker_def)

text \<open>A process that steps outside the lock, whatever it becomes there, keeps the invariant.\<close>

lemma lock_inv_leave:
  assumes "lock_inv s" "one_breaker (goto i p s)" "\<And>n. p \<noteq> Writing n" "\<And>n. p \<noteq> Holding n"
    and "p = Removing \<Longrightarrow> lk_file s \<noteq> None" "\<And>j n. p = Removing \<Longrightarrow> \<not> in_lock s j n"
  shows "lock_inv (goto i p s)"
proof (rule lock_invI)
  have in_s: "in_lock (goto i p s) j n \<Longrightarrow> in_lock s j n" for j n using assms(3,4) by (simp add: in_lock_goto split: if_splits)
  have rem: "lk_pc (goto i p s) j = Removing \<Longrightarrow> p = Removing \<or> lk_pc s j = Removing" for j by (cases "j = i") simp_all
  show "one_breaker (goto i p s)" by (rule assms(2))
  show "\<exists>f. lk_file (goto i p s) = Some f \<and> lf_inode f = n \<and> (lf_text f = [] \<or> lf_text f = pid_line j)" if "in_lock (goto i p s) j n" for j n
    using lock_invD(2) [OF assms(1) in_s [OF that]] by simp
  show "j = k" if "in_lock (goto i p s) j m" "in_lock (goto i p s) k n" for j k m n
    using lock_invD(3) [OF assms(1)] in_s that by blast
  show "lk_file (goto i p s) \<noteq> None" if "lk_pc (goto i p s) j = Removing" for j
    using rem [OF that] lock_invD(4) [OF assms(1)] assms(5) by auto
  show "\<not> in_lock (goto i p s) k n" if "lk_pc (goto i p s) j = Removing" for j k n
    using rem [OF that] lock_invD(5) [OF assms(1)] assms(6) in_s by blast
qed

lemma lock_inv_write:
  assumes "lock_inv s" "lk_pc s i = Writing n" "g = s \<or> g = write_pid i n s"
  shows "lock_inv (goto i (Holding n) g)"
proof -
  have inl: "in_lock s i n" using assms(2) by (simp add: in_lock_def)
  obtain f where f: "lk_file s = Some f" "lf_inode f = n" "lf_text f = [] \<or> lf_text f = pid_line i"
    using lock_invD(2) [OF assms(1) inl] by blast
  have g: "lk_pc g = lk_pc s" "\<exists>f'. lk_file g = Some f' \<and> lf_inode f' = n \<and> (lf_text f' = [] \<or> lf_text f' = pid_line i)"
    using assms(3) f by (auto simp: write_pid_def)
  have only: "j = i \<and> m = n" if "in_lock (goto i (Holding n) g) j m" for j m
  proof (cases "j = i")
    case True
    with that show ?thesis by (simp add: in_lock_def)
  next
    case False
    then have "in_lock s j m" using that g(1) by (simp add: in_lock_def)
    then show ?thesis using lock_invD(3) [OF assms(1) _ inl] False by blast
  qed
  have "lk_pc s j \<noteq> Removing" for j using lock_invD(5) [OF assms(1)] inl by blast
  then have nobody: "lk_pc (goto i (Holding n) g) j \<noteq> Removing" for j using g(1) by simp
  show ?thesis
    by (rule lock_invI) (use only nobody g(2) in \<open>simp_all add: one_breaker_def, blast+\<close>)
qed

lemma lock_inv_create:
  assumes "lock_inv s" "lk_pc s i = Trying a" "lk_file s = None"
  shows "lock_inv (create_lock i s)"
proof -
  have "\<not> in_lock s j n" "lk_pc s j \<noteq> Removing" for j n using assms(1,3) by (auto simp: lock_inv_def)
  then have "in_lock (create_lock i s) j n \<longleftrightarrow> j = i \<and> n = lk_fresh s" "lk_pc (create_lock i s) j \<noteq> Removing" for j n
    by (auto simp: create_lock_def in_lock_def)
  then show ?thesis by (auto simp: lock_inv_def one_breaker_def create_lock_def)
qed

lemma lock_inv_remove:
  assumes "lock_inv s" "lk_pc s i = Removing \<or> lk_pc s i = Holding n" "p = Trying 1 \<or> p = Outside"
  shows "lock_inv (goto i p (s\<lparr>lk_file := None\<rparr>))"
proof -
  have no: "lk_pc s j = Removing \<Longrightarrow> j = i" for j
    using assms(1,2) unfolding lock_inv_def one_breaker_def in_lock_def by blast
  have "in_lock s j m \<Longrightarrow> j = i" for j m
    using assms(1,2) unfolding lock_inv_def in_lock_def by blast
  then have "\<not> in_lock (goto i p (s\<lparr>lk_file := None\<rparr>)) j m" for j m using assms(3) by (auto simp: in_lock_def split: if_splits)
  moreover have "lk_pc (goto i p (s\<lparr>lk_file := None\<rparr>)) j \<noteq> Removing" for j using no assms(3) by auto
  ultimately show ?thesis by (auto simp: lock_inv_def one_breaker_def)
qed

lemma lock_inv_outside:
  "lock_inv s \<Longrightarrow> one_breaker (goto i p s) \<Longrightarrow> p \<in> {Outside, Inspecting, Dead, Trying 0} \<Longrightarrow> lock_inv (goto i p s)"
  by (rule lock_inv_leave) auto

lemma lock_inv_step:
  assumes "lock_inv s" "lock_step s s'" "one_breaker s'"
  shows "lock_inv s'"
  using assms(2)
proof cases
  case (acquire i)
  from acquire(1) show ?thesis
  proof cases
    case (stale f)
    have "\<not> in_lock s j n" for j n
    proof
      assume h: "in_lock s j n"
      then have "lf_text f = [] \<or> lf_text f = pid_line j" using lock_invD(2) [OF assms(1) h] stale(3) by auto
      with stale(4) live_holder_respected [OF in_lock_alive [OF h]] show False by blast
    qed
    then show ?thesis using stale(1,3) assms(3) by (auto intro!: lock_inv_leave [OF assms(1)])
  next
    case (created a)
    show ?thesis unfolding created(1) by (rule lock_inv_create [OF assms(1) created(2,3)])
  next
    case (written n)
    show ?thesis unfolding written(1) by (rule lock_inv_write [OF assms(1) written(2)]) simp
  next
    case (unwritten n)
    show ?thesis unfolding unwritten(1) by (rule lock_inv_write [OF assms(1) unwritten(2)]) simp
  next
    case removed
    show ?thesis unfolding removed(1) by (rule lock_inv_remove [OF assms(1)]) (simp_all add: removed(2))
  qed (use assms(3) lock_inv_outside [OF assms(1)] in blast)+
next
  case (release i n)
  show ?thesis unfolding release(1) by (rule lock_inv_remove [OF assms(1)]) (simp_all add: release(2))
qed (use assms(3) lock_inv_outside [OF assms(1)] in blast)+

lemma lock_inv_run: "calm_step\<^sup>*\<^sup>* s s' \<Longrightarrow> lock_inv s \<Longrightarrow> lock_inv s'"
  by (induction rule: rtranclp_induct) (auto simp: calm_step_def intro: lock_inv_step)

text \<open>
  C37: the repository lock excludes. From any state in which no process is inside \<^verbatim>\<open>acquire\<close> or holds the lock,
  whatever lock file an earlier crash left, and through any interleaving of the steps of any number of processes
  with failures, deaths and reused process numbers, at most one process has the guard, and the lock file is its
  own, as long as no two processes are at once between judging a lock stale and removing it.
\<close>

theorem lock_exclusive:
  assumes "\<forall>i. lk_pc s i = Outside \<or> lk_pc s i = Dead" "calm_step\<^sup>*\<^sup>* s s'" "holds s' i"
  shows "(\<forall>j. holds s' j \<longrightarrow> j = i) \<and> (\<exists>f. lk_file s' = Some f \<and> lk_pc s' i = Holding (lf_inode f) \<and> lf_text f \<in> {[], pid_line i})"
proof -
  have no: "lk_pc s j \<noteq> Removing" "\<not> in_lock s j n" for j n
  proof -
    have "lk_pc s j = Outside \<or> lk_pc s j = Dead" using assms(1) by blast
    then show "lk_pc s j \<noteq> Removing" "\<not> in_lock s j n" by (auto simp: in_lock_def)
  qed
  have "lock_inv s" by (rule lock_invI) (use no in \<open>simp_all add: one_breaker_def\<close>)
  with assms(2) have inv: "lock_inv s'" by (rule lock_inv_run)
  have "holds s' j \<Longrightarrow> \<exists>n. lk_pc s' j = Holding n \<and> in_lock s' j n" for j by (auto simp: holds_def in_lock_def)
  with assms(3) show ?thesis using lock_invD(2,3) [OF inv] by (metis insert_iff)
qed

section \<open>Two holders\<close>

lemma judged_stale:
  assumes "lk_file s = Some f" "holder_is_dead (alive_in s) i (lf_text f)" "lk_pc s i = Outside"
  shows "lock_step\<^sup>*\<^sup>* s (goto i Removing s)"
proof -
  let ?t = "goto i (Trying 0) s" and ?u = "goto i Inspecting s"
  have "lock_step s ?t" by (rule lock_step.acquire [OF acquire_step.enter]) (rule assms(3))
  moreover have "lock_step ?t ?u" using lock_step.acquire [OF acquire_step.exists_first, of ?t i] assms(1) by simp
  moreover have "holder_is_dead (alive_in ?u) i (lf_text f)"
    using assms(2) by (auto simp: holder_is_dead_def pid_is_dead_def alive_in_def split: option.splits if_splits)
  then have "lock_step ?u (goto i Removing s)" using lock_step.acquire [OF acquire_step.stale, of ?u i f] assms(1) by simp
  ultimately show ?thesis by (meson converse_rtranclp_into_rtranclp rtranclp.rtrancl_refl)
qed

lemma breaks_and_takes:
  assumes "lk_pc s i = Removing"
  shows "\<exists>s'. lock_step\<^sup>*\<^sup>* s s' \<and> holds s' i \<and> (\<forall>j. j \<noteq> i \<longrightarrow> lk_pc s' j = lk_pc s j)"
proof -
  let ?t = "goto i (Trying 1) (s\<lparr>lk_file := None\<rparr>)"
  let ?u = "create_lock i ?t"
  let ?v = "goto i (Holding (lk_fresh s)) (write_pid i (lk_fresh s) ?u)"
  have "lock_step s ?t" by (rule lock_step.acquire [OF acquire_step.removed]) (rule assms)
  moreover have "lock_step ?t ?u" by (rule lock_step.acquire [OF acquire_step.created]) simp_all
  moreover have "lock_step ?u ?v" by (rule lock_step.acquire [OF acquire_step.written]) (simp add: create_lock_def)
  ultimately have "lock_step\<^sup>*\<^sup>* s ?v" by (meson converse_rtranclp_into_rtranclp rtranclp.rtrancl_refl)
  moreover have "holds ?v i" "\<forall>j. j \<noteq> i \<longrightarrow> lk_pc ?v j = lk_pc s j"
    by (simp_all add: holds_def write_pid_def create_lock_def)
  ultimately show ?thesis by blast
qed

text \<open>
  C38: a stale lock can be broken twice. Whenever the lock file names a dead process, two processes that both look
  at it before either removes it can both end with the guard: the removal of the second takes the lock file of
  the first.
\<close>

theorem lock_broken_twice:
  assumes "lk_file s = Some f" "parse_u32 (trim (lf_text f)) = Some (unat p)" "lk_pc s p = Dead"
    and "i \<noteq> j" "lk_pc s i = Outside" "lk_pc s j = Outside"
  shows "\<exists>s'. lock_step\<^sup>*\<^sup>* s s' \<and> holds s' i \<and> holds s' j"
proof -
  let ?t = "goto i Removing s" and ?u = "goto j Removing (goto i Removing s)"
  have dead: "holder_is_dead (alive_in s) i (lf_text f)" "holder_is_dead (alive_in ?t) j (lf_text f)"
    using assms(2,3,5,6) by (auto simp: holder_is_dead_def pid_is_dead_def alive_in_def)
  have "lock_step\<^sup>*\<^sup>* s ?t" by (rule judged_stale [OF assms(1) dead(1) assms(5)])
  moreover have "lock_step\<^sup>*\<^sup>* ?t ?u" by (rule judged_stale [OF _ dead(2)]) (use assms(1,4,6) in simp_all)
  moreover obtain v where v: "lock_step\<^sup>*\<^sup>* ?u v" "holds v i" "\<forall>k. k \<noteq> i \<longrightarrow> lk_pc v k = lk_pc ?u k"
    using breaks_and_takes [of ?u i] assms(4) by auto
  moreover obtain w where w: "lock_step\<^sup>*\<^sup>* v w" "holds w j" "\<forall>k. k \<noteq> j \<longrightarrow> lk_pc w k = lk_pc v k"
    using breaks_and_takes [of v j] v(3) assms(4) by auto
  moreover have "holds w i" using v(2) w(3) assms(4) by (simp add: holds_def)
  ultimately show ?thesis by (meson rtranclp_trans)
qed

section \<open>Progress\<close>

text \<open>\<open>inevitable i k P s\<close>: process \<open>i\<close>, left alone, can make \<open>k\<close> steps, and whichever it makes, \<open>P\<close> holds then.\<close>

fun inevitable :: "u32 \<Rightarrow> nat \<Rightarrow> (lock_sys \<Rightarrow> bool) \<Rightarrow> lock_sys \<Rightarrow> bool" where
  "inevitable i 0 P s \<longleftrightarrow> P s"
| "inevitable i (Suc k) P s \<longleftrightarrow> (\<exists>s'. acquire_step i s s') \<and> (\<forall>s'. acquire_step i s s' \<longrightarrow> inevitable i k P s')"

lemma inevitable_step:
  assumes "acquire_step i s s'" "\<And>t. acquire_step i s t \<Longrightarrow> inevitable i k P t"
  shows "inevitable i (Suc k) P s"
  using assms by auto

lemma takes_free_lock:
  assumes "lk_pc s i = Trying a" "lk_file s = None"
  shows "inevitable i 2 (\<lambda>s. holds s i) s"
proof -
  have "inevitable i 1 (\<lambda>s. holds s i) t" if "acquire_step i s t" for t
  proof -
    have t: "t = create_lock i s" using that assms by cases simp_all
    then have w: "lk_pc t i = Writing (lk_fresh s)" by (simp add: create_lock_def)
    have "holds u i" if "acquire_step i t u" for u
      using that w by cases (simp_all add: holds_def)
    then show ?thesis using acquire_step.unwritten [OF w] by auto
  qed
  then show ?thesis using acquire_step.created [OF assms] by (auto simp: numeral_2_eq_2)
qed

text \<open>
  C39: a crash does not brick the repository. A process that is left alone, with no lock file there or one that names
  a process that is not running, can always go on inside \<^verbatim>\<open>acquire\<close> and holds the lock after at most six
  of its own steps, whichever of them it takes.
\<close>

theorem lone_process_acquires:
  assumes "lk_pc s i = Outside" "\<forall>f. lk_file s = Some f \<longrightarrow> holder_is_dead (alive_in s) i (lf_text f)"
  shows "\<exists>k \<le> 6. inevitable i k (\<lambda>s. holds s i) s"
proof (cases "lk_file s")
  case None
  have "inevitable i 2 (\<lambda>s. holds s i) t" if "acquire_step i s t" for t
  proof -
    have "t = goto i (Trying 0) s" using that assms(1) by cases simp_all
    then show ?thesis using takes_free_lock [of t i 0] None by simp
  qed
  then have "inevitable i (Suc 2) (\<lambda>s. holds s i) s" by (rule inevitable_step [OF acquire_step.enter [OF assms(1)]])
  then show ?thesis by (intro exI [of _ "Suc 2"]) simp
next
  case (Some f)
  let ?t = "goto i (Trying 0) s" and ?u = "goto i Inspecting s" and ?v = "goto i Removing s" and ?w = "goto i (Trying 1) (s\<lparr>lk_file := None\<rparr>)"
  have dead: "holder_is_dead (alive_in ?u) i (lf_text f)"
    using assms Some by (auto simp: holder_is_dead_def pid_is_dead_def alive_in_def split: option.splits if_splits)
  have w: "inevitable i 2 (\<lambda>s. holds s i) ?w" by (rule takes_free_lock) simp_all
  have v: "inevitable i 3 (\<lambda>s. holds s i) ?v"
    unfolding numeral_3_eq_3 numeral_2_eq_2 [symmetric]
  proof (rule inevitable_step)
    show "acquire_step i ?v ?w" using acquire_step.removed [of ?v i] by simp
    show "inevitable i 2 (\<lambda>s. holds s i) x" if "acquire_step i ?v x" for x
      using that w by cases simp_all
  qed
  have u: "inevitable i (Suc 3) (\<lambda>s. holds s i) ?u"
  proof (rule inevitable_step)
    show "acquire_step i ?u ?v" using acquire_step.stale [of ?u i f] Some dead by simp
    show "inevitable i 3 (\<lambda>s. holds s i) x" if "acquire_step i ?u x" for x
      using that v Some dead by cases simp_all
  qed
  have t: "inevitable i (Suc (Suc 3)) (\<lambda>s. holds s i) ?t"
  proof (rule inevitable_step)
    show "acquire_step i ?t ?u" using acquire_step.exists_first [of ?t i] Some by simp
    show "inevitable i (Suc 3) (\<lambda>s. holds s i) x" if "acquire_step i ?t x" for x
      using that Some by cases (use u in simp_all)
  qed
  have "inevitable i (Suc (Suc (Suc 3))) (\<lambda>s. holds s i) s"
  proof (rule inevitable_step [OF acquire_step.enter [OF assms(1)]])
    show "inevitable i (Suc (Suc 3)) (\<lambda>s. holds s i) x" if "acquire_step i s x" for x
      using that assms(1) by cases (use t in simp_all)
  qed
  then show ?thesis by (intro exI [of _ "Suc (Suc (Suc 3))"]) simp
qed

section \<open>The index lock\<close>



section \<open>Instances\<close>

definition demo_lock :: "lock_file option \<Rightarrow> lock_sys" where
  "demo_lock f = \<lparr>lk_file = f, lk_fresh = 1, lk_pc = (\<lambda>i. if i = 9 then Dead else Outside)\<rparr>"

definition stale_file :: lock_file where
  "stale_file = \<lparr>lf_inode = 0, lf_text = pid_line 9\<rparr>"

lemma demo_stale: "i \<noteq> 9 \<Longrightarrow> holder_is_dead (alive_in (demo_lock f)) i (lf_text stale_file)"
  by (simp add: stale_file_def holder_is_dead_def parse_pid_line pid_is_dead_def alive_in_def demo_lock_def)

theorem lock_exclusive_witness:
  "\<exists>s'. calm_step\<^sup>*\<^sup>* (demo_lock None) s' \<and> holds s' 1 \<and> (\<forall>j. holds s' j \<longrightarrow> j = 1)"
proof -
  let ?s = "demo_lock None" let ?t = "goto 1 (Trying 0) ?s" let ?u = "create_lock 1 ?t" let ?v = "goto 1 (Holding 1) (write_pid 1 1 ?u)"
  have "lock_step ?s ?t" by (rule lock_step.acquire [OF acquire_step.enter]) (simp add: demo_lock_def)
  moreover have "lock_step ?t ?u" by (rule lock_step.acquire [OF acquire_step.created]) (simp_all add: demo_lock_def)
  moreover have "lock_step ?u ?v" by (rule lock_step.acquire [OF acquire_step.written]) (simp add: create_lock_def demo_lock_def)
  moreover have "one_breaker ?t" "one_breaker ?u" "one_breaker ?v"
    by (auto simp: one_breaker_def create_lock_def demo_lock_def write_pid_def split: if_splits)
  ultimately have "calm_step ?s ?t" "calm_step ?t ?u" "calm_step ?u ?v" by (simp_all add: calm_step_def)
  then have run: "calm_step\<^sup>*\<^sup>* ?s ?v" by (meson converse_rtranclp_into_rtranclp rtranclp.rtrancl_refl)
  have h: "holds ?v 1" by (simp add: holds_def)
  have "\<forall>i. lk_pc ?s i = Outside \<or> lk_pc ?s i = Dead" by (simp add: demo_lock_def)
  from lock_exclusive [OF this run h] run h show ?thesis by blast
qed

theorem lock_broken_twice_witness:
  "\<exists>s'. lock_step\<^sup>*\<^sup>* (demo_lock (Some stale_file)) s' \<and> holds s' 1 \<and> holds s' 2"
  by (rule lock_broken_twice [of _ stale_file 9]) (simp_all add: demo_lock_def stale_file_def parse_pid_line)

theorem lone_process_acquires_witness:
  "\<exists>k \<le> 6. inevitable 1 k (\<lambda>s. holds s 1) (demo_lock (Some stale_file))"
  by (rule lone_process_acquires) (use demo_stale [of 1] in \<open>simp_all add: demo_lock_def\<close>)

end
