(* ===== verification/Textdiff.thy ===== *)
theory Textdiff
  imports Text Diff3
begin

text \<open>
  The unified diff that is shown for a changed file (\<^verbatim>\<open>crates/repo/src/textdiff.rs\<close>): the edit script of a
  longest common subsequence, the hunks with their context, and their text.
\<close>

datatype edit_op = Keep | Del | Add

definition CONTEXT :: nat where "CONTEXT = 3"
definition LCS_BUDGET :: nat where "LCS_BUDGET = 4000000"

section \<open>The edit script\<close>

text \<open>The table is the one of the three-way merge; within the budget its \<^verbatim>\<open>u32\<close> counters never wrap.\<close>

function script_walk :: "line list \<Rightarrow> line list \<Rightarrow> nat list list \<Rightarrow> nat \<Rightarrow> nat \<Rightarrow> edit_op list" where
  "script_walk old new dp i j =
     (if i < length old \<and> j < length new then
        if old ! i = new ! j then Keep # script_walk old new dp (i + 1) (j + 1)
        else if dp ! (i + 1) ! j \<ge> dp ! i ! (j + 1) then Del # script_walk old new dp (i + 1) j
        else Add # script_walk old new dp i (j + 1)
      else replicate (length old - i) Del @ replicate (length new - j) Add)"
  by pat_completeness auto
termination
  by (relation "measure (\<lambda>(old, new, dp, i, j). (length old - i) + (length new - j))") auto

declare script_walk.simps [simp del]

text \<open>\<^verbatim>\<open>saturating_mul\<close> of two lengths exceeds the budget exactly when their product does.\<close>

definition edit_script :: "line list \<Rightarrow> line list \<Rightarrow> edit_op list" where
  "edit_script old new =
     (if length old * length new > LCS_BUDGET then replicate (length old) Del @ replicate (length new) Add
      else script_walk old new (dp_table old new) 0 0)"

section \<open>Hunks\<close>

text \<open>The lines consumed on both sides, the body so far and its counts.\<close>

record hunk_acc =
  ha_oline :: nat
  ha_nline :: nat
  ha_body :: "string list"
  ha_ocount :: nat
  ha_ncount :: nat

definition emit :: "line list \<Rightarrow> line list \<Rightarrow> edit_op \<Rightarrow> hunk_acc \<Rightarrow> hunk_acc" where
  "emit old new p a = (case p of
     Keep \<Rightarrow> a\<lparr>ha_body := ha_body a @ [CHR '' '' # old ! ha_oline a], ha_oline := ha_oline a + 1, ha_nline := ha_nline a + 1,
       ha_ocount := ha_ocount a + 1, ha_ncount := ha_ncount a + 1\<rparr>
   | Del \<Rightarrow> a\<lparr>ha_body := ha_body a @ [CHR ''-'' # old ! ha_oline a], ha_oline := ha_oline a + 1, ha_ocount := ha_ocount a + 1\<rparr>
   | Add \<Rightarrow> a\<lparr>ha_body := ha_body a @ [CHR ''+'' # new ! ha_nline a], ha_nline := ha_nline a + 1, ha_ncount := ha_ncount a + 1\<rparr>)"

abbreviation keeps :: "edit_op list \<Rightarrow> edit_op list" where
  "keeps script \<equiv> takeWhile (\<lambda>p. p = Keep) script"

abbreviation changes :: "edit_op list \<Rightarrow> edit_op list" where
  "changes script \<equiv> takeWhile (\<lambda>p. p \<noteq> Keep) script"

text \<open>The changes ahead and the context behind them, until a gap of more than twice the context or the end.\<close>

function hunk_loop :: "line list \<Rightarrow> line list \<Rightarrow> edit_op list \<Rightarrow> hunk_acc \<Rightarrow> edit_op list \<times> hunk_acc" where
  "hunk_loop old new script a =
     (let a = fold (emit old new) (changes script) a;
          script = dropWhile (\<lambda>p. p \<noteq> Keep) script;
          run = length (keeps script)
      in if run < length script \<and> run \<le> 2 * CONTEXT
         then hunk_loop old new (drop run script) (fold (emit old new) (replicate run Keep) a)
         else let tail = min run CONTEXT; a = fold (emit old new) (replicate tail Keep) a
              in (drop run script, a\<lparr>ha_oline := ha_oline a + (run - tail), ha_nline := ha_nline a + (run - tail)\<rparr>))"
  by pat_completeness auto
termination
proof (relation "measure (\<lambda>(old, new, script, a). length script)")
  fix old new :: "line list" and script s' :: "edit_op list" and a a' :: hunk_acc and run
  assume "a' = fold (emit old new) (changes script) a" and s: "s' = dropWhile (\<lambda>p. p \<noteq> Keep) script"
    and run: "run = length (keeps s')" "run < length s' \<and> run \<le> 2 * CONTEXT"
  have "s' \<noteq> []" using run(2) by auto
  then have "hd s' = Keep" using hd_dropWhile [of "\<lambda>p. p \<noteq> Keep" script] s by auto
  with \<open>s' \<noteq> []\<close> have "0 < run" using run(1) by (cases s') auto
  moreover have "length s' \<le> length script" using s by (simp add: length_dropWhile_le)
  ultimately show "((old, new, drop run s', fold (emit old new) (replicate run Keep) a'), old, new, script, a)
      \<in> measure (\<lambda>(old, new, script, a). length script)"
    using run(2) by auto
qed simp

declare hunk_loop.simps [simp del]

record text_hunk =
  th_ostart :: nat
  th_ocount :: nat
  th_nstart :: nat
  th_ncount :: nat
  th_body :: "string list"

lemma dropped_run: "dropWhile (\<lambda>p. p \<noteq> Keep) script = s' \<Longrightarrow> length (drop n s') \<le> length script"
  using length_dropWhile_le [of "\<lambda>p. p \<noteq> Keep" script] by auto

lemma hunk_loop_shorter:
  "script \<noteq> [] \<Longrightarrow> hd script \<noteq> Keep \<Longrightarrow> length (fst (hunk_loop old new script a)) < length script"
proof (induction old new script a rule: hunk_loop.induct)
  case (1 old new script a)
  let ?s = "dropWhile (\<lambda>p. p \<noteq> Keep) script" and ?a = "fold (emit old new) (changes script) a"
  let ?run = "length (keeps ?s)"
  have less: "length ?s < length script" using "1.prems" by (cases script) (auto simp: le_imp_less_Suc length_dropWhile_le)
  show ?case
  proof (cases "?run < length ?s \<and> ?run \<le> 2 * CONTEXT")
    case True
    have d: "drop ?run ?s = dropWhile (\<lambda>p. p = Keep) ?s" by (simp add: dropWhile_eq_drop)
    have "drop ?run ?s \<noteq> []" using True by simp
    then have "hd (drop ?run ?s) \<noteq> Keep" using hd_dropWhile [of "\<lambda>p. p = Keep" ?s] unfolding d by blast
    with "1.IH" [OF refl refl refl True] \<open>drop ?run ?s \<noteq> []\<close> less show ?thesis
      by (subst hunk_loop.simps) (simp add: Let_def True)
  next
    case False
    then show ?thesis using less by (subst hunk_loop.simps) (auto simp: Let_def)
  qed
qed

function hunks_loop :: "line list \<Rightarrow> line list \<Rightarrow> edit_op list \<Rightarrow> nat \<Rightarrow> nat \<Rightarrow> text_hunk list" where
  "hunks_loop old new script oline nline =
     (let k = length (keeps script); script = drop k script; oline = oline + k; nline = nline + k
      in if script = [] then []
         else let lead = min CONTEXT (min oline nline); ostart = oline - lead; nstart = nline - lead;
                  (rest, a) = hunk_loop old new script
                    \<lparr>ha_oline = oline, ha_nline = nline, ha_body = map (\<lambda>k. CHR '' '' # old ! (ostart + k)) [0..<lead],
                      ha_ocount = lead, ha_ncount = lead\<rparr>
              in \<lparr>th_ostart = ostart, th_ocount = ha_ocount a, th_nstart = nstart, th_ncount = ha_ncount a, th_body = ha_body a\<rparr>
                 # hunks_loop old new rest (ha_oline a) (ha_nline a))"
  by pat_completeness auto
termination
proof (relation "measure (\<lambda>(old, new, script, oline, nline). length script)")
  fix old new :: "line list" and script s' rest :: "edit_op list" and k oline nline oline' nline' lead ostart nstart :: nat and x a b
  assume k: "k = length (keeps script)" and s: "s' = drop k script" and ne: "s' \<noteq> []"
    and x: "x = hunk_loop old new s' b" "(rest, a) = x"
  have d: "s' = dropWhile (\<lambda>p. p = Keep) script" unfolding s k by (simp add: dropWhile_eq_drop)
  then have "hd s' \<noteq> Keep" using hd_dropWhile [of "\<lambda>p. p = Keep" script] ne by auto
  from hunk_loop_shorter [OF ne this, of old new b] have "length rest < length s'" unfolding x(1) [symmetric] x(2) [symmetric] by simp
  then show "((old, new, rest, ha_oline a, ha_nline a), old, new, script, oline, nline) \<in> measure (\<lambda>(old, new, script, oline, nline). length script)"
    using s by simp
qed simp

declare hunks_loop.simps [simp del]

definition diff_body :: "line list \<Rightarrow> line list \<Rightarrow> text_hunk list" where
  "diff_body old new = hunks_loop old new (edit_script old new) 0 0"

section \<open>The text\<close>

definition hunk_header :: "text_hunk \<Rightarrow> string" where
  "hunk_header h = ''@@ -'' @ show_nat (th_ostart h + 1) @ '','' @ show_nat (th_ocount h) @ '' +'' @ show_nat (th_nstart h + 1)
     @ '','' @ show_nat (th_ncount h) @ '' @@''"

definition unified :: "string \<Rightarrow> string \<Rightarrow> string \<Rightarrow> string" where
  "unified path old new =
     (if old = new then []
      else unlines ([''--- a/'' @ path, ''+++ b/'' @ path]
        @ concat (map (\<lambda>h. hunk_header h # th_body h) (diff_body (str_lines old) (str_lines new)))))"

end
