(* ===== verification/Textdiff_Theorems.thy ===== *)
theory Textdiff_Theorems
  imports Textdiff Diff3_Hunks
begin

text \<open>
  The property of the unified diff: its hunks, read as a patch, turn the old lines into the new ones, with headers
  that a strict reader accepts, and within the budget the diff keeps as many lines as possible.
\<close>

section \<open>Applying a diff\<close>

definition old_side :: "string list \<Rightarrow> line list" where
  "old_side body = map tl (filter (\<lambda>l. hd l \<noteq> CHR ''+'') body)"

definition new_side :: "string list \<Rightarrow> line list" where
  "new_side body = map tl (filter (\<lambda>l. hd l \<noteq> CHR ''-'') body)"

text \<open>A strict reader: \<open>pos\<close> old lines are read and \<open>out\<close> new ones written.\<close>

fun patch :: "line list \<Rightarrow> nat \<Rightarrow> nat \<Rightarrow> text_hunk list \<Rightarrow> line list option" where
  "patch old pos out [] = Some (drop pos old)"
| "patch old pos out (h # hs) =
     (let end' = th_ostart h + th_ocount h in
      if pos \<le> th_ostart h \<and> end' \<le> length old \<and> th_nstart h = out + (th_ostart h - pos)
         \<and> old_side (th_body h) = slice old (th_ostart h) end' \<and> length (new_side (th_body h)) = th_ncount h
      then map_option (\<lambda>rest. slice old pos (th_ostart h) @ new_side (th_body h) @ rest) (patch old end' (th_nstart h + th_ncount h) hs)
      else None)"

section \<open>Edit scripts\<close>

fun replays :: "edit_op list \<Rightarrow> line list \<Rightarrow> line list \<Rightarrow> bool" where
  "replays [] old new \<longleftrightarrow> old = [] \<and> new = []"
| "replays (Keep # s) old new \<longleftrightarrow> (\<exists>x o' n'. old = x # o' \<and> new = x # n' \<and> replays s o' n')"
| "replays (Del # s) old new \<longleftrightarrow> (\<exists>x o'. old = x # o' \<and> replays s o' new)"
| "replays (Add # s) old new \<longleftrightarrow> (\<exists>x n'. new = x # n' \<and> replays s old n')"

lemma replays_replace: "replays (replicate (length old) Del @ replicate (length new) Add) old new"
proof -
  have "replays (replicate (length new) Add) [] new" by (induction new) simp_all
  then show ?thesis by (induction old) simp_all
qed

lemma script_walk_replays:
  "i \<le> length old \<Longrightarrow> j \<le> length new \<Longrightarrow> replays (script_walk old new dp i j) (drop i old) (drop j new)"
proof (induction old new dp i j rule: script_walk.induct)
  case (1 old new dp i j)
  show ?case
  proof (cases "i < length old \<and> j < length new")
    case True
    then have d: "drop i old = old ! i # drop (i + 1) old" "drop j new = new ! j # drop (j + 1) new"
      by (simp_all add: Cons_nth_drop_Suc)
    show ?thesis
      using "1.IH" True unfolding script_walk.simps [of old new dp i j] by (simp add: d del: drop_Suc_Cons)
  next
    case False
    have "replays (replicate (length (drop i old)) Del @ replicate (length (drop j new)) Add) (drop i old) (drop j new)"
      by (rule replays_replace)
    moreover have "script_walk old new dp i j = replicate (length old - i) Del @ replicate (length new - j) Add"
      by (subst script_walk.simps) (simp only: False if_False)
    ultimately show ?thesis by simp
  qed
qed

lemma edit_script_replays: "replays (edit_script old new) old new"
  using replays_replace script_walk_replays [of 0 old 0 new] by (simp add: edit_script_def)

lemma replays_keeps:
  "replays (replicate k Keep @ rest) (drop i old) (drop j new) \<Longrightarrow> i \<le> length old \<Longrightarrow> j \<le> length new \<Longrightarrow>
     i + k \<le> length old \<and> j + k \<le> length new \<and> slice old i (i + k) = slice new j (j + k)
     \<and> replays rest (drop (i + k) old) (drop (j + k) new)"
proof (induction k arbitrary: i j)
  case 0
  then show ?case by simp
next
  case (Suc k)
  then obtain x o' n' where d: "drop i old = x # o'" "drop j new = x # n'" "replays (replicate k Keep @ rest) o' n'" by auto
  then have l: "i < length old" "j < length new" by (metis drop_all list.distinct(1) not_less)+
  then have e: "drop (Suc i) old = o'" "drop (Suc j) new = n'" "old ! i = x" "new ! j = x"
    using d by (simp_all add: Cons_nth_drop_Suc [symmetric])
  from Suc.IH [of "Suc i" "Suc j"] e d(3) l have IH: "Suc i + k \<le> length old" "Suc j + k \<le> length new"
    "slice old (Suc i) (Suc i + k) = slice new (Suc j) (Suc j + k)" "replays rest (drop (Suc i + k) old) (drop (Suc j + k) new)" by auto
  have "slice old i (i + Suc k) = x # slice old (Suc i) (Suc i + k)" "slice new j (j + Suc k) = x # slice new (Suc j) (Suc j + k)"
    using d e by (simp_all add: slice_def)
  with IH show ?case by simp
qed

section \<open>Hunks in the making\<close>

definition acc_ok :: "line list \<Rightarrow> line list \<Rightarrow> nat \<Rightarrow> nat \<Rightarrow> hunk_acc \<Rightarrow> bool" where
  "acc_ok old new os ns a \<longleftrightarrow> ha_oline a = os + ha_ocount a \<and> ha_nline a = ns + ha_ncount a \<and> ha_oline a \<le> length old \<and> ha_nline a \<le> length new
     \<and> old_side (ha_body a) = slice old os (ha_oline a) \<and> new_side (ha_body a) = slice new ns (ha_nline a)"

abbreviation ahead :: "line list \<Rightarrow> line list \<Rightarrow> edit_op list \<Rightarrow> hunk_acc \<Rightarrow> bool" where
  "ahead old new script a \<equiv> replays script (drop (ha_oline a) old) (drop (ha_nline a) new)"

lemma sides_append [simp]: "old_side (b @ c) = old_side b @ old_side c" "new_side (b @ c) = new_side b @ new_side c"
  by (simp_all add: old_side_def new_side_def)

lemma slice_snoc: "i \<le> j \<Longrightarrow> j < length xs \<Longrightarrow> slice xs i (Suc j) = slice xs i j @ [xs ! j]"
  using block_append [of i j "Suc j" xs] slice_Suc [of j xs] by simp

lemma emit_ok:
  assumes "acc_ok old new os ns a" "ahead old new (p # rest) a"
  shows "acc_ok old new os ns (emit old new p a) \<and> ahead old new rest (emit old new p a)"
proof -
  have le: "os \<le> ha_oline a" "ns \<le> ha_nline a" using assms(1) by (simp_all add: acc_ok_def)
  have o: "ha_oline a < length old \<and> drop (Suc (ha_oline a)) old = o' \<and> old ! ha_oline a = x" if "drop (ha_oline a) old = x # o'" for x o'
  proof -
    have l: "ha_oline a < length old" using that by (metis drop_all list.distinct(1) not_less)
    with that show ?thesis by (simp add: Cons_nth_drop_Suc [symmetric])
  qed
  have n: "ha_nline a < length new \<and> drop (Suc (ha_nline a)) new = n' \<and> new ! ha_nline a = x" if "drop (ha_nline a) new = x # n'" for x n'
  proof -
    have l: "ha_nline a < length new" using that by (metis drop_all list.distinct(1) not_less)
    with that show ?thesis by (simp add: Cons_nth_drop_Suc [symmetric])
  qed
  have one: "old_side [c # l] = (if c = CHR ''+'' then [] else [l])" "new_side [c # l] = (if c = CHR ''-'' then [] else [l])" for c l
    by (simp_all add: old_side_def new_side_def)
  show ?thesis
  proof (cases p)
    case Keep
    then obtain x o' n' where d: "drop (ha_oline a) old = x # o'" "drop (ha_nline a) new = x # n'" "replays rest o' n'"
      using assms(2) by auto
    from assms(1) o [OF d(1)] n [OF d(2)] d(3) le show ?thesis by (simp add: Keep emit_def acc_ok_def one slice_snoc)
  next
    case Del
    then obtain x o' where d: "drop (ha_oline a) old = x # o'" "replays rest o' (drop (ha_nline a) new)" using assms(2) by auto
    from assms(1) o [OF d(1)] d(2) le show ?thesis by (simp add: Del emit_def acc_ok_def one slice_snoc)
  next
    case Add
    then obtain x n' where d: "drop (ha_nline a) new = x # n'" "replays rest (drop (ha_oline a) old) n'" using assms(2) by auto
    from assms(1) n [OF d(1)] d(2) le show ?thesis by (simp add: Add emit_def acc_ok_def one slice_snoc)
  qed
qed

lemma emits_ok:
  "acc_ok old new os ns a \<Longrightarrow> ahead old new (ps @ rest) a \<Longrightarrow>
     acc_ok old new os ns (fold (emit old new) ps a) \<and> ahead old new rest (fold (emit old new) ps a)"
proof (induction ps arbitrary: a)
  case (Cons p ps)
  from emit_ok [of old new os ns a p "ps @ rest"] Cons.prems have "acc_ok old new os ns (emit old new p a)" "ahead old new (ps @ rest) (emit old new p a)"
    by simp_all
  from Cons.IH [OF this] show ?case by simp
qed simp

lemma keeps_replicate: "keeps s = replicate (length (keeps s)) Keep"
  by (induction s) auto

text \<open>What a finished hunk leaves: the context skipped behind it is the same on both sides and long enough for the next hunk.\<close>

definition closed_hunk :: "line list \<Rightarrow> line list \<Rightarrow> nat \<Rightarrow> nat \<Rightarrow> edit_op list \<Rightarrow> hunk_acc \<Rightarrow> bool" where
  "closed_hunk old new os ns rest a \<longleftrightarrow>
     (\<exists>skip. ha_oline a = os + ha_ocount a + skip \<and> ha_nline a = ns + ha_ncount a + skip \<and> (rest \<noteq> [] \<longrightarrow> CONTEXT \<le> skip)
        \<and> slice old (os + ha_ocount a) (ha_oline a) = slice new (ns + ha_ncount a) (ha_nline a))
     \<and> ha_oline a \<le> length old \<and> ha_nline a \<le> length new
     \<and> old_side (ha_body a) = slice old os (os + ha_ocount a) \<and> new_side (ha_body a) = slice new ns (ns + ha_ncount a)
     \<and> ahead old new rest a"

lemma closed_skip:
  assumes "acc_ok old new os ns b" "ha_oline b + skip \<le> length old" "ha_nline b + skip \<le> length new"
    and "slice old (ha_oline b) (ha_oline b + skip) = slice new (ha_nline b) (ha_nline b + skip)" "rest \<noteq> [] \<longrightarrow> CONTEXT \<le> skip"
    and "ahead old new rest (b\<lparr>ha_oline := ha_oline b + skip, ha_nline := ha_nline b + skip\<rparr>)"
  shows "closed_hunk old new os ns rest (b\<lparr>ha_oline := ha_oline b + skip, ha_nline := ha_nline b + skip\<rparr>)"
  using assms by (simp add: closed_hunk_def acc_ok_def)

lemma hunk_loop_closed:
  "acc_ok old new os ns a \<Longrightarrow> ahead old new script a \<Longrightarrow> hunk_loop old new script a = (rest, a') \<Longrightarrow> closed_hunk old new os ns rest a'"
proof (induction old new script a rule: hunk_loop.induct)
  case (1 old new script a)
  let ?s = "dropWhile (\<lambda>p. p \<noteq> Keep) script" and ?a = "fold (emit old new) (changes script) a"
  let ?run = "length (keeps ?s)"
  have a1: "acc_ok old new os ns ?a" "ahead old new ?s ?a"
    using emits_ok [OF "1.prems"(1), of "changes script" ?s] "1.prems"(2) by simp_all
  have split: "?s = replicate ?run Keep @ drop ?run ?s"
    using takeWhile_dropWhile_id [of "\<lambda>p. p = Keep" ?s] keeps_replicate [of ?s] by (metis append_eq_conv_conj)
  show ?case
  proof (cases "?run < length ?s \<and> ?run \<le> 2 * CONTEXT")
    case True
    have "acc_ok old new os ns (fold (emit old new) (replicate ?run Keep) ?a)" "ahead old new (drop ?run ?s) (fold (emit old new) (replicate ?run Keep) ?a)"
      using emits_ok [OF a1(1), of "replicate ?run Keep" "drop ?run ?s"] a1(2) split by simp_all
    moreover have "hunk_loop old new (drop ?run ?s) (fold (emit old new) (replicate ?run Keep) ?a) = (rest, a')"
      using "1.prems"(3) True unfolding hunk_loop.simps [of old new script] by (simp add: Let_def)
    ultimately show ?thesis by (rule "1.IH" [OF refl refl refl True])
  next
    case False
    let ?tail = "min ?run CONTEXT" let ?b = "fold (emit old new) (replicate ?tail Keep) ?a" let ?skip = "?run - ?tail"
    have res: "rest = drop ?run ?s" "a' = ?b\<lparr>ha_oline := ha_oline ?b + ?skip, ha_nline := ha_nline ?b + ?skip\<rparr>"
      using "1.prems"(3) False unfolding hunk_loop.simps [of old new script] by (auto simp: Let_def)
    have "replicate ?run Keep = replicate ?tail Keep @ replicate ?skip Keep" by (simp add: replicate_add [symmetric])
    then have s: "?s = replicate ?tail Keep @ (replicate ?skip Keep @ rest)" using split res(1) by (metis append_assoc)
    have b: "acc_ok old new os ns ?b" "ahead old new (replicate ?skip Keep @ rest) ?b"
      using emits_ok [OF a1(1), of "replicate ?tail Keep" "replicate ?skip Keep @ rest"] a1(2) s by simp_all
    then have k: "ha_oline ?b + ?skip \<le> length old" "ha_nline ?b + ?skip \<le> length new"
      "slice old (ha_oline ?b) (ha_oline ?b + ?skip) = slice new (ha_nline ?b) (ha_nline ?b + ?skip)" "ahead old new rest a'"
      using replays_keeps [OF b(2)] res(2) by (simp_all add: acc_ok_def)
    have "rest \<noteq> [] \<longrightarrow> CONTEXT \<le> ?skip"
      using False res(1) by (auto simp: CONTEXT_def)
    then show ?thesis using closed_skip [OF b(1) k(1-3)] k(4) res(2) by blast
  qed
qed

section \<open>The whole diff\<close>

lemma length_slice: "j \<le> length xs \<Longrightarrow> length (slice xs i j) = j - i"
  by (simp add: slice_def)

lemma slice_nths: "i + m \<le> length xs \<Longrightarrow> map (\<lambda>k. xs ! (i + k)) [0..<m] = slice xs i (i + m)"
  by (rule nth_equalityI) (simp_all add: slice_def)

lemma drop_slice: "drop d (slice xs i j) = slice xs (i + d) j"
  by (simp add: slice_def drop_take add.commute)

lemma take_slice: "i + d \<le> j \<Longrightarrow> take d (slice xs i j) = slice xs i (i + d)"
  by (simp add: slice_def min_def)

lemma context_sides:
  "old_side (map (\<lambda>k. CHR '' '' # f k) ks) = map f ks" "new_side (map (\<lambda>k. CHR '' '' # f k) ks) = map f ks"
  by (simp_all add: old_side_def new_side_def comp_def)

lemma same_slice_parts:
  assumes "slice old pos (pos + n) = slice new out (out + n)" "d \<le> n"
  shows "slice old pos (pos + d) = slice new out (out + d)" "slice old (pos + d) (pos + n) = slice new (out + d) (out + n)"
  using arg_cong [OF assms(1), of "take d"] arg_cong [OF assms(1), of "drop d"] assms(2) by (simp_all add: take_slice drop_slice)

lemma patch_hunk:
  assumes "closed_hunk old new os ns rest a" "os = pos + d" "ns = out + d" "slice old pos os = slice new out ns"
    and "patch old (os + ha_ocount a) (ns + ha_ncount a) hs = Some (drop (ns + ha_ncount a) new)"
  shows "patch old pos out (\<lparr>th_ostart = os, th_ocount = ha_ocount a, th_nstart = ns, th_ncount = ha_ncount a, th_body = ha_body a\<rparr> # hs)
    = Some (drop out new)"
proof -
  have c: "os + ha_ocount a \<le> length old" "ns + ha_ncount a \<le> length new" "old_side (ha_body a) = slice old os (os + ha_ocount a)"
    "new_side (ha_body a) = slice new ns (ns + ha_ncount a)"
    using assms(1) unfolding closed_hunk_def by auto
  have "slice new out ns @ slice new ns (ns + ha_ncount a) @ drop (ns + ha_ncount a) new = drop out new"
    using block_append [of out ns "ns + ha_ncount a" new] block_append [of out "ns + ha_ncount a" "length new" new] assms(3) c(2)
    by (simp flip: append_assoc)
  with c assms(2-5) show ?thesis by (simp add: length_slice)
qed

lemma hunks_loop_patch:
  "replays script (drop oline old) (drop nline new) \<Longrightarrow> oline \<le> length old \<Longrightarrow> nline \<le> length new \<Longrightarrow> oline = pos + g \<Longrightarrow> nline = out + g
    \<Longrightarrow> slice old pos oline = slice new out nline \<Longrightarrow> script = [] \<or> CONTEXT \<le> g \<or> (pos = 0 \<and> out = 0)
    \<Longrightarrow> patch old pos out (hunks_loop old new script oline nline) = Some (drop out new)"
proof (induction old new script oline nline arbitrary: pos out g rule: hunks_loop.induct)
  case (1 old new script oline nline)
  let ?k = "length (keeps script)" let ?s = "drop ?k script" let ?o = "oline + ?k" let ?n = "nline + ?k"
  have "script = replicate ?k Keep @ ?s"
    using takeWhile_dropWhile_id [of "\<lambda>p. p = Keep" script] keeps_replicate [of script] by (metis append_eq_conv_conj)
  then have "replays (replicate ?k Keep @ ?s) (drop oline old) (drop nline new)" using "1.prems"(1) by metis
  from replays_keeps [OF this "1.prems"(2,3)] have k: "?o \<le> length old" "?n \<le> length new" "slice old oline ?o = slice new nline ?n"
    "replays ?s (drop ?o old) (drop ?n new)" by simp_all
  have gap: "?o = pos + (g + ?k)" "?n = out + (g + ?k)" using "1.prems"(4,5) by simp_all
  have same: "slice old pos (pos + (g + ?k)) = slice new out (out + (g + ?k))"
    using block_append [of pos oline ?o old] block_append [of out nline ?n new] k(3) "1.prems"(4-6) by (simp add: add.assoc)
  show ?case
  proof (cases "?s = []")
    case True
    have "drop ?o old = []" "drop ?n new = []" using k(4) unfolding True by simp_all
    then have "?o = length old" "?n = length new" using k(1,2) by simp_all
    then have "drop pos old = drop out new" using same unfolding gap [symmetric] by simp
    with True show ?thesis by (subst hunks_loop.simps) (simp add: Let_def)
  next
    case False
    let ?lead = "min CONTEXT (min ?o ?n)" let ?os = "?o - ?lead" let ?ns = "?n - ?lead"
    have lead: "?lead \<le> g + ?k" using "1.prems"(7) False gap by auto
    define d where "d = g + ?k - ?lead"
    have d: "?os = pos + d" "?ns = out + d" "d \<le> g + ?k" "?o = ?os + ?lead" "?n = ?ns + ?lead"
      using lead gap by (simp_all add: d_def)
    let ?a = "\<lparr>ha_oline = ?o, ha_nline = ?n, ha_body = map (\<lambda>k. CHR '' '' # old ! (?os + k)) [0..<?lead], ha_ocount = ?lead, ha_ncount = ?lead\<rparr>"
    have parts: "slice old pos ?os = slice new out ?ns" "slice old ?os ?o = slice new ?ns ?n"
      using same_slice_parts [OF same d(3)] unfolding gap [symmetric] d(1,2) by simp_all
    have "map (\<lambda>k. old ! (?os + k)) [0..<?lead] = slice old ?os ?o" using slice_nths [of ?os ?lead old] k(1) d(4) by simp
    then have "acc_ok old new ?os ?ns ?a"
      unfolding acc_ok_def using k(1,2) d(4,5) parts(2) by (simp only: hunk_acc.simps context_sides)
    note start = this
    obtain rest a where h: "hunk_loop old new ?s ?a = (rest, a)" by (cases "hunk_loop old new ?s ?a")
    from start have c: "closed_hunk old new ?os ?ns rest a" by (rule hunk_loop_closed) (use k(4) h in simp_all)
    obtain skip where skip: "ha_oline a = ?os + ha_ocount a + skip" "ha_nline a = ?ns + ha_ncount a + skip" "rest \<noteq> [] \<longrightarrow> CONTEXT \<le> skip"
      "slice old (?os + ha_ocount a) (ha_oline a) = slice new (?ns + ha_ncount a) (ha_nline a)"
      using c unfolding closed_hunk_def by blast
    have "replays rest (drop (ha_oline a) old) (drop (ha_nline a) new)" "ha_oline a \<le> length old" "ha_nline a \<le> length new"
      using c unfolding closed_hunk_def by blast+
    then have "patch old (?os + ha_ocount a) (?ns + ha_ncount a) (hunks_loop old new rest (ha_oline a) (ha_nline a)) = Some (drop (?ns + ha_ncount a) new)"
      using "1.IH" [OF refl refl refl refl False refl refl refl h [symmetric]] skip by blast
    from patch_hunk [OF c d(1,2) parts(1) this] show ?thesis
      using False h by (subst hunks_loop.simps) (simp add: Let_def)
  qed
qed

lemma diff_body_patch: "patch old 0 0 (diff_body old new) = Some new"
  using hunks_loop_patch [of "edit_script old new" 0 old 0 new 0 0 0] edit_script_replays by (simp add: diff_body_def)

section \<open>How much is kept\<close>

abbreviation kept :: "edit_op list \<Rightarrow> nat" where
  "kept script \<equiv> length (filter (\<lambda>p. p = Keep) script)"

lemma script_walk_kept:
  "i \<le> length old \<Longrightarrow> j \<le> length new \<Longrightarrow>
     kept (script_walk old new (dp_table old new) i j) = lcs_len (drop i old) (drop j new)"
proof (induction old new "dp_table old new" i j rule: script_walk.induct)
  case (1 old new i j)
  show ?case
  proof (cases "i < length old \<and> j < length new")
    case True
    then have d: "drop i old = old ! i # drop (Suc i) old" "drop j new = new ! j # drop (Suc j) new" by (simp_all add: Cons_nth_drop_Suc)
    have t: "dp_table old new ! (i + 1) ! j = lcs_len (drop (Suc i) old) (drop j new)"
      "dp_table old new ! i ! (j + 1) = lcs_len (drop i old) (drop (Suc j) new)"
      using True dp_table_nth [of "i + 1" old j new] dp_table_nth [of i old "j + 1" new] by auto
    show ?thesis
      using 1 True t by (subst script_walk.simps) (simp add: d max_def)
  next
    case False
    have "drop i old = [] \<or> drop j new = []" using False "1.prems" by auto
    then have "lcs_len (drop i old) (drop j new) = 0" by auto
    with False show ?thesis by (subst script_walk.simps) auto
  qed
qed

text \<open>The lines that a hunk takes out and puts in.\<close>

abbreviation marked :: "char \<Rightarrow> string list \<Rightarrow> nat" where
  "marked c body \<equiv> length (filter (\<lambda>l. hd l = c) body)"

definition changed :: "char \<Rightarrow> text_hunk list \<Rightarrow> nat" where
  "changed c hs = sum_list (map (\<lambda>h. marked c (th_body h)) hs)"

abbreviation ops :: "edit_op \<Rightarrow> edit_op list \<Rightarrow> nat" where
  "ops p script \<equiv> length (filter (\<lambda>q. q = p) script)"

definition mark_of :: "edit_op \<Rightarrow> char" where
  "mark_of p = (case p of Keep \<Rightarrow> CHR '' '' | Del \<Rightarrow> CHR ''-'' | Add \<Rightarrow> CHR ''+'')"

lemma emit_marked: "marked (mark_of p) (ha_body (emit old new q a)) = marked (mark_of p) (ha_body a) + (if q = p then 1 else 0)"
  by (cases p; cases q) (simp_all add: emit_def mark_of_def)

lemma emits_marked: "marked (mark_of p) (ha_body (fold (emit old new) ps a)) = marked (mark_of p) (ha_body a) + ops p ps"
  by (induction ps arbitrary: a) (simp_all add: emit_marked)

lemma ops_takeWhile: "ops p (takeWhile P script) + ops p (dropWhile P script) = ops p script"
  by (metis filter_append length_append takeWhile_dropWhile_id)

lemma ops_keeps: "p \<noteq> Keep \<Longrightarrow> ops p (keeps script) = 0"
  by (metis (mono_tags, lifting) filter_False length_0_conv set_takeWhileD)

lemma ops_drop_keeps: "p \<noteq> Keep \<Longrightarrow> ops p (drop (length (keeps script)) script) = ops p script"
  using ops_takeWhile [of p "\<lambda>q. q = Keep" script] ops_keeps [of p script] by (simp add: dropWhile_eq_drop)

lemma hunk_loop_marked:
  "p \<noteq> Keep \<Longrightarrow> hunk_loop old new script a = (rest, a') \<Longrightarrow>
     marked (mark_of p) (ha_body a') + ops p rest = marked (mark_of p) (ha_body a) + ops p script"
proof (induction old new script a rule: hunk_loop.induct)
  case (1 old new script a)
  let ?s = "dropWhile (\<lambda>p. p \<noteq> Keep) script" and ?a = "fold (emit old new) (changes script) a"
  let ?run = "length (keeps ?s)"
  have a1: "marked (mark_of p) (ha_body ?a) + ops p ?s = marked (mark_of p) (ha_body a) + ops p script"
    using emits_marked [of p old new "changes script" a] ops_takeWhile [of p "\<lambda>q. q \<noteq> Keep" script] by simp
  have more: "marked (mark_of p) (ha_body (fold (emit old new) (replicate k Keep) ?a)) = marked (mark_of p) (ha_body ?a)" for k
    using emits_marked [of p old new "replicate k Keep" ?a] "1.prems"(1) by simp
  show ?case
  proof (cases "?run < length ?s \<and> ?run \<le> 2 * CONTEXT")
    case True
    have "hunk_loop old new (drop ?run ?s) (fold (emit old new) (replicate ?run Keep) ?a) = (rest, a')"
      using "1.prems"(2) True unfolding hunk_loop.simps [of old new script] by (simp add: Let_def)
    from "1.IH" [OF refl refl refl True "1.prems"(1) this] a1 more [of ?run] ops_drop_keeps [OF "1.prems"(1), of ?s] show ?thesis by simp
  next
    case False
    have "rest = drop ?run ?s" "ha_body a' = ha_body (fold (emit old new) (replicate (min ?run CONTEXT) Keep) ?a)"
      using "1.prems"(2) False unfolding hunk_loop.simps [of old new script] by (auto simp: Let_def)
    with a1 more [of "min ?run CONTEXT"] ops_drop_keeps [OF "1.prems"(1), of ?s] show ?thesis by simp
  qed
qed

lemma marked_context: "p \<noteq> Keep \<Longrightarrow> marked (mark_of p) (map (\<lambda>k. CHR '' '' # f k) ks) = 0"
  by (cases p) (simp_all add: mark_of_def)

lemma hunks_loop_changed: "p \<noteq> Keep \<Longrightarrow> changed (mark_of p) (hunks_loop old new script oline nline) = ops p script"
proof (induction old new script oline nline rule: hunks_loop.induct)
  case (1 old new script oline nline)
  let ?k = "length (keeps script)" let ?s = "drop ?k script" let ?o = "oline + ?k" let ?n = "nline + ?k"
  have s: "ops p ?s = ops p script" by (rule ops_drop_keeps [OF "1.prems"])
  show ?case
  proof (cases "?s = []")
    case True
    then have "ops p script = 0" using s by simp
    with True show ?thesis by (subst hunks_loop.simps) (simp add: Let_def changed_def)
  next
    case False
    let ?lead = "min CONTEXT (min ?o ?n)"
    let ?a = "\<lparr>ha_oline = ?o, ha_nline = ?n, ha_body = map (\<lambda>k. CHR '' '' # old ! (?o - ?lead + k)) [0..<?lead], ha_ocount = ?lead, ha_ncount = ?lead\<rparr>"
    obtain rest a where h: "hunk_loop old new ?s ?a = (rest, a)" by fastforce
    have "marked (mark_of p) (ha_body a) + ops p rest = ops p script"
      using hunk_loop_marked [OF "1.prems" h] marked_context [OF "1.prems"] s by simp
    moreover have "changed (mark_of p) (hunks_loop old new rest (ha_oline a) (ha_nline a)) = ops p rest"
      using "1.IH" [OF refl refl refl refl False refl refl refl h [symmetric]] "1.prems" by blast
    ultimately show ?thesis
      using False h by (subst hunks_loop.simps) (simp add: Let_def changed_def)
  qed
qed

lemma replays_counts: "replays script old new \<Longrightarrow> kept script + ops Del script = length old \<and> kept script + ops Add script = length new"
proof (induction script arbitrary: old new)
  case (Cons p script)
  then show ?case by (cases p) fastforce+
qed simp

lemma diff_body_changed:
  "changed CHR ''-'' (diff_body old new) = length old - kept (edit_script old new)
   \<and> changed CHR ''+'' (diff_body old new) = length new - kept (edit_script old new)"
  using hunks_loop_changed [of Del old new "edit_script old new" 0 0] hunks_loop_changed [of Add old new "edit_script old new" 0 0]
    replays_counts [OF edit_script_replays, of old new]
  by (auto simp: diff_body_def mark_of_def)

lemma edit_script_kept: "length old * length new \<le> LCS_BUDGET \<Longrightarrow> kept (edit_script old new) = lcs_len old new"
  using script_walk_kept [of 0 old 0 new] by (simp add: edit_script_def)

section \<open>Property\<close>

text \<open>
  C14: The diff of two files is empty exactly when they are equal, and its hunks, read strictly (every header has the
  place and the counts of its hunk on both sides, the hunks are in order, and the old side of each is what the old
  file has there), turn the old lines into the new ones. Where the lines do not exceed the budget it is a smallest
  one: no common subsequence of the two files is longer than what it leaves untouched.
\<close>

theorem unified_applies:
  assumes "subseq common (str_lines old)" "subseq common (str_lines new)"
  shows "(unified path old new = [] \<longleftrightarrow> old = new)
    \<and> patch (str_lines old) 0 0 (diff_body (str_lines old) (str_lines new)) = Some (str_lines new)
    \<and> (length (str_lines old) * length (str_lines new) \<le> LCS_BUDGET \<longrightarrow>
         changed CHR ''-'' (diff_body (str_lines old) (str_lines new)) \<le> length (str_lines old) - length common
         \<and> changed CHR ''+'' (diff_body (str_lines old) (str_lines new)) \<le> length (str_lines new) - length common)"
proof -
  have "length common \<le> lcs_len (str_lines old) (str_lines new)" using assms by (rule subseq_lcs_len)
  moreover have "unified path old new = [] \<longleftrightarrow> old = new" by (simp add: unified_def unlines_def)
  ultimately show ?thesis
    using diff_body_patch diff_body_changed [of "str_lines old" "str_lines new"] edit_script_kept [of "str_lines old" "str_lines new"]
    by (auto intro: diff_le_mono2)
qed

theorem unified_applies_witness:
  "changed CHR ''-'' (diff_body [''a'', ''b''] [''a'', ''c'']) \<le> 1"
proof -
  have l: "str_lines (unlines [''a'', ''b'']) = [''a'', ''b'']" "str_lines (unlines [''a'', ''c'']) = [''a'', ''c'']" by code_simp+
  show ?thesis
    using unified_applies [of "[''a'']" "unlines [''a'', ''b'']" "unlines [''a'', ''c'']" "''f''", unfolded l] by (simp add: LCS_BUDGET_def)
qed

end
