(* ===== verification/Spec2Isabelle.thy ===== *)
theory Spec2Isabelle
  imports Store_Theorems Core_Theorems Vfs_Theorems Diff3_Theorems Envelope_Theorems Merge_Theorems Log_Theorems
    Progress_Theorems Signature_Theorems Gc_Theorems Lock_Theorems Textdiff_Theorems
begin

text \<open>
  Verification development of \<^verbatim>\<open>sc\<close>, a version control system over a content-addressed object store
  (the Rust crates under \<^verbatim>\<open>src/crates\<close>).

  \<^bold>\<open>The program and the model.\<close> Objects (blobs, trees, snapshots, secrets, signatures, transcripts, sealed
  objects, branch manifests) are encoded canonically and named by the BLAKE3 hash of the encoding. A store keeps them
  in memory under a byte budget, in loose files and in packs; a virtual worktree and the merge driver read and
  write trees through it; refs, the operation log, the state of stopped operations, the signature and transcript
  indexes and the partial-clone marker are small files beside it under \<^verbatim>\<open>.sc\<close>; garbage collection ties
  all of these together. Every operation is a HOL function with the state passed explicitly: the store is the
  record \<open>store\<close> with its \<open>disk\<close>, the files of \<^verbatim>\<open>.sc\<close> are the record \<open>sc_dir\<close>, errors are the
  \<open>Inl\<close> of a sum (\<open>core_error\<close>, \<open>crypto_error\<close>, \<open>repo_error\<close>), a panic is a constructor of the error type, a
  machine integer is a word or a number with its bound written out. Processes that share the repository lock are an
  inductive step relation.

  \<^bold>\<open>Theories, with the sources they model.\<close>
  \<^item> \<open>Prelude\<close>, \<open>Text\<close>: lists, association lists, the error and state combinators, UTF-8, and the string
    functions of the standard library (lines, trimming, splitting, decimal numbers).
  \<^item> \<open>Object_Id\<close>, \<open>Object_Model\<close>, \<open>Object_Reader\<close>, \<open>Object_Codec\<close>, \<open>Object_Encoding\<close>:
    \<^verbatim>\<open>core/src/id.rs\<close>, \<^verbatim>\<open>error.rs\<close>, \<^verbatim>\<open>object.rs\<close>. The writer and reader, \<open>encode\<close>
    and \<open>decode\<close> of every kind, and \<open>canon\<close>, the object that decoding its encoding gives. \<open>Instances\<close> holds
    concrete third-party functions for the witnesses.
  \<^item> \<open>Io_Read\<close>, \<open>Pack\<close>, \<open>Pack_Correct\<close>, \<open>Core_Theorems\<close>: \<^verbatim>\<open>core/src/lib.rs\<close> (bounded reads) and
    \<^verbatim>\<open>pack.rs\<close> (building, parsing, streaming, random access).
  \<^item> \<open>Store\<close>, \<open>Store_Correct\<close>, \<open>Store_Theorems\<close>: \<^verbatim>\<open>core/src/store.rs\<close>. \<open>store_ok\<close> is the
    invariant (accounting, and every copy of an object is sourced from bytes that hash to its id); \<open>view\<close> is the
    abstract map from ids to objects that \<open>put\<close> and \<open>get\<close> refine, also through eviction and failures.
  \<^item> \<open>Vfs\<close>, \<open>Vfs_Correct\<close>, \<open>Vfs_Theorems\<close>: \<^verbatim>\<open>vfs/src/lib.rs\<close>, the copy-on-write worktree.
  \<^item> \<open>Diff3\<close>, \<open>Diff3_Hunks\<close>, \<open>Diff3_Clusters\<close>, \<open>Diff3_Merge\<close>, \<open>Diff3_Theorems\<close>:
    \<^verbatim>\<open>repo/src/diff3.rs\<close>, against a declarative three-way merge.
  \<^item> \<open>Textdiff\<close>, \<open>Textdiff_Theorems\<close>: \<^verbatim>\<open>repo/src/textdiff.rs\<close>, against a strict reader of
    patches and the longest common subsequence.
  \<^item> \<open>Envelope\<close>, \<open>Envelope_Theorems\<close>: \<^verbatim>\<open>crypto/src/envelope.rs\<close>.
  \<^item> \<open>Repo_Error\<close>, \<open>Graph_Walk\<close>, \<open>Merge\<close>, \<open>Worklist\<close>, \<open>Merge_Correct\<close>, \<open>Merge_Theorems\<close>:
    \<^verbatim>\<open>repo/src/merge.rs\<close>, with the parts of \<^verbatim>\<open>protect.rs\<close> and \<^verbatim>\<open>worktree.rs\<close> it calls.
    \<open>Graph_Walk\<close> is the locale of a breadth-first search and \<open>Worklist\<close> that of a work list, interpreted for
    the walks over a store.
  \<^item> \<open>Refs\<close>, \<open>Refs_Correct\<close>, \<open>Oplog\<close>, \<open>Oplog_Correct\<close>, \<open>Log_Theorems\<close>: \<^verbatim>\<open>refs.rs\<close>,
    \<^verbatim>\<open>layout.rs\<close>, \<^verbatim>\<open>oplog.rs\<close>.
  \<^item> \<open>Progress\<close>, \<open>Progress_Theorems\<close>: \<^verbatim>\<open>merge_state.rs\<close>, \<^verbatim>\<open>pick_state.rs\<close>,
    \<^verbatim>\<open>rebase_state.rs\<close>, \<^verbatim>\<open>conflict_plaintext.rs\<close>, and the choice of the operation in progress from
    \<^verbatim>\<open>conflicts.rs\<close>. A write is the list of its file steps, so that a crash is a prefix of the list.
  \<^item> \<open>Index_Files\<close>: the files of \<^verbatim>\<open>signatures.rs\<close>, \<^verbatim>\<open>transcripts.rs\<close> and
    \<^verbatim>\<open>promisor.rs\<close>. \<open>Signatures\<close>, \<open>Signatures_Correct\<close>, \<open>Signature_Theorems\<close>:
    \<^verbatim>\<open>crypto/src/signing.rs\<close> and the rest of \<^verbatim>\<open>signatures.rs\<close>.
  \<^item> \<open>Reachable\<close>, \<open>Reachable_Correct\<close>: \<^verbatim>\<open>reachable.rs\<close>, strict, filtered, size-limited and
    presence-based walks; \<open>live\<close> is the declarative closure.
  \<^item> \<open>Gc\<close>, \<open>Gc_Correct\<close>, \<open>Gc_Reach\<close>, \<open>Gc_Theorems\<close>: \<^verbatim>\<open>gc.rs\<close> with the prunes of the indexes; this is where
    store, refs, log, progress files, indexes and reachability meet.
  \<^item> \<open>Lock\<close>, \<open>Lock_Theorems\<close>: \<^verbatim>\<open>lock.rs\<close>.

  \<^bold>\<open>What the lemmas show.\<close> Codec: every well-formed object survives a round trip, everything that decodes is well
  formed, and packs and their indexes serve what was packed. Store: a stored object stays readable, and the budget
  holds. Worktree: commit and checkout read what was written. Merge: the text merge meets its specification, a
  clean merge takes each path from the side that changed it, protected content never ends in plaintext, the merge
  base is a nearest common ancestor. Envelope: sealing, granting and revoking open exactly to the recipients.
  Files beside the store: what is written is read back, a crash in between is harmless or is shown not to be. Signatures:
  the index names only verified signatures. Garbage collection: nothing live is lost and what is left over is young.
  Locks: exclusion, its one exception, and progress. The theorems named \<open>_witness\<close> apply each of these at a
  concrete input.

  \<^bold>\<open>Third-party code.\<close> BLAKE3, hex and zstd are the fields of \<open>ext\<close>, the cipher and key agreement those of
  \<open>prims\<close>, Ed25519 and HKDF those of \<open>signing_prims\<close>. Hypotheses on them state their documented behaviour
  (\<open>hex_ok\<close>, \<open>zstd_ok\<close>, \<open>blake3_ok\<close>, \<open>key_pair\<close>); \<open>collision_free\<close> restricts the absence of collisions to
  the bytes that the run at hand stores. Clocks, time stamps, workspace sessions and the results of polling are
  arguments.

  \<^bold>\<open>Bounds and fuel.\<close> The walks over a graph of objects take fuel, one unit for each object taken off the queue; a
  walk takes an object off once, so that as much fuel as the store has objects is enough, and the theorems about them
  assume no more than that. A walk under a path filter visits pairs of object and path; nothing is claimed of its
  termination. Everything else terminates by structural recursion or a measure.

  \<^bold>\<open>Not modelled.\<close> Network and bucket transports, TLS, the HTTP servers and the command line (input and output); the
  facade of \<^verbatim>\<open>repo.rs\<close> and \<^verbatim>\<open>replay.rs\<close>, which drives working files; worktrees on disk,
  sparse and workspace checkouts; private branches; the forge. An atomic file write is one step, so that a crash
  inside it, which leaves a temporary file, is outside the model; the directory listing order is the order of the
  association list; file permissions and symbolic links are left out.
\<close>

end
